(* ===== verification/Prelude.thy ===== *)
theory Prelude
  imports Main "HOL-Library.Word"
begin

text \<open>
  The shared layer of the development: the result type of kernel code (a value, a panic,
  going to sleep on a channel, or behaviour the C language does not define), the machine
  types, little-endian fields of byte arrays, and the list lemmas the components use.
\<close>

unbundle bit_operations_syntax

section \<open>Machine types\<close>

type_synonym byte = "8 word"
type_synonym ushort = "16 word"
type_synonym uint = "32 word"

section \<open>Constants of param.h and fs.h\<close>

abbreviation "NPROC \<equiv> (64 :: nat)"
abbreviation "NOFILE \<equiv> (16 :: nat)"
abbreviation "NFILE \<equiv> (100 :: nat)"
abbreviation "NINODE \<equiv> (50 :: nat)"
abbreviation "NDEV \<equiv> (10 :: nat)"
abbreviation "MAXOPBLOCKS \<equiv> (10 :: nat)"
abbreviation "LOGSIZE \<equiv> (30 :: nat)"
abbreviation "NBUF \<equiv> (30 :: nat)"
abbreviation "FSSIZE \<equiv> (1000 :: nat)"
abbreviation "BSIZE \<equiv> (512 :: nat)"
abbreviation "NDIRECT \<equiv> (12 :: nat)"
abbreviation "NINDIRECT \<equiv> (128 :: nat)"
abbreviation "MAXFILE \<equiv> (140 :: nat)"
abbreviation "DIRSIZ \<equiv> (14 :: nat)"
abbreviation "PGSIZE \<equiv> (4096 :: nat)"

section \<open>Results of kernel code\<close>

text \<open>
  Sleep channels are the addresses the code sleeps on: the log, a buffer, an inode's lock,
  the tick counter, the two ends of a pipe, a process, the console input.
\<close>

datatype chan =
    ChLog
  | ChBuf nat
  | ChInode nat
  | ChTicks
  | ChPipeRead nat
  | ChPipeWrite nat
  | ChProc nat
  | ChInput

datatype 'a res =
    Ret 'a            \<comment> \<open>the call returns\<close>
  | Panic string      \<comment> \<open>the call ends in \<open>panic(msg)\<close>\<close>
  | Sleep chan        \<comment> \<open>the calling process goes to sleep on a channel\<close>
  | Undef string      \<comment> \<open>the call does something C leaves undefined, e.g. an index out of range\<close>

primrec bindR :: "'a res \<Rightarrow> ('a \<Rightarrow> 'b res) \<Rightarrow> 'b res" where
  "bindR (Ret x) f = f x"
| "bindR (Panic m) f = Panic m"
| "bindR (Sleep c) f = Sleep c"
| "bindR (Undef m) f = Undef m"

named_theorems res_simps

lemma bindR_eq_Ret [simp]: "bindR m f = Ret y \<longleftrightarrow> (\<exists>x. m = Ret x \<and> f x = Ret y)"
  by (cases m) auto

lemma bindR_assoc: "bindR (bindR m f) g = bindR m (\<lambda>x. bindR (f x) g)"
  by (cases m) auto

lemma bindR_RetE:
  assumes "bindR m f = Ret y"
  obtains x where "m = Ret x" "f x = Ret y"
  using assms by auto

lemma bindR_cong [fundef_cong]:
  "m = n \<Longrightarrow> (\<And>x. n = Ret x \<Longrightarrow> f x = g x) \<Longrightarrow> bindR m f = bindR n g"
  by (cases n) auto

section \<open>Lists as byte arrays\<close>

definition get_bytes :: "nat \<Rightarrow> nat \<Rightarrow> 'a list \<Rightarrow> 'a list" where
  "get_bytes off n b = take n (drop off b)"

definition put_bytes :: "nat \<Rightarrow> 'a list \<Rightarrow> 'a list \<Rightarrow> 'a list" where
  "put_bytes off bs b = take off b @ bs @ drop (off + length bs) b"

lemma length_get_bytes [simp]: "off + n \<le> length b \<Longrightarrow> length (get_bytes off n b) = n"
  by (simp add: get_bytes_def)

lemma length_put_bytes [simp]: "off + length bs \<le> length b \<Longrightarrow> length (put_bytes off bs b) = length b"
  by (simp add: put_bytes_def)

lemma get_bytes_0 [simp]: "get_bytes off 0 b = []"
  by (simp add: get_bytes_def)

lemma put_bytes_Nil [simp]: "put_bytes off [] b = b"
  by (simp add: put_bytes_def)

lemma nth_get_bytes:
  "off + n \<le> length b \<Longrightarrow> i < n \<Longrightarrow> get_bytes off n b ! i = b ! (off + i)"
  by (simp add: get_bytes_def)

lemma nth_put_bytes:
  assumes "off + length bs \<le> length b" and "i < length b"
  shows "put_bytes off bs b ! i =
    (if off \<le> i \<and> i < off + length bs then bs ! (i - off) else b ! i)"
  using assms by (auto simp: put_bytes_def nth_append)

lemma get_put_same [simp]:
  "off + length bs \<le> length b \<Longrightarrow> n = length bs \<Longrightarrow> get_bytes off n (put_bytes off bs b) = bs"
  by (simp add: get_bytes_def put_bytes_def)

lemma get_put_disjoint:
  assumes "off + length bs \<le> length b" and "off' + n \<le> length b"
    and "off' + n \<le> off \<or> off + length bs \<le> off'"
  shows "get_bytes off' n (put_bytes off bs b) = get_bytes off' n b"
proof (rule nth_equalityI)
  show "length (get_bytes off' n (put_bytes off bs b)) = length (get_bytes off' n b)"
    using assms by simp
next
  fix i
  assume "i < length (get_bytes off' n (put_bytes off bs b))"
  then have "i < n" using assms by simp
  then show "get_bytes off' n (put_bytes off bs b) ! i = get_bytes off' n b ! i"
    using assms by (auto simp: nth_get_bytes nth_put_bytes)
qed

lemma put_get_same [simp]:
  "off + n \<le> length b \<Longrightarrow> put_bytes off (get_bytes off n b) b = b"
  by (rule nth_equalityI) (auto simp: nth_put_bytes nth_get_bytes)

section \<open>Little-endian fields\<close>

text \<open>The i386 stores the low byte of a \<open>short\<close> or an \<open>int\<close> at the low address.\<close>

definition le16 :: "ushort \<Rightarrow> byte list" where
  "le16 w = [ucast w, ucast (drop_bit 8 w)]"

definition le32 :: "uint \<Rightarrow> byte list" where
  "le32 w = [ucast w, ucast (drop_bit 8 w), ucast (drop_bit 16 w), ucast (drop_bit 24 w)]"

fun of_le16 :: "byte list \<Rightarrow> ushort" where
  "of_le16 [a, b] = ucast a OR push_bit 8 (ucast b)"
| "of_le16 _ = 0"

fun of_le32 :: "byte list \<Rightarrow> uint" where
  "of_le32 [a, b, c, d] =
     ucast a OR push_bit 8 (ucast b) OR push_bit 16 (ucast c) OR push_bit 24 (ucast d)"
| "of_le32 _ = 0"

lemma length_le16 [simp]: "length (le16 w) = 2"
  by (simp add: le16_def)

lemma length_le32 [simp]: "length (le32 w) = 4"
  by (simp add: le32_def)

lemma of_le16_le16 [simp]: "of_le16 (le16 w) = w"
  by (rule bit_word_eqI) (auto simp: le16_def bit_simps)

lemma of_le32_le32 [simp]: "of_le32 (le32 w) = w"
proof (rule bit_word_eqI)
  fix n
  assume "n < LENGTH(32)"
  then consider "n < 8" | "8 \<le> n" "n < 16" | "16 \<le> n" "n < 24" | "24 \<le> n" "n < 32"
    by force
  then show "bit (of_le32 (le32 w)) n = bit w n"
    by cases (auto simp: le32_def bit_simps)
qed

lemma le32_of_le32 [simp]: "length bs = 4 \<Longrightarrow> le32 (of_le32 bs) = bs"
proof -
  assume "length bs = 4"
  then obtain a b c d where "bs = [a, b, c, d]"
    by (auto simp: numeral_eq_Suc length_Suc_conv)
  moreover have "ucast (of_le32 [a, b, c, d]) = a"
    "ucast (drop_bit 8 (of_le32 [a, b, c, d])) = b"
    "ucast (drop_bit 16 (of_le32 [a, b, c, d])) = c"
    "ucast (drop_bit 24 (of_le32 [a, b, c, d])) = d"
    by (rule bit_word_eqI, auto simp: bit_simps dest: bit_imp_le_length)+
  ultimately show ?thesis by (simp add: le32_def)
qed

lemma le16_of_le16 [simp]: "length bs = 2 \<Longrightarrow> le16 (of_le16 bs) = bs"
proof -
  assume "length bs = 2"
  then obtain a b where "bs = [a, b]"
    by (auto simp: numeral_eq_Suc length_Suc_conv)
  moreover have "ucast (of_le16 [a, b]) = a" "ucast (drop_bit 8 (of_le16 [a, b])) = b"
    by (rule bit_word_eqI, auto simp: bit_simps dest: bit_imp_le_length)+
  ultimately show ?thesis by (simp add: le16_def)
qed

definition rd16 :: "byte list \<Rightarrow> nat \<Rightarrow> ushort" where
  "rd16 b off = of_le16 (get_bytes off 2 b)"

definition rd32 :: "byte list \<Rightarrow> nat \<Rightarrow> uint" where
  "rd32 b off = of_le32 (get_bytes off 4 b)"

definition wr16 :: "byte list \<Rightarrow> nat \<Rightarrow> ushort \<Rightarrow> byte list" where
  "wr16 b off w = put_bytes off (le16 w) b"

definition wr32 :: "byte list \<Rightarrow> nat \<Rightarrow> uint \<Rightarrow> byte list" where
  "wr32 b off w = put_bytes off (le32 w) b"

lemma length_wr16 [simp]: "off + 2 \<le> length b \<Longrightarrow> length (wr16 b off w) = length b"
  by (simp add: wr16_def)

lemma length_wr32 [simp]: "off + 4 \<le> length b \<Longrightarrow> length (wr32 b off w) = length b"
  by (simp add: wr32_def)

lemma rd16_wr16_same [simp]: "off + 2 \<le> length b \<Longrightarrow> rd16 (wr16 b off w) off = w"
  by (simp add: rd16_def wr16_def)

lemma rd32_wr32_same [simp]: "off + 4 \<le> length b \<Longrightarrow> rd32 (wr32 b off w) off = w"
  by (simp add: rd32_def wr32_def)

lemma rd32_wr32_other:
  "off + 4 \<le> length b \<Longrightarrow> off' + 4 \<le> length b \<Longrightarrow> off' + 4 \<le> off \<or> off + 4 \<le> off' \<Longrightarrow>
    rd32 (wr32 b off w) off' = rd32 b off'"
  by (simp add: rd32_def wr32_def get_put_disjoint)

lemma rd16_put_other:
  "off + length bs \<le> length b \<Longrightarrow> off' + 2 \<le> length b \<Longrightarrow>
    off' + 2 \<le> off \<or> off + length bs \<le> off' \<Longrightarrow> rd16 (put_bytes off bs b) off' = rd16 b off'"
  by (simp add: rd16_def get_put_disjoint)

lemma rd32_put_other:
  "off + length bs \<le> length b \<Longrightarrow> off' + 4 \<le> length b \<Longrightarrow>
    off' + 4 \<le> off \<or> off + length bs \<le> off' \<Longrightarrow> rd32 (put_bytes off bs b) off' = rd32 b off'"
  by (simp add: rd32_def get_put_disjoint)

section \<open>Lists searched by index\<close>

text \<open>
  Many tables of the kernel are searched by a \<open>for\<close> loop over an array that stops at the
  first entry with a property; \<open>find_index\<close> is that loop, with the index it stops at.
\<close>

primrec find_index :: "('a \<Rightarrow> bool) \<Rightarrow> 'a list \<Rightarrow> nat option" where
  "find_index P [] = None"
| "find_index P (x # xs) = (if P x then Some 0 else map_option Suc (find_index P xs))"

lemma find_index_None [simp]: "find_index P xs = None \<longleftrightarrow> (\<forall>x \<in> set xs. \<not> P x)"
  by (induction xs) auto

lemma find_index_Some:
  "find_index P xs = Some i \<longleftrightarrow> i < length xs \<and> P (xs ! i) \<and> (\<forall>j < i. \<not> P (xs ! j))"
proof (induction xs arbitrary: i)
  case Nil
  then show ?case by simp
next
  case (Cons x xs)
  show ?case
  proof (cases i)
    case 0
    then show ?thesis by auto
  next
    case (Suc j)
    have "(\<forall>k < Suc j. \<not> P ((x # xs) ! k)) \<longleftrightarrow> \<not> P x \<and> (\<forall>k < j. \<not> P (xs ! k))"
      by (simp add: All_less_Suc2)
    with Suc Cons.IH [of j] show ?thesis by auto
  qed
qed

lemma find_index_SomeD:
  assumes "find_index P xs = Some i"
  shows "i < length xs" and "P (xs ! i)"
  using assms by (simp_all add: find_index_Some)

lemma find_SomeD:
  "find P xs = Some x \<Longrightarrow> x \<in> set xs \<and> P x"
  by (auto simp: find_Some_iff)

lemma in_set_list_update: "d \<in> set (xs[i := y]) \<Longrightarrow> d = y \<or> d \<in> set xs"
  using set_update_subset_insert [of xs i y] by auto

lemma sint_small:
  assumes "unat (n :: uint) < 2147483648"
  shows "sint n = int (unat n)"
proof -
  have "int (unat n) < 2147483648" using assms by linarith
  then show ?thesis using int_word_sint [of "int (unat n)", where 'a = 32] by simp
qed

lemma unat_of_nat32: "n < 4294967296 \<Longrightarrow> unat (of_nat n :: uint) = n"
  by (simp add: unat_of_nat take_bit_nat_eq_self)

lemma of_nat_eq_iff32:
  "m < 4294967296 \<Longrightarrow> n < 4294967296 \<Longrightarrow> (of_nat m :: uint) = of_nat n \<longleftrightarrow> m = n"
  by (metis unat_of_nat32)

section \<open>Counting loops\<close>

text \<open>\<open>for\<close> loops over a state: the body runs for each element in order and may fail.\<close>

fun foldR :: "('x \<Rightarrow> 's \<Rightarrow> 's res) \<Rightarrow> 'x list \<Rightarrow> 's \<Rightarrow> 's res" where
  "foldR f [] s = Ret s"
| "foldR f (x # xs) s = bindR (f x s) (foldR f xs)"

lemma foldR_append: "foldR f (xs @ ys) s = bindR (foldR f xs s) (foldR f ys)"
proof (induction xs arbitrary: s)
  case (Cons x xs)
  then have "foldR f (xs @ ys) = (\<lambda>s. bindR (foldR f xs s) (foldR f ys))" by (rule ext)
  then show ?case by (simp add: bindR_assoc)
qed simp

lemma foldR_rel:
  assumes "foldR f xs s = Ret t"
    and "\<And>x s t. x \<in> set xs \<Longrightarrow> f x s = Ret t \<Longrightarrow> R s t"
    and "\<And>s. R s s" "\<And>s t u. R s t \<Longrightarrow> R t u \<Longrightarrow> R s u"
  shows "R s t"
  using assms(1,2)
proof (induction xs arbitrary: s)
  case (Cons x xs)
  then obtain u where "f x s = Ret u" "foldR f xs u = Ret t" by auto
  then show ?case using Cons assms(4) [of s u t] by (metis list.set_intros)
qed (use assms(3) in simp)

section \<open>Transition systems and their invariants\<close>

text \<open>
  The concurrent components (spin locks, the log's admission of system calls, pipes, the
  process table) are transition systems: a predicate for the initial states and a step
  relation. The locale is the contract of an inductive invariant; each component interprets
  it on its own machine and so gets the invariant in every reachable state.
\<close>

inductive reachable :: "('s \<Rightarrow> bool) \<Rightarrow> ('s \<Rightarrow> 's \<Rightarrow> bool) \<Rightarrow> 's \<Rightarrow> bool"
  for init :: "'s \<Rightarrow> bool" and step :: "'s \<Rightarrow> 's \<Rightarrow> bool" where
  reachable_init: "init s \<Longrightarrow> reachable init step s"
| reachable_step: "reachable init step s \<Longrightarrow> step s t \<Longrightarrow> reachable init step t"

locale inductive_invariant =
  fixes init :: "'s \<Rightarrow> bool" and step :: "'s \<Rightarrow> 's \<Rightarrow> bool" and inv :: "'s \<Rightarrow> bool"
  assumes inv_init: "init s \<Longrightarrow> inv s"
    and inv_step: "inv s \<Longrightarrow> step s t \<Longrightarrow> inv t"
begin

lemma inv_reachable: "reachable init step s \<Longrightarrow> inv s"
  by (induction rule: reachable.induct) (auto intro: inv_init inv_step)

lemma inv_steps: "step\<^sup>*\<^sup>* s t \<Longrightarrow> inv s \<Longrightarrow> inv t"
  by (induction rule: rtranclp_induct) (auto intro: inv_step)

end

end
