(* ===== verification/Strings.thy ===== *)
theory Strings
  imports Prelude
begin

text \<open>
  The memory and string routines of the kernel (\<open>xv6/string.c\<close>) and of the user library
  (\<open>xv6/ulib.c\<close>), over a flat 32-bit memory in which pointers are addresses that wrap.
  The loops run byte by byte as in the source. A loop that only stops at a NUL byte is a
  partial function; the loops that count down recurse on the count.

  The lemmas give each routine its contract: \<open>memset\<close> fills the region whichever of the two
  store instructions it picks, \<open>memmove\<close> copies also between overlapping regions,
  \<open>strncpy\<close> followed by \<open>strncmp\<close> recognises the name, \<open>safestrcpy\<close> stays in its buffer
  and terminates it.
\<close>

type_synonym mem = "uint \<Rightarrow> byte"

section \<open>Memory routines\<close>

text \<open>\<open>stosb\<close> and \<open>stosl\<close> of \<open>x86.h\<close>: \<open>cld; rep stos\<close>.\<close>

fun stosb :: "mem \<Rightarrow> uint \<Rightarrow> byte \<Rightarrow> nat \<Rightarrow> mem" where
  "stosb m a b 0 = m"
| "stosb m a b (Suc n) = stosb (m(a := b)) (a + 1) b n"

definition store32 :: "mem \<Rightarrow> uint \<Rightarrow> uint \<Rightarrow> mem" where
  "store32 m a w =
     m(a := ucast w, a + 1 := ucast (drop_bit 8 w),
       a + 2 := ucast (drop_bit 16 w), a + 3 := ucast (drop_bit 24 w))"

fun stosl :: "mem \<Rightarrow> uint \<Rightarrow> uint \<Rightarrow> nat \<Rightarrow> mem" where
  "stosl m a w 0 = m"
| "stosl m a w (Suc n) = stosl (store32 m a w) (a + 4) w n"

text \<open>The byte \<open>c\<close> in each of the four bytes of a word.\<close>

definition fill32 :: "uint \<Rightarrow> uint" where
  "fill32 c = push_bit 24 c OR push_bit 16 c OR push_bit 8 c OR c"

definition memset :: "mem \<Rightarrow> uint \<Rightarrow> uint \<Rightarrow> uint \<Rightarrow> mem" where
  "memset m dst c n =
     (if dst mod 4 = 0 \<and> n mod 4 = 0
      then let c = c AND 0xFF in stosl m dst (fill32 c) (unat (n div 4))
      else stosb m dst (ucast c) (unat n))"

fun memcmp_loop :: "mem \<Rightarrow> uint \<Rightarrow> uint \<Rightarrow> nat \<Rightarrow> int" where
  "memcmp_loop m s1 s2 0 = 0"
| "memcmp_loop m s1 s2 (Suc n) =
     (if m s1 \<noteq> m s2 then uint (m s1) - uint (m s2) else memcmp_loop m (s1 + 1) (s2 + 1) n)"

definition memcmp :: "mem \<Rightarrow> uint \<Rightarrow> uint \<Rightarrow> uint \<Rightarrow> int" where
  "memcmp m v1 v2 n = memcmp_loop m v1 v2 (unat n)"

fun copy_down :: "mem \<Rightarrow> uint \<Rightarrow> uint \<Rightarrow> nat \<Rightarrow> mem" where
  "copy_down m d s 0 = m"
| "copy_down m d s (Suc n) = (let d = d - 1; s = s - 1 in copy_down (m(d := m s)) d s n)"

fun copy_up :: "mem \<Rightarrow> uint \<Rightarrow> uint \<Rightarrow> nat \<Rightarrow> mem" where
  "copy_up m d s 0 = m"
| "copy_up m d s (Suc n) = copy_up (m(d := m s)) (d + 1) (s + 1) n"

definition memmove :: "mem \<Rightarrow> uint \<Rightarrow> uint \<Rightarrow> uint \<Rightarrow> mem" where
  "memmove m dst src n =
     (if src < dst \<and> src + n > dst
      then copy_down m (dst + n) (src + n) (unat n)
      else copy_up m dst src (unat n))"

definition memcpy :: "mem \<Rightarrow> uint \<Rightarrow> uint \<Rightarrow> uint \<Rightarrow> mem" where
  "memcpy m dst src n = memmove m dst src n"

text \<open>The user library's \<open>memmove\<close> and \<open>memset\<close>; a negative count copies nothing.\<close>

definition memmove_user :: "mem \<Rightarrow> uint \<Rightarrow> uint \<Rightarrow> int \<Rightarrow> mem" where
  "memmove_user m vdst vsrc n = copy_up m vdst vsrc (nat n)"

definition memset_user :: "mem \<Rightarrow> uint \<Rightarrow> uint \<Rightarrow> uint \<Rightarrow> mem" where
  "memset_user m dst c n = stosb m dst (ucast c) (unat n)"

section \<open>String routines\<close>

fun strncmp_loop :: "mem \<Rightarrow> uint \<Rightarrow> uint \<Rightarrow> nat \<Rightarrow> int" where
  "strncmp_loop m p q 0 = 0"
| "strncmp_loop m p q (Suc n) =
     (if m p \<noteq> 0 \<and> m p = m q then strncmp_loop m (p + 1) (q + 1) n
      else uint (m p) - uint (m q))"

definition strncmp :: "mem \<Rightarrow> uint \<Rightarrow> uint \<Rightarrow> uint \<Rightarrow> int" where
  "strncmp m p q n = strncmp_loop m p q (unat n)"

fun strncpy_pad :: "mem \<Rightarrow> uint \<Rightarrow> nat \<Rightarrow> mem" where
  "strncpy_pad m s 0 = m"
| "strncpy_pad m s (Suc n) = strncpy_pad (m(s := 0)) (s + 1) n"

fun strncpy_loop :: "mem \<Rightarrow> uint \<Rightarrow> uint \<Rightarrow> nat \<Rightarrow> mem" where
  "strncpy_loop m s t 0 = m"
| "strncpy_loop m s t (Suc n) =
     (let c = m t; m = m(s := c) in
      if c \<noteq> 0 then strncpy_loop m (s + 1) (t + 1) n else strncpy_pad m (s + 1) n)"

definition strncpy :: "mem \<Rightarrow> uint \<Rightarrow> uint \<Rightarrow> int \<Rightarrow> mem" where
  "strncpy m s t n = strncpy_loop m s t (nat n)"

text \<open>
  The loop of \<open>safestrcpy\<close> runs with \<open>--n > 0\<close>; the final \<open>*s = 0\<close> is at the address the
  loop has reached, one past a NUL that was copied.
\<close>

fun safestrcpy_loop :: "mem \<Rightarrow> uint \<Rightarrow> uint \<Rightarrow> nat \<Rightarrow> mem" where
  "safestrcpy_loop m s t 0 = m(s := 0)"
| "safestrcpy_loop m s t (Suc n) =
     (let c = m t; m = m(s := c) in
      if c \<noteq> 0 then safestrcpy_loop m (s + 1) (t + 1) n else m(s + 1 := 0))"

definition safestrcpy :: "mem \<Rightarrow> uint \<Rightarrow> uint \<Rightarrow> int \<Rightarrow> mem" where
  "safestrcpy m s t n = (if n \<le> 0 then m else safestrcpy_loop m s t (nat (n - 1)))"

partial_function (option) strlen_loop :: "mem \<Rightarrow> uint \<Rightarrow> int \<Rightarrow> int option" where
  "strlen_loop m s n = (if m (s + of_int n) \<noteq> 0 then strlen_loop m s (n + 1) else Some n)"

definition strlen :: "mem \<Rightarrow> uint \<Rightarrow> int option" where
  "strlen m s = strlen_loop m s 0"

partial_function (option) strcpy :: "mem \<Rightarrow> uint \<Rightarrow> uint \<Rightarrow> mem option" where
  "strcpy m s t =
     (let c = m t; m = m(s := c) in
      if c \<noteq> 0 then strcpy m (s + 1) (t + 1) else Some m)"

partial_function (option) strcmp :: "mem \<Rightarrow> uint \<Rightarrow> uint \<Rightarrow> int option" where
  "strcmp m p q =
     (if m p \<noteq> 0 \<and> m p = m q then strcmp m (p + 1) (q + 1)
      else Some (uint (m p) - uint (m q)))"

text \<open>\<open>strchr\<close>: the inner option is the pointer it returns, \<open>None\<close> the null pointer.\<close>

partial_function (option) strchr :: "mem \<Rightarrow> uint \<Rightarrow> byte \<Rightarrow> uint option option" where
  "strchr m s c =
     (if m s \<noteq> 0 then (if m s = c then Some (Some s) else strchr m (s + 1) c)
      else Some None)"

text \<open>\<open>atoi\<close>: \<open>n*10 + *s++ - '0'\<close> in 32-bit arithmetic.\<close>

partial_function (option) atoi_loop :: "mem \<Rightarrow> uint \<Rightarrow> uint \<Rightarrow> uint option" where
  "atoi_loop m s n =
     (if 48 \<le> m s \<and> m s \<le> 57 then atoi_loop m (s + 1) (n * 10 + ucast (m s) - 48)
      else Some n)"

definition atoi :: "mem \<Rightarrow> uint \<Rightarrow> uint option" where
  "atoi m s = atoi_loop m s 0"

section \<open>Reference functions on byte lists\<close>

text \<open>
  The \<open>n\<close> bytes at an address, the name a fixed-size field holds (up to its first NUL), and
  a name padded with NULs to the size of the field. \<open>strncmp_bytes\<close> is \<open>strncmp\<close> on the two
  fields themselves.
\<close>

definition bytes_at :: "mem \<Rightarrow> uint \<Rightarrow> nat \<Rightarrow> byte list" where
  "bytes_at m p n = map (\<lambda>i. m (p + of_nat i)) [0..<n]"

definition cname :: "byte list \<Rightarrow> byte list" where
  "cname bs = takeWhile (\<lambda>b. b \<noteq> 0) bs"

definition pad0 :: "nat \<Rightarrow> byte list \<Rightarrow> byte list" where
  "pad0 n bs = bs @ replicate (n - length bs) 0"

fun strncmp_bytes :: "byte list \<Rightarrow> byte list \<Rightarrow> int" where
  "strncmp_bytes (x # xs) (y # ys) =
     (if x \<noteq> 0 \<and> x = y then strncmp_bytes xs ys else uint x - uint y)"
| "strncmp_bytes _ _ = 0"

section \<open>Addresses of a region\<close>

lemma add_of_nat_inj:
  fixes d :: uint
  assumes "i < 2 ^ 32" "j < 2 ^ 32"
  shows "d + of_nat i = d + of_nat j \<longleftrightarrow> i = j"
proof
  assume "d + of_nat i = d + of_nat j"
  then have "unat (of_nat i :: uint) = unat (of_nat j :: uint)" by simp
  then show "i = j" using assms by (simp add: unat_of_nat32)
qed simp

lemma add_of_nat_eq_self:
  fixes d :: uint
  assumes "j < 2 ^ 32"
  shows "d = d + of_nat j \<longleftrightarrow> j = 0"
  using add_of_nat_inj [of 0 j d] assms by simp

lemma Suc_addr: "(a :: uint) + of_nat (Suc i) = a + 1 + of_nat i"
  by simp

lemma all_less_Suc_addr:
  "(\<forall>i < Suc n. P (a + of_nat i :: uint)) \<longleftrightarrow> P a \<and> (\<forall>i < n. P (a + 1 + of_nat i))"
  unfolding All_less_Suc2 by (simp add: add.assoc)

section \<open>Contracts of the memory routines\<close>

lemma stosb_outside:
  "(\<And>i. i < n \<Longrightarrow> a \<noteq> d + of_nat i) \<Longrightarrow> stosb m d b n a = m a"
proof (induction n arbitrary: m d)
  case (Suc n)
  have "a \<noteq> d" using Suc.prems [of 0] by simp
  moreover have "a \<noteq> d + 1 + of_nat i" if "i < n" for i
    using Suc.prems [of "Suc i"] that by (simp add: add.assoc)
  ultimately show ?case using Suc.IH by simp
qed simp

lemma stosb_inside:
  "n \<le> 2 ^ 32 \<Longrightarrow> i < n \<Longrightarrow> stosb m d b n (d + of_nat i) = b"
proof (induction n arbitrary: m d i)
  case (Suc n)
  show ?case
  proof (cases i)
    case 0
    have "d \<noteq> d + 1 + of_nat j" if "j < n" for j
      using add_of_nat_eq_self [of "Suc j" d] that Suc.prems by (simp add: add.assoc)
    then have "stosb (m(d := b)) (d + 1) b n d = (m(d := b)) d"
      by (intro stosb_outside) blast
    with 0 show ?thesis by simp
  next
    case (Suc j)
    then show ?thesis using Suc.IH [of j "m(d := b)" "d + 1"] Suc.prems
      by (simp add: add.assoc del: fun_upd_apply)
  qed
qed simp

lemma fill32_bytes:
  "ucast (fill32 (c AND 0xFF)) = (ucast c :: byte)"
  "ucast (drop_bit 8 (fill32 (c AND 0xFF))) = (ucast c :: byte)"
  "ucast (drop_bit 16 (fill32 (c AND 0xFF))) = (ucast c :: byte)"
  "ucast (drop_bit 24 (fill32 (c AND 0xFF))) = (ucast c :: byte)"
proof -
  have mask: "c AND 0xFF = take_bit 8 c"
    by (simp add: take_bit_eq_mask mask_eq_exp_minus_1)
  show "ucast (fill32 (c AND 0xFF)) = (ucast c :: byte)"
    "ucast (drop_bit 8 (fill32 (c AND 0xFF))) = (ucast c :: byte)"
    "ucast (drop_bit 16 (fill32 (c AND 0xFF))) = (ucast c :: byte)"
    "ucast (drop_bit 24 (fill32 (c AND 0xFF))) = (ucast c :: byte)"
    unfolding fill32_def mask by (rule bit_word_eqI, auto simp: bit_simps)+
qed

lemma stosb_4: "stosb m a b 4 = m(a := b, a + 1 := b, a + 2 := b, a + 3 := b)"
proof -
  have "stosb m a b (Suc (Suc (Suc (Suc 0)))) =
      m(a := b, a + 1 := b, a + 1 + 1 := b, a + 1 + 1 + 1 := b)"
    by (simp only: stosb.simps)
  then show ?thesis by (simp add: numeral_eq_Suc add.commute)
qed

lemma store32_fill: "store32 m a (fill32 (c AND 0xFF)) = stosb m a (ucast c) 4"
  by (simp only: store32_def fill32_bytes stosb_4)

lemma stosb_add: "stosb m a b (k + n) = stosb (stosb m a b k) (a + of_nat k) b n"
  by (induction k arbitrary: m a) (simp_all add: add.assoc)

lemma stosl_fill: "stosl m a (fill32 (c AND 0xFF)) n = stosb m a (ucast c) (4 * n)"
proof (induction n arbitrary: m a)
  case (Suc n)
  have "stosb m a (ucast c) (4 * Suc n) = stosb (stosb m a (ucast c) 4) (a + 4) (ucast c) (4 * n)"
    using stosb_add [of m a "ucast c" 4 "4 * n"] by simp
  then show ?case by (simp only: stosl.simps store32_fill Suc.IH)
qed simp

lemma memset_stosb: "memset m dst c n = stosb m dst (ucast c) (unat n)"
proof (cases "dst mod 4 = 0 \<and> n mod 4 = 0")
  case True
  then have "unat (n mod 4) = 0" by simp
  then have "unat n mod 4 = 0" by (simp add: unat_mod_distrib)
  then have "4 * (unat n div 4) = unat n" by presburger
  then have "4 * unat (n div 4) = unat n" by (simp add: unat_div_distrib)
  with True show ?thesis by (simp only: memset_def Let_def stosl_fill simp_thms if_True)
next
  case False
  then show ?thesis unfolding memset_def by (simp only: if_False)
qed

text \<open>The two copy loops, under the condition that no byte is overwritten before it is read.\<close>

lemma copy_up_outside: "(\<And>i. i < n \<Longrightarrow> a \<noteq> d + of_nat i) \<Longrightarrow> copy_up m d s n a = m a"
proof (induction n arbitrary: m d s)
  case (Suc n)
  have "a \<noteq> d" using Suc.prems [of 0] by simp
  moreover have "a \<noteq> d + 1 + of_nat i" if "i < n" for i
    using Suc.prems [of "Suc i"] that by (simp add: add.assoc)
  ultimately show ?case using Suc.IH by simp
qed simp

lemma copy_up_inside:
  assumes "n \<le> 2 ^ 32" and "\<And>i j. i < j \<Longrightarrow> j < n \<Longrightarrow> d + of_nat i \<noteq> s + of_nat j" and "i < n"
  shows "copy_up m d s n (d + of_nat i) = m (s + of_nat i)"
  using assms
proof (induction n arbitrary: m d s i)
  case (Suc n)
  have keep: "d + 1 + of_nat i \<noteq> s + 1 + of_nat j" if "i < j" "j < n" for i j
    using Suc.prems(2) [of "Suc i" "Suc j"] that by (simp add: add.assoc)
  show ?case
  proof (cases i)
    case 0
    have "d \<noteq> d + 1 + of_nat j" if "j < n" for j
      using add_of_nat_eq_self [of "Suc j" d] that Suc.prems(1) by (simp add: add.assoc)
    then have "copy_up (m(d := m s)) (d + 1) (s + 1) n d = (m(d := m s)) d"
      by (intro copy_up_outside) blast
    with 0 show ?thesis by simp
  next
    case (Suc j)
    then have j: "j < n" using Suc.prems(3) by simp
    have "copy_up (m(d := m s)) (d + 1) (s + 1) n (d + 1 + of_nat j) = (m(d := m s)) (s + 1 + of_nat j)"
      using keep Suc.prems(1) j by (intro Suc.IH) simp_all
    also have "\<dots> = m (s + 1 + of_nat j)"
      using Suc.prems(2) [of 0 "Suc j"] j by (simp add: add.assoc)
    finally show ?thesis by (simp add: Suc add.assoc)
  qed
qed simp

lemma copy_down_outside: "(\<And>i. i < n \<Longrightarrow> a \<noteq> d - 1 - of_nat i) \<Longrightarrow> copy_down m d s n a = m a"
proof (induction n arbitrary: m d s)
  case (Suc n)
  have "a \<noteq> d - 1" using Suc.prems [of 0] by simp
  moreover have "a \<noteq> d - 1 - 1 - of_nat i" if "i < n" for i
    using Suc.prems [of "Suc i"] that by (simp add: algebra_simps)
  ultimately show ?case using Suc.IH by (simp add: Let_def)
qed simp

lemma copy_down_inside:
  assumes "n \<le> 2 ^ 32" and "\<And>i j. i < j \<Longrightarrow> j < n \<Longrightarrow> d - of_nat i \<noteq> s - of_nat j" and "i < n"
  shows "copy_down m d s n (d - 1 - of_nat i) = m (s - 1 - of_nat i)"
  using assms
proof (induction n arbitrary: m d s i)
  case (Suc n)
  have keep: "d - 1 - of_nat i \<noteq> s - 1 - of_nat j" if "i < j" "j < n" for i j
    using Suc.prems(2) [of i j] that by simp
  show ?case
  proof (cases i)
    case 0
    have "d - 1 \<noteq> d - 1 - 1 - of_nat j" if "j < n" for j
      using add_of_nat_eq_self [of "Suc j" "d - 1 - 1 - of_nat j"] that Suc.prems(1) by (simp add: algebra_simps)
    then have "copy_down (m(d - 1 := m (s - 1))) (d - 1) (s - 1) n (d - 1) = (m(d - 1 := m (s - 1))) (d - 1)"
      by (intro copy_down_outside) blast
    with 0 show ?thesis by (simp add: Let_def)
  next
    case (Suc j)
    then have j: "j < n" using Suc.prems(3) by simp
    have "copy_down (m(d - 1 := m (s - 1))) (d - 1) (s - 1) n (d - 1 - 1 - of_nat j) =
        (m(d - 1 := m (s - 1))) (s - 1 - 1 - of_nat j)"
      using keep Suc.prems(1) j by (intro Suc.IH) simp_all
    also have "\<dots> = m (s - 1 - 1 - of_nat j)"
      using Suc.prems(2) [of 0 "Suc j"] j by (simp add: algebra_simps)
    finally show ?thesis by (simp add: Suc Let_def algebra_simps)
  qed
qed simp

lemma unat_addr: "unat (a :: uint) + k < 2 ^ 32 \<Longrightarrow> unat (a + of_nat k) = unat a + k"
  by (simp add: unat_word_ariths unat_of_nat32)

lemma addr_eq_iff:
  "unat (a :: uint) + i < 2 ^ 32 \<Longrightarrow> unat b + j < 2 ^ 32 \<Longrightarrow>
    a + of_nat i = b + of_nat j \<longleftrightarrow> unat a + i = unat b + j"
  by (metis unat_addr word_unat_eq_iff)

lemma memmove_up_reads_first:
  fixes src dst :: uint
  assumes "unat src + n \<le> 2 ^ 32" "unat dst + n \<le> 2 ^ 32" "\<not> (src < dst \<and> src + of_nat n > dst)"
    and "i < j" "j < n"
  shows "dst + of_nat i \<noteq> src + of_nat j"
proof
  assume "dst + of_nat i = src + of_nat j"
  then have eq: "unat dst + i = unat src + j"
    using assms by (subst (asm) addr_eq_iff) auto
  then have "unat src + n < 2 ^ 32" using assms by simp
  then have "unat (src + of_nat n) = unat src + n" by (rule unat_addr)
  then have "src < dst \<and> src + of_nat n > dst"
    using eq assms(4,5) by (simp add: word_less_nat_alt)
  with assms(3) show False by simp
qed

lemma memmove_down_reads_first:
  fixes src dst :: uint
  assumes "unat src + n \<le> 2 ^ 32" "unat dst + n \<le> 2 ^ 32" "src < dst" "i < j" "j < n"
  shows "dst + of_nat n - of_nat i \<noteq> src + of_nat n - of_nat j"
proof
  assume "dst + of_nat n - of_nat i = src + of_nat n - of_nat j"
  then have "dst + of_nat j = src + of_nat i" by (simp add: algebra_simps)
  then have "unat dst + j = unat src + i"
    using assms by (subst (asm) addr_eq_iff) auto
  then show False using assms(3,4) by (simp add: word_less_nat_alt)
qed

lemma region_index:
  fixes a dst :: uint
  assumes "unat dst \<le> unat a" and "unat a < unat dst + n"
  obtains i where "i < n" "a = dst + of_nat i" "a - dst = of_nat i"
proof
  show "unat a - unat dst < n" using assms by simp
  have "of_nat (unat a - unat dst) = a - dst"
    using assms(1) by (simp add: of_nat_diff)
  then show "a = dst + of_nat (unat a - unat dst)" "a - dst = of_nat (unat a - unat dst)"
    by simp_all
qed

lemma memmove_outside:
  assumes "unat dst + unat n \<le> 2 ^ 32" and "\<not> (unat dst \<le> unat a \<and> unat a < unat dst + unat n)"
  shows "memmove m dst src n a = m a"
proof -
  have out: "a \<noteq> dst + of_nat i" if "i < unat n" for i
    using assms that unat_addr [of dst i] by auto
  have "a \<noteq> dst + n - 1 - of_nat i" if i: "i < unat n" for i
  proof -
    have "unat n - 1 - i < unat n" using i by simp
    moreover have "dst + n - 1 - of_nat i = dst + of_nat (unat n - 1 - i)"
      using i by (simp add: of_nat_diff)
    ultimately show ?thesis using out by metis
  qed
  then show ?thesis
    using out by (simp add: memmove_def copy_up_outside copy_down_outside)
qed

lemma memmove_inside:
  assumes "unat src + unat n \<le> 2 ^ 32" "unat dst + unat n \<le> 2 ^ 32" and i: "i < unat n"
  shows "memmove m dst src n (dst + of_nat i) = m (src + of_nat i)"
proof (cases "src < dst \<and> src + n > dst")
  case True
  let ?k = "unat n - 1 - i"
  have eqs: "dst + n - 1 - of_nat ?k = dst + of_nat i" "src + n - 1 - of_nat ?k = src + of_nat i"
    using i by (simp_all add: of_nat_diff)
  have "copy_down m (dst + n) (src + n) (unat n) (dst + n - 1 - of_nat ?k) = m (src + n - 1 - of_nat ?k)"
    using memmove_down_reads_first [of src "unat n" dst] assms True
    by (intro copy_down_inside) (auto intro: less_imp_le)
  with True show ?thesis by (simp only: eqs memmove_def simp_thms if_True)
next
  case False
  have "copy_up m dst src (unat n) (dst + of_nat i) = m (src + of_nat i)"
    using memmove_up_reads_first [of src "unat n" dst] assms False
    by (intro copy_up_inside) (auto intro: less_imp_le)
  with False show ?thesis unfolding memmove_def by (simp only: if_False)
qed

text \<open>
  C14. The kernel's \<open>memmove\<close> copies correctly between any two regions that do not run past
  the end of the address space, overlapping or not: afterwards the destination holds the
  bytes the source held before the call, and no other byte has changed.
\<close>

theorem memmove_copies:
  assumes "unat src + unat n \<le> 2 ^ 32" and "unat dst + unat n \<le> 2 ^ 32"
  shows "memmove m dst src n a =
    (if unat dst \<le> unat a \<and> unat a < unat dst + unat n then m (src + (a - dst)) else m a)"
proof (cases "unat dst \<le> unat a \<and> unat a < unat dst + unat n")
  case True
  then obtain i where "i < unat n" "a = dst + of_nat i" "a - dst = of_nat i"
    using region_index by blast
  with True memmove_inside [OF assms, of i m] show ?thesis by simp
next
  case False
  with memmove_outside [OF assms(2) False] show ?thesis by (simp only: if_False)
qed

theorem memmove_copies_witness:
  "memmove (\<lambda>a. ucast a) 12 10 5 14 = (12 :: byte)"
  using memmove_copies [of 10 5 12 "\<lambda>a. ucast a" 14] by simp

section \<open>Contracts of the string routines\<close>

lemma bytes_at_0 [simp]: "bytes_at m p 0 = []"
  by (simp add: bytes_at_def)

lemma bytes_at_Suc: "bytes_at m p (Suc n) = m p # bytes_at m (p + 1) n"
  by (simp add: bytes_at_def upt_conv_Cons map_Suc_upt [symmetric] add.assoc del: upt_Suc)

lemma length_bytes_at [simp]: "length (bytes_at m p n) = n"
  by (simp add: bytes_at_def)

lemma nth_bytes_at [simp]: "i < n \<Longrightarrow> bytes_at m p n ! i = m (p + of_nat i)"
  by (simp add: bytes_at_def)

lemma bytes_at_cong: "(\<And>i. i < n \<Longrightarrow> m (p + of_nat i) = m' (p + of_nat i)) \<Longrightarrow> bytes_at m p n = bytes_at m' p n"
  by (simp add: bytes_at_def)

lemma strncmp_loop_bytes:
  "strncmp_loop m p q n = strncmp_bytes (bytes_at m p n) (bytes_at m q n)"
  by (induction m p q n rule: strncmp_loop.induct) (auto simp: bytes_at_Suc)

lemma strncmp_bytes_0:
  "length xs = length ys \<Longrightarrow> strncmp_bytes xs ys = 0 \<longleftrightarrow> cname xs = cname ys"
  by (induction xs ys rule: strncmp_bytes.induct)
    (auto simp: cname_def uint_0_iff simp flip: word_uint_eq_iff)

lemma strncmp_bytes_pos: "strncmp_bytes xs ys = - strncmp_bytes ys xs"
  by (induction xs ys rule: strncmp_bytes.induct) auto

lemma cname_pad0 [simp]: "0 \<notin> set bs \<Longrightarrow> cname (pad0 n bs) = bs"
  by (auto simp: cname_def pad0_def takeWhile_append takeWhile_replicate)

lemma zero_notin_cname [simp]: "0 \<notin> set (cname bs)"
  by (auto simp: cname_def dest: set_takeWhileD)

lemma length_cname: "length (cname bs) \<le> length bs"
  by (simp add: cname_def length_takeWhile_le)

lemma length_pad0 [simp]: "length bs \<le> n \<Longrightarrow> length (pad0 n bs) = n"
  by (simp add: pad0_def)

lemma strncpy_pad_outside: "(\<And>i. i < n \<Longrightarrow> a \<noteq> s + of_nat i) \<Longrightarrow> strncpy_pad m s n a = m a"
proof (induction n arbitrary: m s)
  case (Suc n)
  have "a \<noteq> s" using Suc.prems [of 0] by simp
  moreover have "a \<noteq> s + 1 + of_nat i" if "i < n" for i
    using Suc.prems [of "Suc i"] that by (simp add: add.assoc)
  ultimately show ?case using Suc.IH by simp
qed simp

lemma strncpy_loop_outside: "(\<And>i. i < n \<Longrightarrow> a \<noteq> s + of_nat i) \<Longrightarrow> strncpy_loop m s t n a = m a"
proof (induction n arbitrary: m s t)
  case (Suc n)
  have "a \<noteq> s" using Suc.prems [of 0] by simp
  moreover have *: "a \<noteq> s + 1 + of_nat i" if "i < n" for i
    using Suc.prems [of "Suc i"] that by (simp add: add.assoc)
  ultimately show ?case using Suc.IH * by (simp add: Let_def strncpy_pad_outside)
qed simp

lemma head_not_in_tail:
  fixes s :: uint
  assumes "Suc n \<le> 2 ^ 32" "i < n"
  shows "s \<noteq> s + 1 + of_nat i"
  using add_of_nat_eq_self [of "Suc i" s] assms by (simp add: add.assoc)

lemma strncpy_pad_bytes: "n \<le> 2 ^ 32 \<Longrightarrow> bytes_at (strncpy_pad m s n) s n = replicate n 0"
proof (induction n arbitrary: m s)
  case (Suc n)
  have "strncpy_pad (m(s := 0)) (s + 1) n s = (m(s := 0)) s"
    using head_not_in_tail Suc.prems by (intro strncpy_pad_outside) blast
  then show ?case using Suc by (simp add: bytes_at_Suc)
qed simp

lemma strncpy_loop_bytes:
  assumes "n \<le> 2 ^ 32" and "\<And>i j. i < n \<Longrightarrow> j < n \<Longrightarrow> s + of_nat i \<noteq> t + of_nat j"
  shows "bytes_at (strncpy_loop m s t n) s n = pad0 n (cname (bytes_at m t n))"
  using assms
proof (induction n arbitrary: m s t)
  case 0
  then show ?case by (simp add: cname_def pad0_def)
next
  case (Suc n)
  let ?m = "m(s := m t)"
  have disj: "s + 1 + of_nat i \<noteq> t + 1 + of_nat j" if "i < n" "j < n" for i j
    using Suc.prems(2) [of "Suc i" "Suc j"] that by (simp add: add.assoc)
  have "bytes_at ?m (t + 1) n = bytes_at m (t + 1) n"
  proof (rule bytes_at_cong)
    fix i assume "i < n"
    then show "?m (t + 1 + of_nat i) = m (t + 1 + of_nat i)"
      using Suc.prems(2) [of 0 "Suc i"] by (auto simp: add.assoc)
  qed
  then have IH: "bytes_at (strncpy_loop ?m (s + 1) (t + 1) n) (s + 1) n = pad0 n (cname (bytes_at m (t + 1) n))"
    using Suc.IH [of "s + 1" "t + 1" ?m] disj Suc.prems(1) by (simp del: fun_upd_apply)
  have "strncpy_loop ?m (s + 1) (t + 1) n s = ?m s" "strncpy_pad ?m (s + 1) n s = ?m s"
    using head_not_in_tail Suc.prems(1) by (intro strncpy_loop_outside strncpy_pad_outside; blast)+
  then show ?case using IH Suc.prems(1) strncpy_pad_bytes [of n ?m "s + 1"]
    by (cases "m t = 0")
      (simp_all add: bytes_at_Suc Let_def cname_def pad0_def fun_upd_same del: fun_upd_apply)
qed

text \<open>
  Two names held in fields of the same size compare equal under \<open>strncmp\<close> exactly when
  they are the same up to their first NUL byte, whether or not the fields are terminated
  (\<open>namecmp\<close> of the file system relies on this for \<open>DIRSIZ\<close>-byte directory names).
\<close>

lemma strncmp_zero_iff:
  "strncmp m p q n = 0 \<longleftrightarrow> cname (bytes_at m p (unat n)) = cname (bytes_at m q (unat n))"
  by (simp add: strncmp_def strncmp_loop_bytes strncmp_bytes_0)

lemma safestrcpy_loop_outside:
  "(\<And>i. i < Suc n \<Longrightarrow> a \<noteq> s + of_nat i) \<Longrightarrow> safestrcpy_loop m s t n a = m a"
proof (induction n arbitrary: m s t)
  case 0
  then show ?case by simp
next
  case (Suc n)
  have "a \<noteq> s" "a \<noteq> s + 1" using Suc.prems [of 0] Suc.prems [of 1] by simp_all
  moreover have "a \<noteq> s + 1 + of_nat i" if "i < Suc n" for i
    using Suc.prems [of "Suc i"] that by (simp add: add.assoc)
  ultimately show ?case using Suc.IH by (simp add: Let_def)
qed

lemma safestrcpy_loop_cname:
  assumes "Suc n \<le> 2 ^ 32" and "\<And>i j. i < Suc n \<Longrightarrow> j < Suc n \<Longrightarrow> s + of_nat i \<noteq> t + of_nat j"
  shows "cname (bytes_at (safestrcpy_loop m s t n) s (Suc n)) = cname (bytes_at m t n)"
  using assms
proof (induction n arbitrary: m s t)
  case 0
  then show ?case by (simp add: bytes_at_Suc cname_def)
next
  case (Suc n)
  let ?m = "m(s := m t)"
  have disj: "s + 1 + of_nat i \<noteq> t + 1 + of_nat j" if "i < Suc n" "j < Suc n" for i j
    using Suc.prems(2) [of "Suc i" "Suc j"] that by (simp add: add.assoc)
  have "bytes_at ?m (t + 1) n = bytes_at m (t + 1) n"
  proof (rule bytes_at_cong)
    fix i assume "i < n"
    then show "?m (t + 1 + of_nat i) = m (t + 1 + of_nat i)"
      using Suc.prems(2) [of 0 "Suc i"] by (auto simp: add.assoc)
  qed
  then have IH: "cname (bytes_at (safestrcpy_loop ?m (s + 1) (t + 1) n) (s + 1) (Suc n)) = cname (bytes_at m (t + 1) n)"
    using Suc.IH [of "s + 1" "t + 1" ?m] disj Suc.prems(1) by (simp del: fun_upd_apply)
  have "safestrcpy_loop ?m (s + 1) (t + 1) n s = ?m s"
    using head_not_in_tail [of "Suc n"] Suc.prems(1) by (intro safestrcpy_loop_outside) blast
  then show ?case using IH
    by (simp add: bytes_at_Suc [of _ s] bytes_at_Suc [of m t] Let_def cname_def del: fun_upd_apply) simp
qed

text \<open>
  \<open>safestrcpy(s, t, n)\<close> with a positive size writes nothing outside the \<open>n\<close> bytes at \<open>s\<close>
  and leaves there a terminated string: the first \<open>n - 1\<close> bytes of \<open>t\<close>, cut at its first NUL.
\<close>

lemma safestrcpy_safe:
  assumes "0 < n" "n \<le> 2 ^ 32"
    and "\<And>i j. i < nat n \<Longrightarrow> j < nat n \<Longrightarrow> s + of_nat i \<noteq> t + of_nat j"
  shows "cname (bytes_at (safestrcpy m s t n) s (nat n)) = cname (bytes_at m t (nat n - 1)) \<and>
    length (cname (bytes_at (safestrcpy m s t n) s (nat n))) < nat n \<and>
    (\<forall>a. (\<forall>i < nat n. a \<noteq> s + of_nat i) \<longrightarrow> safestrcpy m s t n a = m a)"
proof -
  obtain k where k: "nat n = Suc k" using assms(1) by (metis Suc_pred zero_less_nat_eq)
  then have sc: "safestrcpy m s t n = safestrcpy_loop m s t k"
    using assms(1) by (simp add: safestrcpy_def nat_diff_distrib)
  have bound: "Suc k \<le> 2 ^ 32" using nat_mono [OF assms(2)] k by (simp add: nat_power_eq)
  have "cname (bytes_at (safestrcpy m s t n) s (nat n)) = cname (bytes_at m t (nat n - 1))"
    using safestrcpy_loop_cname [OF bound, of s t m] assms(3) unfolding sc k by simp
  moreover have "length (cname (bytes_at m t (nat n - 1))) < nat n"
    using length_cname [of "bytes_at m t (nat n - 1)"] k by simp
  moreover have "\<forall>a. (\<forall>i < nat n. a \<noteq> s + of_nat i) \<longrightarrow> safestrcpy m s t n a = m a"
    unfolding sc k by (blast intro: safestrcpy_loop_outside)
  ultimately show ?thesis by simp
qed

lemma safestrcpy_example:
  "cname (bytes_at (safestrcpy (\<lambda>a. 65) 100 200 4) 100 4) = [65, 65, 65]"
proof -
  have disj: "(100 :: uint) + of_nat i \<noteq> 200 + of_nat j" if "i < nat 4" "j < nat 4" for i j
    using that addr_eq_iff [of 100 i 200 j] by simp
  show ?thesis
    using safestrcpy_safe [of 4 100 200 "\<lambda>a. 65", OF _ _ disj]
    by (simp add: cname_def bytes_at_def upt_rec)
qed

section \<open>The loops that run to a NUL byte\<close>

text \<open>A terminated string: the bytes \<open>cs\<close>, none of them NUL, and a NUL after them.\<close>

definition cstr :: "mem \<Rightarrow> uint \<Rightarrow> byte list \<Rightarrow> bool" where
  "cstr m p cs \<longleftrightarrow> bytes_at m p (Suc (length cs)) = cs @ [0] \<and> 0 \<notin> set cs"

lemma cstr_Nil [simp]: "cstr m p [] \<longleftrightarrow> m p = 0"
  by (simp add: cstr_def bytes_at_Suc)

lemma cstr_Cons [simp]: "cstr m p (c # cs) \<longleftrightarrow> m p = c \<and> c \<noteq> 0 \<and> cstr m (p + 1) cs"
  by (auto simp: cstr_def bytes_at_Suc)

lemma strlen_loop_cstr:
  "cstr m (s + of_int n) cs \<Longrightarrow> strlen_loop m s n = Some (n + int (length cs))"
proof (induction cs arbitrary: n)
  case Nil
  then show ?case by (simp add: strlen_loop.simps)
next
  case (Cons c cs)
  then have "strlen_loop m s (n + 1) = Some (n + 1 + int (length cs))"
    by (intro Cons.IH) (simp add: add.assoc)
  with Cons.prems show ?case by (subst strlen_loop.simps) simp
qed

lemma strlen_cstr: "cstr m s cs \<Longrightarrow> strlen m s = Some (int (length cs))"
  using strlen_loop_cstr [of m s 0 cs] by (simp add: strlen_def)

lemma strchr_cstr:
  "cstr m s cs \<Longrightarrow> strchr m s c = Some (map_option (\<lambda>i. s + of_nat i) (find_index (\<lambda>x. x = c) cs))"
proof (induction cs arbitrary: s)
  case Nil
  then show ?case by (simp add: strchr.simps)
next
  case (Cons x cs)
  then have "strchr m (s + 1) c = Some (map_option (\<lambda>i. s + 1 + of_nat i) (find_index (\<lambda>x. x = c) cs))"
    by simp
  with Cons.prems show ?case
    by (subst strchr.simps) (simp add: option.map_comp comp_def add.assoc)
qed

lemma strcmp_cstr:
  "cstr m p cs \<Longrightarrow> cstr m q ds \<Longrightarrow> strcmp m p q = Some (strncmp_bytes (cs @ [0]) (ds @ [0]))"
proof (induction cs arbitrary: p q ds)
  case Nil
  then show ?case by (cases ds) (simp_all add: strcmp.simps)
next
  case (Cons c cs)
  show ?case
  proof (cases ds)
    case Nil
    with Cons.prems show ?thesis by (subst strcmp.simps) simp
  next
    case (Cons d ds')
    with Cons.prems Cons.IH [of "p + 1" "q + 1" ds'] show ?thesis
      by (subst strcmp.simps) simp
  qed
qed

text \<open>The value of a string of decimal digits.\<close>

definition digits_val :: "uint \<Rightarrow> byte list \<Rightarrow> uint" where
  "digits_val n ds = foldl (\<lambda>n d. n * 10 + (ucast d - 48)) n ds"

lemma atoi_loop_digits:
  assumes "bytes_at m s (length ds) = ds" "\<forall>d \<in> set ds. 48 \<le> d \<and> d \<le> 57"
    and "\<not> (48 \<le> m (s + of_nat (length ds)) \<and> m (s + of_nat (length ds)) \<le> 57)"
  shows "atoi_loop m s n = Some (digits_val n ds)"
  using assms
proof (induction ds arbitrary: s n)
  case Nil
  then show ?case by (subst atoi_loop.simps) (auto simp: digits_val_def)
next
  case (Cons d ds)
  then have "m s = d" by (simp add: bytes_at_Suc)
  moreover have "atoi_loop m (s + 1) (n * 10 + ucast d - 48) = Some (digits_val (n * 10 + ucast d - 48) ds)"
    using Cons.prems by (intro Cons.IH) (simp_all add: bytes_at_Suc add.assoc)
  ultimately show ?case using Cons.prems(2)
    by (subst atoi_loop.simps) (simp add: digits_val_def add_diff_eq)
qed

lemma atoi_digits:
  "bytes_at m s (length ds) = ds \<Longrightarrow> \<forall>d \<in> set ds. 48 \<le> d \<and> d \<le> 57 \<Longrightarrow>
    \<not> (48 \<le> m (s + of_nat (length ds)) \<and> m (s + of_nat (length ds)) \<le> 57) \<Longrightarrow>
    atoi m s = Some (digits_val 0 ds)"
  by (simp add: atoi_def atoi_loop_digits)

end
