(* ===== verification/Locks.thy ===== *)
theory Locks
  imports Prelude
begin

text \<open>
  Spin locks (\<open>xv6/spinlock.c\<close>) and sleep locks (\<open>xv6/sleeplock.c\<close>).

  The operations are functions on the state of one CPU and one lock. The spin of
  \<open>acquire\<close> and the separate stores of \<open>acquire\<close> and \<open>release\<close> interleave with other CPUs,
  so they are also the rules of a transition system over all CPUs and locks, one rule per
  access to the lock word. Its invariant gives mutual exclusion and that interrupts stay
  off while a CPU holds a lock.
\<close>

section \<open>One CPU and one lock\<close>

record cpu =
  ncli :: int       \<comment> \<open>depth of pushcli nesting\<close>
  intena :: bool    \<comment> \<open>were interrupts enabled before pushcli?\<close>
  iflag :: bool     \<comment> \<open>the flag \<open>FL_IF\<close> of the eflags register\<close>

record spinlock =
  locked :: uint
  lcpu :: "nat option"

definition initlock :: spinlock where
  "initlock = \<lparr>locked = 0, lcpu = None\<rparr>"

definition pushcli :: "cpu \<Rightarrow> cpu" where
  "pushcli c =
     (let eflags = iflag c;
          c = c\<lparr>iflag := False\<rparr>;
          c = (if ncli c = 0 then c\<lparr>intena := eflags\<rparr> else c)
      in c\<lparr>ncli := ncli c + 1\<rparr>)"

definition popcli :: "cpu \<Rightarrow> cpu res" where
  "popcli c =
     (if iflag c then Panic ''popcli - interruptible''
      else let c = c\<lparr>ncli := ncli c - 1\<rparr> in
        if ncli c < 0 then Panic ''popcli''
        else if ncli c = 0 \<and> intena c then Ret (c\<lparr>iflag := True\<rparr>)
        else Ret c)"

definition holding :: "spinlock \<Rightarrow> nat \<Rightarrow> cpu \<Rightarrow> (bool \<times> cpu) res" where
  "holding lk me c =
     (let c = pushcli c; r = (locked lk \<noteq> 0 \<and> lcpu lk = Some me)
      in bindR (popcli c) (\<lambda>c. Ret (r, c)))"

text \<open>\<open>xchg\<close> of \<open>x86.h\<close>: the new value is stored and the old one returned, atomically.\<close>

definition xchg :: "spinlock \<Rightarrow> uint \<Rightarrow> uint \<times> spinlock" where
  "xchg lk v = (locked lk, lk\<lparr>locked := v\<rparr>)"

text \<open>
  \<open>acquire\<close> up to its first \<open>xchg\<close>, the loop test, and the bookkeeping after it; \<open>release\<close>
  up to the store that frees the lock, and that store with \<open>popcli\<close>.
\<close>

definition acquire_enter :: "spinlock \<Rightarrow> nat \<Rightarrow> cpu \<Rightarrow> cpu res" where
  "acquire_enter lk me c =
     bindR (holding lk me (pushcli c)) (\<lambda>(h, c).
     if h then Panic ''acquire'' else Ret c)"

definition acquire_record :: "spinlock \<Rightarrow> nat \<Rightarrow> spinlock" where
  "acquire_record lk me = lk\<lparr>lcpu := Some me\<rparr>"

definition release_enter :: "spinlock \<Rightarrow> nat \<Rightarrow> cpu \<Rightarrow> (spinlock \<times> cpu) res" where
  "release_enter lk me c =
     bindR (holding lk me c) (\<lambda>(h, c).
     if \<not> h then Panic ''release'' else Ret (lk\<lparr>lcpu := None\<rparr>, c))"

definition release_store :: "spinlock \<Rightarrow> cpu \<Rightarrow> (spinlock \<times> cpu) res" where
  "release_store lk c = bindR (popcli c) (\<lambda>c. Ret (lk\<lparr>locked := 0\<rparr>, c))"

text \<open>
  \<open>getcallerpcs\<close> follows the chain of saved frame pointers in the memory \<open>m\<close> of words: at
  most ten return addresses, the rest zero.
\<close>

fun getcallerpcs_loop :: "(uint \<Rightarrow> uint) \<Rightarrow> uint \<Rightarrow> nat \<Rightarrow> uint list" where
  "getcallerpcs_loop m ebp 0 = []"
| "getcallerpcs_loop m ebp (Suc i) =
     (if ebp = 0 \<or> ebp < 0x80000000 \<or> ebp = 0xffffffff then replicate (Suc i) 0
      else m (ebp + 4) # getcallerpcs_loop m (m ebp) i)"

definition getcallerpcs :: "(uint \<Rightarrow> uint) \<Rightarrow> uint \<Rightarrow> uint list" where
  "getcallerpcs m v = getcallerpcs_loop m (v - 8) 10"

section \<open>Sleep locks\<close>

record sleeplock =
  slocked :: bool
  spid :: int

definition initsleeplock :: sleeplock where
  "initsleeplock = \<lparr>slocked = False, spid = 0\<rparr>"

text \<open>
  \<open>acquiresleep\<close> by process \<open>pid\<close>: it sleeps on the lock's channel while the lock is taken.
  The three operations run under the inner spin lock, so each is one atomic step.
\<close>

definition acquiresleep :: "chan \<Rightarrow> int \<Rightarrow> sleeplock \<Rightarrow> sleeplock res" where
  "acquiresleep ch pid lk =
     (if slocked lk then Sleep ch else Ret (lk\<lparr>slocked := True, spid := pid\<rparr>))"

definition releasesleep :: "sleeplock \<Rightarrow> sleeplock" where
  "releasesleep lk = lk\<lparr>slocked := False, spid := 0\<rparr>"

definition holdingsleep :: "int \<Rightarrow> sleeplock \<Rightarrow> bool" where
  "holdingsleep pid lk \<longleftrightarrow> slocked lk \<and> spid lk = pid"

section \<open>All CPUs and locks\<close>

text \<open>
  Where a CPU is: outside the lock operations, spinning in \<open>acquire\<close>, past a successful
  \<open>xchg\<close> but with \<open>lk->cpu\<close> not yet recorded, or in \<open>release\<close> with \<open>lk->cpu\<close> cleared but the
  lock word not yet stored.
\<close>

datatype lockpc = Running | Spinning nat | Acquired nat | Clearing nat

record lockst =
  cpus :: "nat \<Rightarrow> cpu"
  lks :: "nat \<Rightarrow> spinlock"
  pcs :: "nat \<Rightarrow> lockpc"

definition lock_init :: "lockst \<Rightarrow> bool" where
  "lock_init s \<longleftrightarrow>
     (\<forall>c. ncli (cpus s c) = 0 \<and> pcs s c = Running) \<and> (\<forall>l. lks s l = initlock)"

inductive lock_step :: "lockst \<Rightarrow> lockst \<Rightarrow> bool" where
  step_acquire: "pcs s c = Running \<Longrightarrow> acquire_enter (lks s l) c (cpus s c) = Ret cp \<Longrightarrow>
     lock_step s (s\<lparr>cpus := (cpus s)(c := cp), pcs := (pcs s)(c := Spinning l)\<rparr>)"
| step_spin: "pcs s c = Spinning l \<Longrightarrow> xchg (lks s l) 1 = (old, lk) \<Longrightarrow> old \<noteq> 0 \<Longrightarrow>
     lock_step s (s\<lparr>lks := (lks s)(l := lk)\<rparr>)"
| step_got: "pcs s c = Spinning l \<Longrightarrow> xchg (lks s l) 1 = (old, lk) \<Longrightarrow> old = 0 \<Longrightarrow>
     lock_step s (s\<lparr>lks := (lks s)(l := lk), pcs := (pcs s)(c := Acquired l)\<rparr>)"
| step_record: "pcs s c = Acquired l \<Longrightarrow>
     lock_step s (s\<lparr>lks := (lks s)(l := acquire_record (lks s l) c), pcs := (pcs s)(c := Running)\<rparr>)"
| step_release: "pcs s c = Running \<Longrightarrow> release_enter (lks s l) c (cpus s c) = Ret (lk, cp) \<Longrightarrow>
     lock_step s (s\<lparr>cpus := (cpus s)(c := cp), lks := (lks s)(l := lk), pcs := (pcs s)(c := Clearing l)\<rparr>)"
| step_store: "pcs s c = Clearing l \<Longrightarrow> release_store (lks s l) (cpus s c) = Ret (lk, cp) \<Longrightarrow>
     lock_step s (s\<lparr>cpus := (cpus s)(c := cp), lks := (lks s)(l := lk), pcs := (pcs s)(c := Running)\<rparr>)"
| step_sti: "pcs s c = Running \<Longrightarrow> ncli (cpus s c) = 0 \<Longrightarrow>
     lock_step s (s\<lparr>cpus := (cpus s)(c := (cpus s c)\<lparr>iflag := b\<rparr>)\<rparr>)"

text \<open>CPU \<open>c\<close> owns lock \<open>l\<close>: from its successful \<open>xchg\<close> to the store that frees the lock.\<close>

definition owns :: "lockst \<Rightarrow> nat \<Rightarrow> nat \<Rightarrow> bool" where
  "owns s c l \<longleftrightarrow> lcpu (lks s l) = Some c \<or> pcs s c = Acquired l \<or> pcs s c = Clearing l"

definition owned :: "lockst \<Rightarrow> nat \<Rightarrow> nat set" where
  "owned s c = {l. owns s c l}"

fun waits :: "lockpc \<Rightarrow> int" where
  "waits (Spinning l) = 1"
| "waits _ = 0"

text \<open>
  The invariant: a lock word is set exactly when some CPU owns the lock, then only one CPU
  does, \<open>lk->cpu\<close> is only set between the two half-way points, the nesting depth of a CPU
  counts the locks it owns and waits for, and interrupts are off while it is positive.
\<close>

definition lock_inv :: "lockst \<Rightarrow> bool" where
  "lock_inv s \<longleftrightarrow>
     (\<forall>l. locked (lks s l) \<noteq> 0 \<longleftrightarrow> (\<exists>c. owns s c l)) \<and>
     (\<forall>c d l. owns s c l \<longrightarrow> owns s d l \<longrightarrow> c = d) \<and>
     (\<forall>c l. pcs s c = Acquired l \<or> pcs s c = Clearing l \<longrightarrow> lcpu (lks s l) = None) \<and>
     (\<forall>c. finite (owned s c)) \<and>
     (\<forall>c. ncli (cpus s c) = int (card (owned s c)) + waits (pcs s c)) \<and>
     (\<forall>c. ncli (cpus s c) > 0 \<longrightarrow> \<not> iflag (cpus s c))"

section \<open>The operations on one CPU\<close>

lemma pushcli_simps [simp]:
  "ncli (pushcli c) = ncli c + 1" "iflag (pushcli c) = False"
  "intena (pushcli c) = (if ncli c = 0 then iflag c else intena c)"
  by (simp_all add: pushcli_def Let_def)

definition cpu_ok :: "cpu \<Rightarrow> bool" where
  "cpu_ok c \<longleftrightarrow> ncli c \<ge> 0 \<and> (ncli c > 0 \<longrightarrow> \<not> iflag c)"

lemma cpu_ok_pushcli [simp]: "cpu_ok c \<Longrightarrow> cpu_ok (pushcli c)"
  by (simp add: cpu_ok_def)

lemma popcli_pushcli:
  "cpu_ok c \<Longrightarrow> \<exists>c'. popcli (pushcli c) = Ret c' \<and> ncli c' = ncli c \<and> iflag c' = iflag c"
  by (auto simp: popcli_def cpu_ok_def Let_def)

lemma holding_spec:
  assumes "cpu_ok c"
  shows "\<exists>c'. holding lk me c = Ret (locked lk \<noteq> 0 \<and> lcpu lk = Some me, c') \<and>
           ncli c' = ncli c \<and> iflag c' = iflag c"
  using popcli_pushcli [OF assms] by (auto simp: holding_def Let_def)

lemma acquire_enter_Ret:
  assumes "cpu_ok c" "acquire_enter lk me c = Ret c'"
  shows "\<not> (locked lk \<noteq> 0 \<and> lcpu lk = Some me) \<and> ncli c' = ncli c + 1 \<and> \<not> iflag c'"
  using holding_spec [of "pushcli c" lk me] assms
  by (auto simp: acquire_enter_def split: if_splits)

lemma release_enter_Ret:
  assumes "cpu_ok c" "release_enter lk me c = Ret (lk', c')"
  shows "locked lk \<noteq> 0 \<and> lcpu lk = Some me \<and> lk' = lk\<lparr>lcpu := None\<rparr> \<and>
    ncli c' = ncli c \<and> iflag c' = iflag c"
  using holding_spec [of c lk me] assms
  by (auto simp: release_enter_def split: if_splits)

lemma release_store_Ret:
  assumes "cpu_ok c" "release_store lk c = Ret (lk', c')"
  shows "lk' = lk\<lparr>locked := 0\<rparr> \<and> ncli c' = ncli c - 1 \<and> (ncli c' > 0 \<longrightarrow> \<not> iflag c')"
  using assms by (auto simp: release_store_def popcli_def Let_def cpu_ok_def split: if_splits)

lemma length_getcallerpcs: "length (getcallerpcs m v) = 10"
proof -
  have "length (getcallerpcs_loop m e n) = n" for e n
    by (induction m e n rule: getcallerpcs_loop.induct) simp_all
  then show ?thesis by (simp add: getcallerpcs_def)
qed

section \<open>The invariant of the lock machine\<close>

lemma lock_inv_cpu_ok: "lock_inv s \<Longrightarrow> cpu_ok (cpus s c)"
  unfolding lock_inv_def cpu_ok_def by (cases "pcs s c") simp_all

lemma lock_init_inv: "lock_init s \<Longrightarrow> lock_inv s"
  by (auto simp: lock_init_def lock_inv_def owns_def owned_def initlock_def)

lemma lock_invI:
  assumes "\<And>l. locked (lks s l) \<noteq> 0 \<longleftrightarrow> (\<exists>c. owns s c l)"
    and "\<And>c d l. owns s c l \<Longrightarrow> owns s d l \<Longrightarrow> c = d"
    and "\<And>c l. pcs s c = Acquired l \<or> pcs s c = Clearing l \<Longrightarrow> lcpu (lks s l) = None"
    and "\<And>c. finite (owned s c)"
    and "\<And>c. ncli (cpus s c) = int (card (owned s c)) + waits (pcs s c)"
    and "\<And>c. ncli (cpus s c) > 0 \<Longrightarrow> \<not> iflag (cpus s c)"
  shows "lock_inv s"
  using assms unfolding lock_inv_def by blast

lemma lock_invD:
  assumes "lock_inv s"
  shows "locked (lks s l) \<noteq> 0 \<longleftrightarrow> (\<exists>c. owns s c l)"
    and "owns s c l \<Longrightarrow> owns s d l \<Longrightarrow> c = d"
    and "pcs s c = Acquired l \<or> pcs s c = Clearing l \<Longrightarrow> lcpu (lks s l) = None"
    and "finite (owned s c)"
    and "ncli (cpus s c) = int (card (owned s c)) + waits (pcs s c)"
    and "ncli (cpus s c) > 0 \<Longrightarrow> \<not> iflag (cpus s c)"
  using assms unfolding lock_inv_def by blast+

lemma lock_inv_half:
  assumes "lock_inv s"
  shows "pcs s c = Acquired l \<Longrightarrow> lcpu (lks s l) = None"
    and "pcs s c = Clearing l \<Longrightarrow> lcpu (lks s l) = None"
  using lock_invD(3) [OF assms] by blast+

text \<open>How the set of owners changes: not at all, by one more lock, or by one lock less.\<close>

lemma inv_same_owners:
  assumes inv: "lock_inv s"
    and own: "\<And>d k. owns t d k = owns s d k"
    and lkd: "\<And>k. (locked (lks t k) \<noteq> 0) = (locked (lks s k) \<noteq> 0)"
    and half: "\<And>d k. pcs t d = Acquired k \<or> pcs t d = Clearing k \<Longrightarrow> lcpu (lks t k) = None"
    and n: "\<And>d. ncli (cpus t d) - waits (pcs t d) = ncli (cpus s d) - waits (pcs s d)"
    and off: "\<And>d. ncli (cpus t d) > 0 \<Longrightarrow> \<not> iflag (cpus t d)"
  shows "lock_inv t"
proof (rule lock_invI)
  have o: "owned t d = owned s d" for d by (simp add: owned_def own)
  show "locked (lks t l) \<noteq> 0 \<longleftrightarrow> (\<exists>c. owns t c l)" for l
    using lock_invD(1) [OF inv] by (simp add: own lkd)
  show "owns t c l \<Longrightarrow> owns t d l \<Longrightarrow> c = d" for c d l
    using lock_invD(2) [OF inv] by (simp add: own)
  show "finite (owned t c)" for c using lock_invD(4) [OF inv] by (simp add: o)
  show "ncli (cpus t c) = int (card (owned t c)) + waits (pcs t c)" for c
    using lock_invD(5) [OF inv, of c] n [of c] by (simp add: o)
qed (use half off in auto)

lemma step_got_inv:
  assumes inv: "lock_inv s" and pc: "pcs s c = Spinning l" and free: "locked (lks s l) = 0"
  shows "lock_inv (s\<lparr>lks := (lks s)(l := (lks s l)\<lparr>locked := 1\<rparr>),
    pcs := (pcs s)(c := Acquired l)\<rparr>)" (is "lock_inv ?t")
proof (rule lock_invI)
  have none: "\<not> owns s d l" for d using lock_invD(1) [OF inv, of l] free by simp
  have own: "owns ?t d k \<longleftrightarrow> owns s d k \<or> (d = c \<and> k = l)" for d k
    using none pc by (auto simp: owns_def)
  have o: "owned ?t d = (if d = c then insert l (owned s d) else owned s d)" for d
    by (auto simp: owned_def own)
  show "locked (lks ?t k) \<noteq> 0 \<longleftrightarrow> (\<exists>d. owns ?t d k)" for k
    using lock_invD(1) [OF inv, of k] by (auto simp: own)
  show "owns ?t d k \<Longrightarrow> owns ?t e k \<Longrightarrow> d = e" for d e k
    using lock_invD(2) [OF inv, of d k e] none unfolding own by auto
  show "pcs ?t d = Acquired k \<or> pcs ?t d = Clearing k \<Longrightarrow> lcpu (lks ?t k) = None" for d k
    using lock_invD(3) [OF inv, of d k] none by (cases "lcpu (lks s l)") (auto simp: owns_def split: if_splits)
  show "finite (owned ?t d)" for d using lock_invD(4) [OF inv] by (simp add: o)
  have "l \<notin> owned s c" using none by (simp add: owned_def)
  then show "ncli (cpus ?t d) = int (card (owned ?t d)) + waits (pcs ?t d)" for d
    using lock_invD(5) [OF inv, of d] lock_invD(4) [OF inv, of d] pc by (auto simp: o)
  show "ncli (cpus ?t d) > 0 \<Longrightarrow> \<not> iflag (cpus ?t d)" for d
    using lock_invD(6) [OF inv, of d] by simp
qed

lemma step_store_inv:
  assumes inv: "lock_inv s" and pc: "pcs s c = Clearing l"
    and n: "ncli cp = ncli (cpus s c) - 1" and off: "ncli cp > 0 \<longrightarrow> \<not> iflag cp"
  shows "lock_inv (s\<lparr>cpus := (cpus s)(c := cp), lks := (lks s)(l := (lks s l)\<lparr>locked := 0\<rparr>),
    pcs := (pcs s)(c := Running)\<rparr>)" (is "lock_inv ?t")
proof (rule lock_invI)
  have mine: "owns s c l" using pc by (simp add: owns_def)
  have uniq: "owns s d l \<longleftrightarrow> d = c" for d
    using lock_invD(2) [OF inv, of d l c] mine by auto
  have none: "lcpu (lks s l) = None" using lock_invD(3) [OF inv, of c l] pc by simp
  have own: "owns ?t d k \<longleftrightarrow> owns s d k \<and> k \<noteq> l" for d k
    using none pc uniq [of d] by (auto simp: owns_def)
  have o: "owned ?t d = owned s d - {l}" for d by (auto simp: owned_def own)
  show "locked (lks ?t k) \<noteq> 0 \<longleftrightarrow> (\<exists>d. owns ?t d k)" for k
    using lock_invD(1) [OF inv, of k] by (auto simp: own)
  show "owns ?t d k \<Longrightarrow> owns ?t e k \<Longrightarrow> d = e" for d e k
    using lock_invD(2) [OF inv, of d k e] unfolding own by auto
  show "pcs ?t d = Acquired k \<or> pcs ?t d = Clearing k \<Longrightarrow> lcpu (lks ?t k) = None" for d k
    using lock_invD(3) [OF inv, of d k] by (auto split: if_splits)
  show "finite (owned ?t d)" for d using lock_invD(4) [OF inv, of d] by (simp add: o)
  have "l \<in> owned s d \<longleftrightarrow> d = c" for d using uniq by (simp add: owned_def)
  then show "ncli (cpus ?t d) = int (card (owned ?t d)) + waits (pcs ?t d)" for d
    using lock_invD(5) [OF inv, of d] lock_invD(4) [OF inv, of d] pc n
      card_gt_0_iff [of "owned s d"]
    by (auto simp: o card_Diff_singleton of_nat_diff Suc_le_eq)
  show "ncli (cpus ?t d) > 0 \<Longrightarrow> \<not> iflag (cpus ?t d)" for d
    using lock_invD(6) [OF inv, of d] off by (auto split: if_splits)
qed

lemma lock_step_inv:
  assumes "lock_inv s" "lock_step s t"
  shows "lock_inv t"
  using assms(2,1)
proof (induction rule: lock_step.induct)
  case (step_acquire s c l cp)
  note inv = step_acquire.prems
  note a = acquire_enter_Ret [OF lock_inv_cpu_ok [OF inv] step_acquire(2)]
  show ?case
    by (rule inv_same_owners [OF inv])
      (use a step_acquire(1) lock_inv_half [OF inv] lock_invD(6) [OF inv] in \<open>auto simp: owns_def split: if_splits\<close>)
next
  case (step_spin s c l old lk)
  note inv = step_spin.prems
  show ?case
    by (rule inv_same_owners [OF inv])
      (use step_spin lock_inv_half [OF inv] lock_invD(6) [OF inv] in \<open>auto simp: owns_def xchg_def split: if_splits\<close>)
next
  case (step_got s c l old lk)
  then show ?case using step_got_inv [of s c l] by (auto simp: xchg_def)
next
  case (step_record s c l)
  note inv = step_record.prems
  have mine: "owns s c l" using step_record(1) by (simp add: owns_def)
  have uniq: "owns s d l \<Longrightarrow> d = c" for d using lock_invD(2) [OF inv, of d l c] mine by simp
  show ?case
    by (rule inv_same_owners [OF inv])
      (use step_record(1) uniq lock_inv_half [OF inv] lock_invD(6) [OF inv] in
        \<open>auto simp: owns_def acquire_record_def split: if_splits\<close>)
next
  case (step_release s c l lk cp)
  note inv = step_release.prems
  note r = release_enter_Ret [OF lock_inv_cpu_ok [OF inv] step_release(2)]
  show ?case
    by (rule inv_same_owners [OF inv])
      (use r step_release(1) lock_inv_half [OF inv] lock_invD(6) [OF inv] in \<open>auto simp: owns_def split: if_splits\<close>)
next
  case (step_store s c l lk cp)
  then show ?case
    using release_store_Ret [OF lock_inv_cpu_ok [OF step_store.prems] step_store(2)]
      step_store_inv [of s c l cp] by simp
next
  case (step_sti s c b)
  note inv = step_sti.prems
  show ?case
    by (rule inv_same_owners [OF inv])
      (use step_sti lock_inv_half [OF inv] lock_invD(6) [OF inv] in \<open>auto simp: owns_def split: if_splits\<close>)
qed

interpretation lockm: inductive_invariant lock_init lock_step lock_inv
  by unfold_locales (auto intro: lock_init_inv lock_step_inv)

text \<open>A concrete run for the witnesses: CPU 1 acquires lock 5 from a fresh state.\<close>

definition lock0 :: lockst where
  "lock0 = \<lparr>cpus = (\<lambda>_. \<lparr>ncli = 0, intena = False, iflag = True\<rparr>), lks = (\<lambda>_. initlock),
     pcs = (\<lambda>_. Running)\<rparr>"

definition lock1 :: lockst where
  "lock1 = \<lparr>cpus = (\<lambda>_. \<lparr>ncli = 0, intena = False, iflag = True\<rparr>)
       (1 := \<lparr>ncli = 1, intena = True, iflag = False\<rparr>),
     lks = (\<lambda>_. initlock)(5 := \<lparr>locked = 1, lcpu = Some 1\<rparr>), pcs = (\<lambda>_. Running)\<rparr>"

lemma lock1_reachable: "reachable lock_init lock_step lock1"
proof -
  have 0: "reachable lock_init lock_step lock0"
    by (rule reachable_init) (simp add: lock_init_def lock0_def)
  define a where "a = lock0\<lparr>cpus := (cpus lock0)(1 := \<lparr>ncli = 1, intena = True, iflag = False\<rparr>),
    pcs := (pcs lock0)(1 := Spinning 5)\<rparr>"
  have 1: "lock_step lock0 a" unfolding a_def
    by (rule step_acquire) (simp_all add: lock0_def initlock_def acquire_enter_def holding_def
        popcli_def pushcli_def Let_def)
  define b where "b = a\<lparr>lks := (lks a)(5 := \<lparr>locked = 1, lcpu = None\<rparr>),
    pcs := (pcs a)(1 := Acquired 5)\<rparr>"
  have 2: "lock_step a b" unfolding b_def
    by (rule step_got [where old = 0]) (simp_all add: a_def lock0_def initlock_def xchg_def)
  have 3: "lock_step b (b\<lparr>lks := (lks b)(5 := acquire_record (lks b 5) 1),
      pcs := (pcs b)(1 := Running)\<rparr>)"
    by (rule step_record) (simp add: b_def)
  have "b\<lparr>lks := (lks b)(5 := acquire_record (lks b 5) 1), pcs := (pcs b)(1 := Running)\<rparr> = lock1"
    by (simp add: a_def b_def lock0_def lock1_def acquire_record_def fun_eq_iff)
  then show ?thesis using 0 1 2 3 by (metis reachable_step)
qed

section \<open>Properties\<close>

text \<open>
  C12. Mutual exclusion: in every state the CPUs can reach by interleaving the instructions of
  \<open>acquire\<close> and \<open>release\<close>, at most one CPU is between its successful \<open>xchg\<close> and the store that
  frees the lock, and while one is, the lock word is set, so no other \<open>xchg\<close> succeeds.
\<close>

theorem spinlock_mutex:
  assumes "reachable lock_init lock_step s" and "owns s c l"
  shows "locked (lks s l) \<noteq> 0 \<and> (\<forall>d. owns s d l \<longleftrightarrow> d = c)"
  using lock_invD(1,2) [OF lockm.inv_reachable [OF assms(1)]] assms(2) by blast

theorem spinlock_mutex_witness: "locked (lks lock1 5) \<noteq> 0 \<and> (\<forall>d. owns lock1 d 5 \<longleftrightarrow> d = 1)"
  by (rule spinlock_mutex [OF lock1_reachable]) (simp add: owns_def lock1_def)

text \<open>
  C13. A CPU that holds a lock can always release it and cannot acquire it again, and no
  interrupt can deadlock it: in every reachable state in which \<open>lk->cpu\<close> is the CPU, its
  interrupts are off, \<open>release\<close> passes its check and \<open>acquire\<close> of the same lock panics,
  whereas \<open>acquire\<close> of a lock the CPU does not own always reaches its spin loop.
\<close>

theorem spinlock_holder:
  assumes "reachable lock_init lock_step s"
  shows "(lcpu (lks s l) = Some c \<longrightarrow>
      \<not> iflag (cpus s c) \<and> acquire_enter (lks s l) c (cpus s c) = Panic ''acquire'' \<and>
      (\<exists>cp. release_enter (lks s l) c (cpus s c) = Ret ((lks s l)\<lparr>lcpu := None\<rparr>, cp))) \<and>
    (\<not> owns s c l \<longrightarrow> (\<exists>cp. acquire_enter (lks s l) c (cpus s c) = Ret cp \<and> \<not> iflag cp))"
proof -
  note inv = lockm.inv_reachable [OF assms]
  have ok: "cpu_ok (cpus s c)" by (rule lock_inv_cpu_ok [OF inv])
  obtain c1 where h1: "holding (lks s l) c (cpus s c) =
      Ret (locked (lks s l) \<noteq> 0 \<and> lcpu (lks s l) = Some c, c1)"
    using holding_spec [OF ok] by blast
  obtain c2 where h2: "holding (lks s l) c (pushcli (cpus s c)) =
      Ret (locked (lks s l) \<noteq> 0 \<and> lcpu (lks s l) = Some c, c2)" "\<not> iflag c2"
    using holding_spec [OF cpu_ok_pushcli [OF ok], of "lks s l" c] by auto
  have pos: "ncli (cpus s c) > 0" if "owns s c l"
  proof -
    have "card (owned s c) > 0"
      using that lock_invD(4) [OF inv, of c] by (auto simp: owned_def card_gt_0_iff)
    then show ?thesis using lock_invD(5) [OF inv, of c] by (cases "pcs s c") simp_all
  qed
  have own: "owns s c l \<and> locked (lks s l) \<noteq> 0" if "lcpu (lks s l) = Some c"
    using that lock_invD(1) [OF inv, of l] by (auto simp: owns_def)
  have "\<not> owns s c l \<Longrightarrow> lcpu (lks s l) \<noteq> Some c" by (simp add: owns_def)
  then show ?thesis
    using own pos lock_invD(6) [OF inv, of c] h2(2)
    by (simp add: acquire_enter_def release_enter_def h1 h2(1))
qed

theorem spinlock_holder_witness:
  "\<not> iflag (cpus lock1 1) \<and> acquire_enter (lks lock1 5) 1 (cpus lock1 1) = Panic ''acquire'' \<and>
   (\<exists>cp. release_enter (lks lock1 5) 1 (cpus lock1 1) = Ret (initlock\<lparr>locked := 1\<rparr>, cp))"
  using spinlock_holder [OF lock1_reachable, of 5 1]
  by (simp add: lock1_def initlock_def)

end
