(* ===== verification/Bio.thy ===== *)
theory Bio
  imports Locks
begin

text \<open>
  The buffer cache (\<open>xv6/bio.c\<close>) over the memory disk (\<open>xv6/memide.c\<close>).

  A buffer is a record of the fields of \<open>struct buf\<close>; the MRU list is the list of buffer
  indices in the order of \<open>head.next\<close> (theory \<open>Lru\<close> proves that the \<open>prev\<close>/\<open>next\<close> pointers
  implement it). The operations run for one process, \<open>curpid\<close>, one after the other; an
  operation that has to wait for a buffer another process holds ends in \<open>Sleep\<close>. The list
  \<open>writes\<close> is a history variable: the disk writes in the order in which they were done, from
  which theory \<open>Log\<close> derives what a crash leaves on disk.

  The abstraction of the cache is its \<^emph>\<open>view\<close>: the contents a reader of a block sees. The
  contracts at the end describe each operation by its effect on the view, on the set of
  held blocks and on the set of pinned (dirty) blocks.
\<close>

section \<open>State\<close>

type_synonym blk = "byte list"

record buf =
  bflags :: uint
  bdev :: uint
  bblockno :: uint
  block :: sleeplock
  brefcnt :: uint
  bdata :: blk

abbreviation "B_VALID \<equiv> (2 :: uint)"
abbreviation "B_DIRTY \<equiv> (4 :: uint)"

record kbio =
  bufs :: "buf list"
  mru :: "nat list"
  memdisk :: "blk list"
  writes :: "(uint \<times> blk) list"
  curpid :: int

definition updbuf :: "nat \<Rightarrow> buf \<Rightarrow> 'a kbio_scheme \<Rightarrow> 'a kbio_scheme" where
  "updbuf i b s = s\<lparr>bufs := (bufs s)[i := b]\<rparr>"

definition zerobuf :: buf where
  "zerobuf = \<lparr>bflags = 0, bdev = 0, bblockno = 0, block = initsleeplock, brefcnt = 0,
     bdata = replicate BSIZE 0\<rparr>"

section \<open>Operations\<close>

definition binit :: "'a kbio_scheme \<Rightarrow> 'a kbio_scheme" where
  "binit s = s\<lparr>bufs := replicate NBUF zerobuf, mru := foldl (\<lambda>l b. b # l) [] [0..<NBUF]\<rparr>"

definition bget :: "uint \<Rightarrow> uint \<Rightarrow> 'a kbio_scheme \<Rightarrow> (nat \<times> 'a kbio_scheme) res" where
  "bget dev blockno s =
     (case find (\<lambda>i. bdev (bufs s ! i) = dev \<and> bblockno (bufs s ! i) = blockno) (mru s) of
        Some i \<Rightarrow>
          (let b = (bufs s ! i)\<lparr>brefcnt := brefcnt (bufs s ! i) + 1\<rparr>
           in bindR (acquiresleep (ChBuf i) (curpid s) (block b)) (\<lambda>lk.
              Ret (i, updbuf i (b\<lparr>block := lk\<rparr>) s)))
      | None \<Rightarrow>
          (case find (\<lambda>i. brefcnt (bufs s ! i) = 0 \<and> bflags (bufs s ! i) AND B_DIRTY = 0)
                  (rev (mru s)) of
             Some i \<Rightarrow>
               (let b = (bufs s ! i)\<lparr>bdev := dev, bblockno := blockno, bflags := 0, brefcnt := 1\<rparr>
                in bindR (acquiresleep (ChBuf i) (curpid s) (block b)) (\<lambda>lk.
                   Ret (i, updbuf i (b\<lparr>block := lk\<rparr>) s)))
           | None \<Rightarrow> Panic ''bget: no buffers''))"

definition iderw :: "nat \<Rightarrow> 'a kbio_scheme \<Rightarrow> 'a kbio_scheme res" where
  "iderw i s =
     (let b = bufs s ! i in
      if \<not> holdingsleep (curpid s) (block b) then Panic ''iderw: buf not locked''
      else if bflags b AND (B_VALID OR B_DIRTY) = B_VALID then Panic ''iderw: nothing to do''
      else if bdev b \<noteq> 1 then Panic ''iderw: request not for disk 1''
      else if unat (bblockno b) \<ge> length (memdisk s) then Panic ''iderw: block out of range''
      else if bflags b AND B_DIRTY \<noteq> 0 then
        Ret (updbuf i (b\<lparr>bflags := (bflags b AND NOT B_DIRTY) OR B_VALID\<rparr>)
          (s\<lparr>memdisk := (memdisk s)[unat (bblockno b) := bdata b],
             writes := writes s @ [(bblockno b, bdata b)]\<rparr>))
      else
        Ret (updbuf i (b\<lparr>bdata := memdisk s ! unat (bblockno b), bflags := bflags b OR B_VALID\<rparr>) s))"

definition bread :: "uint \<Rightarrow> uint \<Rightarrow> 'a kbio_scheme \<Rightarrow> (nat \<times> 'a kbio_scheme) res" where
  "bread dev blockno s =
     bindR (bget dev blockno s) (\<lambda>(i, s).
     if bflags (bufs s ! i) AND B_VALID = 0
     then bindR (iderw i s) (\<lambda>s. Ret (i, s))
     else Ret (i, s))"

definition bwrite :: "nat \<Rightarrow> 'a kbio_scheme \<Rightarrow> 'a kbio_scheme res" where
  "bwrite i s =
     (let b = bufs s ! i in
      if \<not> holdingsleep (curpid s) (block b) then Panic ''bwrite''
      else iderw i (updbuf i (b\<lparr>bflags := bflags b OR B_DIRTY\<rparr>) s))"

definition brelse :: "nat \<Rightarrow> 'a kbio_scheme \<Rightarrow> 'a kbio_scheme res" where
  "brelse i s =
     (let b = bufs s ! i in
      if \<not> holdingsleep (curpid s) (block b) then Panic ''brelse''
      else
        let b = b\<lparr>block := releasesleep (block b), brefcnt := brefcnt b - 1\<rparr>;
            s = updbuf i b s
        in Ret (if brefcnt b = 0 then s\<lparr>mru := i # remove1 i (mru s)\<rparr> else s))"

text \<open>The stores of a client into the data of a buffer it holds.\<close>

definition setdata :: "nat \<Rightarrow> blk \<Rightarrow> 'a kbio_scheme \<Rightarrow> 'a kbio_scheme" where
  "setdata i d s = updbuf i ((bufs s ! i)\<lparr>bdata := d\<rparr>) s"

section \<open>Abstraction and invariant\<close>

definition view :: "'a kbio_scheme \<Rightarrow> uint \<Rightarrow> blk" where
  "view s bn =
     (case find (\<lambda>i. bdev (bufs s ! i) = 1 \<and> bblockno (bufs s ! i) = bn) (mru s) of
        Some i \<Rightarrow> bdata (bufs s ! i)
      | None \<Rightarrow> memdisk s ! unat bn)"

definition cached :: "'a kbio_scheme \<Rightarrow> uint \<Rightarrow> nat \<Rightarrow> bool" where
  "cached s bn i \<longleftrightarrow> i < NBUF \<and> bdev (bufs s ! i) = 1 \<and> bblockno (bufs s ! i) = bn"

definition held :: "'a kbio_scheme \<Rightarrow> uint set" where
  "held s = {bn. \<exists>i. cached s bn i \<and> slocked (block (bufs s ! i))}"

definition pinned :: "'a kbio_scheme \<Rightarrow> uint set" where
  "pinned s = {bn. \<exists>i. cached s bn i \<and> bflags (bufs s ! i) = 6}"

text \<open>
  The invariant between operations of one process: the MRU list is a permutation of the
  buffers, no two buffers cache the same block, and a buffer that is neither dirty nor held
  agrees with the disk.
\<close>

definition buf_ok :: "blk list \<Rightarrow> int \<Rightarrow> buf \<Rightarrow> bool" where
  "buf_ok disk pid b \<longleftrightarrow>
     length (bdata b) = BSIZE \<and>
     brefcnt b = (if slocked (block b) then 1 else 0) \<and>
     (slocked (block b) \<longrightarrow> spid (block b) = pid) \<and>
     (if bdev b = 1
      then unat (bblockno b) < length disk \<and> (bflags b = 2 \<or> bflags b = 6) \<and>
        (bflags b = 2 \<longrightarrow> \<not> slocked (block b) \<longrightarrow> bdata b = disk ! unat (bblockno b))
      else bflags b = 0 \<and> \<not> slocked (block b))"

definition bio_inv :: "'a kbio_scheme \<Rightarrow> bool" where
  "bio_inv s \<longleftrightarrow>
     length (bufs s) = NBUF \<and> distinct (mru s) \<and> set (mru s) = {..<NBUF} \<and>
     (\<forall>d \<in> set (memdisk s). length d = BSIZE) \<and>
     (\<forall>i < NBUF. buf_ok (memdisk s) (curpid s) (bufs s ! i)) \<and>
     (\<forall>bn i j. cached s bn i \<longrightarrow> cached s bn j \<longrightarrow> i = j)"

lemma bio_invD:
  assumes "bio_inv s"
  shows "length (bufs s) = NBUF" "distinct (mru s)" "set (mru s) = {..<NBUF}"
    and "d \<in> set (memdisk s) \<Longrightarrow> length d = BSIZE"
    and "i < NBUF \<Longrightarrow> buf_ok (memdisk s) (curpid s) (bufs s ! i)"
    and "cached s bn i \<Longrightarrow> cached s bn j \<Longrightarrow> i = j"
  using assms unfolding bio_inv_def by blast+

lemma bio_invI:
  assumes "length (bufs s) = NBUF" "distinct (mru s)" "set (mru s) = {..<NBUF}"
    and "\<And>d. d \<in> set (memdisk s) \<Longrightarrow> length d = BSIZE"
    and "\<And>i. i < NBUF \<Longrightarrow> buf_ok (memdisk s) (curpid s) (bufs s ! i)"
    and "\<And>bn i j. cached s bn i \<Longrightarrow> cached s bn j \<Longrightarrow> i = j"
  shows "bio_inv s"
  using assms unfolding bio_inv_def by blast

lemma cached_find:
  assumes "bio_inv s"
  shows "find (\<lambda>i. bdev (bufs s ! i) = 1 \<and> bblockno (bufs s ! i) = bn) (mru s) = Some i
    \<longleftrightarrow> cached s bn i"
proof
  assume "find (\<lambda>i. bdev (bufs s ! i) = 1 \<and> bblockno (bufs s ! i) = bn) (mru s) = Some i"
  then show "cached s bn i" using bio_invD(3) [OF assms] by (auto simp: cached_def dest: find_SomeD)
next
  assume c: "cached s bn i"
  then have "i \<in> set (mru s)" using bio_invD(3) [OF assms] by (simp add: cached_def)
  then obtain j where j: "find (\<lambda>i. bdev (bufs s ! i) = 1 \<and> bblockno (bufs s ! i) = bn) (mru s) = Some j"
    using c by (cases "find (\<lambda>i. bdev (bufs s ! i) = 1 \<and> bblockno (bufs s ! i) = bn) (mru s)")
      (auto simp: find_None_iff cached_def)
  then have "cached s bn j" using bio_invD(3) [OF assms] by (auto simp: cached_def dest: find_SomeD)
  then show "find (\<lambda>i. bdev (bufs s ! i) = 1 \<and> bblockno (bufs s ! i) = bn) (mru s) = Some i"
    using bio_invD(6) [OF assms c] j by simp
qed

lemma cached_find_None:
  assumes "bio_inv s"
  shows "find (\<lambda>i. bdev (bufs s ! i) = 1 \<and> bblockno (bufs s ! i) = bn) (mru s) = None
    \<longleftrightarrow> (\<forall>i. \<not> cached s bn i)"
  using cached_find [OF assms, of bn]
  by (cases "find (\<lambda>i. bdev (bufs s ! i) = 1 \<and> bblockno (bufs s ! i) = bn) (mru s)") auto

lemma view_cached: "bio_inv s \<Longrightarrow> cached s bn i \<Longrightarrow> view s bn = bdata (bufs s ! i)"
  by (simp add: view_def cached_find [THEN iffD2])

lemma view_uncached: "bio_inv s \<Longrightarrow> \<forall>i. \<not> cached s bn i \<Longrightarrow> view s bn = memdisk s ! unat bn"
  by (simp add: view_def cached_find_None [THEN iffD2])

lemma length_view:
  assumes "bio_inv s" "unat bn < length (memdisk s)"
  shows "length (view s bn) = BSIZE"
proof (cases "\<exists>i. cached s bn i")
  case True
  then obtain i where c: "cached s bn i" ..
  then show ?thesis using bio_invD(5) [OF assms(1), of i] assms(1)
    by (simp add: view_cached buf_ok_def cached_def)
qed (use assms in \<open>simp add: view_uncached bio_invD(4)\<close>)

lemma view_clean:
  assumes "bio_inv s" "bn \<notin> held s" "bn \<notin> pinned s"
  shows "view s bn = memdisk s ! unat bn"
proof (cases "\<exists>i. cached s bn i")
  case True
  then obtain i where c: "cached s bn i" ..
  then have "buf_ok (memdisk s) (curpid s) (bufs s ! i)"
    using bio_invD(5) [OF assms(1)] by (simp add: cached_def)
  then show ?thesis using c assms
    by (auto simp: view_cached buf_ok_def held_def pinned_def cached_def)
qed (simp add: view_uncached assms)

lemma updbuf_simps [simp]:
  "memdisk (updbuf i b s) = memdisk s" "mru (updbuf i b s) = mru s"
  "writes (updbuf i b s) = writes s" "curpid (updbuf i b s) = curpid s"
  "length (bufs (updbuf i b s)) = length (bufs s)" "updbuf i c (updbuf i b s) = updbuf i c s"
  "bufs (updbuf i b s) = (bufs s)[i := b]"
  by (simp_all add: updbuf_def)

lemma cached_updbuf:
  assumes "length (bufs s) = NBUF" "i < NBUF"
  shows "cached (updbuf i b s) bn j \<longleftrightarrow>
    (if j = i then bdev b = 1 \<and> bblockno b = bn else cached s bn j)"
  using assms by (auto simp: cached_def)

lemma updbuf_inv:
  assumes "bio_inv s" "i < NBUF" "buf_ok (memdisk s) (curpid s) b"
    and "\<And>j. bdev b = 1 \<Longrightarrow> cached s (bblockno b) j \<Longrightarrow> j = i"
  shows "bio_inv (updbuf i b s)"
proof (rule bio_invI)
  note c = cached_updbuf [OF bio_invD(1) [OF assms(1)] assms(2)]
  have new: "m = i" if "bdev b = 1" "bblockno b = bn" "cached (updbuf i b s) bn m" for bn m
    using that(3) assms(4) [OF that(1), of m] unfolding c that(2) by (cases "m = i") simp_all
  show "k = j" if k: "cached (updbuf i b s) bn k" and j: "cached (updbuf i b s) bn j" for bn k j
  proof (cases "k = i \<or> j = i")
    case True
    then have "bdev b = 1 \<and> bblockno b = bn" using k j unfolding c by auto
    then show ?thesis using new [of bn k] new [of bn j] k j by simp
  next
    case False
    then have "cached s bn k" "cached s bn j" using k j unfolding c by simp_all
    then show ?thesis by (rule bio_invD(6) [OF assms(1)])
  qed
  show "k < NBUF \<Longrightarrow> buf_ok (memdisk (updbuf i b s)) (curpid (updbuf i b s)) (bufs (updbuf i b s) ! k)" for k
    using bio_invD(1,5) [OF assms(1)] assms(2,3) by (cases "k = i") simp_all
qed (use assms(1) in \<open>auto simp: bio_inv_def\<close>)

text \<open>A change of the buffer that caches block \<open>bn\<close>.\<close>

lemma updbuf_same:
  assumes inv: "bio_inv s" and c: "cached s bn i" and b: "bdev b = 1" "bblockno b = bn"
  shows "cached (updbuf i b s) = cached s"
    and "held (updbuf i b s) = (if slocked (block b) then insert bn (held s) else held s - {bn})"
    and "pinned (updbuf i b s) = (if bflags b = 6 then insert bn (pinned s) else pinned s - {bn})"
    and "buf_ok (memdisk s) (curpid s) b \<Longrightarrow> view (updbuf i b s) = (view s)(bn := bdata b)"
proof -
  have i: "i < NBUF" using c by (simp add: cached_def)
  note len = bio_invD(1) [OF inv]
  have only: "cached s m i \<longleftrightarrow> m = bn" for m using c by (auto simp: cached_def)
  have uniq: "cached s bn j \<longleftrightarrow> j = i" for j using bio_invD(6) [OF inv c] c by blast
  show cs: "cached (updbuf i b s) = cached s"
    using b c by (intro ext) (auto simp: cached_updbuf [OF len i] only)
  have bi: "bufs (updbuf i b s) ! j = (if j = i then b else bufs s ! j)" for j
    using i len by simp
  have sel: "{m. \<exists>j. cached s m j \<and> P (if j = i then b else bufs s ! j)} =
      (if P b then insert bn {m. \<exists>j. cached s m j \<and> P (bufs s ! j)}
       else {m. \<exists>j. cached s m j \<and> P (bufs s ! j)} - {bn})" for P
  proof (rule set_eqI)
    fix m
    show "m \<in> {m. \<exists>j. cached s m j \<and> P (if j = i then b else bufs s ! j)} \<longleftrightarrow>
      m \<in> (if P b then insert bn {m. \<exists>j. cached s m j \<and> P (bufs s ! j)}
       else {m. \<exists>j. cached s m j \<and> P (bufs s ! j)} - {bn})"
    proof (cases "m = bn")
      case False
      then have "cached s m j \<Longrightarrow> j \<noteq> i" for j using only by blast
      then have "(\<exists>j. cached s m j \<and> P (if j = i then b else bufs s ! j)) \<longleftrightarrow>
        (\<exists>j. cached s m j \<and> P (bufs s ! j))" by (intro ex_cong1) auto
      then show ?thesis using False by simp
    qed (simp add: uniq)
  qed
  show "held (updbuf i b s) = (if slocked (block b) then insert bn (held s) else held s - {bn})"
    unfolding held_def cs bi by (rule sel [of "\<lambda>b. slocked (block b)"])
  show "pinned (updbuf i b s) = (if bflags b = 6 then insert bn (pinned s) else pinned s - {bn})"
    unfolding pinned_def cs bi by (rule sel [of "\<lambda>b. bflags b = 6"])
  show "view (updbuf i b s) = (view s)(bn := bdata b)" if ok: "buf_ok (memdisk s) (curpid s) b"
  proof
    fix m
    have inv': "bio_inv (updbuf i b s)"
      by (rule updbuf_inv [OF inv i ok]) (use b uniq in simp)
    show "view (updbuf i b s) m = ((view s)(bn := bdata b)) m"
    proof (cases "\<exists>j. cached s m j")
      case True
      then obtain j where j: "cached s m j" ..
      then show ?thesis using view_cached [OF inv j] view_cached [OF inv', of m j] uniq only
        unfolding cs bi by auto
    next
      case False
      then have "m \<noteq> bn" using c by blast
      then show ?thesis using False view_uncached [OF inv, of m] view_uncached [OF inv', of m] cs by simp
    qed
  qed
qed

text \<open>A free buffer becomes the buffer of the uncached block \<open>bn\<close>.\<close>

lemma recycle:
  assumes inv: "bio_inv s" and i: "i < NBUF" and bn: "unat bn < length (memdisk s)"
    and free: "brefcnt (bufs s ! i) = 0" "bflags (bufs s ! i) \<noteq> 6"
    and nc: "\<forall>j. \<not> cached s bn j"
    and b: "b = \<lparr>bflags = 2, bdev = 1, bblockno = bn, block = \<lparr>slocked = True, spid = curpid s\<rparr>,
        brefcnt = 1, bdata = memdisk s ! unat bn\<rparr>"
  shows "bio_inv (updbuf i b s)" "cached (updbuf i b s) bn i"
    "held (updbuf i b s) = insert bn (held s)" "pinned (updbuf i b s) = pinned s"
    "view (updbuf i b s) = view s"
    "m \<in> held s \<Longrightarrow> cached s m j \<Longrightarrow> cached (updbuf i b s) m j"
proof -
  note len = bio_invD(1) [OF inv]
  note c = cached_updbuf [OF len i, of b]
  have oki: "buf_ok (memdisk s) (curpid s) (bufs s ! i)" by (rule bio_invD(5) [OF inv i])
  have ul: "\<not> slocked (block (bufs s ! i))" using oki free by (auto simp: buf_ok_def split: if_splits)
  show inv': "bio_inv (updbuf i b s)"
    by (rule updbuf_inv [OF inv i]) (use bio_invD(4) [OF inv] bn nc in \<open>auto simp: b buf_ok_def\<close>)
  show ci: "cached (updbuf i b s) bn i" unfolding c by (simp add: b)
  have bi: "bufs (updbuf i b s) ! j = (if j = i then b else bufs s ! j)" for j
    using i len by simp
  show "held (updbuf i b s) = insert bn (held s)"
    unfolding held_def c bi using nc ul by (auto simp: b split: if_splits)
  show "pinned (updbuf i b s) = pinned s"
    unfolding pinned_def c bi using nc free by (auto simp: b split: if_splits)
  show "cached (updbuf i b s) m j" if m: "m \<in> held s" and j: "cached s m j" for m j
  proof -
    obtain k where "cached s m k" "slocked (block (bufs s ! k))" using m unfolding held_def by blast
    then have "j \<noteq> i" using bio_invD(6) [OF inv j] ul by blast
    then show ?thesis using j by (simp add: c)
  qed
  show "view (updbuf i b s) = view s"
  proof
    fix m
    consider "m = bn" | "m \<noteq> bn" "\<exists>j. cached s m j \<and> j \<noteq> i" | "m \<noteq> bn" "cached s m i"
      | "m \<noteq> bn" "\<forall>j. \<not> cached s m j" by blast
    then show "view (updbuf i b s) m = view s m"
    proof cases
      case 1
      then show ?thesis using view_cached [OF inv' ci] view_uncached [OF inv nc] i len by (simp add: b)
    next
      case 2
      then obtain j where j: "cached s m j" "j \<noteq> i" by blast
      then have "cached (updbuf i b s) m j" by (simp add: c)
      then show ?thesis using view_cached [OF inv j(1)] view_cached [OF inv', of m j] j(2) by simp
    next
      case 3
      have u: "cached s m j \<longleftrightarrow> j = i" for j using bio_invD(6) [OF inv 3(2), of j] 3(2) by blast
      have "\<forall>j. \<not> cached (updbuf i b s) m j" unfolding c using 3(1) by (simp add: b u)
      then have "view (updbuf i b s) m = memdisk s ! unat m" using view_uncached [OF inv', of m] by simp
      moreover from u have "m \<notin> held s" "m \<notin> pinned s" using ul free(2) by (simp_all add: held_def pinned_def)
      ultimately show ?thesis using view_clean [OF inv, of m] by simp
    next
      case 4
      then have n: "\<forall>j. \<not> cached (updbuf i b s) m j" unfolding c by (simp add: b)
      show ?thesis unfolding view_uncached [OF inv' n] view_uncached [OF inv 4(2)] by simp
    qed
  qed
qed

lemma held_pinned_finite: "finite (held s \<union> pinned s)"
proof -
  have "bn \<in> (\<lambda>i. bblockno (bufs s ! i)) ` {..<NBUF}" if "cached s bn i" for bn i
    using that unfolding cached_def by blast
  then have "held s \<union> pinned s \<subseteq> (\<lambda>i. bblockno (bufs s ! i)) ` {..<NBUF}"
    unfolding held_def pinned_def by blast
  then show ?thesis by (rule finite_subset) (rule finite_imageI, rule finite_lessThan)
qed

lemma heldI: "cached s bn i \<Longrightarrow> slocked (block (bufs s ! i)) \<Longrightarrow> bn \<in> held s"
  unfolding held_def by blast

lemma pinnedI: "cached s bn i \<Longrightarrow> bflags (bufs s ! i) = 6 \<Longrightarrow> bn \<in> pinned s"
  unfolding pinned_def by blast

lemma busy_buf:
  assumes inv: "bio_inv s" and i: "i < NBUF"
    and busy: "\<not> (brefcnt (bufs s ! i) = 0 \<and> bflags (bufs s ! i) \<noteq> 6)"
  shows "cached s (bblockno (bufs s ! i)) i" "bblockno (bufs s ! i) \<in> held s \<union> pinned s"
proof -
  have *: "bdev (bufs s ! i) = 1 \<and> (slocked (block (bufs s ! i)) \<or> bflags (bufs s ! i) = 6)"
    using bio_invD(5) [OF inv i] busy unfolding buf_ok_def
    by (cases "bdev (bufs s ! i) = 1"; cases "slocked (block (bufs s ! i))") simp_all
  then show c: "cached s (bblockno (bufs s ! i)) i" unfolding cached_def using i by blast
  show "bblockno (bufs s ! i) \<in> held s \<union> pinned s" using * heldI [OF c] pinnedI [OF c] by blast
qed

text \<open>Fewer than \<open>NBUF\<close> blocks held or pinned: \<open>bget\<close> finds a buffer to recycle.\<close>

lemma exists_free_buf:
  assumes inv: "bio_inv s" and room: "card (held s \<union> pinned s) < NBUF"
  shows "\<exists>i<NBUF. brefcnt (bufs s ! i) = 0 \<and> bflags (bufs s ! i) \<noteq> 6"
proof (rule ccontr)
  assume "\<not> (\<exists>i<NBUF. brefcnt (bufs s ! i) = 0 \<and> bflags (bufs s ! i) \<noteq> 6)"
  then have busy: "\<not> (brefcnt (bufs s ! i) = 0 \<and> bflags (bufs s ! i) \<noteq> 6)" if "i < NBUF" for i
    using that by blast
  have "inj_on (\<lambda>i. bblockno (bufs s ! i)) {..<NBUF}"
  proof (rule inj_onI)
    fix i j assume ij: "i \<in> {..<NBUF}" "j \<in> {..<NBUF}" and eq: "bblockno (bufs s ! i) = bblockno (bufs s ! j)"
    have "cached s (bblockno (bufs s ! j)) i" using busy_buf(1) [OF inv _ busy] ij eq by (metis lessThan_iff)
    moreover have "cached s (bblockno (bufs s ! j)) j" using busy_buf(1) [OF inv _ busy] ij by blast
    ultimately show "i = j" by (rule bio_invD(6) [OF inv])
  qed
  from card_image [OF this] have "card ((\<lambda>i. bblockno (bufs s ! i)) ` {..<NBUF}) = NBUF"
    by (rule trans) (rule card_lessThan)
  moreover have "(\<lambda>i. bblockno (bufs s ! i)) ` {..<NBUF} \<subseteq> held s \<union> pinned s"
    using busy_buf(2) [OF inv _ busy] by blast
  then have "card ((\<lambda>i. bblockno (bufs s ! i)) ` {..<NBUF}) \<le> card (held s \<union> pinned s)"
    by (rule card_mono [OF held_pinned_finite])
  ultimately show False using room by linarith
qed

section \<open>Contracts of the operations\<close>

text \<open>Only the cache and the disk change; the fields of an extended record do not.\<close>

definition bio_frame :: "'a kbio_scheme \<Rightarrow> 'a kbio_scheme \<Rightarrow> bool" where
  "bio_frame s t \<longleftrightarrow>
     t = s\<lparr>bufs := bufs t, mru := mru t, memdisk := memdisk t, writes := writes t\<rparr>"

lemma bio_frame_refl [simp]: "bio_frame s s"
  by (simp add: bio_frame_def)

lemma bio_frame_curpid: "bio_frame s t \<Longrightarrow> curpid t = curpid s"
  unfolding bio_frame_def by (drule arg_cong [where f = curpid]) simp

lemma bio_frame_trans: "bio_frame s t \<Longrightarrow> bio_frame t u \<Longrightarrow> bio_frame s u"
  unfolding bio_frame_def by (cases s; cases t; cases u) simp

lemma bio_frame_updbuf [simp]: "bio_frame s (updbuf i b s)"
  by (simp add: bio_frame_def updbuf_def)

text \<open>
  What \<open>bread\<close> gives its caller. \<open>bread_post bn s i t\<close>: the call returned buffer \<open>i\<close> for block
  \<open>bn\<close>, held, with the view, the pinned blocks, the disk and the buffers of the other held
  blocks unchanged.
\<close>

definition bread_post :: "uint \<Rightarrow> 'a kbio_scheme \<Rightarrow> nat \<Rightarrow> 'a kbio_scheme \<Rightarrow> bool" where
  "bread_post bn s i t \<longleftrightarrow>
     bio_inv t \<and> bio_frame s t \<and> cached t bn i \<and> held t = insert bn (held s) \<and>
     pinned t = pinned s \<and> view t = view s \<and> memdisk t = memdisk s \<and> writes t = writes s \<and>
     (\<forall>m \<in> held s. \<forall>j. cached s m j \<longrightarrow> cached t m j)"

lemma notheld_unlocked: "cached s bn i \<Longrightarrow> bn \<notin> held s \<Longrightarrow> \<not> slocked (block (bufs s ! i))"
  unfolding held_def by blast

lemma sleeplock_all_fields: "(lk :: sleeplock)\<lparr>slocked := l, spid := p\<rparr> = \<lparr>slocked = l, spid = p\<rparr>"
  by (cases lk) simp

lemma bread_hit:
  assumes inv: "bio_inv s" and nh: "bn \<notin> held s" and c: "cached s bn i"
  shows "\<exists>t. bread 1 bn s = Ret (i, t) \<and> bread_post bn s i t"
proof -
  let ?b = "bufs s ! i"
  define b where "b = ?b\<lparr>brefcnt := 1, block := \<lparr>slocked = True, spid = curpid s\<rparr>\<rparr>"
  have i: "i < NBUF" and d: "bdev ?b = 1" "bblockno ?b = bn" using c by (simp_all add: cached_def)
  have ul: "\<not> slocked (block ?b)" by (rule notheld_unlocked [OF c nh])
  have ok: "buf_ok (memdisk s) (curpid s) ?b" by (rule bio_invD(5) [OF inv i])
  have ok': "buf_ok (memdisk s) (curpid s) b" using ok d by (simp add: b_def buf_ok_def)
  have fl: "bflags ?b = 2 \<or> bflags ?b = 6" and rc: "brefcnt ?b = 0"
    using ok d ul by (simp_all add: buf_ok_def)
  have db: "bdev b = 1" "bblockno b = bn" "slocked (block b)" "bdata b = view s bn"
    "bflags b = bflags ?b" using d view_cached [OF inv c] by (simp_all add: b_def)
  have inv': "bio_inv (updbuf i b s)"
    by (rule updbuf_inv [OF inv i ok']) (use db bio_invD(6) [OF inv c] in blast)
  note same = updbuf_same [OF inv c db(1,2)]
  have pin: "bflags ?b = 6 \<longleftrightarrow> bn \<in> pinned s"
    using pinnedI [OF c] bio_invD(6) [OF inv c] unfolding pinned_def by blast
  have "bflags (bufs (updbuf i b s) ! i) AND B_VALID \<noteq> 0"
    using fl db(5) i bio_invD(1) [OF inv] by auto
  moreover have "bget 1 bn s = Ret (i, updbuf i b s)"
    using ul rc unfolding bget_def cached_find [OF inv, THEN iffD2, OF c]
    by (simp add: Let_def acquiresleep_def b_def sleeplock_all_fields)
  ultimately have "bread 1 bn s = Ret (i, updbuf i b s)" by (simp add: bread_def)
  moreover have "bread_post bn s i (updbuf i b s)"
    unfolding bread_post_def same(1) using same(2,3) same(4) [OF ok'] inv' c db pin by auto
  ultimately show ?thesis by blast
qed

lemma bread_miss:
  assumes inv: "bio_inv s" and bn: "unat bn < length (memdisk s)" and nc: "\<forall>j. \<not> cached s bn j"
    and room: "card (held s \<union> pinned s) < NBUF"
  shows "\<exists>i t. bread 1 bn s = Ret (i, t) \<and> bread_post bn s i t"
proof -
  let ?P = "\<lambda>i. brefcnt (bufs s ! i) = 0 \<and> bflags (bufs s ! i) AND B_DIRTY = 0"
  have flags: "bflags (bufs s ! i) AND B_DIRTY = 0 \<longleftrightarrow> bflags (bufs s ! i) \<noteq> 6" if "i < NBUF" for i
    using bio_invD(5) [OF inv that] by (auto simp: buf_ok_def split: if_splits)
  obtain k where "k < NBUF" "?P k" using exists_free_buf [OF inv room] flags by blast
  then have "find ?P (rev (mru s)) \<noteq> None"
    unfolding find_None_iff using bio_invD(3) [OF inv] by auto
  then obtain i where f: "find ?P (rev (mru s)) = Some i" by blast
  then have Pi: "?P i" and "i \<in> set (rev (mru s))" by (auto dest: find_SomeD)
  then have i: "i < NBUF" using bio_invD(3) [OF inv] by auto
  define b where "b = \<lparr>bflags = 2, bdev = 1, bblockno = bn,
    block = \<lparr>slocked = True, spid = curpid s\<rparr>, brefcnt = 1, bdata = memdisk s ! unat bn\<rparr>"
  have ul: "\<not> slocked (block (bufs s ! i))"
    using bio_invD(5) [OF inv i] Pi by (auto simp: buf_ok_def split: if_splits)
  note r = recycle [OF inv i bn _ _ nc b_def]
  have "bget 1 bn s = Ret (i, updbuf i (b\<lparr>bflags := 0, bdata := bdata (bufs s ! i)\<rparr>) s)"
    unfolding bget_def cached_find_None [OF inv, THEN iffD2, OF nc] f using ul
    by (cases "bufs s ! i") (simp add: Let_def acquiresleep_def b_def sleeplock_all_fields)
  then have "bread 1 bn s = Ret (i, updbuf i b s)"
    using i bio_invD(1) [OF inv] bn
    by (simp add: bread_def iderw_def b_def holdingsleep_def)
  moreover have "bread_post bn s i (updbuf i b s)"
    unfolding bread_post_def using r Pi flags [OF i] by simp
  ultimately show ?thesis by blast
qed

lemma bread_spec:
  assumes "bio_inv s" "unat bn < length (memdisk s)" "bn \<notin> held s"
    and "card (held s \<union> pinned s) < NBUF \<or> (\<exists>j. cached s bn j)"
  obtains i t where "bread 1 bn s = Ret (i, t)" "bread_post bn s i t"
  using bread_hit [OF assms(1,3)] bread_miss [OF assms(1,2)] assms(4) by metis

lemma bread_postD:
  assumes "bread_post bn s i t"
  shows "bio_inv t" "bio_frame s t" "cached t bn i" "held t = insert bn (held s)"
    "pinned t = pinned s" "view t = view s" "memdisk t = memdisk s" "writes t = writes s"
    "bdata (bufs t ! i) = view s bn"
    "m \<in> held s \<Longrightarrow> cached s m j \<Longrightarrow> cached t m j"
  using assms view_cached [of t bn i] unfolding bread_post_def by auto

text \<open>The stores into a held buffer change the view of its block only.\<close>

lemma held_cached:
  assumes "bio_inv s" "cached s bn i" "bn \<in> held s"
  shows "slocked (block (bufs s ! i))" "spid (block (bufs s ! i)) = curpid s"
    "bdev (bufs s ! i) = 1" "bblockno (bufs s ! i) = bn" "i < NBUF" "brefcnt (bufs s ! i) = 1"
    "unat bn < length (memdisk s)" "bflags (bufs s ! i) = (if bn \<in> pinned s then 6 else 2)"
proof -
  obtain j where j: "cached s bn j" "slocked (block (bufs s ! j))"
    using assms(3) unfolding held_def by blast
  then show l: "slocked (block (bufs s ! i))" using bio_invD(6) [OF assms(1,2)] by blast
  show i: "i < NBUF" and d: "bdev (bufs s ! i) = 1" and b: "bblockno (bufs s ! i) = bn"
    using assms(2) by (simp_all add: cached_def)
  note ok = bio_invD(5) [OF assms(1) i]
  show "spid (block (bufs s ! i)) = curpid s" "brefcnt (bufs s ! i) = 1" "unat bn < length (memdisk s)"
    using ok l d b by (simp_all add: buf_ok_def)
  have "bflags (bufs s ! i) = 6 \<longleftrightarrow> bn \<in> pinned s"
    using pinnedI [OF assms(2)] bio_invD(6) [OF assms(1,2)] unfolding pinned_def by blast
  then show "bflags (bufs s ! i) = (if bn \<in> pinned s then 6 else 2)"
    using ok d by (auto simp: buf_ok_def)
qed

lemma setdata_spec:
  assumes inv: "bio_inv s" and c: "cached s bn i" and h: "bn \<in> held s" and len: "length d = BSIZE"
  shows "bio_inv (setdata i d s)" "bio_frame s (setdata i d s)" "cached (setdata i d s) = cached s"
    "held (setdata i d s) = held s" "pinned (setdata i d s) = pinned s"
    "view (setdata i d s) = (view s)(bn := d)" "memdisk (setdata i d s) = memdisk s"
    "writes (setdata i d s) = writes s"
proof -
  note hc = held_cached [OF inv c h]
  let ?b = "(bufs s ! i)\<lparr>bdata := d\<rparr>"
  have ok: "buf_ok (memdisk s) (curpid s) ?b"
    using bio_invD(5) [OF inv hc(5)] hc len by (simp add: buf_ok_def)
  have b: "bdev ?b = 1" "bblockno ?b = bn" using hc by simp_all
  note same = updbuf_same [OF inv c b]
  show "bio_inv (setdata i d s)" unfolding setdata_def
    by (rule updbuf_inv [OF inv hc(5) ok]) (use b bio_invD(6) [OF inv c] in auto)
  show "cached (setdata i d s) = cached s" unfolding setdata_def by (rule same(1))
  show "view (setdata i d s) = (view s)(bn := d)" unfolding setdata_def same(4) [OF ok] by simp
  show "held (setdata i d s) = held s" "pinned (setdata i d s) = pinned s"
    unfolding setdata_def same(2,3) using hc h by (auto split: if_splits)
  show "bio_frame s (setdata i d s)" "memdisk (setdata i d s) = memdisk s"
    "writes (setdata i d s) = writes s" by (simp_all add: setdata_def)
qed

text \<open>The order of the MRU list matters only for the choice of the buffer to recycle.\<close>

lemma mru_change:
  assumes inv: "bio_inv s" and m: "distinct m" "set m = {..<NBUF}"
  shows "bio_inv (s\<lparr>mru := m\<rparr>)" "cached (s\<lparr>mru := m\<rparr>) = cached s" "held (s\<lparr>mru := m\<rparr>) = held s"
    "pinned (s\<lparr>mru := m\<rparr>) = pinned s" "view (s\<lparr>mru := m\<rparr>) = view s"
proof -
  show c: "cached (s\<lparr>mru := m\<rparr>) = cached s" by (simp add: cached_def fun_eq_iff)
  show "held (s\<lparr>mru := m\<rparr>) = held s" "pinned (s\<lparr>mru := m\<rparr>) = pinned s"
    by (simp_all add: held_def pinned_def c)
  show i: "bio_inv (s\<lparr>mru := m\<rparr>)" using inv m unfolding bio_inv_def c by simp
  show "view (s\<lparr>mru := m\<rparr>) = view s"
  proof
    fix n
    show "view (s\<lparr>mru := m\<rparr>) n = view s n"
    proof (cases "\<exists>j. cached s n j")
      case True
      then obtain j where j: "cached s n j" ..
      then show ?thesis using view_cached [OF inv j] view_cached [OF i, of n j] by (simp add: c)
    next
      case False
      then show ?thesis using view_uncached [OF inv, of n] view_uncached [OF i, of n] by (simp add: c)
    qed
  qed
qed

text \<open>\<open>brelse\<close> of a buffer whose data is on disk or pinned.\<close>

definition brelse_post :: "uint \<Rightarrow> 'a kbio_scheme \<Rightarrow> 'a kbio_scheme \<Rightarrow> bool" where
  "brelse_post bn s t \<longleftrightarrow>
     bio_inv t \<and> bio_frame s t \<and> cached t = cached s \<and> held t = held s - {bn} \<and>
     pinned t = pinned s \<and> view t = view s \<and> memdisk t = memdisk s \<and> writes t = writes s"

lemma brelse_postD:
  assumes "brelse_post bn s t"
  shows "bio_inv t" "bio_frame s t" "cached t = cached s" "held t = held s - {bn}"
    "pinned t = pinned s" "view t = view s" "memdisk t = memdisk s" "writes t = writes s"
  using assms unfolding brelse_post_def by auto

lemma brelse_spec:
  assumes inv: "bio_inv s" and c: "cached s bn i" and h: "bn \<in> held s"
    and clean: "bn \<in> pinned s \<or> view s bn = memdisk s ! unat bn"
  shows "\<exists>t. brelse i s = Ret t \<and> brelse_post bn s t"
proof -
  note hc = held_cached [OF inv c h]
  define b where "b = (bufs s ! i)\<lparr>block := releasesleep (block (bufs s ! i)), brefcnt := 0\<rparr>"
  define u where "u = updbuf i b s"
  define t where "t = u\<lparr>mru := i # remove1 i (mru u)\<rparr>"
  have vw: "view s bn = bdata (bufs s ! i)" by (rule view_cached [OF inv c])
  have ok: "buf_ok (memdisk s) (curpid s) b"
    using bio_invD(5) [OF inv hc(5)] hc clean vw by (auto simp: buf_ok_def b_def releasesleep_def)
  have db: "bdev b = 1" "bblockno b = bn" using hc by (simp_all add: b_def)
  note same = updbuf_same [OF inv c db, folded u_def]
  have u: "bio_inv u" unfolding u_def
    by (rule updbuf_inv [OF inv hc(5) ok]) (use db bio_invD(6) [OF inv c] in blast)
  have m: "set (mru t) = {..<NBUF}" "distinct (mru t)"
    using bio_invD(2,3) [OF u] hc(5) by (auto simp: t_def)
  then have m: "set (i # remove1 i (mru u)) = {..<NBUF}" "distinct (i # remove1 i (mru u))"
    by (simp_all add: t_def)
  note mt = mru_change [OF u m(2,1)]
  have ti: "bio_inv t" and ct: "cached t = cached u" and ht: "held t = held u"
    and pt: "pinned t = pinned u" and vt: "view t = view u"
    using mt by (simp_all add: t_def)
  have "brelse i s = Ret t"
    using hc by (simp add: brelse_def Let_def holdingsleep_def t_def u_def b_def)
  moreover have "bio_frame s t" by (simp add: bio_frame_def t_def u_def updbuf_def)
  moreover have "held t = held s - {bn}" "pinned t = pinned s"
    unfolding ht pt same(2,3) using hc(8) by (auto simp: b_def releasesleep_def split: if_splits)
  moreover have "view t = view s" unfolding vt same(4) [OF ok] using vw by (auto simp: b_def)
  moreover have "memdisk t = memdisk s" "writes t = writes s" by (simp_all add: t_def u_def)
  ultimately show ?thesis using ti ct same(1) by (auto simp: brelse_post_def)
qed

lemma disk_update_other [simp]: "m \<noteq> bn \<Longrightarrow> (d[unat bn := v]) ! unat m = d ! unat m" for m bn :: uint
  by (simp add: nth_list_update word_unat_eq_iff)

text \<open>\<open>bwrite\<close> makes the disk agree with the view of the block, and unpins it.\<close>

definition bwrite_post :: "uint \<Rightarrow> 'a kbio_scheme \<Rightarrow> 'a kbio_scheme \<Rightarrow> bool" where
  "bwrite_post bn s t \<longleftrightarrow>
     bio_inv t \<and> bio_frame s t \<and> cached t = cached s \<and> held t = held s \<and>
     pinned t = pinned s - {bn} \<and> view t = view s \<and>
     memdisk t = (memdisk s)[unat bn := view s bn] \<and> writes t = writes s @ [(bn, view s bn)]"

lemma bwrite_postD:
  assumes "bwrite_post bn s t"
  shows "bio_inv t" "bio_frame s t" "cached t = cached s" "held t = held s"
    "pinned t = pinned s - {bn}" "view t = view s"
    "memdisk t = (memdisk s)[unat bn := view s bn]" "writes t = writes s @ [(bn, view s bn)]"
  using assms unfolding bwrite_post_def by auto

lemma bwrite_spec:
  assumes inv: "bio_inv s" and c: "cached s bn i" and h: "bn \<in> held s"
  shows "\<exists>t. bwrite i s = Ret t \<and> bwrite_post bn s t"
proof -
  note hc = held_cached [OF inv c h]
  define b where "b = (bufs s ! i)\<lparr>bflags := 2\<rparr>"
  define u where "u = s\<lparr>memdisk := (memdisk s)[unat bn := view s bn],
    writes := writes s @ [(bn, view s bn)]\<rparr>"
  define t where "t = updbuf i b u"
  have vw: "view s bn = bdata (bufs s ! i)" by (rule view_cached [OF inv c])
  have lenv: "length (view s bn) = BSIZE" by (rule length_view [OF inv hc(7)])
  have cu: "cached u = cached s" by (simp add: cached_def u_def fun_eq_iff)
  have hu: "held u = held s" and pu: "pinned u = pinned s"
    by (simp_all add: held_def pinned_def cu) (simp_all add: u_def)
  have uinv: "bio_inv u"
  proof (rule bio_invI)
    show "k = j" if "cached u m k" "cached u m j" for m k j
      using that unfolding cu by (rule bio_invD(6) [OF inv])
    show "d \<in> set (memdisk u) \<Longrightarrow> length d = BSIZE" for d
      using bio_invD(4) [OF inv] lenv set_update_subset_insert [of "memdisk s" "unat bn" "view s bn"]
      by (auto simp: u_def)
    show "buf_ok (memdisk u) (curpid u) (bufs u ! k)" if k: "k < NBUF" for k
    proof (cases "k = i")
      case True
      then show ?thesis using bio_invD(5) [OF inv hc(5)] hc by (simp add: buf_ok_def u_def)
    next
      case False
      have "bblockno (bufs s ! k) \<noteq> bn" if "bdev (bufs s ! k) = 1"
      proof
        assume "bblockno (bufs s ! k) = bn"
        then have "cached s bn k" using that k by (simp add: cached_def)
        then show False using bio_invD(6) [OF inv c] False by blast
      qed
      then show ?thesis using bio_invD(5) [OF inv k] by (auto simp: buf_ok_def u_def)
    qed
  qed (use bio_invD(1-3) [OF inv] in \<open>simp_all add: u_def\<close>)
  have vu: "view u = view s"
  proof
    fix n
    show "view u n = view s n"
    proof (cases "\<exists>j. cached s n j")
      case True
      then obtain j where j: "cached s n j" ..
      then show ?thesis using view_cached [OF inv j] view_cached [OF uinv, of n j] cu by (simp add: u_def)
    next
      case False
      then have "n \<noteq> bn" using c by blast
      then show ?thesis using False view_uncached [OF inv, of n] view_uncached [OF uinv, of n] cu
        by (simp add: u_def)
    qed
  qed
  have db: "bdev b = 1" "bblockno b = bn" using hc by (simp_all add: b_def)
  have ok: "buf_ok (memdisk u) (curpid u) b"
    using bio_invD(5) [OF inv hc(5)] hc by (simp add: buf_ok_def b_def u_def)
  have cui: "cached u bn i" using c by (simp add: cu)
  note same = updbuf_same [OF uinv cui db, folded t_def]
  have "bio_inv t" unfolding t_def
    by (rule updbuf_inv [OF uinv hc(5) ok]) (use db bio_invD(6) [OF inv c] cu in auto)
  moreover have "bwrite i s = Ret t"
  proof -
    have "bflags (bufs s ! i) = 2 \<or> bflags (bufs s ! i) = 6" using hc(8) by (simp split: if_splits)
    then show ?thesis
      using hc bio_invD(1) [OF inv]
      by (auto simp: bwrite_def iderw_def Let_def holdingsleep_def t_def u_def b_def vw updbuf_def)
  qed
  moreover have "bio_frame s t" by (simp add: bio_frame_def t_def u_def updbuf_def)
  moreover have "cached t = cached s" unfolding same(1) cu ..
  moreover have "held t = held s" "pinned t = pinned s - {bn}"
    unfolding same(2,3) hu pu using hc(1) h by (auto simp: b_def)
  moreover have "view t = view s" unfolding same(4) [OF ok] vu using vw by (auto simp: b_def)
  ultimately show ?thesis by (auto simp: bwrite_post_def t_def u_def)
qed

section \<open>The cache after boot\<close>

lemma binit_mru: "mru (binit s) = rev [0..<NBUF]"
proof -
  have "foldl (\<lambda>l b. b # l) acc xs = rev xs @ acc" for acc and xs :: "nat list"
    by (induction xs arbitrary: acc) simp_all
  then show ?thesis by (simp add: binit_def)
qed

lemma binit_spec:
  assumes "\<And>d. d \<in> set (memdisk s) \<Longrightarrow> length d = BSIZE"
  shows "bio_inv (binit s)" "held (binit s) = {}" "pinned (binit s) = {}"
    "view (binit s) bn = memdisk s ! unat bn"
proof -
  have c: "\<not> cached (binit s) m i" for m i
    by (auto simp: cached_def binit_def zerobuf_def)
  show inv: "bio_inv (binit s)"
    by (rule bio_invI)
      (use assms in \<open>auto simp: c binit_mru, auto simp: binit_def buf_ok_def zerobuf_def initsleeplock_def\<close>)
  show "held (binit s) = {}" "pinned (binit s) = {}" by (simp_all add: held_def pinned_def c)
  show "view (binit s) bn = memdisk s ! unat bn"
    using view_uncached [OF inv] c by (simp add: binit_def)
qed

text \<open>A small disk for the witnesses: four blocks, freshly booted cache, process 1.\<close>

definition bio0 :: kbio where
  "bio0 = binit \<lparr>bufs = [], mru = [], memdisk = replicate 4 (replicate BSIZE 0), writes = [],
     curpid = 1\<rparr>"

lemma bio0_simps:
  "bio_inv bio0" "held bio0 = {}" "pinned bio0 = {}" "length (memdisk bio0) = 4"
  "unat bn < 4 \<Longrightarrow> view bio0 bn = replicate BSIZE 0"
  using binit_spec [of "\<lparr>bufs = [], mru = [], memdisk = replicate 4 (replicate BSIZE 0),
    writes = [], curpid = 1\<rparr>"]
  unfolding bio0_def by (simp_all add: binit_def)

lemma room_used:
  assumes inv: "bio_inv s" and full: "\<not> card (held s \<union> pinned s) < NBUF" and i: "i < NBUF"
  shows "\<not> (brefcnt (bufs s ! i) = 0 \<and> bflags (bufs s ! i) \<noteq> 6)"
proof
  assume free: "brefcnt (bufs s ! i) = 0 \<and> bflags (bufs s ! i) \<noteq> 6"
  then have ul: "\<not> slocked (block (bufs s ! i))"
    using bio_invD(5) [OF inv i] by (auto simp: buf_ok_def split: if_splits)
  have "held s \<union> pinned s \<subseteq> (\<lambda>i. bblockno (bufs s ! i)) ` ({..<NBUF} - {i})"
  proof
    fix bn assume "bn \<in> held s \<union> pinned s"
    then obtain k where k: "cached s bn k" "slocked (block (bufs s ! k)) \<or> bflags (bufs s ! k) = 6"
      unfolding held_def pinned_def by blast
    then have "k \<noteq> i" using ul free by auto
    then show "bn \<in> (\<lambda>i. bblockno (bufs s ! i)) ` ({..<NBUF} - {i})"
      using k(1) unfolding cached_def by blast
  qed
  then have "card (held s \<union> pinned s) \<le> card ({..<NBUF} - {i})"
    by (meson card_image_le card_mono finite_Diff finite_imageI finite_lessThan le_trans)
  then show False using full i by simp
qed

section \<open>Properties\<close>

text \<open>
  C9. \<open>bread\<close> on a disk block the process does not hold: if the block is cached or some buffer is
  neither held nor pinned, the call returns a buffer that is locked by the process and holds
  the current contents of the block, and what any reader sees of any block, the disk, the
  pinned blocks and the invariant are unchanged; otherwise it panics with ``no buffers''.
\<close>

theorem bread_contract:
  assumes "bio_inv s" and "unat bn < length (memdisk s)" and "bn \<notin> held s"
  shows "(if card (held s \<union> pinned s) < NBUF \<or> (\<exists>j. cached s bn j) then
       \<exists>i t. bread 1 bn s = Ret (i, t) \<and> bdata (bufs t ! i) = view s bn \<and>
         holdingsleep (curpid s) (block (bufs t ! i)) \<and> bio_inv t \<and> view t = view s \<and>
         held t = insert bn (held s) \<and> pinned t = pinned s \<and> memdisk t = memdisk s
     else bread 1 bn s = Panic ''bget: no buffers'')"
proof (cases "card (held s \<union> pinned s) < NBUF \<or> (\<exists>j. cached s bn j)")
  case True
  then obtain i t where r: "bread 1 bn s = Ret (i, t)" "bread_post bn s i t"
    using bread_spec [OF assms] by blast
  note d = bread_postD [OF r(2)]
  have "holdingsleep (curpid s) (block (bufs t ! i))"
    using held_cached(1,2) [OF d(1,3)] d(4) bio_frame_curpid [OF d(2)] by (simp add: holdingsleep_def)
  then show ?thesis using True r(1) d by auto
next
  case False
  then have nc: "\<forall>j. \<not> cached s bn j" and full: "\<not> card (held s \<union> pinned s) < NBUF" by blast+
  have "\<not> (brefcnt (bufs s ! i) = 0 \<and> bflags (bufs s ! i) AND B_DIRTY = 0)" if "i < NBUF" for i
    using room_used [OF assms(1) full that] by auto
  then have "find (\<lambda>i. brefcnt (bufs s ! i) = 0 \<and> bflags (bufs s ! i) AND B_DIRTY = 0) (rev (mru s)) = None"
    unfolding find_None_iff using bio_invD(3) [OF assms(1)] by simp
  then show ?thesis using False
    unfolding bread_def bget_def cached_find_None [OF assms(1), THEN iffD2, OF nc] by simp
qed

theorem bread_contract_witness:
  "\<exists>i t. bread 1 3 bio0 = Ret (i, t) \<and> bdata (bufs t ! i) = replicate BSIZE 0"
  using bread_contract [OF bio0_simps(1), of 3] by (auto simp: bio0_simps)

text \<open>
  An update of a block through the cache is durable and isolated: \<open>bread\<close>, storing new
  contents, \<open>bwrite\<close> and \<open>brelse\<close> never panic or block when a buffer is available, and leave
  exactly that block changed, both on disk and for every later reader, with the buffer
  released and one disk write done.
\<close>

lemma bwrite_durable:
  assumes "bio_inv s" and "unat bn < length (memdisk s)" and "bn \<notin> held s"
    and "card (held s \<union> pinned s) < NBUF" and "length d = BSIZE"
  shows "\<exists>t. bindR (bread 1 bn s) (\<lambda>(i, s). bindR (bwrite i (setdata i d s)) (brelse i)) = Ret t \<and>
    bio_inv t \<and> view t = (view s)(bn := d) \<and> memdisk t = (memdisk s)[unat bn := d] \<and>
    held t = held s \<and> pinned t = pinned s - {bn} \<and> writes t = writes s @ [(bn, d)]"
proof -
  obtain i t where r: "bread 1 bn s = Ret (i, t)" "bread_post bn s i t"
    using bread_spec [OF assms(1-3)] assms(4) by blast
  note p = bread_postD [OF r(2)]
  have h: "bn \<in> held t" using p(4) by simp
  note d = setdata_spec [OF p(1,3) h assms(5)]
  obtain u where u: "bwrite i (setdata i d t) = Ret u" "bwrite_post bn (setdata i d t) u"
    using bwrite_spec [OF d(1), of bn i] p(3) h unfolding d by blast
  note w = bwrite_postD [OF u(2), unfolded d, simplified]
  have "view u bn = memdisk u ! unat bn" using w(6,7) assms(2) p(7) by simp
  then obtain v where v: "brelse i u = Ret v" "brelse_post bn u v"
    using brelse_spec [OF w(1), of bn i] p(3) h unfolding w by blast
  show ?thesis using r(1) u(1) v(1) brelse_postD [OF v(2)] w p assms(3) by auto
qed

lemma bwrite_durable_example:
  "\<exists>t. bindR (bread 1 2 bio0) (\<lambda>(i, s). bindR (bwrite i (setdata i (replicate BSIZE 7) s)) (brelse i)) =
      Ret t \<and> memdisk t = (memdisk bio0)[2 := replicate BSIZE 7]"
  using bwrite_durable [OF bio0_simps(1), of 2 "replicate BSIZE 7"] by (auto simp: bio0_simps)

end
