(* ===== verification/Lru.thy ===== *)
theory Lru
  imports Bio
begin

text \<open>
  The \<open>prev\<close>/\<open>next\<close> pointers of the buffer cache (\<open>xv6/bio.c\<close>). Node \<open>i < NBUF\<close> is
  \<open>bcache.buf[i]\<close> and node \<open>NBUF\<close> is \<open>bcache.head\<close>. The pointer assignments of \<open>binit\<close> and
  \<open>brelse\<close> and the two pointer-chasing loops of \<open>bget\<close> are shown to implement the list
  \<open>mru\<close> and the list searches of theory \<open>Bio\<close>.
\<close>

record lru =
  nxt :: "nat \<Rightarrow> nat"
  prv :: "nat \<Rightarrow> nat"

abbreviation "bhead \<equiv> NBUF"

section \<open>The pointer code\<close>

definition insert_head :: "nat \<Rightarrow> lru \<Rightarrow> lru" where
  "insert_head b h =
     (let h = h\<lparr>nxt := (nxt h)(b := nxt h bhead)\<rparr>;
          h = h\<lparr>prv := (prv h)(b := bhead)\<rparr>;
          h = h\<lparr>prv := (prv h)(nxt h bhead := b)\<rparr>
      in h\<lparr>nxt := (nxt h)(bhead := b)\<rparr>)"

definition unlink_buf :: "nat \<Rightarrow> lru \<Rightarrow> lru" where
  "unlink_buf b h =
     (let h = h\<lparr>prv := (prv h)(nxt h b := prv h b)\<rparr>
      in h\<lparr>nxt := (nxt h)(prv h b := nxt h b)\<rparr>)"

definition binit_links :: "lru \<Rightarrow> lru" where
  "binit_links h =
     foldl (\<lambda>h b. insert_head b h)
       (h\<lparr>prv := (prv h)(bhead := bhead), nxt := (nxt h)(bhead := bhead)\<rparr>) [0..<NBUF]"

definition brelse_links :: "nat \<Rightarrow> lru \<Rightarrow> lru" where
  "brelse_links b h = insert_head b (unlink_buf b h)"

text \<open>The loops of \<open>bget\<close>: \<open>None\<close> when the fuel runs out, \<open>Some None\<close> when the head is reached.\<close>

fun scan :: "(nat \<Rightarrow> nat) \<Rightarrow> (nat \<Rightarrow> bool) \<Rightarrow> nat \<Rightarrow> nat \<Rightarrow> nat option option" where
  "scan step P 0 b = None"
| "scan step P (Suc n) b =
     (if b = bhead then Some None else if P b then Some (Some b) else scan step P n (step b))"

definition scan_next :: "lru \<Rightarrow> (nat \<Rightarrow> bool) \<Rightarrow> nat \<Rightarrow> nat option option" where
  "scan_next h P fuel = scan (nxt h) P fuel (nxt h bhead)"

definition scan_prev :: "lru \<Rightarrow> (nat \<Rightarrow> bool) \<Rightarrow> nat \<Rightarrow> nat option option" where
  "scan_prev h P fuel = scan (prv h) P fuel (prv h bhead)"

section \<open>The list the pointers represent\<close>

fun links :: "lru \<Rightarrow> nat list \<Rightarrow> bool" where
  "links h (a # b # r) \<longleftrightarrow> nxt h a = b \<and> prv h b = a \<and> links h (b # r)"
| "links h _ \<longleftrightarrow> True"

definition dll :: "lru \<Rightarrow> nat list \<Rightarrow> bool" where
  "dll h xs \<longleftrightarrow> links h (bhead # xs @ [bhead]) \<and> distinct xs \<and> bhead \<notin> set xs"

lemma links_append: "links h (xs @ a # ys) \<longleftrightarrow> links h (xs @ [a]) \<and> links h (a # ys)"
proof (induction xs)
  case (Cons x xs)
  then show ?case by (cases xs) auto
qed simp

lemma links_glue:
  "xs \<noteq> [] \<Longrightarrow> ys \<noteq> [] \<Longrightarrow>
   links h (xs @ ys) \<longleftrightarrow> links h xs \<and> links h ys \<and> nxt h (last xs) = hd ys \<and> prv h (hd ys) = last xs"
proof (induction xs)
  case (Cons x xs)
  then show ?case by (cases xs; cases ys) auto
qed simp

lemma links_cong:
  assumes "\<And>x. x \<in> set (butlast zs) \<Longrightarrow> nxt g x = nxt h x"
    and "\<And>x. x \<in> set (tl zs) \<Longrightarrow> prv g x = prv h x"
  shows "links g zs = links h zs"
  using assms by (induction h zs rule: links.induct) auto

lemma dll_insert_head:
  assumes "dll h xs" "b \<notin> set xs" "b \<noteq> bhead"
  shows "dll (insert_head b h) (b # xs)"
proof -
  have n: "nxt h bhead = hd (xs @ [bhead])" and rest: "links h (xs @ [bhead])"
    using assms(1) by (cases xs; simp add: dll_def)+
  have "links (insert_head b h) (xs @ [bhead]) = links h (xs @ [bhead])"
  proof (rule links_cong)
    fix x assume "x \<in> set (tl (xs @ [bhead]))"
    then have "x \<noteq> b" "x \<noteq> hd (xs @ [bhead])"
      using assms by (cases xs; auto simp: dll_def)+
    then show "prv (insert_head b h) x = prv h x"
      using assms(3) by (simp add: insert_head_def Let_def n)
  qed (use assms in \<open>auto simp: insert_head_def Let_def dll_def\<close>)
  then have "links (insert_head b h) (xs @ [bhead])" using rest by simp
  moreover have "hd (xs @ [bhead]) \<noteq> b" using assms(2,3) by (cases xs) auto
  ultimately have "links (insert_head b h) ([bhead, b] @ (xs @ [bhead]))"
    using assms(3) n by (subst links_glue) (auto simp: insert_head_def Let_def)
  then show ?thesis using assms by (simp add: dll_def)
qed

lemma dll_unlink:
  assumes "dll h (as @ b # cs)"
  shows "dll (unlink_buf b h) (as @ cs)"
proof -
  let ?A = "bhead # as" and ?C = "cs @ [bhead]"
  have ds: "distinct (as @ b # cs)" "bhead \<notin> set (as @ b # cs)" using assms by (simp_all add: dll_def)
  have L: "links h (?A @ ([b] @ ?C))" using assms by (simp add: dll_def)
  then have l: "links h ?A" "links h ([b] @ ?C)" "nxt h (last ?A) = b" "prv h b = last ?A"
    by (simp_all only: links_glue list.distinct not_False_eq_True append_is_Nil_conv simp_thms) simp_all
  then have r: "links h ?C" "nxt h b = hd ?C" "prv h (hd ?C) = b"
    using links_glue [of "[b]" ?C h] by simp_all
  let ?g = "unlink_buf b h"
  have g: "nxt ?g = (nxt h)(last ?A := hd ?C)" "prv ?g = (prv h)(hd ?C := last ?A)"
  proof -
    have "b \<noteq> hd ?C" using ds by (cases cs) auto
    then show "nxt ?g = (nxt h)(last ?A := hd ?C)" "prv ?g = (prv h)(hd ?C := last ?A)"
      using l r by (simp_all add: unlink_buf_def Let_def)
  qed
  have "links ?g ?A = links h ?A"
  proof (rule links_cong)
    fix x assume "x \<in> set (butlast ?A)"
    moreover have "last ?A \<notin> set (butlast ?A)"
      using ds by (cases as rule: rev_cases) (auto simp: butlast_append)
    ultimately show "nxt ?g x = nxt h x" unfolding g by auto
  next
    fix x assume "x \<in> set (tl ?A)"
    then have "x \<noteq> hd ?C" using ds by (cases cs) auto
    then show "prv ?g x = prv h x" unfolding g by simp
  qed
  moreover have "links ?g ?C = links h ?C"
  proof (rule links_cong)
    fix x assume "x \<in> set (butlast ?C)"
    then have "x \<noteq> last ?A" using ds by (cases as rule: rev_cases) auto
    then show "nxt ?g x = nxt h x" unfolding g by simp
  next
    fix x assume "x \<in> set (tl ?C)"
    then have "x \<noteq> hd ?C" using ds by (cases cs) auto
    then show "prv ?g x = prv h x" unfolding g by simp
  qed
  ultimately have "links ?g (?A @ ?C)" using l(1) r(1) by (subst links_glue) (simp_all add: g)
  then show ?thesis using ds by (simp add: dll_def)
qed

lemma scan_find:
  assumes "links h (a # xs @ [bhead])" "bhead \<notin> set xs" "length xs < n"
  shows "scan (nxt h) P n (nxt h a) = Some (find P xs)"
  using assms
proof (induction xs arbitrary: a n)
  case Nil
  then show ?case by (cases n) auto
next
  case (Cons x xs)
  then show ?case by (cases n) auto
qed

definition flip :: "lru \<Rightarrow> lru" where
  "flip h = \<lparr>nxt = prv h, prv = nxt h\<rparr>"

lemma links_flip: "links (flip h) (rev zs) = links h zs"
proof (induction h zs rule: links.induct)
  case (1 h a b r)
  then show ?case using links_append [of "flip h" "rev r" b "[a]"] by (auto simp: flip_def)
qed simp_all

section \<open>Properties\<close>

text \<open>
  C10. The pointer code of the buffer cache implements the MRU list: after \<open>binit\<close> the links
  represent the list \<open>mru\<close> of the initial cache; the relinking in \<open>brelse\<close> moves the buffer to
  the front; and the two loops of \<open>bget\<close> end, after at most one visit of every node, with the
  first matching buffer in MRU order and in LRU order.
\<close>

theorem lru_links_refine:
  "dll (binit_links h) (mru (binit s)) \<and>
   (dll h xs \<and> b \<in> set xs \<longrightarrow> dll (brelse_links b h) (b # remove1 b xs)) \<and>
   (dll h xs \<and> length xs < n \<longrightarrow>
     scan_next h P n = Some (find P xs) \<and> scan_prev h P n = Some (find P (rev xs)))"
proof (intro conjI impI)
  have "dll (foldl (\<lambda>h b. insert_head b h) h xs) (rev xs @ ys)"
    if "dll h ys" "distinct (xs @ ys)" "bhead \<notin> set xs" for h xs ys
    using that by (induction xs arbitrary: h ys) (auto simp: dll_insert_head)
  from this [of "h\<lparr>prv := (prv h)(bhead := bhead), nxt := (nxt h)(bhead := bhead)\<rparr>" "[]" "[0..<NBUF]"]
  show "dll (binit_links h) (mru (binit s))"
    by (simp only: binit_links_def binit_mru) (simp add: dll_def)
next
  assume a: "dll h xs \<and> b \<in> set xs"
  then obtain as cs where xs: "xs = as @ b # cs" by (auto simp: in_set_conv_decomp)
  then have "remove1 b xs = as @ cs" using a by (simp add: dll_def remove1_append)
  then show "dll (brelse_links b h) (b # remove1 b xs)"
    using a dll_insert_head [OF dll_unlink, of h as b cs] xs
    by (auto simp: brelse_links_def dll_def)
next
  assume a: "dll h xs \<and> length xs < n"
  then show "scan_next h P n = Some (find P xs)"
    using scan_find [of h bhead xs n P] by (simp add: dll_def scan_next_def)
  have "links (flip h) (bhead # rev xs @ [bhead])"
    using a links_flip [of h "bhead # xs @ [bhead]"] by (simp add: dll_def)
  then show "scan_prev h P n = Some (find P (rev xs))"
    using a scan_find [of "flip h" bhead "rev xs" n P]
    by (simp add: dll_def scan_prev_def flip_def)
qed

theorem lru_links_refine_witness:
  "dll (brelse_links 4 (binit_links \<lparr>nxt = id, prv = id\<rparr>)) (4 # remove1 4 (rev [0..<NBUF])) \<and>
   scan_next (binit_links \<lparr>nxt = id, prv = id\<rparr>) (\<lambda>i. i < 7) 31 = Some (find (\<lambda>i. i < 7) (rev [0..<NBUF]))"
proof -
  have d: "dll (binit_links \<lparr>nxt = id, prv = id\<rparr>) (rev [0..<NBUF])"
    using lru_links_refine [of "\<lparr>nxt = id, prv = id\<rparr>" bio0] by (simp add: binit_mru)
  have "4 \<in> set (rev [0..<NBUF])" "length (rev [0..<NBUF]) < 31" by simp_all
  then show ?thesis
    using d lru_links_refine [of "binit_links \<lparr>nxt = id, prv = id\<rparr>" bio0 "rev [0..<NBUF]" 4 31 "\<lambda>i. i < 7"]
    by blast
qed

end
