(* ===== verification/Log.thy ===== *)
theory Log
  imports Bio
begin

text \<open>
  The write-ahead log (\<open>xv6/log.c\<close>) on top of the buffer cache.

  The first part has the operations of one system call after another: \<open>begin_op\<close>,
  \<open>log_write\<close>, \<open>end_op\<close> with \<open>commit\<close>, and \<open>initlog\<close> with the recovery at boot. Their contracts
  give the exact sequence of disk writes a commit does. A crash keeps a prefix of the writes;
  the properties show that recovery from any such disk gives the old or the new contents of
  all blocks of the transaction, never a mixture, also when recovery itself is interrupted.
\<close>

section \<open>State\<close>

text \<open>\<open>struct log\<close>; the sleeping and the spin lock are those of the sequential model.\<close>

record klog = kbio +
  lstart :: uint
  lsize :: int
  outstanding :: int
  committing :: bool
  ldev :: uint
  lh_n :: int
  lh_block :: "uint list"

text \<open>\<open>struct superblock\<close> of \<open>fs.h\<close>, read by \<open>readsb\<close> of \<open>fs.c\<close>.\<close>

record superblock =
  sb_size :: uint
  sb_nblocks :: uint
  sb_ninodes :: uint
  sb_nlog :: uint
  sb_logstart :: uint
  sb_inodestart :: uint
  sb_bmapstart :: uint

definition decode_sb :: "blk \<Rightarrow> superblock" where
  "decode_sb d = \<lparr>sb_size = rd32 d 0, sb_nblocks = rd32 d 4, sb_ninodes = rd32 d 8,
     sb_nlog = rd32 d 12, sb_logstart = rd32 d 16, sb_inodestart = rd32 d 20,
     sb_bmapstart = rd32 d 24\<rparr>"

definition readsb :: "uint \<Rightarrow> 'a kbio_scheme \<Rightarrow> (superblock \<times> 'a kbio_scheme) res" where
  "readsb dev s =
     bindR (bread dev 1 s) (\<lambda>(bp, s).
     let sb = decode_sb (bdata (bufs s ! bp)) in
     bindR (brelse bp s) (\<lambda>s. Ret (sb, s)))"

section \<open>Operations\<close>

text \<open>The body of the loop of \<open>install_trans\<close>: log block \<open>tail\<close> to its home location.\<close>

definition install_step :: "nat \<Rightarrow> 'a klog_scheme \<Rightarrow> 'a klog_scheme res" where
  "install_step tail s =
     bindR (bread (ldev s) (lstart s + of_nat tail + 1) s) (\<lambda>(lbuf, s).
     bindR (bread (ldev s) (lh_block s ! tail) s) (\<lambda>(dbuf, s).
     bindR (bwrite dbuf (setdata dbuf (bdata (bufs s ! lbuf)) s)) (\<lambda>s.
     bindR (brelse lbuf s) (\<lambda>s.
     brelse dbuf s))))"

definition install_trans :: "'a klog_scheme \<Rightarrow> 'a klog_scheme res" where
  "install_trans s = foldR install_step [0..<nat (lh_n s)] s"

text \<open>
  \<open>read_head\<close> copies as many block numbers as the header on disk says; more than \<open>LOGSIZE\<close>
  would run over the end of the array.
\<close>

definition read_head :: "'a klog_scheme \<Rightarrow> 'a klog_scheme res" where
  "read_head s =
     bindR (bread (ldev s) (lstart s) s) (\<lambda>(b, s).
     let d = bdata (bufs s ! b);
         s = s\<lparr>lh_n := sint (rd32 d 0)\<rparr>
     in if lh_n s > int LOGSIZE then Undef ''log.lh.block index''
        else
          let s = s\<lparr>lh_block := map (\<lambda>i. rd32 d (4 + 4 * i)) [0..<nat (lh_n s)] @
                drop (nat (lh_n s)) (lh_block s)\<rparr>
          in brelse b s)"

fun put_words :: "nat \<Rightarrow> uint list \<Rightarrow> blk \<Rightarrow> blk" where
  "put_words off [] d = d"
| "put_words off (w # ws) d = put_words (off + 4) ws (wr32 d off w)"

definition write_head :: "'a klog_scheme \<Rightarrow> 'a klog_scheme res" where
  "write_head s =
     bindR (bread (ldev s) (lstart s) s) (\<lambda>(b, s).
     let hb = wr32 (bdata (bufs s ! b)) 0 (of_int (lh_n s));
         hb = put_words 4 (take (nat (lh_n s)) (lh_block s)) hb
     in bindR (bwrite b (setdata b hb s)) (\<lambda>s. brelse b s))"

definition recover_from_log :: "'a klog_scheme \<Rightarrow> 'a klog_scheme res" where
  "recover_from_log s =
     bindR (read_head s) (\<lambda>s.
     bindR (install_trans s) (\<lambda>s.
     write_head (s\<lparr>lh_n := 0\<rparr>)))"

definition initlog :: "uint \<Rightarrow> 'a klog_scheme \<Rightarrow> 'a klog_scheme res" where
  "initlog dev s =
     (if 4 + 4 * LOGSIZE \<ge> BSIZE then Panic ''initlog: too big logheader''
      else
        bindR (readsb dev s) (\<lambda>(sb, s).
        recover_from_log (s\<lparr>lstart := sb_logstart sb, lsize := sint (sb_nlog sb), ldev := dev\<rparr>)))"

definition begin_op :: "'a klog_scheme \<Rightarrow> 'a klog_scheme res" where
  "begin_op s =
     (if committing s then Sleep ChLog
      else if lh_n s + (outstanding s + 1) * int MAXOPBLOCKS > int LOGSIZE then Sleep ChLog
      else Ret (s\<lparr>outstanding := outstanding s + 1\<rparr>))"

text \<open>The body of the loop of \<open>write_log\<close>: a modified block from the cache to the log.\<close>

definition write_log_step :: "nat \<Rightarrow> 'a klog_scheme \<Rightarrow> 'a klog_scheme res" where
  "write_log_step tail s =
     bindR (bread (ldev s) (lstart s + of_nat tail + 1) s) (\<lambda>(to, s).
     bindR (bread (ldev s) (lh_block s ! tail) s) (\<lambda>(from, s).
     bindR (bwrite to (setdata to (bdata (bufs s ! from)) s)) (\<lambda>s.
     bindR (brelse from s) (\<lambda>s.
     brelse to s))))"

definition write_log :: "'a klog_scheme \<Rightarrow> 'a klog_scheme res" where
  "write_log s = foldR write_log_step [0..<nat (lh_n s)] s"

definition commit :: "'a klog_scheme \<Rightarrow> 'a klog_scheme res" where
  "commit s =
     (if lh_n s > 0 then
        bindR (write_log s) (\<lambda>s.
        bindR (write_head s) (\<lambda>s.
        bindR (install_trans s) (\<lambda>s.
        write_head (s\<lparr>lh_n := 0\<rparr>))))
      else Ret s)"

text \<open>\<open>end_op\<close> up to the release of the log's lock, with the decision whether to commit.\<close>

definition end_op_enter :: "'a klog_scheme \<Rightarrow> (bool \<times> 'a klog_scheme) res" where
  "end_op_enter s =
     (let s = s\<lparr>outstanding := outstanding s - 1\<rparr> in
      if committing s then Panic ''log.committing''
      else if outstanding s = 0 then Ret (True, s\<lparr>committing := True\<rparr>)
      else Ret (False, s))"

definition end_op :: "'a klog_scheme \<Rightarrow> 'a klog_scheme res" where
  "end_op s =
     bindR (end_op_enter s) (\<lambda>(do_commit, s).
     if do_commit then bindR (commit s) (\<lambda>s. Ret (s\<lparr>committing := False\<rparr>))
     else Ret s)"

definition log_write :: "nat \<Rightarrow> 'a klog_scheme \<Rightarrow> 'a klog_scheme res" where
  "log_write b s =
     (if lh_n s \<ge> int LOGSIZE \<or> lh_n s \<ge> lsize s - 1 then Panic ''too big a transaction''
      else if outstanding s < 1 then Panic ''log_write outside of trans''
      else
        let bn = bblockno (bufs s ! b);
            n = nat (lh_n s);
            i = (case find_index (\<lambda>x. x = bn) (take n (lh_block s)) of Some i \<Rightarrow> i | None \<Rightarrow> n);
            s = s\<lparr>lh_block := (lh_block s)[i := bn]\<rparr>;
            s = (if i = n then s\<lparr>lh_n := lh_n s + 1\<rparr> else s)
        in Ret (updbuf b ((bufs s ! b)\<lparr>bflags := bflags (bufs s ! b) OR B_DIRTY\<rparr>) s))"

section \<open>The cache does not depend on the log's fields\<close>

lemma klog_upd_cached [simp]:
  "cached (s\<lparr>lh_n := n\<rparr>) = cached s" "cached (s\<lparr>lh_block := bs\<rparr>) = cached s"
  "cached (s\<lparr>outstanding := k\<rparr>) = cached s" "cached (s\<lparr>committing := c\<rparr>) = cached s"
  "cached (s\<lparr>lstart := x, lsize := y, ldev := z\<rparr>) = cached s"
  by (simp_all add: cached_def fun_eq_iff)

lemma klog_upd_bio [simp]:
  "bio_inv (s\<lparr>lh_n := n\<rparr>) = bio_inv s" "bio_inv (s\<lparr>lh_block := bs\<rparr>) = bio_inv s"
  "bio_inv (s\<lparr>outstanding := k\<rparr>) = bio_inv s" "bio_inv (s\<lparr>committing := c\<rparr>) = bio_inv s"
  "bio_inv (s\<lparr>lstart := x, lsize := y, ldev := z\<rparr>) = bio_inv s"
  "held (s\<lparr>lh_n := n\<rparr>) = held s" "held (s\<lparr>lh_block := bs\<rparr>) = held s"
  "held (s\<lparr>outstanding := k\<rparr>) = held s" "held (s\<lparr>committing := c\<rparr>) = held s"
  "held (s\<lparr>lstart := x, lsize := y, ldev := z\<rparr>) = held s"
  "pinned (s\<lparr>lh_n := n\<rparr>) = pinned s" "pinned (s\<lparr>lh_block := bs\<rparr>) = pinned s"
  "pinned (s\<lparr>outstanding := k\<rparr>) = pinned s" "pinned (s\<lparr>committing := c\<rparr>) = pinned s"
  "pinned (s\<lparr>lstart := x, lsize := y, ldev := z\<rparr>) = pinned s"
  by (simp_all add: bio_inv_def held_def pinned_def)

lemma klog_upd_view [simp]:
  "view (s\<lparr>lh_n := n\<rparr>) = view s" "view (s\<lparr>lh_block := bs\<rparr>) = view s"
  "view (s\<lparr>outstanding := k\<rparr>) = view s" "view (s\<lparr>committing := c\<rparr>) = view s"
  "view (s\<lparr>lstart := x, lsize := y, ldev := z\<rparr>) = view s"
  by (simp_all add: view_def fun_eq_iff split: option.split)

section \<open>The effect of synchronous writes\<close>

text \<open>
  \<open>wrote ws s t\<close>: between \<open>s\<close> and \<open>t\<close> the blocks of \<open>ws\<close> were written through the cache to the
  disk, in this order, and nothing else changed.
\<close>

definition apply_writes :: "(uint \<times> blk) list \<Rightarrow> blk list \<Rightarrow> blk list" where
  "apply_writes ws D = foldl (\<lambda>D (bn, d). D[unat bn := d]) D ws"

definition view_writes :: "(uint \<times> blk) list \<Rightarrow> (uint \<Rightarrow> blk) \<Rightarrow> uint \<Rightarrow> blk" where
  "view_writes ws v = foldl (\<lambda>v (bn, d). v(bn := d)) v ws"

definition wrote :: "(uint \<times> blk) list \<Rightarrow> 'a kbio_scheme \<Rightarrow> 'a kbio_scheme \<Rightarrow> bool" where
  "wrote ws s t \<longleftrightarrow>
     bio_inv t \<and> bio_frame s t \<and> held t = held s \<and> pinned t = pinned s - fst ` set ws \<and>
     view t = view_writes ws (view s) \<and> memdisk t = apply_writes ws (memdisk s) \<and>
     writes t = writes s @ ws"

lemma apply_writes_simps [simp]:
  "apply_writes [] D = D" "apply_writes (w # ws) D = apply_writes ws (D[unat (fst w) := snd w])"
  "apply_writes (us @ ws) D = apply_writes ws (apply_writes us D)"
  by (simp_all add: apply_writes_def split_beta)

lemma view_writes_simps [simp]:
  "view_writes [] v = v" "view_writes (w # ws) v = view_writes ws (v(fst w := snd w))"
  "view_writes (us @ ws) v = view_writes ws (view_writes us v)"
  by (simp_all add: view_writes_def split_beta)

lemma length_apply_writes [simp]: "length (apply_writes ws D) = length D"
  by (induction ws arbitrary: D) simp_all

lemma view_writes_other: "bn \<notin> fst ` set ws \<Longrightarrow> view_writes ws v bn = v bn"
  by (induction ws arbitrary: v) auto

lemma apply_writes_other: "bn \<notin> fst ` set ws \<Longrightarrow> apply_writes ws D ! unat bn = D ! unat bn"
  by (induction ws arbitrary: D) auto

lemma apply_writes_view:
  "unat bn < length D \<Longrightarrow> bn \<in> fst ` set ws \<Longrightarrow> apply_writes ws D ! unat bn = view_writes ws v bn"
proof (induction ws arbitrary: D v)
  case (Cons w ws)
  show ?case
  proof (cases "bn \<in> fst ` set ws")
    case True
    then have "apply_writes ws (D[unat (fst w) := snd w]) ! unat bn = view_writes ws (v(fst w := snd w)) bn"
      using Cons.prems by (intro Cons.IH) simp_all
    then show ?thesis by simp
  next
    case False
    then show ?thesis using Cons.prems by (auto simp: apply_writes_other view_writes_other)
  qed
qed simp

lemma view_writes_mem: "bn \<in> fst ` set ws \<Longrightarrow> view_writes ws v bn = view_writes ws v' bn"
proof (induction ws arbitrary: v v')
  case (Cons w ws)
  show ?case
  proof (cases "bn \<in> fst ` set ws")
    case True
    have "view_writes ws (v(fst w := snd w)) bn = view_writes ws (v'(fst w := snd w)) bn"
      by (rule Cons.IH [OF True])
    then show ?thesis by simp
  next
    case False
    then show ?thesis using Cons.prems by (auto simp: view_writes_other)
  qed
qed simp

lemma wrote_refl: "bio_inv s \<Longrightarrow> wrote [] s s"
  by (simp add: wrote_def)

lemma wrote_trans: "wrote us s t \<Longrightarrow> wrote ws t u \<Longrightarrow> wrote (us @ ws) s u"
  by (auto simp: wrote_def intro: bio_frame_trans)

lemma wroteD:
  assumes "wrote ws s t"
  shows "bio_inv t" "bio_frame s t" "held t = held s" "pinned t = pinned s - fst ` set ws"
    "view t = view_writes ws (view s)" "memdisk t = apply_writes ws (memdisk s)"
    "writes t = writes s @ ws"
  using assms by (auto simp: wrote_def)

lemma bio_frame_lh_n: "bio_frame s t \<Longrightarrow> bio_frame (s\<lparr>lh_n := n\<rparr>) (t\<lparr>lh_n := n\<rparr>)"
  unfolding bio_frame_def by (drule arg_cong [where f = "lh_n_update (\<lambda>_. n)"]) simp

lemma bio_frame_lh_block: "bio_frame s t \<Longrightarrow> bio_frame (s\<lparr>lh_block := bs\<rparr>) (t\<lparr>lh_block := bs\<rparr>)"
  unfolding bio_frame_def by (drule arg_cong [where f = "lh_block_update (\<lambda>_. bs)"]) simp

lemma wrote_lh_n: "wrote ws s t \<Longrightarrow> wrote ws (s\<lparr>lh_n := n\<rparr>) (t\<lparr>lh_n := n\<rparr>)"
  by (simp add: wrote_def bio_frame_lh_n)

section \<open>Copying one block to another\<close>

text \<open>
  The bodies of \<open>install_trans\<close> and \<open>write_log\<close> copy block \<open>a\<close> to block \<open>b\<close>; they differ in the
  order in which the two buffers are read.
\<close>

lemma copy_tail:
  assumes inv: "bio_inv s" and c: "cached s a i" "cached s b j" and h: "a \<in> held s" "b \<in> held s"
    and ne: "a \<noteq> b" and na: "a \<in> pinned s \<or> view s a = memdisk s ! unat a"
  shows "\<exists>t. bindR (bwrite j (setdata j (bdata (bufs s ! i)) s)) (\<lambda>s. bindR (brelse i s) (brelse j)) = Ret t \<and>
    bio_inv t \<and> bio_frame s t \<and> held t = held s - {a, b} \<and> pinned t = pinned s - {b} \<and>
    view t = (view s)(b := view s a) \<and> memdisk t = (memdisk s)[unat b := view s a] \<and>
    writes t = writes s @ [(b, view s a)]"
proof -
  have va: "bdata (bufs s ! i) = view s a" using view_cached [OF inv c(1)] by simp
  have len: "length (view s a) = BSIZE" by (rule length_view [OF inv held_cached(7) [OF inv c(1) h(1)]])
  note d = setdata_spec [OF inv c(2) h(2) len]
  obtain u where u: "bwrite j (setdata j (view s a) s) = Ret u" "bwrite_post b (setdata j (view s a) s) u"
    using bwrite_spec [OF d(1), of b j] c h unfolding d by blast
  note w = bwrite_postD [OF u(2), unfolded d, simplified]
  obtain v where v: "brelse i u = Ret v" "brelse_post a u v"
    using brelse_spec [OF w(1), of a i] c h ne na unfolding w by auto
  note x = brelse_postD [OF v(2), unfolded w]
  have "unat b < length (memdisk s)" by (rule held_cached(7) [OF inv c(2) h(2)])
  then obtain z where z: "brelse j v = Ret z" "brelse_post b v z"
    using brelse_spec [OF x(1), of b j] c h ne unfolding x by auto
  note y = brelse_postD [OF z(2), unfolded x]
  have "bio_frame s z"
    using d(2) w(2) x(2) y(2) bio_frame_trans by blast
  then show ?thesis using u(1) v(1) z(1) y by (auto simp: va)
qed

lemma copy_block:
  assumes inv: "bio_inv s" and a: "unat a < length (memdisk s)" "a \<notin> held s"
    and b: "unat b < length (memdisk s)" "b \<notin> held s" and ne: "a \<noteq> b"
    and room: "card (held s \<union> pinned s) < NBUF"
    and room2: "card (held s \<union> pinned s) + 1 < NBUF \<or> second \<in> pinned s"
    and order: "first = a \<and> second = b \<or> first = b \<and> second = a"
  shows "\<exists>k l t u v. bread 1 first s = Ret (k, t) \<and> bread 1 second t = Ret (l, u) \<and>
    bindR (bwrite (if first = a then l else k) (setdata (if first = a then l else k)
        (bdata (bufs u ! (if first = a then k else l))) u))
      (\<lambda>s. bindR (brelse (if first = a then k else l) s) (brelse (if first = a then l else k))) = Ret v \<and>
    wrote [(b, view s a)] s v \<and> bio_frame s t"
proof -
  have fs: "unat first < length (memdisk s)" "first \<notin> held s" "unat second < length (memdisk s)"
    "second \<notin> held s" "first \<noteq> second" using order a b ne by auto
  obtain k t where r: "bread 1 first s = Ret (k, t)" "bread_post first s k t"
    using bread_spec [OF inv fs(1,2)] room by blast
  note p = bread_postD [OF r(2)]
  have "card (held t \<union> pinned t) < NBUF \<or> (\<exists>m. cached t second m)"
  proof (cases "second \<in> pinned s")
    case True
    then show ?thesis using p(5) unfolding pinned_def by blast
  next
    case False
    have "card (insert first (held s \<union> pinned s)) \<le> card (held s \<union> pinned s) + 1"
      using card_insert_le_m1 [of "card (held s \<union> pinned s) + 1" "held s \<union> pinned s" first] by simp
    then show ?thesis using False room2 p(4,5) by simp
  qed
  moreover have "second \<notin> held t" "unat second < length (memdisk t)" using fs p(4,7) by auto
  ultimately obtain l u where q: "bread 1 second t = Ret (l, u)" "bread_post second t l u"
    using bread_spec [OF p(1), of second] by blast
  note z = bread_postD [OF q(2)]
  have ck: "cached u first k" using z(10) [of first k] p(3,4) by blast
  define i j where "i = (if first = a then k else l)" "j = (if first = a then l else k)"
  have cij: "cached u a i" "cached u b j" using ck z(3) order fs(5) by (auto simp: i_j_def)
  have hab: "held u = insert a (insert b (held s))" using z(4) p(4) order by auto
  have clean: "a \<in> pinned u \<or> view u a = memdisk u ! unat a"
    using view_clean [OF inv a(2)] z(5,6,7) p(5,6,7) by auto
  obtain v where v: "bindR (bwrite j (setdata j (bdata (bufs u ! i)) u)) (\<lambda>s. bindR (brelse i s) (brelse j)) = Ret v"
    "bio_inv v" "bio_frame u v" "held v = held u - {a, b}" "pinned v = pinned u - {b}"
    "view v = (view u)(b := view u a)" "memdisk v = (memdisk u)[unat b := view u a]"
    "writes v = writes u @ [(b, view u a)]"
    using copy_tail [OF z(1) cij _ _ ne clean] hab by auto
  have fr: "bio_frame s t" "bio_frame s u" "bio_frame s v"
    using p(2) z(2) v(3) bio_frame_trans by blast+
  have "wrote [(b, view s a)] s v"
    using v fr hab a(2) b(2) z p by (auto simp: wrote_def)
  then show ?thesis using r(1) q(1) v(1) fr unfolding i_j_def by blast
qed

section \<open>The layout of the log\<close>

text \<open>
  The log area is \<open>log.size\<close> blocks from \<open>log.start\<close>: the header and one slot for each block
  of a transaction.
\<close>

definition logblk :: "'a klog_scheme \<Rightarrow> nat \<Rightarrow> uint" where
  "logblk s k = lstart s + of_nat k + 1"

definition in_log :: "'a klog_scheme \<Rightarrow> uint \<Rightarrow> bool" where
  "in_log s bn \<longleftrightarrow> unat (lstart s) \<le> unat bn \<and> unat bn < unat (lstart s) + nat (lsize s)"

definition logged :: "'a klog_scheme \<Rightarrow> uint list" where
  "logged s = take (nat (lh_n s)) (lh_block s)"

definition log_geom :: "'a klog_scheme \<Rightarrow> bool" where
  "log_geom s \<longleftrightarrow> ldev s = 1 \<and> 1 \<le> lsize s \<and>
     unat (lstart s) + nat (lsize s) \<le> length (memdisk s) \<and> length (memdisk s) \<le> 4294967296"

definition log_ok :: "'a klog_scheme \<Rightarrow> bool" where
  "log_ok s \<longleftrightarrow> bio_inv s \<and> log_geom s \<and> length (lh_block s) = LOGSIZE \<and>
     0 \<le> lh_n s \<and> lh_n s \<le> int LOGSIZE \<and> lh_n s \<le> lsize s - 1 \<and>
     (\<forall>b \<in> set (logged s). \<not> in_log s b \<and> unat b < length (memdisk s))"

lemma log_okD:
  assumes "log_ok s"
  shows "bio_inv s" "log_geom s" "length (lh_block s) = LOGSIZE" "0 \<le> lh_n s"
    "lh_n s \<le> int LOGSIZE" "lh_n s \<le> lsize s - 1"
    "b \<in> set (logged s) \<Longrightarrow> \<not> in_log s b" "b \<in> set (logged s) \<Longrightarrow> unat b < length (memdisk s)"
    "ldev s = 1" "length (logged s) = nat (lh_n s)"
    "k < nat (lh_n s) \<Longrightarrow> lh_block s ! k = logged s ! k"
    "k < nat (lh_n s) \<Longrightarrow> lh_block s ! k \<in> set (logged s)"
proof -
  show len: "length (logged s) = nat (lh_n s)" using assms by (auto simp: log_ok_def logged_def)
  show "k < nat (lh_n s) \<Longrightarrow> lh_block s ! k = logged s ! k" by (simp add: logged_def)
  then show "k < nat (lh_n s) \<Longrightarrow> lh_block s ! k \<in> set (logged s)" using len by simp
qed (use assms in \<open>auto simp: log_ok_def log_geom_def\<close>)

lemma logblk_unat:
  assumes "log_geom s" "int k < lsize s - 1"
  shows "unat (logblk s k) = unat (lstart s) + k + 1" "in_log s (logblk s k)"
    "unat (logblk s k) < length (memdisk s)" "logblk s k \<noteq> lstart s"
proof -
  have "k + 1 < nat (lsize s)" using assms(2) by linarith
  then have b: "unat (lstart s) + (k + 1) < 4294967296"
    using assms(1) unfolding log_geom_def by linarith
  then have "unat (of_nat (k + 1) :: uint) = k + 1" by (intro unat_of_nat32) simp
  then have "unat (lstart s + of_nat (k + 1)) = unat (lstart s) + (k + 1)"
    using b by (subst unat_add_lem [THEN iffD1]) simp_all
  moreover have "logblk s k = lstart s + of_nat (k + 1)" by (simp add: logblk_def add.assoc)
  ultimately show u: "unat (logblk s k) = unat (lstart s) + k + 1" by simp
  show "in_log s (logblk s k)" "unat (logblk s k) < length (memdisk s)"
    using \<open>k + 1 < nat (lsize s)\<close> assms(1) unfolding in_log_def u log_geom_def by linarith+
  show "logblk s k \<noteq> lstart s" using u by auto
qed

lemma lstart_in_log: "log_geom s \<Longrightarrow> in_log s (lstart s)" "log_geom s \<Longrightarrow> unat (lstart s) < length (memdisk s)"
  by (auto simp: in_log_def log_geom_def)

lemma logblk_inj:
  assumes "log_geom s" "int j < lsize s - 1" "int k < lsize s - 1" "logblk s j = logblk s k"
  shows "j = k"
proof -
  have "unat (logblk s j) = unat (logblk s k)" using assms(4) by simp
  then show ?thesis unfolding logblk_unat(1) [OF assms(1,2)] logblk_unat(1) [OF assms(1,3)] by simp
qed

text \<open>The fields of \<open>struct log\<close> are not touched by the cache.\<close>

lemma klog_frame:
  assumes "bio_frame s t"
  shows "lstart t = lstart s" "lsize t = lsize s" "outstanding t = outstanding s"
    "committing t = committing s" "ldev t = ldev s" "lh_n t = lh_n s" "lh_block t = lh_block s"
    "logged t = logged s" "in_log t = in_log s" "logblk t = logblk s"
proof -
  note e = assms [unfolded bio_frame_def]
  show "lstart t = lstart s" "lsize t = lsize s" "outstanding t = outstanding s"
    "committing t = committing s" "ldev t = ldev s" "lh_n t = lh_n s" "lh_block t = lh_block s"
    by (subst e; simp)+
  then show "logged t = logged s" "in_log t = in_log s" "logblk t = logblk s"
    by (simp_all add: logged_def in_log_def logblk_def fun_eq_iff)
qed

lemma wrote_log_ok: "wrote ws s t \<Longrightarrow> log_ok s \<Longrightarrow> log_ok t"
  unfolding log_ok_def using klog_frame [OF wroteD(2), of ws s t] wroteD(1,6) [of ws s t]
  by (simp add: log_geom_def)

section \<open>The loops of a commit\<close>

lemma write_log_step_spec:
  assumes ok: "log_ok s" and k: "k < nat (lh_n s)" and h: "held s = {}"
    and pin: "set (logged s) \<subseteq> pinned s" and room: "card (pinned s) < NBUF"
  shows "\<exists>t. write_log_step k s = Ret t \<and> wrote [(logblk s k, view s (lh_block s ! k))] s t"
proof -
  note d = log_okD [OF ok]
  have ks: "int k < lsize s - 1" using k d(4,6) by linarith
  note lb = logblk_unat [OF d(2) ks]
  have home: "lh_block s ! k \<in> set (logged s)" by (rule d(12) [OF k])
  have ne: "lh_block s ! k \<noteq> logblk s k" using d(7) [OF home] lb(2) by auto
  obtain i j t u v where "bread 1 (logblk s k) s = Ret (i, t)" "bread 1 (lh_block s ! k) t = Ret (j, u)"
    "bindR (bwrite i (setdata i (bdata (bufs u ! j)) u)) (\<lambda>s. bindR (brelse j s) (brelse i)) = Ret v"
    "wrote [(logblk s k, view s (lh_block s ! k))] s v" "bio_frame s t"
    using copy_block [OF d(1) d(8) [OF home] _ lb(3) _ ne, of "lh_block s ! k" "logblk s k"]
      home pin room h unfolding if_not_P [OF ne [symmetric]] by (simp only: Un_empty_left empty_iff) blast
  then show ?thesis using klog_frame [of s t]
    by (simp add: write_log_step_def d(9) flip: logblk_def) blast
qed

lemma install_step_spec:
  assumes ok: "log_ok s" and k: "k < nat (lh_n s)" and h: "held s = {}"
    and room: "card (pinned s) < NBUF" "card (pinned s) + 1 < NBUF \<or> lh_block s ! k \<in> pinned s"
  shows "\<exists>t. install_step k s = Ret t \<and> wrote [(lh_block s ! k, view s (logblk s k))] s t"
proof -
  note d = log_okD [OF ok]
  have ks: "int k < lsize s - 1" using k d(4,6) by linarith
  note lb = logblk_unat [OF d(2) ks]
  have home: "lh_block s ! k \<in> set (logged s)" by (rule d(12) [OF k])
  have ne: "logblk s k \<noteq> lh_block s ! k" using d(7) [OF home] lb(2) by auto
  obtain i j t u v where "bread 1 (logblk s k) s = Ret (i, t)" "bread 1 (lh_block s ! k) t = Ret (j, u)"
    "bindR (bwrite j (setdata j (bdata (bufs u ! i)) u)) (\<lambda>s. bindR (brelse i s) (brelse j)) = Ret v"
    "wrote [(lh_block s ! k, view s (logblk s k))] s v" "bio_frame s t"
    using copy_block [OF d(1) lb(3) _ d(8) [OF home] _ ne, of "lh_block s ! k" "logblk s k"]
      ne home room h unfolding if_P [OF refl] by (simp only: Un_empty_left empty_iff) blast
  then show ?thesis using klog_frame [of s t]
    by (simp add: install_step_def d(9) flip: logblk_def) blast
qed

lemma wrote_loop:
  assumes "bio_inv s"
    and "\<And>k t. k < m \<Longrightarrow> wrote (map g [0..<k]) s t \<Longrightarrow> \<exists>u. f k t = Ret u \<and> wrote [g k] t u"
  shows "\<exists>t. foldR f [0..<m] s = Ret t \<and> wrote (map g [0..<m]) s t"
  using assms(2)
proof (induction m)
  case 0
  then show ?case using assms(1) by (simp add: wrote_refl)
next
  case (Suc m)
  then obtain t where t: "foldR f [0..<m] s = Ret t" "wrote (map g [0..<m]) s t"
    using less_Suc_eq by metis
  moreover obtain u where u: "f m t = Ret u" "wrote [g m] t u" using Suc.prems [OF _ t(2)] by blast
  ultimately show ?case using wrote_trans [OF t(2) u(2)] by (simp add: foldR_append)
qed

definition log_copies :: "'a klog_scheme \<Rightarrow> (uint \<times> blk) list" where
  "log_copies s = map (\<lambda>k. (logblk s k, view s (lh_block s ! k))) [0..<nat (lh_n s)]"

definition home_copies :: "'a klog_scheme \<Rightarrow> (uint \<times> blk) list" where
  "home_copies s = map (\<lambda>k. (lh_block s ! k, view s (logblk s k))) [0..<nat (lh_n s)]"

lemma write_log_spec:
  assumes ok: "log_ok s" and h: "held s = {}" and pin: "set (logged s) \<subseteq> pinned s"
    and room: "card (pinned s) < NBUF"
  shows "\<exists>t. write_log s = Ret t \<and> wrote (log_copies s) s t"
  unfolding write_log_def log_copies_def
proof (rule wrote_loop [OF log_okD(1) [OF ok]])
  fix k t
  assume k: "k < nat (lh_n s)"
    and w: "wrote (map (\<lambda>k. (logblk s k, view s (lh_block s ! k))) [0..<k]) s t"
  let ?ws = "map (\<lambda>k. (logblk s k, view s (lh_block s ! k))) [0..<k]"
  note d = log_okD [OF ok] and f = klog_frame [OF wroteD(2) [OF w]]
  have out: "b \<notin> fst ` set ?ws" if b: "b \<in> set (logged s)" for b
  proof
    assume "b \<in> fst ` set ?ws"
    then obtain j where "j < k" "b = logblk s j" by auto
    moreover from this have "int j < lsize s - 1" using k d(4,6) by linarith
    ultimately show False using logblk_unat(2) [OF d(2)] d(7) [OF b] by simp
  qed
  have p: "pinned t \<subseteq> pinned s" "set (logged t) \<subseteq> pinned t"
    unfolding wroteD(4) [OF w] f(8) using pin out by blast+
  have fin: "finite (pinned s)" using held_pinned_finite [of s] by simp
  have "card (pinned t) < NBUF" using card_mono [OF fin p(1)] room by linarith
  then obtain u where "write_log_step k t = Ret u" "wrote [(logblk t k, view t (lh_block t ! k))] t u"
    using write_log_step_spec [OF wrote_log_ok [OF w ok], of k] k f(6) wroteD(3) [OF w] h p by auto
  moreover have "view t (lh_block s ! k) = view s (lh_block s ! k)"
    unfolding wroteD(5) [OF w] by (rule view_writes_other [OF out [OF d(12) [OF k]]])
  ultimately show "\<exists>u. write_log_step k t = Ret u \<and> wrote [(logblk s k, view s (lh_block s ! k))] t u"
    using f(7,10) by auto
qed

lemma install_trans_spec:
  assumes ok: "log_ok s" and h: "held s = {}" and room: "card (pinned s) < NBUF"
    and pin: "pinned s = {} \<or> distinct (logged s) \<and> set (logged s) = pinned s"
  shows "\<exists>t. install_trans s = Ret t \<and> wrote (home_copies s) s t"
  unfolding install_trans_def home_copies_def
proof (rule wrote_loop [OF log_okD(1) [OF ok]])
  fix k t
  assume k: "k < nat (lh_n s)"
    and w: "wrote (map (\<lambda>k. (lh_block s ! k, view s (logblk s k))) [0..<k]) s t"
  let ?ws = "map (\<lambda>k. (lh_block s ! k, view s (logblk s k))) [0..<k]"
  note d = log_okD [OF ok] and f = klog_frame [OF wroteD(2) [OF w]]
  have p: "pinned t \<subseteq> pinned s" using wroteD(4) [OF w] by blast
  have fin: "finite (pinned s)" using held_pinned_finite [of s] by simp
  have c: "card (pinned t) < NBUF" using card_mono [OF fin p] room by linarith
  have here: "card (pinned t) + 1 < NBUF \<or> lh_block s ! k \<in> pinned t"
  proof (cases "pinned s = {}")
    case False
    then have dis: "distinct (logged s)" and eq: "set (logged s) = pinned s" using pin by auto
    have "lh_block s ! k \<notin> fst ` set ?ws"
    proof
      assume "lh_block s ! k \<in> fst ` set ?ws"
      then obtain j where j: "j < k" "lh_block s ! j = lh_block s ! k" by auto
      then have "logged s ! j = logged s ! k" using d(11) k by auto
      then show False using nth_eq_iff_index_eq [OF dis, of j k] d(10) j(1) k by simp
    qed
    then show ?thesis using wroteD(4) [OF w] eq d(12) [OF k] by auto
  qed (use p in auto)
  have lk: "int k < lsize s - 1" using k d(4,6) by linarith
  have "logblk s k \<notin> fst ` set ?ws"
  proof
    assume "logblk s k \<in> fst ` set ?ws"
    then obtain j where j: "j < k" "lh_block s ! j = logblk s k" by auto
    then show False using d(7) [OF d(12), of j] logblk_unat(2) [OF d(2) lk] k by auto
  qed
  then have "view t (logblk s k) = view s (logblk s k)"
    unfolding wroteD(5) [OF w] by (rule view_writes_other)
  moreover obtain u where "install_step k t = Ret u" "wrote [(lh_block t ! k, view t (logblk t k))] t u"
    using install_step_spec [OF wrote_log_ok [OF w ok], of k] k f(6,7) wroteD(3) [OF w] h c here by auto
  ultimately show "\<exists>u. install_step k t = Ret u \<and> wrote [(lh_block s ! k, view s (logblk s k))] t u"
    using f(7,10) by auto
qed

section \<open>The header block\<close>

definition put_head :: "int \<Rightarrow> uint list \<Rightarrow> blk \<Rightarrow> blk" where
  "put_head n bs d = put_words 4 bs (wr32 d 0 (of_int n))"

lemma length_put_words [simp]: "off + 4 * length ws \<le> length d \<Longrightarrow> length (put_words off ws d) = length d"
  by (induction off ws d rule: put_words.induct) simp_all

lemma rd32_put_words_before:
  "off + 4 * length ws \<le> length d \<Longrightarrow> a + 4 \<le> off \<Longrightarrow> rd32 (put_words off ws d) a = rd32 d a"
  by (induction off ws d rule: put_words.induct) (simp_all add: rd32_wr32_other)

lemma rd32_put_words:
  "off + 4 * length ws \<le> length d \<Longrightarrow> k < length ws \<Longrightarrow> rd32 (put_words off ws d) (off + 4 * k) = ws ! k"
proof (induction off ws d arbitrary: k rule: put_words.induct)
  case (2 off w ws d)
  show ?case
  proof (cases k)
    case 0
    then show ?thesis using 2 by (simp add: rd32_put_words_before)
  next
    case (Suc j)
    then show ?thesis using 2 by (simp add: algebra_simps)
  qed
qed simp

lemma put_head_rd:
  assumes "length d = BSIZE" "length bs \<le> LOGSIZE"
  shows "length (put_head n bs d) = BSIZE" "rd32 (put_head n bs d) 0 = of_int n"
    "k < length bs \<Longrightarrow> rd32 (put_head n bs d) (4 + 4 * k) = bs ! k"
  using assms by (simp_all add: put_head_def rd32_put_words_before rd32_put_words)

lemma write_one:
  assumes inv: "bio_inv s" and h: "held s = {}" and b: "unat b < length (memdisk s)"
    and room: "card (pinned s) < NBUF" and f: "length (f (view s b)) = BSIZE"
  shows "\<exists>i u v. bread 1 b s = Ret (i, u) \<and> bio_frame s u \<and>
    bindR (bwrite i (setdata i (f (bdata (bufs u ! i))) u)) (brelse i) = Ret v \<and>
    wrote [(b, f (view s b))] s v"
proof -
  obtain i u where r: "bread 1 b s = Ret (i, u)" "bread_post b s i u"
    using bread_spec [OF inv b] room h by (metis Un_empty_left empty_iff)
  note p = bread_postD [OF r(2)]
  have hb: "b \<in> held u" using p(4) by simp
  note d = setdata_spec [OF p(1,3) hb f]
  obtain x where x: "bwrite i (setdata i (f (view s b)) u) = Ret x"
    "bwrite_post b (setdata i (f (view s b)) u) x"
    using bwrite_spec [OF d(1), of b i] p(3) hb unfolding d by blast
  note w = bwrite_postD [OF x(2), unfolded d, simplified]
  have "view x b = memdisk x ! unat b" using w(6,7) b p(7) by simp
  then obtain v where v: "brelse i x = Ret v" "brelse_post b x v"
    using brelse_spec [OF w(1), of b i] p(3) hb unfolding w by blast
  note y = brelse_postD [OF v(2), unfolded w]
  have "bio_frame s v" using p(2) d(2) w(2) y(2) bio_frame_trans by blast
  then have "wrote [(b, f (view s b))] s v" using y p h by (auto simp: wrote_def)
  moreover have "bindR (bwrite i (setdata i (f (bdata (bufs u ! i))) u)) (brelse i) = Ret v"
    using x(1) v(1) by (simp add: p(9))
  ultimately show ?thesis using r(1) p(2) by blast
qed

lemma write_head_spec:
  assumes ok: "log_ok s" and h: "held s = {}" and room: "card (pinned s) < NBUF"
  shows "\<exists>t. write_head s = Ret t \<and>
    wrote [(lstart s, put_head (lh_n s) (logged s) (view s (lstart s)))] s t"
proof -
  note d = log_okD [OF ok]
  have b: "unat (lstart s) < length (memdisk s)" by (rule lstart_in_log(2) [OF d(2)])
  have "length (put_head (lh_n s) (logged s) (view s (lstart s))) = BSIZE"
    by (rule put_head_rd(1)) (use length_view [OF d(1) b] d(5,10) in auto)
  from write_one [where f = "put_head (lh_n s) (logged s)", OF d(1) h b room this]
  obtain i u v where *: "bread 1 (lstart s) s = Ret (i, u)" "bio_frame s u"
    "bindR (bwrite i (setdata i (put_head (lh_n s) (logged s) (bdata (bufs u ! i))) u)) (brelse i) = Ret v"
    "wrote [(lstart s, put_head (lh_n s) (logged s) (view s (lstart s)))] s v" by blast
  moreover have "write_head s = Ret v"
    using * klog_frame(6,7) [OF *(2)] by (simp add: write_head_def Let_def d(9) put_head_def logged_def)
  ultimately show ?thesis by blast
qed

section \<open>Commit\<close>

text \<open>
  The state in which \<open>commit\<close> runs: no buffer held, the pinned buffers are the logged blocks,
  each once, and one buffer is left for the log blocks.
\<close>

definition commit_pre :: "'a klog_scheme \<Rightarrow> bool" where
  "commit_pre s \<longleftrightarrow> log_ok s \<and> held s = {} \<and> distinct (logged s) \<and> set (logged s) = pinned s \<and>
     lh_n s < int NBUF"

definition commit_head :: "'a klog_scheme \<Rightarrow> blk" where
  "commit_head s = put_head (lh_n s) (logged s) (view s (lstart s))"

definition commit_writes :: "'a klog_scheme \<Rightarrow> (uint \<times> blk) list" where
  "commit_writes s =
     log_copies s @ [(lstart s, commit_head s)] @
     map (\<lambda>b. (b, view s b)) (logged s) @
     [(lstart s, put_head 0 [] (commit_head s))]"

lemma commit_pre_card: "commit_pre s \<Longrightarrow> card (pinned s) < NBUF"
proof -
  assume a: "commit_pre s"
  then have "card (pinned s) = nat (lh_n s)"
    using distinct_card [of "logged s"] log_okD(10) [of s] by (auto simp: commit_pre_def)
  then show ?thesis using a unfolding commit_pre_def by linarith
qed

lemma log_copies_fst:
  assumes "log_ok s"
  shows "b \<in> fst ` set (log_copies s) \<Longrightarrow> in_log s b \<and> b \<noteq> lstart s"
    and "k < nat (lh_n s) \<Longrightarrow> view_writes (log_copies s) v (logblk s k) = view s (lh_block s ! k)"
proof -
  note d = log_okD [OF assms]
  have lt: "int k < lsize s - 1" if "k < nat (lh_n s)" for k using that d(4,6) by linarith
  show "b \<in> fst ` set (log_copies s) \<Longrightarrow> in_log s b \<and> b \<noteq> lstart s"
    using logblk_unat(2,4) [OF d(2) lt] by (auto simp: log_copies_def)
  have "view_writes (map (\<lambda>k. (logblk s k, view s (lh_block s ! k))) [0..<m]) v (logblk s k) =
      view s (lh_block s ! k)" if "k < m" "m \<le> nat (lh_n s)" for m k
    using that
  proof (induction m)
    case (Suc m)
    show ?case
    proof (cases "k = m")
      case False
      have "logblk s k \<noteq> logblk s m"
        using logblk_inj [OF d(2) lt lt, of k m] Suc.prems False by auto
      then show ?thesis using Suc False by simp
    qed simp
  qed simp
  then show "k < nat (lh_n s) \<Longrightarrow> view_writes (log_copies s) v (logblk s k) = view s (lh_block s ! k)"
    by (simp add: log_copies_def)
qed

lemma commit_spec:
  assumes pre: "commit_pre s" and n: "lh_n s > 0"
  shows "\<exists>t. commit s = Ret t \<and> wrote (commit_writes s) (s\<lparr>lh_n := 0\<rparr>) t"
proof -
  have ok: "log_ok s" and h: "held s = {}" and dis: "distinct (logged s)"
    and pin: "set (logged s) = pinned s" using pre by (auto simp: commit_pre_def)
  note d = log_okD [OF ok] and room = commit_pre_card [OF pre]
  obtain a where a: "write_log s = Ret a" "wrote (log_copies s) s a"
    using write_log_spec [OF ok h _ room] pin by auto
  note fa = klog_frame [OF wroteD(2) [OF a(2)]] and wa = wroteD [OF a(2)]
  have oka: "log_ok a" by (rule wrote_log_ok [OF a(2) ok])
  have out: "b \<notin> fst ` set (log_copies s)" if "b \<in> set (logged s)" for b
    using log_copies_fst(1) [OF ok, of b] d(7) [OF that] by blast
  have pa: "pinned a = pinned s" using wa(4) out pin by blast
  have la: "view a (lstart s) = view s (lstart s)"
    unfolding wa(5) by (rule view_writes_other) (use log_copies_fst(1) [OF ok] in blast)
  obtain b where b: "write_head a = Ret b" "wrote [(lstart s, commit_head s)] a b"
    using write_head_spec [OF oka] wa(3) h pa room fa la by (auto simp: commit_head_def)
  note fb = klog_frame [OF wroteD(2) [OF b(2)]] and wb = wroteD [OF b(2)]
  have okb: "log_ok b" by (rule wrote_log_ok [OF b(2) oka])
  have "lstart s \<notin> pinned s" using d(7) lstart_in_log(1) [OF d(2)] pin by blast
  then have pb: "pinned b = pinned s" using wb(4) pa by simp
  obtain c where c: "install_trans b = Ret c" "wrote (home_copies b) b c"
    using install_trans_spec [OF okb] wb(3) wa(3) h pb room fb fa dis pin by auto
  have hc: "home_copies b = map (\<lambda>b. (b, view s b)) (logged s)"
  proof (rule nth_equalityI)
    show "length (home_copies b) = length (map (\<lambda>b. (b, view s b)) (logged s))"
      using d(10) fb fa by (simp add: home_copies_def)
    fix k assume "k < length (home_copies b)"
    then have k: "k < nat (lh_n s)" using fb fa by (simp add: home_copies_def)
    then have ks: "int k < lsize s - 1" using d(4,6) by linarith
    have "view b (logblk s k) = view s (lh_block s ! k)"
      using log_copies_fst(2) [OF ok k] logblk_unat(4) [OF d(2) ks] by (simp add: wb(5) wa(5))
    then show "home_copies b ! k = map (\<lambda>b. (b, view s b)) (logged s) ! k"
      using k d(10,11) fb fa by (simp add: home_copies_def)
  qed
  note fc = klog_frame [OF wroteD(2) [OF c(2)]] and wc = wroteD [OF c(2)]
  let ?c = "c\<lparr>lh_n := 0\<rparr>"
  have okc: "log_ok ?c"
    using wrote_log_ok [OF c(2) okb] by (auto simp: log_ok_def log_geom_def logged_def in_log_def)
  have lc: "view c (lstart s) = commit_head s"
  proof -
    have "lstart s \<notin> fst ` set (home_copies b)"
      unfolding hc using d(7) lstart_in_log(1) [OF d(2)] by auto
    then show ?thesis unfolding wc(5) by (simp add: view_writes_other wb(5))
  qed
  have pc: "card (pinned ?c) < NBUF"
    using wc(4) pb room card_mono [of "pinned s" "pinned c"] held_pinned_finite [of s] by auto
  have "held ?c = {}" using wc(3) wb(3) wa(3) h by simp
  from write_head_spec [OF okc this pc]
  obtain t where t: "write_head ?c = Ret t" "wrote [(lstart s, put_head 0 [] (commit_head s))] ?c t"
    using fc fb fa lc by (auto simp: logged_def)
  have "wrote (log_copies s @ [(lstart s, commit_head s)] @ home_copies b) s c"
    by (intro wrote_trans [OF a(2)] wrote_trans [OF b(2)] c(2))
  then have "wrote (log_copies s @ [(lstart s, commit_head s)] @ home_copies b) (s\<lparr>lh_n := 0\<rparr>) ?c"
    by (rule wrote_lh_n)
  from wrote_trans [OF this t(2)] have "wrote (commit_writes s) (s\<lparr>lh_n := 0\<rparr>) t"
    by (simp only: commit_writes_def hc append_assoc)
  moreover have "commit s = Ret t" using n a(1) b(1) c(1) t(1) by (simp add: commit_def)
  ultimately show ?thesis by blast
qed

section \<open>Recovery\<close>

definition hdr_blocks :: "blk \<Rightarrow> uint list" where
  "hdr_blocks h = map (\<lambda>i. rd32 h (4 + 4 * i)) [0..<nat (sint (rd32 h 0))]"

definition recover_writes :: "'a klog_scheme \<Rightarrow> blk list \<Rightarrow> (uint \<times> blk) list" where
  "recover_writes s D =
     (let h = D ! unat (lstart s)
      in map (\<lambda>k. (hdr_blocks h ! k, D ! unat (logblk s k))) [0..<length (hdr_blocks h)] @
         [(lstart s, put_head 0 [] h)])"

text \<open>
  A booted kernel: an empty cache, and a log header on disk that some commit wrote.
\<close>

definition hdr_ok :: "'a klog_scheme \<Rightarrow> blk \<Rightarrow> bool" where
  "hdr_ok s h \<longleftrightarrow> 0 \<le> sint (rd32 h 0) \<and> sint (rd32 h 0) \<le> int LOGSIZE \<and>
     sint (rd32 h 0) \<le> lsize s - 1 \<and>
     (\<forall>b \<in> set (hdr_blocks h). \<not> in_log s b \<and> unat b < length (memdisk s))"

definition booted :: "'a klog_scheme \<Rightarrow> bool" where
  "booted s \<longleftrightarrow> bio_inv s \<and> held s = {} \<and> pinned s = {} \<and> log_geom s \<and>
     length (lh_block s) = LOGSIZE \<and> hdr_ok s (memdisk s ! unat (lstart s))"

lemma read_head_spec:
  assumes b: "booted s"
  defines "h \<equiv> memdisk s ! unat (lstart s)"
  defines "u \<equiv> s\<lparr>lh_n := sint (rd32 h 0),
    lh_block := hdr_blocks h @ drop (nat (sint (rd32 h 0))) (lh_block s)\<rparr>"
  shows "\<exists>t. read_head s = Ret t \<and> wrote [] u t"
proof -
  have inv: "bio_inv s" and hp: "held s = {}" "pinned s = {}" and g: "log_geom s"
    and hok: "hdr_ok s h" using b by (simp_all add: booted_def h_def)
  have bn: "unat (lstart s) < length (memdisk s)" by (rule lstart_in_log(2) [OF g])
  obtain i t where r: "bread 1 (lstart s) s = Ret (i, t)" "bread_post (lstart s) s i t"
    using bread_spec [OF inv bn] hp by auto
  note p = bread_postD [OF r(2)] and f = klog_frame [OF bread_postD(2) [OF r(2)]]
  have vh: "view s (lstart s) = h" using view_clean [OF inv] hp by (simp add: h_def)
  let ?t = "t\<lparr>lh_n := sint (rd32 h 0), lh_block := hdr_blocks h @ drop (nat (sint (rd32 h 0))) (lh_block t)\<rparr>"
  obtain v where v: "brelse i ?t = Ret v" "brelse_post (lstart s) ?t v"
    using brelse_spec [of ?t "lstart s" i] p vh h_def by auto
  note x = brelse_postD [OF v(2)]
  have "bio_frame u ?t"
    unfolding u_def f(7) by (intro bio_frame_lh_block bio_frame_lh_n p(2))
  then have "wrote [] u v" using x p hp bio_frame_trans [of u ?t v] by (auto simp: wrote_def u_def)
  moreover have "read_head s = Ret v"
  proof -
    have "ldev s = 1" "sint (rd32 h 0) \<le> 30" using g hok by (simp_all add: log_geom_def hdr_ok_def)
    then show ?thesis using r(1) v(1) f p(9) vh
      by (simp add: read_head_def Let_def hdr_blocks_def)
  qed
  ultimately show ?thesis by blast
qed

lemma recover_spec:
  assumes b: "booted s"
  shows "\<exists>t. recover_from_log s = Ret t \<and> bio_inv t \<and> held t = {} \<and> pinned t = {} \<and> lh_n t = 0 \<and>
    memdisk t = apply_writes (recover_writes s (memdisk s)) (memdisk s) \<and>
    writes t = writes s @ recover_writes s (memdisk s)"
proof -
  define h where "h = memdisk s ! unat (lstart s)"
  define u where "u = s\<lparr>lh_n := sint (rd32 h 0),
    lh_block := hdr_blocks h @ drop (nat (sint (rd32 h 0))) (lh_block s)\<rparr>"
  have inv: "bio_inv s" and hp: "held s = {}" "pinned s = {}" and g: "log_geom s"
    and hok: "hdr_ok s h" and len: "length (lh_block s) = LOGSIZE"
    using b by (simp_all add: booted_def h_def)
  have vs: "view s bn = memdisk s ! unat bn" for bn using view_clean [OF inv] hp by simp
  obtain a where a: "read_head s = Ret a" "wrote [] u a"
    using read_head_spec [OF b] unfolding u_def h_def by blast
  have lu: "logged u = hdr_blocks h" by (simp add: logged_def u_def hdr_blocks_def)
  have "log_ok u"
    using inv g hok len lu by (auto simp: log_ok_def hdr_ok_def u_def log_geom_def in_log_def hdr_blocks_def)
  note oka = wrote_log_ok [OF a(2) this]
  note fa = klog_frame [OF wroteD(2) [OF a(2)]] and wa = wroteD [OF a(2), simplified]
  obtain c where c: "install_trans a = Ret c" "wrote (home_copies a) a c"
    using install_trans_spec [OF oka] wa(3,4) hp by (auto simp: u_def)
  have hc: "home_copies a = map (\<lambda>k. (hdr_blocks h ! k, memdisk s ! unat (logblk s k))) [0..<length (hdr_blocks h)]"
    using fa wa(5) vs by (auto simp: home_copies_def u_def logblk_def nth_append hdr_blocks_def)
  note fc = klog_frame [OF wroteD(2) [OF c(2)]] and wc = wroteD [OF c(2)]
  let ?c = "c\<lparr>lh_n := 0\<rparr>"
  have okc: "log_ok ?c"
    using wrote_log_ok [OF c(2) oka] by (auto simp: log_ok_def log_geom_def logged_def in_log_def)
  have pc: "pinned ?c = {}" "held ?c = {}" using wc(3,4) wa(3,4) hp by (simp_all add: u_def)
  have lc: "view c (lstart s) = h"
  proof -
    have "lstart s \<notin> fst ` set (home_copies a)"
      unfolding hc using hok lstart_in_log(1) [OF g] by (auto simp: hdr_ok_def)
    then show ?thesis unfolding wc(5) by (simp add: view_writes_other wa(5) u_def vs h_def)
  qed
  obtain t where t: "write_head ?c = Ret t" "wrote [(lstart s, put_head 0 [] h)] ?c t"
    using write_head_spec [OF okc pc(2)] pc(1) fc fa lc by (auto simp: logged_def u_def)
  note wt = wroteD [OF t(2)] and ft = klog_frame [OF wroteD(2) [OF t(2)]]
  have rw: "recover_writes s (memdisk s) = home_copies a @ [(lstart s, put_head 0 [] h)]"
    unfolding hc by (simp add: recover_writes_def Let_def h_def)
  have "recover_from_log s = Ret t" using a(1) c(1) t(1) by (simp add: recover_from_log_def)
  moreover have "memdisk t = apply_writes (recover_writes s (memdisk s)) (memdisk s)"
    "writes t = writes s @ recover_writes s (memdisk s)"
    unfolding rw using wt(6,7) wc(6,7) wa(6,7) by (simp_all add: u_def)
  ultimately show ?thesis using wt(1,3,4) pc ft(6) by auto
qed

section \<open>What a crash leaves on disk\<close>

lemma sint_of_int32: "0 \<le> n \<Longrightarrow> n \<le> int LOGSIZE \<Longrightarrow> sint (of_int n :: uint) = n"
  by (simp add: int_word_sint)

lemma hdr_blocks_put_head:
  assumes "length d = BSIZE" "0 \<le> n" "nat n = length bs" "n \<le> int LOGSIZE"
  shows "hdr_blocks (put_head n bs d) = bs"
proof -
  have "length bs \<le> LOGSIZE" using assms(3,4) by linarith
  note r = put_head_rd [where n = n, OF assms(1) this]
  then show ?thesis using assms(2-4)
    by (intro nth_equalityI) (auto simp: hdr_blocks_def sint_of_int32)
qed

lemma hdr_blocks_cleared [simp]: "length d = BSIZE \<Longrightarrow> hdr_blocks (put_head 0 [] d) = []"
  by (rule hdr_blocks_put_head) simp_all

text \<open>The disk outside the log after a recovery: the blocks of the header are replaced.\<close>

definition recovered :: "'a klog_scheme \<Rightarrow> blk list \<Rightarrow> uint \<Rightarrow> blk" where
  "recovered s D b =
     (let h = D ! unat (lstart s)
      in view_writes (map (\<lambda>k. (hdr_blocks h ! k, D ! unat (logblk s k))) [0..<length (hdr_blocks h)])
           (\<lambda>b. D ! unat b) b)"

lemma apply_writes_nth:
  "unat b < length D \<Longrightarrow> apply_writes ws D ! unat b = view_writes ws (\<lambda>b. D ! unat b) b"
  by (cases "b \<in> fst ` set ws") (simp_all add: apply_writes_view apply_writes_other view_writes_other)

lemma recover_disk:
  assumes b: "booted s"
  shows "\<exists>t. recover_from_log s = Ret t \<and> hdr_blocks (memdisk t ! unat (lstart s)) = [] \<and>
    (\<forall>b. unat b < length (memdisk s) \<and> \<not> in_log s b \<longrightarrow> memdisk t ! unat b = recovered s (memdisk s) b)"
proof -
  let ?h = "memdisk s ! unat (lstart s)"
  have g: "log_geom s" and inv: "bio_inv s" using b by (simp_all add: booted_def)
  note st = lstart_in_log [OF g]
  have len: "length ?h = BSIZE" using bio_invD(4) [OF inv] st(2) by simp
  obtain t where t: "recover_from_log s = Ret t"
    "memdisk t = apply_writes (recover_writes s (memdisk s)) (memdisk s)"
    using recover_spec [OF b] by blast
  have "memdisk t ! unat (lstart s) = put_head 0 [] ?h"
    unfolding t(2) using st(2) by (simp add: recover_writes_def Let_def)
  moreover have "memdisk t ! unat b = recovered s (memdisk s) b"
    if "unat b < length (memdisk s)" "\<not> in_log s b" for b
  proof -
    have "b \<noteq> lstart s" using that st(1) by auto
    then show ?thesis unfolding t(2) apply_writes_nth [OF that(1)]
      by (simp add: recover_writes_def recovered_def Let_def)
  qed
  ultimately show ?thesis using t(1) len by auto
qed

lemma recovered_same_log:
  assumes "lstart r = lstart s" "D' ! unat (lstart s) = D ! unat (lstart s)"
    and "\<And>k. k < length (hdr_blocks (D ! unat (lstart s))) \<Longrightarrow> D' ! unat (logblk s k) = D ! unat (logblk s k)"
    and "b \<notin> set (hdr_blocks (D ! unat (lstart s))) \<Longrightarrow> D' ! unat b = D ! unat b"
  shows "recovered r D' b = recovered s D b"
proof -
  let ?bs = "hdr_blocks (D ! unat (lstart s))"
  let ?ws = "map (\<lambda>k. (?bs ! k, D ! unat (logblk s k))) [0..<length ?bs]"
  have "map (\<lambda>k. (?bs ! k, D' ! unat (logblk r k))) [0..<length ?bs] = ?ws"
    using assms(1,3) by (auto simp: logblk_def)
  moreover have "view_writes ?ws (\<lambda>b. D' ! unat b) b = view_writes ?ws (\<lambda>b. D ! unat b) b"
  proof (cases "b \<in> fst ` set ?ws")
    case False
    moreover have "fst ` set ?ws = set ?bs" by (force simp: in_set_conv_nth image_iff)
    ultimately show ?thesis using assms(4) by (simp add: view_writes_other)
  next
    case True
    then show ?thesis by (rule view_writes_mem)
  qed
  ultimately show ?thesis unfolding recovered_def Let_def assms(1,2) by (simp only:)
qed

text \<open>
  The machine that boots after a crash: its disk is that of \<open>s\<close> after the first \<open>k\<close> of the
  writes \<open>ws\<close>, its cache is empty, and \<open>initlog\<close> has found the log where it was.
\<close>

definition crashed :: "nat \<Rightarrow> (uint \<times> blk) list \<Rightarrow> 'a klog_scheme \<Rightarrow> 'a klog_scheme \<Rightarrow> bool" where
  "crashed k ws s r \<longleftrightarrow>
     memdisk r = apply_writes (take k ws) (memdisk s) \<and> bio_inv r \<and> held r = {} \<and> pinned r = {} \<and>
     lstart r = lstart s \<and> lsize r = lsize s \<and> ldev r = 1 \<and> length (lh_block r) = LOGSIZE"

lemma crashed_geom: "crashed k ws s r \<Longrightarrow> log_geom s \<Longrightarrow> log_geom r \<and> in_log r = in_log s"
  by (auto simp: crashed_def log_geom_def in_log_def fun_eq_iff)

lemma crashed_disk:
  assumes "crashed k ws s r" "unat b < length (memdisk s)"
  shows "memdisk r ! unat b = view_writes (take k ws) (\<lambda>b. memdisk s ! unat b) b"
  using assms by (simp add: crashed_def apply_writes_nth)

text \<open>
  The three phases of a commit at which the machine can stop: before the header is written,
  after it, and after the header is cleared.
\<close>

lemma commit_cases:
  assumes "k \<le> length (commit_writes s)" "log_ok s"
  obtains (before) "take k (commit_writes s) = take k (log_copies s)" "k \<le> nat (lh_n s)"
  | (committed) j where "take k (commit_writes s) = log_copies s @ [(lstart s, commit_head s)] @
        map (\<lambda>b. (b, view s b)) (take j (logged s))" "\<not> k \<le> nat (lh_n s)"
  | (cleared) "take k (commit_writes s) = commit_writes s" "\<not> k \<le> nat (lh_n s)"
proof -
  let ?n = "nat (lh_n s)"
  have ln: "length (log_copies s) = ?n" "length (logged s) = ?n"
    using log_okD(10) [OF assms(2)] by (simp_all add: log_copies_def)
  have total: "length (commit_writes s) = 2 * ?n + 2" using ln by (simp add: commit_writes_def)
  consider "k \<le> ?n" | "?n < k" "k \<le> 2 * ?n + 1" | "k = 2 * ?n + 2" using assms(1) total by linarith
  then show ?thesis
  proof cases
    case 1
    then show ?thesis using before ln by (simp add: commit_writes_def)
  next
    case 2
    then have "take k (commit_writes s) = log_copies s @ [(lstart s, commit_head s)] @
      map (\<lambda>b. (b, view s b)) (take (k - Suc ?n) (logged s))"
      using ln by (simp add: commit_writes_def take_Cons' take_map)
    then show ?thesis using committed 2 by simp
  next
    case 3
    then show ?thesis using cleared total by simp
  qed
qed

lemma view_writes_graph:
  "view_writes (map (\<lambda>b. (b, f b)) bs) v b = (if b \<in> set bs then f b else v b)"
  by (induction bs arbitrary: v) auto

lemma recovered_no_hdr: "hdr_blocks (D ! unat (lstart s)) = [] \<Longrightarrow> recovered s D b = D ! unat b"
  by (simp add: recovered_def)

text \<open>The disk of the crashed machine in each of the phases.\<close>

lemma pre_facts:
  assumes pre: "commit_pre s"
  shows "log_ok s" "log_geom s" "bio_inv s" "held s = {}" "pinned s = set (logged s)"
    "length (view s (lstart s)) = BSIZE" "length (commit_head s) = BSIZE"
    "hdr_blocks (commit_head s) = logged s" "sint (rd32 (commit_head s) 0) = lh_n s"
    "sint (rd32 (put_head 0 [] (commit_head s)) 0) = 0"
proof -
  show ok: "log_ok s" and "held s = {}" "pinned s = set (logged s)"
    using pre by (auto simp: commit_pre_def)
  note d = log_okD [OF ok]
  show "log_geom s" "bio_inv s" by (rule d)+
  show lv: "length (view s (lstart s)) = BSIZE"
    by (rule length_view [OF d(1) lstart_in_log(2) [OF d(2)]])
  have ll: "length (logged s) \<le> LOGSIZE" using d(5,10) by linarith
  note p = put_head_rd [OF lv ll, where n = "lh_n s"]
  show lh: "length (commit_head s) = BSIZE" unfolding commit_head_def by (rule p(1))
  show "hdr_blocks (commit_head s) = logged s"
    unfolding commit_head_def by (rule hdr_blocks_put_head) (use lv d(4,5,10) in auto)
  show "sint (rd32 (commit_head s) 0) = lh_n s"
    unfolding commit_head_def p(2) by (rule sint_of_int32 [OF d(4,5)])
  show "sint (rd32 (put_head 0 [] (commit_head s)) 0) = 0"
    using put_head_rd(2) [OF lh, of "[]" 0] by simp
qed

lemma home_view: "commit_pre s \<Longrightarrow> \<not> in_log s b \<Longrightarrow> b \<notin> set (logged s) \<Longrightarrow> memdisk s ! unat b = view s b"
  using view_clean [OF pre_facts(3), of s b] pre_facts(4,5) [of s] by simp

lemma log_copies_out: "commit_pre s \<Longrightarrow> \<not> in_log s b \<Longrightarrow> b \<notin> fst ` set (take j (log_copies s)) \<and> b \<noteq> lstart s"
  using log_copies_fst(1) [OF pre_facts(1), of s b] set_take_subset [of j "log_copies s"]
    lstart_in_log(1) [OF pre_facts(2), of s] by blast

lemma crash_boot:
  assumes pre: "commit_pre s" and clean: "rd32 (memdisk s ! unat (lstart s)) 0 = 0"
    and crash: "crashed k (commit_writes s) s r"
    and "hdr_ok s (memdisk r ! unat (lstart s))"
  shows "booted r"
  using crash assms crashed_geom [OF crash pre_facts(2) [OF pre]]
  by (auto simp: booted_def crashed_def hdr_ok_def log_geom_def)

lemma crash_before:
  assumes pre: "commit_pre s" and clean: "rd32 (memdisk s ! unat (lstart s)) 0 = 0"
    and crash: "crashed k (commit_writes s) s r"
    and w: "take k (commit_writes s) = take k (log_copies s)"
    and b: "unat b < length (memdisk s)" "\<not> in_log s b"
  shows "booted r" "recovered r (memdisk r) b = memdisk s ! unat b"
proof -
  note st = lstart_in_log [OF pre_facts(2) [OF pre]]
  have "lstart s \<notin> fst ` set (take k (log_copies s))"
    using log_copies_fst(1) [OF pre_facts(1) [OF pre]] set_take_subset [of k "log_copies s"] by blast
  then have h: "memdisk r ! unat (lstart s) = memdisk s ! unat (lstart s)"
    using crashed_disk [OF crash st(2)] w by (simp add: view_writes_other)
  then have hb: "hdr_blocks (memdisk r ! unat (lstart s)) = []" using clean by (simp add: hdr_blocks_def)
  show "booted r" by (rule crash_boot [OF pre clean crash]) (use hb h clean log_okD(4-6) [OF pre_facts(1) [OF pre]] in \<open>simp add: hdr_ok_def\<close>)
  have "recovered r (memdisk r) b = memdisk r ! unat b"
    using hb crash by (intro recovered_no_hdr) (simp add: crashed_def)
  then show "recovered r (memdisk r) b = memdisk s ! unat b"
    using crashed_disk [OF crash b(1)] w log_copies_out [OF pre b(2)] by (simp add: view_writes_other)
qed

lemma crash_committed:
  assumes pre: "commit_pre s" and clean: "rd32 (memdisk s ! unat (lstart s)) 0 = 0"
    and crash: "crashed k (commit_writes s) s r"
    and w: "take k (commit_writes s) = log_copies s @ [(lstart s, commit_head s)] @
      map (\<lambda>b. (b, view s b)) (take j (logged s))"
    and b: "unat b < length (memdisk s)" "\<not> in_log s b"
  shows "booted r" "recovered r (memdisk r) b = view s b"
proof -
  note st = lstart_in_log [OF pre_facts(2) [OF pre]] and d = log_okD [OF pre_facts(1) [OF pre]]
  have nl: "\<not> in_log s c" if "c \<in> set (take j (logged s))" for c
    using d(7) set_take_subset [of j "logged s"] that by blast
  have h: "memdisk r ! unat (lstart s) = commit_head s"
    unfolding crashed_disk [OF crash st(2)] w using nl [of "lstart s"] st(1) by (auto simp: view_writes_graph)
  show "booted r"
    by (rule crash_boot [OF pre clean crash]) (use h pre_facts(8,9) [OF pre] d in \<open>auto simp: hdr_ok_def\<close>)
  have slot: "memdisk r ! unat (logblk s i) = view s (logged s ! i)" if i: "i < nat (lh_n s)" for i
  proof -
    have il: "int i < lsize s - 1" using i d(4,6) by linarith
    note lb = logblk_unat [OF d(2) il]
    show ?thesis
      using crashed_disk [OF crash lb(3)] w nl [of "logblk s i"] lb(2,4) log_copies_fst(2) [OF pre_facts(1) [OF pre] i] d(11) [OF i]
      by (auto simp: view_writes_graph)
  qed
  have "map (\<lambda>i. (logged s ! i, memdisk r ! unat (logblk s i))) [0..<length (logged s)] =
      map (\<lambda>b. (b, view s b)) (logged s)"
    using slot d(10) by (intro nth_equalityI) auto
  then have "recovered r (memdisk r) b = (if b \<in> set (logged s) then view s b else memdisk r ! unat b)"
    using crash h pre_facts(8) [OF pre]
    by (simp add: recovered_def Let_def crashed_def logblk_def view_writes_graph)
  moreover have "memdisk r ! unat b = view s b" if "b \<notin> set (logged s)"
    using crashed_disk [OF crash b(1)] w that home_view [OF pre b(2) that] log_copies_out [OF pre b(2), of "length (log_copies s)"]
      set_take_subset [of j "logged s"]
    by (auto simp: view_writes_graph view_writes_other)
  ultimately show "recovered r (memdisk r) b = view s b" by simp
qed

lemma crash_cleared:
  assumes pre: "commit_pre s" and clean: "rd32 (memdisk s ! unat (lstart s)) 0 = 0"
    and crash: "crashed k (commit_writes s) s r"
    and w: "take k (commit_writes s) = commit_writes s"
    and b: "unat b < length (memdisk s)" "\<not> in_log s b"
  shows "booted r" "recovered r (memdisk r) b = view s b"
proof -
  note st = lstart_in_log [OF pre_facts(2) [OF pre]] and d = log_okD [OF pre_facts(1) [OF pre]]
  have h: "memdisk r ! unat (lstart s) = put_head 0 [] (commit_head s)"
    unfolding crashed_disk [OF crash st(2)] w by (simp add: commit_writes_def)
  then have hb: "hdr_blocks (memdisk r ! unat (lstart s)) = []" using pre_facts(7) [OF pre] by simp
  show "booted r"
    by (rule crash_boot [OF pre clean crash]) (use h hb pre_facts(10) [OF pre] d(4-6) in \<open>simp add: hdr_ok_def\<close>)
  have "recovered r (memdisk r) b = memdisk r ! unat b"
    using hb crash by (intro recovered_no_hdr) (simp add: crashed_def)
  then show "recovered r (memdisk r) b = view s b"
    unfolding crashed_disk [OF crash b(1)] w using home_view [OF pre b(2)] log_copies_out [OF pre b(2), of "length (log_copies s)"]
    by (auto simp: commit_writes_def view_writes_graph view_writes_other)
qed

lemma commit_recovers:
  assumes pre: "commit_pre s" and clean: "rd32 (memdisk s ! unat (lstart s)) 0 = 0"
    and crash: "crashed k (commit_writes s) s r" and k: "k \<le> length (commit_writes s)"
    and n: "lh_n s > 0"
  shows "\<exists>u. recover_from_log r = Ret u \<and> hdr_blocks (memdisk u ! unat (lstart s)) = [] \<and>
    (\<forall>b. unat b < length (memdisk s) \<and> \<not> in_log s b \<longrightarrow>
      memdisk u ! unat b = (if k \<le> nat (lh_n s) then memdisk s ! unat b else view s b))"
proof -
  have same: "lstart r = lstart s" "in_log r = in_log s" "length (memdisk r) = length (memdisk s)"
    using crash crashed_geom [OF crash pre_facts(2) [OF pre]] by (auto simp: crashed_def)
  have phase: "booted r \<and> recovered r (memdisk r) b = (if k \<le> nat (lh_n s) then memdisk s ! unat b else view s b)"
    if b: "unat b < length (memdisk s)" "\<not> in_log s b" for b
    using k pre_facts(1) [OF pre]
  proof (cases rule: commit_cases)
    case before
    then show ?thesis using crash_before [OF pre clean crash before(1) b] by simp
  next
    case (committed j)
    then show ?thesis using crash_committed [OF pre clean crash committed(1) b] by simp
  next
    case cleared
    then show ?thesis using crash_cleared [OF pre clean crash cleared(1) b] by simp
  qed
  note d = log_okD [OF pre_facts(1) [OF pre]]
  have "logged s ! 0 \<in> set (logged s)" using n d(10) by (intro nth_mem) simp
  then have "booted r" using phase d(7,8) by blast
  then show ?thesis using recover_disk [of r] phase same by auto
qed

section \<open>Transactions\<close>

text \<open>
  What a system call sees of the log: \<open>trans_ok\<close> holds from \<open>begin_op\<close> to \<open>end_op\<close>. The pinned
  blocks are the logged ones, and none of them is in the log area.
\<close>

definition trans_ok :: "'a klog_scheme \<Rightarrow> bool" where
  "trans_ok s \<longleftrightarrow> log_ok s \<and> distinct (logged s) \<and> set (logged s) = pinned s \<and> outstanding s \<ge> 1"

text \<open>\<open>log_room k s\<close>: \<open>log_write\<close> accepts \<open>k\<close> more blocks.\<close>

definition log_room :: "nat \<Rightarrow> 'a klog_scheme \<Rightarrow> bool" where
  "log_room k s \<longleftrightarrow> lh_n s + int k \<le> int LOGSIZE \<and> lh_n s + int k \<le> lsize s - 1"

text \<open>Inside a transaction only the cache, the disk and the list of logged blocks change.\<close>

definition log_frame :: "'a klog_scheme \<Rightarrow> 'a klog_scheme \<Rightarrow> bool" where
  "log_frame s t \<longleftrightarrow>
     t = s\<lparr>bufs := bufs t, mru := mru t, memdisk := memdisk t, writes := writes t,
       lh_n := lh_n t, lh_block := lh_block t\<rparr>"

lemma log_frame_refl [simp]: "log_frame s s"
  by (simp add: log_frame_def)

lemma log_frame_trans: "log_frame s t \<Longrightarrow> log_frame t u \<Longrightarrow> log_frame s u"
  unfolding log_frame_def by (cases s; cases t; cases u) simp

lemma bio_frame_log_frame: "bio_frame s t \<Longrightarrow> log_frame s t"
  unfolding bio_frame_def log_frame_def by (cases s; cases t) simp

lemma log_frameD:
  assumes "log_frame s t"
  shows "lstart t = lstart s" "lsize t = lsize s" "outstanding t = outstanding s"
    "committing t = committing s" "ldev t = ldev s" "curpid t = curpid s" "in_log t = in_log s"
proof -
  note e = assms [unfolded log_frame_def]
  show "lstart t = lstart s" "lsize t = lsize s" "outstanding t = outstanding s"
    "committing t = committing s" "ldev t = ldev s" "curpid t = curpid s"
    by (subst e; simp)+
  then show "in_log t = in_log s" by (simp add: in_log_def fun_eq_iff)
qed

definition log_write_post :: "uint \<Rightarrow> 'a klog_scheme \<Rightarrow> 'a klog_scheme \<Rightarrow> bool" where
  "log_write_post bn s t \<longleftrightarrow>
     trans_ok t \<and> cached t = cached s \<and> held t = held s \<and> pinned t = insert bn (pinned s) \<and>
     view t = view s \<and> memdisk t = memdisk s \<and> writes t = writes s \<and>
     logged t = (if bn \<in> set (logged s) then logged s else logged s @ [bn]) \<and>
     log_frame s t"

lemma pin_spec:
  assumes inv: "bio_inv s" and c: "cached s bn i" and h: "bn \<in> held s"
  defines "t \<equiv> updbuf i ((bufs s ! i)\<lparr>bflags := bflags (bufs s ! i) OR B_DIRTY\<rparr>) s"
  shows "bio_inv t" "cached t = cached s" "held t = held s" "pinned t = insert bn (pinned s)"
    "view t = view s"
proof -
  note hc = held_cached [OF inv c h]
  let ?b = "(bufs s ! i)\<lparr>bflags := bflags (bufs s ! i) OR B_DIRTY\<rparr>"
  have f6: "bflags ?b = 6" using hc(8) by (simp split: if_splits)
  have ok: "buf_ok (memdisk s) (curpid s) ?b"
    using bio_invD(5) [OF inv hc(5)] hc(1-4) f6 by (simp add: buf_ok_def)
  have db: "bdev ?b = 1" "bblockno ?b = bn" using hc by simp_all
  note same = updbuf_same [OF inv c db, folded t_def]
  show "bio_inv t" unfolding t_def
    by (rule updbuf_inv [OF inv hc(5) ok]) (use db bio_invD(6) [OF inv c] in auto)
  show "cached t = cached s" by (rule same(1))
  show "held t = held s" "pinned t = insert bn (pinned s)"
    unfolding same(2,3) using hc(1) h f6 by auto
  show "view t = view s" unfolding same(4) [OF ok] using view_cached [OF inv c] by auto
qed

lemma log_write_spec:
  assumes ok: "trans_ok s" and room: "log_room 1 s" and c: "cached s bn i" and h: "bn \<in> held s"
    and bn: "\<not> in_log s bn"
  shows "\<exists>t. log_write i s = Ret t \<and> log_write_post bn s t"
proof -
  have lok: "log_ok s" and out: "outstanding s \<ge> 1" and dis: "distinct (logged s)"
    and pin: "set (logged s) = pinned s" using ok by (auto simp: trans_ok_def)
  note d = log_okD [OF lok] and hc = held_cached [OF log_okD(1) [OF lok] c h]
  let ?n = "nat (lh_n s)"
  have nl: "?n < LOGSIZE" using room d(4) unfolding log_room_def by linarith
  define idx where "idx = (case find_index (\<lambda>x. x = bn) (logged s) of Some i \<Rightarrow> i | None \<Rightarrow> ?n)"
  define u where "u = s\<lparr>lh_block := (lh_block s)[idx := bn],
    lh_n := (if idx = ?n then lh_n s + 1 else lh_n s)\<rparr>"
  have lu: "logged u = (if bn \<in> set (logged s) then logged s else logged s @ [bn])"
  proof (cases "find_index (\<lambda>x. x = bn) (logged s)")
    case None
    then have nb: "bn \<notin> set (logged s)" by auto
    have idx: "idx = ?n" unfolding idx_def None by simp
    have "nat (lh_n s + 1) = Suc ?n" using d(4) by simp
    then have "logged u = take (Suc ?n) ((lh_block s)[?n := bn])" using idx by (simp add: logged_def u_def)
    also have "\<dots> = take ?n (lh_block s) @ [bn]" using nl d(3) by (simp add: take_Suc_conv_app_nth)
    finally show ?thesis using nb by (simp add: logged_def)
  next
    case (Some j)
    then have j: "idx = j" "j < ?n" "logged s ! j = bn" "bn \<in> set (logged s)"
      using find_index_SomeD [OF Some] d(10) by (auto simp: idx_def)
    then have "lh_block s ! j = bn" using d(11) by simp
    then have "(lh_block s)[j := bn] = lh_block s" by (metis list_update_id)
    then show ?thesis using j by (simp add: u_def logged_def)
  qed
  have un: "0 \<le> lh_n u" "lh_n u \<le> 30" "lh_n u \<le> lsize s - 1"
    using room d(4-6) by (auto simp: u_def log_room_def)
  define t where "t = updbuf i ((bufs u ! i)\<lparr>bflags := bflags (bufs u ! i) OR B_DIRTY\<rparr>) u"
  have bu: "bio_inv u" "cached u = cached s" "held u = held s" "pinned u = pinned s" "view u = view s"
    using d(1) by (simp_all add: u_def)
  note p = pin_spec [OF bu(1), of bn i, unfolded bu, OF c h, folded t_def]
  have lt: "logged t = logged u" "in_log t = in_log s" "log_geom t = log_geom s"
    by (simp_all add: t_def u_def updbuf_def logged_def in_log_def log_geom_def fun_eq_iff)
  have "trans_ok t"
    unfolding trans_ok_def log_ok_def lt lu using p d(2,3,7,8) un dis pin bn hc(7) out
    by (auto simp: t_def u_def updbuf_def)
  moreover have "log_frame s t" by (simp add: log_frame_def t_def u_def updbuf_def)
  moreover have "memdisk t = memdisk s" "writes t = writes s" by (simp_all add: t_def u_def)
  ultimately have "log_write_post bn s t"
    unfolding log_write_post_def lt(1) lu using p by simp
  moreover have "log_write i s = Ret t"
    using room out hc(4) unfolding log_write_def Let_def
    by (auto simp: t_def u_def idx_def logged_def log_room_def updbuf_def)
  ultimately show ?thesis by blast
qed

text \<open>The log state under the operations of the cache.\<close>

lemma trans_frame:
  assumes "trans_ok s" "bio_frame s t" "bio_inv t" "memdisk t = memdisk s" "pinned t = pinned s"
  shows "trans_ok t" "log_frame s t" "logged t = logged s" "log_room k t = log_room k s" "in_log t = in_log s"
proof -
  note f = klog_frame [OF assms(2)]
  show "log_frame s t" by (rule bio_frame_log_frame [OF assms(2)])
  show "logged t = logged s" "in_log t = in_log s" "log_room k t = log_room k s"
    using f by (simp_all add: log_room_def)
  show "trans_ok t" using assms f by (simp add: trans_ok_def log_ok_def log_geom_def)
qed

lemma commit_post:
  assumes pre: "commit_pre s"
  shows "\<exists>t. commit s = Ret t \<and> bio_inv t \<and> held t = {} \<and> pinned t = {} \<and> lh_n t = 0 \<and>
    log_frame s t \<and> writes t = writes s @ (if lh_n s > 0 then commit_writes s else []) \<and>
    (\<forall>b. unat b < length (memdisk s) \<and> \<not> in_log s b \<longrightarrow>
       view t b = view s b \<and> memdisk t ! unat b = view s b)"
proof (cases "lh_n s > 0")
  case False
  then have n: "lh_n s = 0" using pre by (simp add: commit_pre_def log_ok_def)
  then have "pinned s = {}" "held s = {}" "bio_inv s" using pre by (auto simp: commit_pre_def logged_def log_ok_def)
  then show ?thesis using n view_clean [of s] by (simp add: commit_def)
next
  case True
  obtain t where t: "commit s = Ret t" "wrote (commit_writes s) (s\<lparr>lh_n := 0\<rparr>) t"
    using commit_spec [OF pre True] by blast
  note w = wroteD [OF t(2), simplified] and f = klog_frame [OF wroteD(2) [OF t(2)]]
  have pin: "pinned t = {}" using w(4) pre_facts(5) [OF pre] by (force simp: commit_writes_def image_Un image_image)
  have fr: "log_frame s t" using w(2) unfolding bio_frame_def log_frame_def by (cases s; cases t) simp
  have vt: "view t b = view s b" if "\<not> in_log s b" for b
    unfolding w(5) using log_copies_out [OF pre that, of "length (log_copies s)"]
    by (auto simp: commit_writes_def view_writes_graph view_writes_other)
  have "memdisk t ! unat b = view t b" for b
    using view_clean [OF w(1), of b] pin w(3) pre_facts(4) [OF pre] by simp
  then show ?thesis using t(1) w pin f fr vt True pre_facts(4) [OF pre] by auto
qed

section \<open>A small log\<close>

text \<open>
  Eight blocks, the log in blocks 2 to 5, and a transaction that has logged block 6; and the
  machine that boots from the disk of a crash.
\<close>

definition log1 :: klog where
  "log1 = \<lparr>bufs = (replicate NBUF zerobuf)[0 := zerobuf\<lparr>bflags := 6, bdev := 1, bblockno := 6,
       bdata := replicate BSIZE 7\<rparr>],
     mru = [0..<NBUF], memdisk = replicate 8 (replicate BSIZE 0), writes = [], curpid = 1,
     lstart = 2, lsize = 4, outstanding = 0, committing = False, ldev = 1, lh_n = 1,
     lh_block = 6 # replicate 29 0\<rparr>"

lemma log1_cached: "cached log1 bn i \<longleftrightarrow> i = 0 \<and> bn = 6"
  by (auto simp: cached_def log1_def nth_list_update zerobuf_def)

lemma log1_inv: "bio_inv log1"
proof (rule bio_invI)
  show "buf_ok (memdisk log1) (curpid log1) (bufs log1 ! i)" if "i < NBUF" for i
    using that by (cases "i = 0") (simp_all add: log1_def buf_ok_def zerobuf_def initsleeplock_def)
qed (auto simp: log1_cached, auto simp: log1_def)

lemma log1_held: "held log1 = {}" "pinned log1 = {6}"
  unfolding held_def pinned_def log1_cached by (simp_all add: log1_def zerobuf_def initsleeplock_def)

lemma log1_commit_pre: "commit_pre log1"
  using log1_inv log1_held unfolding commit_pre_def log_ok_def log_geom_def
  by (simp add: logged_def in_log_def) (simp add: log1_def)

lemma rd32_zeros: "off + 4 \<le> n \<Longrightarrow> rd32 (replicate n 0) off = 0"
proof -
  assume "off + 4 \<le> n"
  then have "get_bytes off 4 (replicate n 0 :: byte list) = [0, 0, 0, 0]"
    by (simp add: get_bytes_def min_def) (simp add: eval_nat_numeral)
  then show ?thesis by (simp add: rd32_def)
qed

definition boot_disk :: "blk list \<Rightarrow> klog" where
  "boot_disk D = binit \<lparr>bufs = [], mru = [], memdisk = D, writes = [], curpid = 1,
     lstart = 2, lsize = 4, outstanding = 0, committing = False, ldev = 1, lh_n = 0,
     lh_block = replicate LOGSIZE 0\<rparr>"

lemma boot_disk_simps:
  "memdisk (boot_disk D) = D" "lstart (boot_disk D) = 2" "lsize (boot_disk D) = 4"
  "ldev (boot_disk D) = 1" "length (lh_block (boot_disk D)) = LOGSIZE" "writes (boot_disk D) = []"
  "in_log (boot_disk D) = in_log log1"
  by (simp_all add: boot_disk_def binit_def in_log_def log1_def fun_eq_iff)

lemma boot_disk_bio:
  "(\<And>d. d \<in> set D \<Longrightarrow> length d = BSIZE) \<Longrightarrow>
    bio_inv (boot_disk D) \<and> held (boot_disk D) = {} \<and> pinned (boot_disk D) = {}"
  using binit_spec [of "\<lparr>bufs = [], mru = [], memdisk = D, writes = [], curpid = 1,
     lstart = 2, lsize = 4, outstanding = 0, committing = False, ldev = 1, lh_n = 0,
     lh_block = replicate LOGSIZE 0\<rparr>"] by (simp add: boot_disk_def)

lemma boot_disk_crashed:
  assumes "length D = 8" "\<And>d. d \<in> set D \<Longrightarrow> length d = BSIZE"
    and "lstart s = 2" "lsize s = 4" "D = apply_writes (take k ws) (memdisk s)"
  shows "crashed k ws s (boot_disk D)"
  using assms boot_disk_bio [OF assms(2)] by (simp add: crashed_def boot_disk_simps)

section \<open>Properties\<close>

text \<open>
  C1. Crash atomicity of a transaction. A commit of \<open>n > 0\<close> logged blocks never fails, and its disk
  writes \<open>ws\<close> are such that if the machine stops after any number \<open>k\<close> of them and reboots, the
  recovery in \<open>initlog\<close> succeeds, leaves an empty log, and every block outside the log area has
  its contents from before the transaction when \<open>k \<le> n\<close>, and its new contents otherwise.
\<close>

theorem commit_crash_atomic:
  assumes "commit_pre s" and "lh_n s > 0" and "rd32 (memdisk s ! unat (lstart s)) 0 = 0"
  shows "\<exists>t ws. commit s = Ret t \<and> writes t = writes s @ ws \<and>
    (\<forall>k r. k \<le> length ws \<and> crashed k ws s r \<longrightarrow>
      (\<exists>u. recover_from_log r = Ret u \<and> hdr_blocks (memdisk u ! unat (lstart s)) = [] \<and>
        (\<forall>b. unat b < length (memdisk s) \<and> \<not> in_log s b \<longrightarrow>
          memdisk u ! unat b = (if k \<le> nat (lh_n s) then memdisk s ! unat b else view s b))))"
proof -
  obtain t where "commit s = Ret t" "writes t = writes s @ commit_writes s"
    using commit_post [OF assms(1)] assms(2) by auto
  then show ?thesis using commit_recovers [OF assms(1,3) _ _ assms(2)] by blast
qed

theorem commit_crash_atomic_witness:
  "view log1 6 \<noteq> memdisk log1 ! unat (6 :: uint) \<and> \<not> in_log log1 6 \<and>
   (\<exists>t ws. commit log1 = Ret t \<and> writes t = writes log1 @ ws \<and>
    (\<forall>k r. k \<le> length ws \<and> crashed k ws log1 r \<longrightarrow>
      (\<exists>u. recover_from_log r = Ret u \<and> hdr_blocks (memdisk u ! unat (lstart log1)) = [] \<and>
        (\<forall>b. unat b < length (memdisk log1) \<and> \<not> in_log log1 b \<longrightarrow>
          memdisk u ! unat b = (if k \<le> nat (lh_n log1) then memdisk log1 ! unat b else view log1 b)))))"
proof (intro conjI)
  have "view log1 6 = replicate BSIZE 7"
    using view_cached [OF log1_inv, of 6 0] by (simp add: log1_cached) (simp add: log1_def zerobuf_def)
  moreover have "memdisk log1 ! unat (6 :: uint) = replicate BSIZE 0" by (simp add: log1_def)
  ultimately show "view log1 6 \<noteq> memdisk log1 ! unat (6 :: uint)" by simp
  show "\<not> in_log log1 6" by (simp add: in_log_def log1_def)
  have "lh_n log1 > 0" "rd32 (memdisk log1 ! unat (lstart log1)) 0 = 0" by (simp_all add: log1_def rd32_zeros)
  from commit_crash_atomic [OF log1_commit_pre this]
  show "\<exists>t ws. commit log1 = Ret t \<and> writes t = writes log1 @ ws \<and>
    (\<forall>k r. k \<le> length ws \<and> crashed k ws log1 r \<longrightarrow>
      (\<exists>u. recover_from_log r = Ret u \<and> hdr_blocks (memdisk u ! unat (lstart log1)) = [] \<and>
        (\<forall>b. unat b < length (memdisk log1) \<and> \<not> in_log log1 b \<longrightarrow>
          memdisk u ! unat b = (if k \<le> nat (lh_n log1) then memdisk log1 ! unat b else view log1 b))))" .
qed

text \<open>
  C2. Recovery is idempotent. If the machine stops again after any number \<open>k\<close> of the disk writes of
  a recovery and reboots, the second recovery succeeds and leaves every block outside the log
  with the contents that the first recovery would have given it.
\<close>

theorem recovery_idempotent:
  assumes b: "booted s" and k: "k \<le> length ws" and c: "crashed k ws s r"
    and first: "recover_from_log s = Ret t" "writes t = writes s @ ws"
  shows "\<exists>u. recover_from_log r = Ret u \<and> hdr_blocks (memdisk u ! unat (lstart s)) = [] \<and>
    (\<forall>b. unat b < length (memdisk s) \<and> \<not> in_log s b \<longrightarrow> memdisk u ! unat b = memdisk t ! unat b)"
proof -
  let ?D = "memdisk s" and ?h = "memdisk s ! unat (lstart s)"
  let ?hs = "map (\<lambda>k. (hdr_blocks ?h ! k, ?D ! unat (logblk s k))) [0..<length (hdr_blocks ?h)]"
  have ws: "ws = ?hs @ [(lstart s, put_head 0 [] ?h)]"
    using recover_spec [OF b] first by (auto simp: recover_writes_def Let_def)
  have g: "log_geom s" and hok: "hdr_ok s ?h" and inv: "bio_inv s" using b by (simp_all add: booted_def)
  have cg: "log_geom r" "in_log r = in_log s" using crashed_geom [OF c g] by auto
  note st = lstart_in_log [OF g]
  have len: "length ?h = BSIZE" using bio_invD(4) [OF inv] st(2) by simp
  have fst_hs: "fst ` set ?hs = set (hdr_blocks ?h)" by (force simp: in_set_conv_nth image_iff)
  have nolog: "\<not> in_log s b" if "b \<in> fst ` set (take k ?hs)" for b
    using that fst_hs hok set_take_subset [of k ?hs] unfolding hdr_ok_def by blast
  have rec: "memdisk t ! unat b = recovered s ?D b" if "unat b < length ?D" "\<not> in_log s b" for b
    using recover_disk [OF b] first(1) that by auto
  have bt: "booted r" if "hdr_ok s (memdisk r ! unat (lstart s))"
    using c that cg by (auto simp: booted_def crashed_def hdr_ok_def)
  have "booted r \<and> (\<forall>b. unat b < length ?D \<and> \<not> in_log s b \<longrightarrow> recovered r (memdisk r) b = recovered s ?D b)"
  proof (cases "k \<le> length ?hs")
    case True
    then have tk: "take k ws = take k ?hs" by (simp add: ws)
    have same: "memdisk r ! unat b = ?D ! unat b" if "unat b < length ?D" "b \<notin> fst ` set (take k ?hs)" for b
      using crashed_disk [OF c that(1)] that(2) unfolding tk by (simp add: view_writes_other)
    have h: "memdisk r ! unat (lstart s) = ?h" by (rule same) (use st nolog in blast)+
    have "recovered r (memdisk r) b = recovered s ?D b" if "unat b < length ?D" for b
    proof (rule recovered_same_log)
      show "memdisk r ! unat (logblk s j) = ?D ! unat (logblk s j)" if "j < length (hdr_blocks ?h)" for j
      proof -
        have "j < nat (sint (rd32 ?h 0))" using that by (simp add: hdr_blocks_def)
        then have "int j < lsize s - 1" using hok unfolding hdr_ok_def by linarith
        note lb = logblk_unat [OF g this]
        show ?thesis by (rule same [OF lb(3)]) (use lb(2) nolog in blast)
      qed
      show "b \<notin> set (hdr_blocks ?h) \<Longrightarrow> memdisk r ! unat b = ?D ! unat b"
        using same [OF that] fst_hs set_take_subset [of k ?hs] by blast
    qed (use c h in \<open>simp_all add: crashed_def\<close>)
    then show ?thesis using bt h hok by simp
  next
    case False
    then have tk: "take k ws = ws" using k by (simp add: ws)
    have h: "memdisk r ! unat (lstart s) = put_head 0 [] ?h"
      unfolding crashed_disk [OF c st(2)] tk by (simp add: ws)
    then have hb: "hdr_blocks (memdisk r ! unat (lstart s)) = []" using len by simp
    have "sint (rd32 (put_head 0 [] ?h) 0) = 0" using put_head_rd(2) [OF len, of "[]" 0] by simp
    then have "booted r" using bt h hb g by (simp add: hdr_ok_def log_geom_def)
    moreover have "recovered r (memdisk r) b = recovered s ?D b"
      if "unat b < length ?D" "\<not> in_log s b" for b
    proof -
      have "b \<noteq> lstart s" using that(2) st(1) by auto
      moreover have "recovered r (memdisk r) b = memdisk r ! unat b"
        using hb c by (intro recovered_no_hdr) (simp add: crashed_def)
      ultimately show ?thesis
        using crashed_disk [OF c that(1)] unfolding tk by (simp add: ws recovered_def Let_def)
    qed
    ultimately show ?thesis by blast
  qed
  then show ?thesis using recover_disk [of r] rec cg c by (auto simp: crashed_def)
qed

lemma log1_disk: "length (memdisk log1) = 8" "\<And>d. d \<in> set (memdisk log1) \<Longrightarrow> length d = BSIZE"
  "lstart log1 = 2" "lsize log1 = 4"
  by (auto simp: log1_def)

text \<open>A disk on which a commit has just written its header: block 6 is still to be installed.\<close>

definition hdr_disk :: "blk list" where
  "hdr_disk = (replicate 8 (replicate BSIZE 0))[2 := put_head 1 [6] (replicate BSIZE 0),
     3 := replicate BSIZE 7]"

lemma hdr_disk_booted: "booted (boot_disk hdr_disk)"
proof -
  have ph: "length (put_head 1 [6] (replicate BSIZE 0)) = BSIZE"
    "hdr_blocks (put_head 1 [6] (replicate BSIZE 0)) = [6]"
    "sint (rd32 (put_head 1 [6] (replicate BSIZE 0)) 0) = 1"
    using put_head_rd(1,2) [of "replicate BSIZE 0" "[6]" 1] hdr_blocks_put_head [of "replicate BSIZE 0" 1 "[6]"]
    by simp_all
  have len: "length d = BSIZE" if "d \<in> set hdr_disk" for d
    using that ph(1) unfolding hdr_disk_def by (auto dest!: in_set_list_update)
  have h: "hdr_disk ! 2 = put_head 1 [6] (replicate BSIZE 0)" "length hdr_disk = 8"
    by (simp_all add: hdr_disk_def)
  show ?thesis
    unfolding booted_def log_geom_def hdr_ok_def boot_disk_simps using boot_disk_bio [of hdr_disk] len ph h
    by (simp add: in_log_def log1_def)
qed

theorem recovery_idempotent_witness:
  "\<exists>t ws u. recover_from_log (boot_disk hdr_disk) = Ret t \<and> writes t = ws \<and> length ws = 2 \<and>
     recover_from_log (boot_disk (apply_writes (take 1 ws) hdr_disk)) = Ret u \<and>
     memdisk u ! 6 = memdisk t ! 6"
proof -
  let ?s = "boot_disk hdr_disk"
  obtain t where t: "recover_from_log ?s = Ret t" "writes t = recover_writes ?s hdr_disk"
    "bio_inv t" "memdisk t = apply_writes (recover_writes ?s hdr_disk) hdr_disk"
    using recover_spec [OF hdr_disk_booted] by (auto simp: boot_disk_simps)
  have hb: "hdr_blocks (hdr_disk ! 2) = [6]"
    using hdr_blocks_put_head [of "replicate BSIZE 0" 1 "[6]"] by (simp add: hdr_disk_def)
  then have ws: "recover_writes ?s hdr_disk = [(6, hdr_disk ! 3), (2, put_head 0 [] (hdr_disk ! 2))]"
    by (simp add: recover_writes_def boot_disk_simps logblk_def)
  have len: "length d = BSIZE" if "d \<in> set (apply_writes (take 1 (recover_writes ?s hdr_disk)) hdr_disk)" for d
    using that put_head_rd(1) [of "replicate BSIZE 0" "[6]" 1]
    unfolding ws by (auto simp: hdr_disk_def dest!: in_set_list_update)
  have "crashed 1 (writes t) ?s (boot_disk (apply_writes (take 1 (recover_writes ?s hdr_disk)) hdr_disk))"
    using t(2) len by (intro boot_disk_crashed) (simp_all add: boot_disk_simps hdr_disk_def)
  from recovery_idempotent [OF hdr_disk_booted _ this t(1)]
  obtain u where "recover_from_log (boot_disk (apply_writes (take 1 (recover_writes ?s hdr_disk)) hdr_disk)) = Ret u"
    and "\<forall>b. unat b < length (memdisk ?s) \<and> \<not> in_log ?s b \<longrightarrow> memdisk u ! unat b = memdisk t ! unat b"
    using t(2) ws by (auto simp: boot_disk_simps)
  moreover from this(2) have "memdisk u ! unat (6 :: uint) = memdisk t ! unat (6 :: uint)"
    by (rule allE [of _ "6 :: uint"]) (simp add: boot_disk_simps in_log_def log1_def hdr_disk_def)
  ultimately show ?thesis using t(1,2) ws by auto
qed

text \<open>
  C3. Durability of a system call: when the last outstanding call of a transaction ends, \<open>end_op\<close>
  commits without failing, and afterwards the disk itself has the contents that the calls of
  the transaction left in the cache, for every block outside the log; no buffer is pinned and
  the log is free for the next transaction.
\<close>

theorem end_op_durable:
  assumes "trans_ok s" and "outstanding s = 1" and "\<not> committing s" and "held s = {}"
    and "lh_n s < int NBUF"
  shows "\<exists>t. end_op s = Ret t \<and> outstanding t = 0 \<and> \<not> committing t \<and> lh_n t = 0 \<and>
    pinned t = {} \<and> held t = {} \<and> bio_inv t \<and>
    (\<forall>b. unat b < length (memdisk s) \<and> \<not> in_log s b \<longrightarrow>
       memdisk t ! unat b = view s b \<and> view t b = view s b)"
proof -
  let ?s = "s\<lparr>outstanding := outstanding s - 1\<rparr>\<lparr>committing := True\<rparr>"
  have eq: "logged ?s = logged s" "in_log ?s = in_log s"
    by (simp_all add: logged_def in_log_def fun_eq_iff)
  have "log_ok s" "distinct (logged s)" "set (logged s) = pinned s" using assms(1) by (simp_all add: trans_ok_def)
  then have pre: "commit_pre ?s"
    unfolding commit_pre_def log_ok_def eq using assms(4,5) by (simp add: log_geom_def)
  obtain t where t: "commit ?s = Ret t" "bio_inv t" "held t = {}" "pinned t = {}" "lh_n t = 0" "log_frame ?s t"
    "\<forall>b. unat b < length (memdisk s) \<and> \<not> in_log s b \<longrightarrow> view t b = view s b \<and> memdisk t ! unat b = view s b"
    using commit_post [OF pre] by (auto simp: eq)
  then have "end_op s = Ret (t\<lparr>committing := False\<rparr>)"
    using assms(2,3) by (simp add: end_op_def end_op_enter_def Let_def)
  then show ?thesis using t log_frameD(3) [OF t(6)] assms(2) by auto
qed

theorem end_op_durable_witness:
  "\<exists>t. end_op (log1\<lparr>outstanding := 1\<rparr>) = Ret t \<and> memdisk t ! 6 = replicate BSIZE 7"
proof -
  let ?s = "log1\<lparr>outstanding := 1\<rparr>"
  have v: "view ?s 6 = replicate BSIZE 7"
    using view_cached [OF log1_inv, of 6 0] by (simp add: log1_cached) (simp add: log1_def zerobuf_def)
  have ok: "trans_ok ?s"
    using log1_commit_pre unfolding commit_pre_def trans_ok_def log_ok_def
    by (simp add: logged_def log_geom_def in_log_def)
  have "\<not> in_log ?s 6" "length (memdisk ?s) = 8" "\<not> committing ?s" "lh_n ?s < int NBUF"
    by (simp_all add: in_log_def log1_def)
  then obtain t where t: "end_op ?s = Ret t"
    and all: "\<forall>b. unat b < 8 \<and> \<not> in_log ?s b \<longrightarrow> memdisk t ! unat b = view ?s b"
    using end_op_durable [OF ok] log1_held by auto
  have "memdisk t ! unat (6 :: uint) = view ?s 6"
    using all \<open>\<not> in_log ?s 6\<close> by (intro mp [OF spec [OF all]]) simp
  then show ?thesis using t v by auto
qed

end
