(* ===== verification/Admission.thy ===== *)
theory Admission
  imports Log
begin

text \<open>
  Concurrent file system calls and the log (\<open>begin_op\<close>, \<open>log_write\<close>, \<open>end_op\<close> of \<open>xv6/log.c\<close>).

  The state is the kernel state of theory \<open>Log\<close> with, for every process inside a file system
  call, the set of blocks it has logged. The rules are the critical sections of the three
  operations, in any interleaving, with any activity of the buffer cache in between, and the
  commit of the last call to end. The invariant is the accounting of log space: what is logged
  plus what the running calls have reserved and not used fits into the log.
\<close>

section \<open>The operations keep the other fields\<close>

lemma iderw_frame: "iderw i s = Ret t \<Longrightarrow> bio_frame s t"
  by (auto simp: iderw_def Let_def bio_frame_def updbuf_def split: if_splits)

lemma bget_frame: "bget dev b s = Ret (i, t) \<Longrightarrow> bio_frame s t"
  by (auto simp: bget_def Let_def split: option.splits)

lemma bread_frame: "bread dev b s = Ret (i, t) \<Longrightarrow> bio_frame s t"
  by (auto simp: bread_def split: if_splits dest!: bget_frame iderw_frame intro: bio_frame_trans)

lemma bwrite_frame: "bwrite i s = Ret t \<Longrightarrow> bio_frame s t"
  by (auto simp: bwrite_def Let_def split: if_splits dest!: iderw_frame intro: bio_frame_trans [OF bio_frame_updbuf])

lemma brelse_frame: "brelse i s = Ret t \<Longrightarrow> bio_frame s t"
  by (auto simp: brelse_def Let_def bio_frame_def updbuf_def split: if_splits)

lemma setdata_frame: "bio_frame s (setdata i d s)"
  by (simp add: setdata_def)

lemmas bio_frames = bread_frame bwrite_frame brelse_frame

lemma install_step_frame: "install_step k s = Ret t \<Longrightarrow> bio_frame s t"
  unfolding install_step_def
  by (auto dest!: bio_frames) (blast intro: bio_frame_trans setdata_frame)

lemma write_log_step_frame: "write_log_step k s = Ret t \<Longrightarrow> bio_frame s t"
  unfolding write_log_step_def
  by (auto dest!: bio_frames) (blast intro: bio_frame_trans setdata_frame)

lemma write_head_frame: "write_head s = Ret t \<Longrightarrow> bio_frame s t"
  unfolding write_head_def
  by (auto simp: Let_def dest!: bio_frames) (blast intro: bio_frame_trans setdata_frame)

lemma commit_frame:
  assumes "commit s = Ret t" "0 \<le> lh_n s"
  shows "log_frame s t \<and> lh_n t = 0 \<and> lh_block t = lh_block s"
proof (cases "lh_n s > 0")
  case False
  then show ?thesis using assms by (simp add: commit_def)
next
  case True
  then obtain a b c where r: "write_log s = Ret a" "write_head a = Ret b" "install_trans b = Ret c"
    "write_head (c\<lparr>lh_n := 0\<rparr>) = Ret t"
    using assms(1) by (auto simp: commit_def)
  have "bio_frame s a" using r(1) unfolding write_log_def
    by (rule foldR_rel) (auto intro: write_log_step_frame bio_frame_trans)
  moreover have "bio_frame b c" using r(3) unfolding install_trans_def
    by (rule foldR_rel) (auto intro: install_step_frame bio_frame_trans)
  ultimately have sc: "bio_frame s c" using write_head_frame [OF r(2)] bio_frame_trans by blast
  note ct = write_head_frame [OF r(4)]
  have "log_frame s (c\<lparr>lh_n := 0\<rparr>)"
    using sc unfolding bio_frame_def log_frame_def by (cases s; cases c) simp
  then have "log_frame s t" using bio_frame_log_frame [OF ct] log_frame_trans by blast
  then show ?thesis using klog_frame(6,7) [OF ct] klog_frame(7) [OF sc] by simp
qed

section \<open>The machine\<close>

type_synonym admission = "klog \<times> (nat \<Rightarrow> uint set option)"

definition adm_init :: "admission \<Rightarrow> bool" where
  "adm_init = (\<lambda>(s, u). lh_n s = 0 \<and> outstanding s = 0 \<and> \<not> committing s \<and>
     length (lh_block s) = LOGSIZE \<and> u = (\<lambda>_. None))"

text \<open>
  A call may log at most \<open>MAXOPBLOCKS\<close> different blocks; the block of buffer \<open>i\<close> that it logs is
  added to its set.
\<close>

inductive adm_step :: "admission \<Rightarrow> admission \<Rightarrow> bool" where
  adm_begin: "u p = None \<Longrightarrow> begin_op s = Ret t \<Longrightarrow> adm_step (s, u) (t, u(p \<mapsto> {}))"
| adm_write: "u p = Some B \<Longrightarrow> card (insert (bblockno (bufs s ! i)) B) \<le> MAXOPBLOCKS \<Longrightarrow>
    log_write i s = Ret t \<Longrightarrow> adm_step (s, u) (t, u(p \<mapsto> insert (bblockno (bufs s ! i)) B))"
| adm_end: "u p = Some B \<Longrightarrow> end_op_enter s = Ret (c, t) \<Longrightarrow> adm_step (s, u) (t, u(p := None))"
| adm_commit: "committing s \<Longrightarrow> commit s = Ret t \<Longrightarrow> adm_step (s, u) (t\<lparr>committing := False\<rparr>, u)"
| adm_io: "bio_frame s t \<Longrightarrow> adm_step (s, u) (t, u)"

definition reserved :: "(nat \<Rightarrow> uint set option) \<Rightarrow> int" where
  "reserved u = (\<Sum>p \<in> dom u. int MAXOPBLOCKS - int (card (the (u p))))"

definition adm_inv :: "admission \<Rightarrow> bool" where
  "adm_inv = (\<lambda>(s, u). finite (dom u) \<and> outstanding s = int (card (dom u)) \<and>
     length (lh_block s) = LOGSIZE \<and> 0 \<le> lh_n s \<and>
     (\<forall>p B. u p = Some B \<longrightarrow> finite B \<and> card B \<le> MAXOPBLOCKS \<and> B \<subseteq> set (logged s)) \<and>
     lh_n s + reserved u \<le> int LOGSIZE \<and> (committing s \<longrightarrow> dom u = {}))"

lemma adm_invI:
  assumes "finite (dom u)" "outstanding s = int (card (dom u))" "length (lh_block s) = LOGSIZE"
    and "0 \<le> lh_n s" "\<And>p B. u p = Some B \<Longrightarrow> finite B \<and> card B \<le> MAXOPBLOCKS \<and> B \<subseteq> set (logged s)"
    and "lh_n s + reserved u \<le> int LOGSIZE" "committing s \<Longrightarrow> dom u = {}"
  shows "adm_inv (s, u)"
  using assms unfolding adm_inv_def by simp

lemma adm_invD:
  assumes "adm_inv (s, u)"
  shows "finite (dom u)" "outstanding s = int (card (dom u))" "length (lh_block s) = LOGSIZE"
    "0 \<le> lh_n s" "u p = Some B \<Longrightarrow> finite B" "u p = Some B \<Longrightarrow> card B \<le> MAXOPBLOCKS"
    "u p = Some B \<Longrightarrow> B \<subseteq> set (logged s)" "lh_n s + reserved u \<le> int LOGSIZE"
    "committing s \<Longrightarrow> dom u = {}"
  using assms unfolding adm_inv_def by auto

lemma reserved_upd:
  "finite (dom u) \<Longrightarrow> u p = Some B \<Longrightarrow>
    reserved (u(p \<mapsto> C)) = reserved u + int (card B) - int (card C)"
  "finite (dom u) \<Longrightarrow> u p = None \<Longrightarrow> reserved (u(p \<mapsto> C)) = reserved u + int MAXOPBLOCKS - int (card C)"
  "finite (dom u) \<Longrightarrow> u p = Some B \<Longrightarrow>
    reserved (u(p := None)) = reserved u - (int MAXOPBLOCKS - int (card B))"
proof -
  have other: "(\<Sum>q \<in> dom u - {p}. int MAXOPBLOCKS - int (card (the ((u(p := x)) q)))) =
      (\<Sum>q \<in> dom u - {p}. int MAXOPBLOCKS - int (card (the (u q))))" for x
    by (rule sum.cong) auto
  show "reserved (u(p \<mapsto> C)) = reserved u + int (card B) - int (card C)"
    if "finite (dom u)" "u p = Some B"
  proof -
    have "p \<in> dom u" "dom (u(p \<mapsto> C)) = dom u" using that by auto
    then show ?thesis using that other [of "Some C"] by (simp add: reserved_def sum.remove [of _ p])
  qed
  show "reserved (u(p \<mapsto> C)) = reserved u + int MAXOPBLOCKS - int (card C)"
    if "finite (dom u)" "u p = None"
  proof -
    have "p \<notin> dom u" using that by auto
    then show ?thesis using that other [of "Some C"] by (simp add: reserved_def)
  qed
  show "reserved (u(p := None)) = reserved u - (int MAXOPBLOCKS - int (card B))"
    if "finite (dom u)" "u p = Some B"
  proof -
    have "p \<in> dom u" "dom (u(p := None)) = dom u - {p}" using that by auto
    then show ?thesis using that other [of None] by (simp add: reserved_def sum.remove [of _ p])
  qed
qed

lemma reserved_le: "adm_inv (s, u) \<Longrightarrow> reserved u \<le> int MAXOPBLOCKS * outstanding s"
  using sum_bounded_above [of "dom u" "\<lambda>p. int MAXOPBLOCKS - int (card (the (u p)))" "int MAXOPBLOCKS"]
  by (simp add: reserved_def adm_invD(2))

lemma reserved_nonneg: "adm_inv (s, u) \<Longrightarrow> 0 \<le> reserved u"
  unfolding reserved_def by (rule sum_nonneg) (auto dest: adm_invD(6))

text \<open>\<open>log_write\<close> in any state: absorption, or one more block.\<close>

lemma log_write_effect:
  assumes "log_write i s = Ret t" "length (lh_block s) = LOGSIZE" "0 \<le> lh_n s"
  shows "logged t = (if bblockno (bufs s ! i) \<in> set (logged s) then logged s
      else logged s @ [bblockno (bufs s ! i)])"
    "lh_n t = (if bblockno (bufs s ! i) \<in> set (logged s) then lh_n s else lh_n s + 1)"
    "outstanding t = outstanding s" "committing t = committing s" "length (lh_block t) = LOGSIZE"
    "lsize t = lsize s"
proof -
  let ?bn = "bblockno (bufs s ! i)" and ?n = "nat (lh_n s)"
  have nl: "?n < LOGSIZE" using assms(1,3) by (auto simp: log_write_def split: if_splits)
  show "outstanding t = outstanding s" "committing t = committing s" "length (lh_block t) = LOGSIZE" "lsize t = lsize s"
    using assms(1,2) by (auto simp: log_write_def Let_def updbuf_def split: if_splits)
  have len: "length (logged s) = ?n" using nl assms(2) by (simp add: logged_def)
  show "logged t = (if ?bn \<in> set (logged s) then logged s else logged s @ [?bn])"
    and "lh_n t = (if ?bn \<in> set (logged s) then lh_n s else lh_n s + 1)"
  proof -
    have "logged t = (if ?bn \<in> set (logged s) then logged s else logged s @ [?bn]) \<and>
      lh_n t = (if ?bn \<in> set (logged s) then lh_n s else lh_n s + 1)"
    proof (cases "find_index (\<lambda>x. x = ?bn) (logged s)")
      case None
      then have nb: "?bn \<notin> set (logged s)" by auto
      have "nat (lh_n s + 1) = Suc ?n" using assms(3) by simp
      moreover have "take (Suc ?n) ((lh_block s)[?n := ?bn]) = take ?n (lh_block s) @ [?bn]"
        using nl assms(2) by (simp add: take_Suc_conv_app_nth)
      ultimately show ?thesis
        using nb assms(1) unfolding log_write_def Let_def logged_def None [unfolded logged_def] option.case
        by (auto simp: updbuf_def split: if_splits)
    next
      case (Some j)
      note f = find_index_SomeD [OF Some]
      then have j: "j < ?n" "lh_block s ! j = ?bn" using len by (auto simp: logged_def)
      have nb: "?bn \<in> set (logged s)" using f nth_mem [OF f(1)] by simp
      have "(lh_block s)[j := ?bn] = lh_block s" using j(2) by (metis list_update_id)
      then show ?thesis
        using nb j(1) assms(1) unfolding log_write_def Let_def logged_def Some [unfolded logged_def] option.case
        by (auto simp: updbuf_def split: if_splits)
    qed
    then show "logged t = (if ?bn \<in> set (logged s) then logged s else logged s @ [?bn])"
      and "lh_n t = (if ?bn \<in> set (logged s) then lh_n s else lh_n s + 1)" by auto
  qed
qed

section \<open>The accounting invariant\<close>

lemma adm_init_inv: "adm_init x \<Longrightarrow> adm_inv x"
  by (auto simp: adm_init_def adm_inv_def reserved_def)

lemma adm_begin_inv:
  assumes inv: "adm_inv (s, u)" and p: "u p = None" and b: "begin_op s = Ret t"
  shows "adm_inv (t, u(p \<mapsto> {}))"
proof -
  note d = adm_invD [OF inv]
  have t: "t = s\<lparr>outstanding := outstanding s + 1\<rparr>" "\<not> committing s"
    "lh_n s + (outstanding s + 1) * int MAXOPBLOCKS \<le> int LOGSIZE"
    using b by (auto simp: begin_op_def split: if_splits)
  have np: "p \<notin> dom u" using p by auto
  show ?thesis
  proof (rule adm_invI)
    show "finite B \<and> card B \<le> MAXOPBLOCKS \<and> B \<subseteq> set (logged t)" if "(u(p \<mapsto> {})) q = Some B" for q B
      using that d(5-7) [of q B] t(1) by (auto simp: logged_def split: if_splits)
    show "lh_n t + reserved (u(p \<mapsto> {})) \<le> int LOGSIZE"
      using reserved_upd(2) [OF d(1) p, of "{}"] reserved_le [OF inv] t by (simp add: algebra_simps)
  qed (use d(1-4) np t in auto)
qed

lemma adm_write_inv:
  assumes inv: "adm_inv (s, u)" and p: "u p = Some B"
    and c: "card (insert (bblockno (bufs s ! i)) B) \<le> MAXOPBLOCKS" and w: "log_write i s = Ret t"
  shows "adm_inv (t, u(p \<mapsto> insert (bblockno (bufs s ! i)) B))"
proof -
  note d = adm_invD [OF inv] and e = log_write_effect [OF w adm_invD(3,4) [OF inv]]
  let ?bn = "bblockno (bufs s ! i)"
  have sub: "set (logged s) \<subseteq> set (logged t)" "?bn \<in> set (logged t)" using e(1) by auto
  have dom: "dom (u(p \<mapsto> insert ?bn B)) = dom u" using p by auto
  have cB: "card (insert ?bn B) = (if ?bn \<in> B then card B else card B + 1)"
    using d(5) [OF p] by (simp add: insert_absorb)
  show ?thesis
  proof (rule adm_invI)
    show "finite C \<and> card C \<le> MAXOPBLOCKS \<and> C \<subseteq> set (logged t)"
      if "(u(p \<mapsto> insert ?bn B)) q = Some C" for q C
      using that d(5-7) [of q C] d(5-7) [OF p] c sub by (auto split: if_splits)
    have "?bn \<notin> set (logged s) \<Longrightarrow> ?bn \<notin> B" using d(7) [OF p] by blast
    then show "lh_n t + reserved (u(p \<mapsto> insert ?bn B)) \<le> int LOGSIZE"
      unfolding reserved_upd(1) [OF d(1) p] e(2) using d(8) cB by (auto split: if_splits)
    show "committing t \<Longrightarrow> dom (u(p \<mapsto> insert ?bn B)) = {}" using d(9) e(4) dom by simp
  qed (use d(1-4) e dom in auto)
qed

lemma adm_end_inv:
  assumes inv: "adm_inv (s, u)" and p: "u p = Some B" and en: "end_op_enter s = Ret (c, t)"
  shows "adm_inv (t, u(p := None))"
proof -
  note d = adm_invD [OF inv]
  have t: "t = s\<lparr>outstanding := outstanding s - 1, committing := (outstanding s = 1)\<rparr>" "\<not> committing s"
    using en by (auto simp: end_op_enter_def Let_def split: if_splits)
  have pd: "p \<in> dom u" using p by auto
  then have pos: "0 < card (dom u)" using d(1) by (auto simp: card_gt_0_iff)
  have cd: "card (dom (u(p := None))) = card (dom u) - 1" using d(1) pd by simp
  show ?thesis
  proof (rule adm_invI)
    show "finite C \<and> card C \<le> MAXOPBLOCKS \<and> C \<subseteq> set (logged t)" if "(u(p := None)) q = Some C" for q C
      using that d(5-7) [of q C] t(1) by (auto simp: logged_def split: if_splits)
    show "lh_n t + reserved (u(p := None)) \<le> int LOGSIZE"
      using reserved_upd(3) [OF d(1) p] d(6) [OF p] d(8) t(1) by simp
    show "committing t \<Longrightarrow> dom (u(p := None)) = {}"
      using t(1) d(1,2) cd pos card_0_eq [of "dom (u(p := None))"] by auto
    show "outstanding t = int (card (dom (u(p := None))))" using t(1) d(2) cd pos by auto
  qed (use d(1,3,4) t in auto)
qed

lemma adm_step_inv:
  assumes "adm_step x y" "adm_inv x"
  shows "adm_inv y"
  using assms
proof (induction rule: adm_step.induct)
  case (adm_commit s t u)
  note d = adm_invD [OF adm_commit(3)]
  have f: "log_frame s t" "lh_n t = 0" "lh_block t = lh_block s"
    using commit_frame [OF adm_commit(2) d(4)] by auto
  have "dom u = {}" by (rule d(9) [OF adm_commit(1)])
  then show ?case using d(2,3) f log_frameD(3) [OF f(1)] by (intro adm_invI) (auto simp: reserved_def)
next
  case (adm_io s t u)
  then show ?case using klog_frame [OF adm_io(1)] by (simp add: adm_inv_def)
qed (auto intro: adm_begin_inv adm_write_inv adm_end_inv)

interpretation adm: inductive_invariant adm_init adm_step adm_inv
  by unfold_locales (auto intro: adm_init_inv adm_step_inv)

section \<open>The log as mkfs makes it\<close>

text \<open>
  A run of three calls on a log of \<open>LOGSIZE\<close> blocks, header included: call \<open>k div 10\<close> logs block
  \<open>k\<close>. The buffers are set up before every \<open>log_write\<close> and dropped after it.
\<close>

definition full_state :: "nat \<Rightarrow> klog" where
  "full_state m = \<lparr>bufs = [], mru = [], memdisk = [], writes = [], curpid = 1, lstart = 2,
     lsize = int LOGSIZE, outstanding = 3, committing = False, ldev = 1, lh_n = int m,
     lh_block = map of_nat [0..<m] @ replicate (LOGSIZE - m) 0\<rparr>"

definition full_used :: "nat \<Rightarrow> nat \<Rightarrow> uint set option" where
  "full_used m p = (if p < 3 then Some (of_nat ` {k. k < m \<and> k div 10 = p}) else None)"

lemma full_write:
  assumes "m < 29"
  defines "s \<equiv> (full_state m)\<lparr>bufs := [zerobuf\<lparr>bblockno := of_nat m\<rparr>]\<rparr>"
  shows "log_write 0 s = Ret ((full_state (Suc m))\<lparr>bufs := [zerobuf\<lparr>bblockno := of_nat m, bflags := 4\<rparr>]\<rparr>)"
proof -
  have "(of_nat k :: uint) \<noteq> of_nat m" if "k < m" for k
    using that assms(1) by (subst of_nat_eq_iff32) auto
  then have "find_index (\<lambda>x. x = of_nat m) (map of_nat [0..<m] :: uint list) = None"
    by auto
  moreover have "(map of_nat [0..<m] @ replicate (LOGSIZE - m) 0)[m := of_nat m] =
      (map of_nat [0..<Suc m] @ replicate (LOGSIZE - Suc m) 0 :: uint list)"
    using assms(1) by (cases "LOGSIZE - m") (auto simp: list_update_append)
  ultimately show ?thesis
    using assms(1) by (simp add: s_def log_write_def full_state_def Let_def updbuf_def zerobuf_def del: find_index_None)
qed

lemma full_reachable: "m \<le> 29 \<Longrightarrow> reachable adm_init adm_step (full_state m, full_used m)"
proof (induction m)
  case 0
  let ?z = "full_state 0"
  have "reachable adm_init adm_step (?z\<lparr>outstanding := 0\<rparr>, \<lambda>_. None)"
    by (rule reachable_init) (simp add: adm_init_def full_state_def)
  moreover have "adm_step (?z\<lparr>outstanding := int p\<rparr>, \<lambda>q. if q < p then Some {} else None)
      (?z\<lparr>outstanding := int (Suc p)\<rparr>, \<lambda>q. if q < Suc p then Some {} else None)" if "p < 3" for p
  proof -
    have "begin_op (?z\<lparr>outstanding := int p\<rparr>) = Ret (?z\<lparr>outstanding := int (Suc p)\<rparr>)"
      using that by (simp add: begin_op_def full_state_def)
    moreover have "(\<lambda>q. if q < Suc p then Some {} else None) =
        (\<lambda>q. if q < p then Some {} else None)(p \<mapsto> {} :: uint set)" by (auto simp: fun_eq_iff)
    ultimately show ?thesis using adm_begin [of "\<lambda>q. if q < p then Some {} else None" p] by simp
  qed
  from this [of 0] this [of 1] this [of 2]
  have "adm_step (?z\<lparr>outstanding := 0\<rparr>, \<lambda>_. None) (?z\<lparr>outstanding := 1\<rparr>, \<lambda>q. if q < 1 then Some {} else None)"
    "adm_step (?z\<lparr>outstanding := 1\<rparr>, \<lambda>q. if q < 1 then Some {} else None)
      (?z\<lparr>outstanding := 2\<rparr>, \<lambda>q. if q < 2 then Some {} else None)"
    "adm_step (?z\<lparr>outstanding := 2\<rparr>, \<lambda>q. if q < 2 then Some {} else None)
      (?z\<lparr>outstanding := 3\<rparr>, \<lambda>q. if q < 3 then Some {} else None)"
    by (simp_all add: numeral_2_eq_2 numeral_3_eq_3)
  ultimately have "reachable adm_init adm_step (?z\<lparr>outstanding := 3\<rparr>, \<lambda>q. if q < 3 then Some {} else None)"
    by (meson reachable_step)
  then show ?case by (simp add: full_state_def full_used_def cong: if_cong)
next
  case (Suc m)
  let ?b = "[zerobuf\<lparr>bblockno := of_nat m\<rparr>]" and ?p = "m div 10"
  let ?B = "of_nat ` {k. k < m \<and> k div 10 = ?p} :: uint set"
  have io: "adm_step (s, u) (s\<lparr>bufs := x\<rparr>, u)" for s u x by (rule adm_io) (simp add: bio_frame_def)
  have "reachable adm_init adm_step (full_state m, full_used m)" using Suc by simp
  then have "reachable adm_init adm_step ((full_state m)\<lparr>bufs := ?b\<rparr>, full_used m)"
    using io by (rule reachable_step)
  moreover have u: "full_used m ?p = Some ?B" using Suc.prems by (simp add: full_used_def)
  moreover have "card (insert (of_nat m) ?B) \<le> MAXOPBLOCKS"
  proof -
    have "insert (of_nat m) ?B \<subseteq> of_nat ` {?p * 10..<?p * 10 + 10}"
    proof
      fix x assume "x \<in> insert (of_nat m) ?B"
      then obtain k where "x = of_nat k" "k div 10 = ?p" by auto
      moreover from this have "k \<in> {?p * 10..<?p * 10 + 10}" by auto
      ultimately show "x \<in> of_nat ` {?p * 10..<?p * 10 + 10}" by blast
    qed
    then have "card (insert (of_nat m) ?B) \<le> card (of_nat ` {?p * 10..<?p * 10 + 10} :: uint set)"
      by (rule card_mono [rotated]) simp
    also have "\<dots> \<le> card {?p * 10..<?p * 10 + 10}" by (rule card_image_le) simp
    finally show ?thesis by simp
  qed
  moreover have "full_used (Suc m) = (full_used m)(?p \<mapsto> insert (of_nat m) ?B)"
    using Suc.prems by (auto simp: full_used_def fun_eq_iff less_Suc_eq)
  moreover have "log_write 0 ((full_state m)\<lparr>bufs := ?b\<rparr>) =
      Ret ((full_state (Suc m))\<lparr>bufs := [zerobuf\<lparr>bblockno := of_nat m, bflags := 4\<rparr>]\<rparr>)"
    using Suc.prems by (intro full_write) simp
  ultimately have "reachable adm_init adm_step
      ((full_state (Suc m))\<lparr>bufs := [zerobuf\<lparr>bblockno := of_nat m, bflags := 4\<rparr>]\<rparr>, full_used (Suc m))"
    using adm_write [of "full_used m" ?p ?B "(full_state m)\<lparr>bufs := ?b\<rparr>" 0] reachable_step by fastforce
  then have "reachable adm_init adm_step
      ((full_state (Suc m))\<lparr>bufs := [zerobuf\<lparr>bblockno := of_nat m, bflags := 4\<rparr>]\<rparr>\<lparr>bufs := []\<rparr>, full_used (Suc m))"
    using io by (rule reachable_step)
  then show ?case by (simp add: full_state_def)
qed

section \<open>Properties\<close>

text \<open>
  C4. Log space is reserved, not overcommitted: for any interleaving of file system calls, each
  logging at most \<open>MAXOPBLOCKS\<close> blocks, the logged blocks and the unused reservations of the
  running calls fit into \<open>LOGSIZE\<close>; so on a log with more than \<open>LOGSIZE\<close> blocks \<open>log_write\<close> never
  panics for a call that has reservation left. No call runs while a commit is in progress, so
  \<open>end_op\<close> never panics.
\<close>

theorem log_space_reserved:
  assumes "reachable adm_init adm_step (s, u)" and "u p = Some B"
  shows "lh_n s + reserved u \<le> int LOGSIZE \<and> \<not> committing s \<and>
    (\<exists>c t. end_op_enter s = Ret (c, t)) \<and>
    (card B < MAXOPBLOCKS \<and> int LOGSIZE < lsize s \<longrightarrow> (\<exists>t. log_write i s = Ret t))"
proof -
  have inv: "adm_inv (s, u)" by (rule adm.inv_reachable [OF assms(1)])
  note d = adm_invD [OF inv]
  have nc: "\<not> committing s" using d(9) assms(2) by auto
  have pd: "p \<in> dom u" using assms(2) by auto
  then have out: "outstanding s \<ge> 1" using d(1,2) card_gt_0_iff [of "dom u"] by auto
  have "int MAXOPBLOCKS - int (card B) \<le> reserved u"
  proof -
    have "int MAXOPBLOCKS - int (card (the (u p))) \<le> reserved u"
      unfolding reserved_def by (rule member_le_sum [OF pd]) (auto dest: d(6) simp: d(1))
    then show ?thesis using assms(2) by simp
  qed
  then have "card B < MAXOPBLOCKS \<Longrightarrow> lh_n s < int LOGSIZE" using d(8) by linarith
  then show ?thesis
    using nc out d(8) by (auto simp: end_op_enter_def log_write_def Let_def)
qed

theorem log_space_reserved_witness:
  "lh_n (full_state 5) + reserved (full_used 5) \<le> int LOGSIZE \<and> \<not> committing (full_state 5)"
  using log_space_reserved [OF full_reachable, of 5 0] by (simp add: full_used_def)


end
