(* ===== verification/Fs.thy ===== *)
theory Fs
  imports Log
begin

text \<open>
  The block, inode and file layers of \<open>xv6/fs.c\<close>: the block allocator, the inode cache and
  the on-disk inodes, the block map of a file, and reading and writing its contents.

  A pointer to an inode is its index in \<open>icache.inode\<close>. The buffers \<open>dst\<close> and \<open>src\<close> of \<open>readi\<close>
  and \<open>writei\<close> are byte lists. The devices of \<open>devsw\<close> (\<open>xv6/file.h\<close>) are an argument of the
  operations that call them.
\<close>

section \<open>State\<close>

record inode =
  idev :: uint
  inum :: uint
  iref :: int
  ilk :: sleeplock
  valid :: bool
  itype :: ushort
  major :: ushort
  minor :: ushort
  nlink :: ushort
  isize :: uint
  addrs :: "uint list"

abbreviation "T_DIR \<equiv> (1 :: ushort)"
abbreviation "T_FILE \<equiv> (2 :: ushort)"
abbreviation "T_DEV \<equiv> (3 :: ushort)"
abbreviation "ROOTINO \<equiv> (1 :: uint)"
abbreviation "ROOTDEV \<equiv> (1 :: uint)"
abbreviation "IPB \<equiv> (8 :: nat)"
abbreviation "BPB \<equiv> (4096 :: nat)"

record kfs = klog +
  sb :: superblock
  icache :: "inode list"
  cwd :: nat

type_synonym 's devread = "nat \<Rightarrow> uint \<Rightarrow> 's \<Rightarrow> (int \<times> byte list \<times> 's) res"
type_synonym 's devwrite = "nat \<Rightarrow> byte list \<Rightarrow> 's \<Rightarrow> (int \<times> 's) res"
type_synonym 's devsw = "nat \<Rightarrow> 's devread option \<times> 's devwrite option"

definition updinode :: "nat \<Rightarrow> inode \<Rightarrow> 'a kfs_scheme \<Rightarrow> 'a kfs_scheme" where
  "updinode i ip s = s\<lparr>icache := (icache s)[i := ip]\<rparr>"

definition IBLOCK :: "uint \<Rightarrow> superblock \<Rightarrow> uint" where
  "IBLOCK i b = i div of_nat IPB + sb_inodestart b"

definition BBLOCK :: "uint \<Rightarrow> superblock \<Rightarrow> uint" where
  "BBLOCK b sbk = b div of_nat BPB + sb_bmapstart sbk"

section \<open>Blocks\<close>

definition bzero :: "uint \<Rightarrow> uint \<Rightarrow> 'a klog_scheme \<Rightarrow> 'a klog_scheme res" where
  "bzero dev bno s =
     bindR (bread dev bno s) (\<lambda>(bp, s).
     bindR (log_write bp (setdata bp (replicate BSIZE 0) s)) (\<lambda>s.
     brelse bp s))"

definition bit_get :: "blk \<Rightarrow> nat \<Rightarrow> bool" where
  "bit_get d bi \<longleftrightarrow> d ! (bi div 8) AND push_bit (bi mod 8) 1 \<noteq> 0"

definition bit_mark :: "blk \<Rightarrow> nat \<Rightarrow> blk" where
  "bit_mark d bi = d[bi div 8 := d ! (bi div 8) OR push_bit (bi mod 8) 1]"

definition bit_clear :: "blk \<Rightarrow> nat \<Rightarrow> blk" where
  "bit_clear d bi = d[bi div 8 := d ! (bi div 8) AND NOT (push_bit (bi mod 8) 1)]"

fun balloc_loop :: "uint \<Rightarrow> nat list \<Rightarrow> 'a kfs_scheme \<Rightarrow> (uint \<times> 'a kfs_scheme) res" where
  "balloc_loop dev [] s = Panic ''balloc: out of blocks''"
| "balloc_loop dev (b # bs) s =
     bindR (bread dev (BBLOCK (of_nat b) (sb s)) s) (\<lambda>(bp, s).
     let d = bdata (bufs s ! bp) in
     case find (\<lambda>bi. \<not> bit_get d bi) [0..<min BPB (unat (sb_size (sb s)) - b)] of
       Some bi \<Rightarrow>
         bindR (log_write bp (setdata bp (bit_mark d bi) s)) (\<lambda>s.
         bindR (brelse bp s) (\<lambda>s.
         bindR (bzero dev (of_nat (b + bi)) s) (\<lambda>s.
         Ret (of_nat (b + bi), s))))
     | None \<Rightarrow> bindR (brelse bp s) (balloc_loop dev bs))"

definition balloc :: "uint \<Rightarrow> 'a kfs_scheme \<Rightarrow> (uint \<times> 'a kfs_scheme) res" where
  "balloc dev s = balloc_loop dev (map (\<lambda>k. k * BPB) [0..<(unat (sb_size (sb s)) + BPB - 1) div BPB]) s"

definition bfree :: "uint \<Rightarrow> uint \<Rightarrow> 'a kfs_scheme \<Rightarrow> 'a kfs_scheme res" where
  "bfree dev b s =
     bindR (readsb dev s) (\<lambda>(sbk, s).
     let s = s\<lparr>sb := sbk\<rparr> in
     bindR (bread dev (BBLOCK b (sb s)) s) (\<lambda>(bp, s).
     let bi = unat b mod BPB; d = bdata (bufs s ! bp) in
     if \<not> bit_get d bi then Panic ''freeing free block''
     else
       bindR (log_write bp (setdata bp (bit_clear d bi) s)) (\<lambda>s.
       brelse bp s)))"

section \<open>Inodes on disk\<close>

definition ioff :: "uint \<Rightarrow> nat" where
  "ioff i = 64 * (unat i mod IPB)"

definition put_dinode :: "nat \<Rightarrow> inode \<Rightarrow> blk \<Rightarrow> blk" where
  "put_dinode off ip d =
     (let d = wr16 d off (itype ip);
          d = wr16 d (off + 2) (major ip);
          d = wr16 d (off + 4) (minor ip);
          d = wr16 d (off + 6) (nlink ip);
          d = wr32 d (off + 8) (isize ip)
      in put_words (off + 12) (addrs ip) d)"

definition get_dinode :: "nat \<Rightarrow> blk \<Rightarrow> inode \<Rightarrow> inode" where
  "get_dinode off d ip =
     ip\<lparr>itype := rd16 d off, major := rd16 d (off + 2), minor := rd16 d (off + 4),
       nlink := rd16 d (off + 6), isize := rd32 d (off + 8),
       addrs := map (\<lambda>k. rd32 d (off + 12 + 4 * k)) [0..<NDIRECT + 1]\<rparr>"

section \<open>The inode cache\<close>

definition zeroinode :: inode where
  "zeroinode = \<lparr>idev = 0, inum = 0, iref = 0, ilk = initsleeplock, valid = False, itype = 0,
     major = 0, minor = 0, nlink = 0, isize = 0, addrs = replicate (NDIRECT + 1) 0\<rparr>"

definition iinit :: "uint \<Rightarrow> 'a kfs_scheme \<Rightarrow> 'a kfs_scheme res" where
  "iinit dev s =
     bindR (readsb dev (s\<lparr>icache := map (\<lambda>ip. ip\<lparr>ilk := initsleeplock\<rparr>) (icache s)\<rparr>)) (\<lambda>(sbk, s).
     Ret (s\<lparr>sb := sbk\<rparr>))"

definition iget :: "uint \<Rightarrow> uint \<Rightarrow> 'a kfs_scheme \<Rightarrow> (nat \<times> 'a kfs_scheme) res" where
  "iget dev n s =
     (case find_index (\<lambda>ip. iref ip > 0 \<and> idev ip = dev \<and> inum ip = n) (icache s) of
        Some i \<Rightarrow> Ret (i, updinode i ((icache s ! i)\<lparr>iref := iref (icache s ! i) + 1\<rparr>) s)
      | None \<Rightarrow>
          (case find_index (\<lambda>ip. iref ip = 0) (icache s) of
             None \<Rightarrow> Panic ''iget: no inodes''
           | Some i \<Rightarrow>
               Ret (i, updinode i ((icache s ! i)\<lparr>idev := dev, inum := n, iref := 1, valid := False\<rparr>) s)))"

fun ialloc_loop :: "uint \<Rightarrow> ushort \<Rightarrow> nat list \<Rightarrow> 'a kfs_scheme \<Rightarrow> (nat \<times> 'a kfs_scheme) res" where
  "ialloc_loop dev ty [] s = Panic ''ialloc: no inodes''"
| "ialloc_loop dev ty (n # ns) s =
     bindR (bread dev (IBLOCK (of_nat n) (sb s)) s) (\<lambda>(bp, s).
     let d = bdata (bufs s ! bp); off = ioff (of_nat n) in
     if rd16 d off = 0 then
       bindR (log_write bp (setdata bp (wr16 (put_bytes off (replicate 64 0) d) off ty) s)) (\<lambda>s.
       bindR (brelse bp s) (\<lambda>s.
       iget dev (of_nat n) s))
     else bindR (brelse bp s) (ialloc_loop dev ty ns))"

definition ialloc :: "uint \<Rightarrow> ushort \<Rightarrow> 'a kfs_scheme \<Rightarrow> (nat \<times> 'a kfs_scheme) res" where
  "ialloc dev ty s = ialloc_loop dev ty [1..<unat (sb_ninodes (sb s))] s"

definition iupdate :: "nat \<Rightarrow> 'a kfs_scheme \<Rightarrow> 'a kfs_scheme res" where
  "iupdate i s =
     bindR (bread (idev (icache s ! i)) (IBLOCK (inum (icache s ! i)) (sb s)) s) (\<lambda>(bp, s).
     let ip = icache s ! i in
     bindR (log_write bp (setdata bp (put_dinode (ioff (inum ip)) ip (bdata (bufs s ! bp))) s)) (\<lambda>s.
     brelse bp s))"

definition idup :: "nat \<Rightarrow> 'a kfs_scheme \<Rightarrow> 'a kfs_scheme" where
  "idup i s = updinode i ((icache s ! i)\<lparr>iref := iref (icache s ! i) + 1\<rparr>) s"

definition ilock :: "nat \<Rightarrow> 'a kfs_scheme \<Rightarrow> 'a kfs_scheme res" where
  "ilock i s =
     (let ip = icache s ! i in
      if iref ip < 1 then Panic ''ilock''
      else
        bindR (acquiresleep (ChInode i) (curpid s) (ilk ip)) (\<lambda>lk.
        let s = updinode i (ip\<lparr>ilk := lk\<rparr>) s in
        if valid ip then Ret s
        else
          bindR (bread (idev ip) (IBLOCK (inum ip) (sb s)) s) (\<lambda>(bp, s).
          let ip = get_dinode (ioff (inum ip)) (bdata (bufs s ! bp)) (icache s ! i) in
          bindR (brelse bp (updinode i ip s)) (\<lambda>s.
          let s = updinode i (ip\<lparr>valid := True\<rparr>) s in
          if itype ip = 0 then Panic ''ilock: no type'' else Ret s))))"

definition iunlock :: "nat \<Rightarrow> 'a kfs_scheme \<Rightarrow> 'a kfs_scheme res" where
  "iunlock i s =
     (let ip = icache s ! i in
      if \<not> holdingsleep (curpid s) (ilk ip) \<or> iref ip < 1 then Panic ''iunlock''
      else Ret (updinode i (ip\<lparr>ilk := releasesleep (ilk ip)\<rparr>) s))"

section \<open>The blocks of a file\<close>

definition set_addr :: "nat \<Rightarrow> nat \<Rightarrow> uint \<Rightarrow> 'a kfs_scheme \<Rightarrow> 'a kfs_scheme" where
  "set_addr i k a s = updinode i ((icache s ! i)\<lparr>addrs := (addrs (icache s ! i))[k := a]\<rparr>) s"

definition bmap :: "nat \<Rightarrow> nat \<Rightarrow> 'a kfs_scheme \<Rightarrow> (uint \<times> 'a kfs_scheme) res" where
  "bmap i bn s =
     (let dev = idev (icache s ! i) in
      if bn < NDIRECT then
        let addr = addrs (icache s ! i) ! bn in
        if addr = 0 then
          bindR (balloc dev s) (\<lambda>(addr, s). Ret (addr, set_addr i bn addr s))
        else Ret (addr, s)
      else
        let bn = bn - NDIRECT in
        if bn < NINDIRECT then
          bindR (let addr = addrs (icache s ! i) ! NDIRECT in
                 if addr = 0 then bindR (balloc dev s) (\<lambda>(addr, s). Ret (addr, set_addr i NDIRECT addr s))
                 else Ret (addr, s)) (\<lambda>(addr, s).
          bindR (bread dev addr s) (\<lambda>(bp, s).
          let addr = rd32 (bdata (bufs s ! bp)) (4 * bn) in
          bindR (if addr = 0 then
                   bindR (balloc dev s) (\<lambda>(addr, s).
                   bindR (log_write bp (setdata bp (wr32 (bdata (bufs s ! bp)) (4 * bn) addr) s)) (\<lambda>s.
                   Ret (addr, s)))
                 else Ret (addr, s)) (\<lambda>(addr, s).
          bindR (brelse bp s) (\<lambda>s. Ret (addr, s)))))
        else Panic ''bmap: out of range'')"

definition itrunc_direct :: "nat \<Rightarrow> nat \<Rightarrow> 'a kfs_scheme \<Rightarrow> 'a kfs_scheme res" where
  "itrunc_direct i k s =
     (let ip = icache s ! i in
      if addrs ip ! k \<noteq> 0
      then bindR (bfree (idev ip) (addrs ip ! k) s) (\<lambda>s. Ret (set_addr i k 0 s))
      else Ret s)"

definition itrunc :: "nat \<Rightarrow> 'a kfs_scheme \<Rightarrow> 'a kfs_scheme res" where
  "itrunc i s =
     bindR (foldR (itrunc_direct i) [0..<NDIRECT] s) (\<lambda>s.
     let ip = icache s ! i; ind = addrs ip ! NDIRECT in
     bindR (if ind \<noteq> 0 then
              bindR (bread (idev ip) ind s) (\<lambda>(bp, s).
              bindR (foldR (\<lambda>j s. let a = rd32 (bdata (bufs s ! bp)) (4 * j) in
                              if a \<noteq> 0 then bfree (idev ip) a s else Ret s) [0..<NINDIRECT] s) (\<lambda>s.
              bindR (brelse bp s) (\<lambda>s.
              bindR (bfree (idev ip) ind s) (\<lambda>s.
              Ret (set_addr i NDIRECT 0 s)))))
            else Ret s) (\<lambda>s.
     iupdate i (updinode i ((icache s ! i)\<lparr>isize := 0\<rparr>) s)))"

definition iput :: "nat \<Rightarrow> 'a kfs_scheme \<Rightarrow> 'a kfs_scheme res" where
  "iput i s =
     bindR (acquiresleep (ChInode i) (curpid s) (ilk (icache s ! i))) (\<lambda>lk.
     let s = updinode i ((icache s ! i)\<lparr>ilk := lk\<rparr>) s; ip = icache s ! i in
     bindR (if valid ip \<and> nlink ip = 0 \<and> iref ip = 1 then
              bindR (itrunc i s) (\<lambda>s.
              bindR (iupdate i (updinode i ((icache s ! i)\<lparr>itype := 0\<rparr>) s)) (\<lambda>s.
              Ret (updinode i ((icache s ! i)\<lparr>valid := False\<rparr>) s)))
            else Ret s) (\<lambda>s.
     let ip = icache s ! i in
     Ret (updinode i (ip\<lparr>ilk := releasesleep (ilk ip), iref := iref ip - 1\<rparr>) s)))"

definition iunlockput :: "nat \<Rightarrow> 'a kfs_scheme \<Rightarrow> 'a kfs_scheme res" where
  "iunlockput i s = bindR (iunlock i s) (iput i)"

section \<open>The contents of a file\<close>

record stat =
  st_type :: ushort
  st_dev :: int
  st_ino :: uint
  st_nlink :: ushort
  st_size :: uint

definition stati :: "inode \<Rightarrow> stat" where
  "stati ip = \<lparr>st_type = itype ip, st_dev = sint (idev ip), st_ino = inum ip,
     st_nlink = nlink ip, st_size = isize ip\<rparr>"

text \<open>
  The loops of \<open>readi\<close> and \<open>writei\<close> run over offsets that do not wrap around, after the checks
  in front of them; \<open>rest\<close> is \<open>n - tot\<close>.
\<close>

abbreviation chunk :: "nat \<Rightarrow> nat \<Rightarrow> nat" where
  "chunk off rest \<equiv> min rest (BSIZE - off mod BSIZE)"

function readi_loop :: "nat \<Rightarrow> nat \<Rightarrow> nat \<Rightarrow> 'a kfs_scheme \<Rightarrow> (byte list \<times> 'a kfs_scheme) res" where
  "readi_loop i off rest s =
     (if rest = 0 then Ret ([], s)
      else
        let m = chunk off rest in
        bindR (bmap i (off div BSIZE) s) (\<lambda>(addr, s).
        bindR (bread (idev (icache s ! i)) addr s) (\<lambda>(bp, s).
        let d = get_bytes (off mod BSIZE) m (bdata (bufs s ! bp)) in
        bindR (brelse bp s) (\<lambda>s.
        bindR (readi_loop i (off + m) (rest - m) s) (\<lambda>(ds, s).
        Ret (d @ ds, s))))))"
  by pat_completeness auto
termination
  by (relation "measure (\<lambda>(i, off, rest, s). rest)") auto

definition readi :: "'a kfs_scheme devsw \<Rightarrow> nat \<Rightarrow> uint \<Rightarrow> uint \<Rightarrow> 'a kfs_scheme \<Rightarrow>
    (int \<times> byte list \<times> 'a kfs_scheme) res" where
  "readi devsw i off n s =
     (let ip = icache s ! i in
      if itype ip = T_DEV then
        if sint (major ip) < 0 \<or> sint (major ip) \<ge> int NDEV then Ret (- 1, [], s)
        else (case fst (devsw (nat (sint (major ip)))) of
                None \<Rightarrow> Ret (- 1, [], s)
              | Some rd \<Rightarrow> rd i n s)
      else if off > isize ip \<or> off + n < off then Ret (- 1, [], s)
      else
        let n = (if off + n > isize ip then isize ip - off else n) in
        bindR (readi_loop i (unat off) (unat n) s) (\<lambda>(d, s). Ret (sint n, d, s)))"

function writei_loop :: "nat \<Rightarrow> nat \<Rightarrow> byte list \<Rightarrow> 'a kfs_scheme \<Rightarrow> 'a kfs_scheme res" where
  "writei_loop i off src s =
     (if src = [] then Ret s
      else
        let m = chunk off (length src) in
        bindR (bmap i (off div BSIZE) s) (\<lambda>(addr, s).
        bindR (bread (idev (icache s ! i)) addr s) (\<lambda>(bp, s).
        bindR (log_write bp (setdata bp (put_bytes (off mod BSIZE) (take m src) (bdata (bufs s ! bp))) s)) (\<lambda>s.
        bindR (brelse bp s) (\<lambda>s.
        writei_loop i (off + m) (drop m src) s)))))"
  by pat_completeness auto
termination
  by (relation "measure (\<lambda>(i, off, src, s). length src)") auto

definition writei :: "'a kfs_scheme devsw \<Rightarrow> nat \<Rightarrow> byte list \<Rightarrow> uint \<Rightarrow> 'a kfs_scheme \<Rightarrow>
    (int \<times> 'a kfs_scheme) res" where
  "writei devsw i src off s =
     (let ip = icache s ! i; n = of_nat (length src) :: uint in
      if itype ip = T_DEV then
        if sint (major ip) < 0 \<or> sint (major ip) \<ge> int NDEV then Ret (- 1, s)
        else (case snd (devsw (nat (sint (major ip)))) of
                None \<Rightarrow> Ret (- 1, s)
              | Some wr \<Rightarrow> wr i src s)
      else if off > isize ip \<or> off + n < off then Ret (- 1, s)
      else if off + n > of_nat (MAXFILE * BSIZE) then Ret (- 1, s)
      else
        bindR (writei_loop i (unat off) src s) (\<lambda>s.
        if n > 0 \<and> off + n > isize (icache s ! i) then
          bindR (iupdate i (updinode i ((icache s ! i)\<lparr>isize := off + n\<rparr>) s)) (\<lambda>s. Ret (sint n, s))
        else Ret (sint n, s)))"

declare readi_loop.simps [simp del] writei_loop.simps [simp del]

end
