(* ===== verification/FsBlocks.thy ===== *)
theory FsBlocks
  imports Fs
begin

text \<open>
  Contracts of the block layer of \<open>xv6/fs.c\<close> inside a transaction. \<open>credit k s\<close> says that the
  log and the cache have room for \<open>k\<close> more units; a held buffer and a logged block take one
  each. The contracts describe an operation by its effect on the view of the disk; the disk
  itself does not change before the transaction commits.
\<close>

section \<open>Transactions at the level of the view\<close>

definition credit :: "nat \<Rightarrow> 'a klog_scheme \<Rightarrow> bool" where
  "credit k s \<longleftrightarrow> lh_n s + int (card (held s)) + int k < int NBUF \<and>
     lh_n s + int (card (held s)) + int k \<le> lsize s - 1"

lemma credit_mono: "credit k s \<Longrightarrow> j \<le> k \<Longrightarrow> credit j s"
  by (auto simp: credit_def)

lemma finite_held [simp]: "finite (held s)"
  using held_pinned_finite [of s] by simp

lemma credit_room:
  assumes "trans_ok s" "credit k s"
  shows "card (held s \<union> pinned s) < NBUF"
proof -
  have "card (pinned s) = nat (lh_n s)"
    using assms(1) distinct_card [of "logged s"] log_okD(10) [of s] by (auto simp: trans_ok_def)
  then have "card (held s \<union> pinned s) \<le> card (held s) + nat (lh_n s)"
    using card_Un_le [of "held s" "pinned s"] by simp
  moreover have "0 \<le> lh_n s" using assms(1) by (simp add: trans_ok_def log_ok_def)
  ultimately show ?thesis using assms(2) unfolding credit_def by linarith
qed

text \<open>\<open>txn s v t\<close>: from \<open>s\<close> to \<open>t\<close> only the view changed, to \<open>v\<close>.\<close>

definition txn :: "'a klog_scheme \<Rightarrow> (uint \<Rightarrow> blk) \<Rightarrow> 'a klog_scheme \<Rightarrow> bool" where
  "txn s v t \<longleftrightarrow> trans_ok t \<and> log_frame s t \<and> held t = held s \<and> memdisk t = memdisk s \<and>
     writes t = writes s \<and> view t = v \<and> pinned s \<subseteq> pinned t \<and>
     (\<forall>m \<in> held s. \<forall>j. cached s m j \<longrightarrow> cached t m j)"

lemma txnD:
  assumes "txn s v t"
  shows "trans_ok t" "log_frame s t" "held t = held s" "memdisk t = memdisk s" "writes t = writes s"
    "view t = v" "pinned s \<subseteq> pinned t" "m \<in> held s \<Longrightarrow> cached s m j \<Longrightarrow> cached t m j"
    "in_log t = in_log s"
  using assms log_frameD(7) [of s t] by (auto simp: txn_def)

lemma txn_refl: "trans_ok s \<Longrightarrow> txn s (view s) s"
  by (simp add: txn_def)

lemma txn_trans:
  assumes "txn s v t" "txn t w u"
  shows "txn s w u"
  using assms log_frame_trans [of s t u] by (auto simp: txn_def)

lemma trans_okD:
  assumes "trans_ok s"
  shows "bio_inv s" "log_ok s" "log_geom s" "0 \<le> lh_n s" "distinct (logged s)" "set (logged s) = pinned s"
  using assms by (auto simp: trans_ok_def dest: log_okD)

lemma lh_n_logged: "trans_ok s \<Longrightarrow> lh_n s = int (length (logged s))"
  using log_okD(4,10) [of s] by (simp add: trans_ok_def)

lemma fs_bread:
  assumes ok: "trans_ok s" and cr: "credit (Suc k) s" and bn: "unat bn < length (memdisk s)" "bn \<notin> held s"
  shows "\<exists>i t. bread 1 bn s = Ret (i, t) \<and> bread_post bn s i t \<and> trans_ok t \<and> credit k t \<and> log_frame s t"
proof -
  obtain i t where r: "bread 1 bn s = Ret (i, t)" "bread_post bn s i t"
    using bread_spec [OF trans_okD(1) [OF ok] bn] credit_room [OF ok cr] by blast
  note p = bread_postD [OF r(2)]
  note f = trans_frame [OF ok p(2,1,7,5)]
  have "card (held t) = Suc (card (held s))" using p(4) bn(2) by simp
  then have "credit k t" using cr klog_frame [OF p(2)] by (simp add: credit_def)
  then show ?thesis using r f by blast
qed

lemma fs_log_write:
  assumes ok: "trans_ok s" and cr: "credit (Suc k) s" and c: "cached s bn i" and h: "bn \<in> held s"
    and nl: "\<not> in_log s bn" and d: "length d = BSIZE"
  shows "\<exists>t. log_write i (setdata i d s) = Ret t \<and> txn s ((view s)(bn := d)) t \<and> credit k t \<and>
    cached t = cached s \<and> bn \<in> pinned t"
proof -
  note sd = setdata_spec [OF trans_okD(1) [OF ok] c h d]
  note f = trans_frame [OF ok sd(2,1,7,5)]
  have "log_room 1 (setdata i d s)" unfolding f(4) using cr by (simp add: credit_def log_room_def)
  then obtain t where t: "log_write i (setdata i d s) = Ret t" "log_write_post bn (setdata i d s) t"
    using log_write_spec [OF f(1), of bn i] c h nl sd f(5) by auto
  note p = t(2) [unfolded log_write_post_def sd f(3)]
  have fr: "log_frame s t" using p f(2) log_frame_trans by blast
  have "lh_n t \<le> lh_n s + 1" using lh_n_logged [OF ok] p lh_n_logged [of t] by auto
  then have "credit k t" using cr p log_frameD(2) [OF fr] by (auto simp: credit_def)
  moreover have "txn s ((view s)(bn := d)) t" using p fr by (auto simp: txn_def)
  ultimately show ?thesis using t(1) p by blast
qed

lemma fs_brelse:
  assumes ok: "trans_ok s" and cr: "credit k s" and c: "cached s bn i" and h: "bn \<in> held s"
    and cl: "bn \<in> pinned s \<or> view s bn = memdisk s ! unat bn"
  shows "\<exists>t. brelse i s = Ret t \<and> brelse_post bn s t \<and> trans_ok t \<and> credit (Suc k) t \<and> log_frame s t"
proof -
  obtain t where t: "brelse i s = Ret t" "brelse_post bn s t"
    using brelse_spec [OF trans_okD(1) [OF ok] c h cl] by blast
  note p = brelse_postD [OF t(2)]
  note f = trans_frame [OF ok p(2,1,7,5)]
  have "card (held s) > 0" using h by (auto simp: card_gt_0_iff)
  then have "int (card (held t)) = int (card (held s)) - 1" using p(4) h by simp
  then have "credit (Suc k) t" using cr klog_frame [OF p(2)] by (simp add: credit_def)
  then show ?thesis using t f by blast
qed

text \<open>Reading a block, and reading, changing and logging it.\<close>

lemma fs_peek:
  assumes ok: "trans_ok s" and cr: "credit (Suc k) s" and bn: "unat bn < length (memdisk s)" "bn \<notin> held s"
  shows "\<exists>i t u. bread 1 bn s = Ret (i, t) \<and> bdata (bufs t ! i) = view s bn \<and> log_frame s t \<and>
    brelse i t = Ret u \<and> txn s (view s) u \<and> credit (Suc k) u"
proof -
  obtain i t where r: "bread 1 bn s = Ret (i, t)" "bread_post bn s i t" "trans_ok t" "credit k t" "log_frame s t"
    using fs_bread [OF ok cr bn] by blast
  note p = bread_postD [OF r(2)]
  have "bn \<in> pinned t \<or> view t bn = memdisk t ! unat bn"
    using view_clean [OF trans_okD(1) [OF ok] bn(2)] p(5-7) by auto
  then obtain u where u: "brelse i t = Ret u" "brelse_post bn t u" "trans_ok u" "credit (Suc k) u" "log_frame t u"
    using fs_brelse [OF r(3,4) p(3)] p(4) by blast
  note q = brelse_postD [OF u(2)]
  have "log_frame s u" using r(5) u(5) log_frame_trans by blast
  then have "txn s (view s) u" using u(3) q p bn(2) by (auto simp: txn_def)
  then show ?thesis using r p(9) u by blast
qed

lemma fs_modify:
  assumes ok: "trans_ok s" and cr: "credit (Suc (Suc k)) s"
    and bn: "unat bn < length (memdisk s)" "bn \<notin> held s" "\<not> in_log s bn"
    and d: "length (f (view s bn)) = BSIZE"
  shows "\<exists>i t u v. bread 1 bn s = Ret (i, t) \<and> bdata (bufs t ! i) = view s bn \<and> log_frame s t \<and>
    log_write i (setdata i (f (view s bn)) t) = Ret u \<and> brelse i u = Ret v \<and>
    txn s ((view s)(bn := f (view s bn))) v \<and> credit (Suc k) v"
proof -
  obtain i t where r: "bread 1 bn s = Ret (i, t)" "bread_post bn s i t" "trans_ok t" "credit (Suc k) t" "log_frame s t"
    using fs_bread [OF ok cr bn(1,2)] by blast
  note p = bread_postD [OF r(2)]
  have hb: "bn \<in> held t" and nl: "\<not> in_log t bn" using p(4) bn(3) klog_frame(9) [OF p(2)] by auto
  obtain u where u: "log_write i (setdata i (f (view s bn)) t) = Ret u"
    "txn t ((view t)(bn := f (view s bn))) u" "credit k u" "cached u = cached t" "bn \<in> pinned u"
    using fs_log_write [OF r(3,4) p(3) hb nl d] by blast
  note w = txnD [OF u(2)]
  obtain v where v: "brelse i u = Ret v" "brelse_post bn u v" "trans_ok v" "credit (Suc k) v" "log_frame u v"
    using fs_brelse [OF w(1) u(3), of bn i] u(4,5) p(3) w(3) hb by auto
  note q = brelse_postD [OF v(2)]
  have "log_frame s v" using r(5) w(2) v(5) log_frame_trans by blast
  moreover have "cached v m j" if "m \<in> held s" "cached s m j" for m j
    using p(10) [OF that] q(3) u(4) by simp
  ultimately have "txn s ((view s)(bn := f (view s bn))) v"
    using v(3) q p w bn(2) by (auto simp: txn_def)
  then show ?thesis using r p(9) u(1) v by blast
qed

lemma bzero_spec:
  assumes ok: "trans_ok s" and cr: "credit (Suc (Suc k)) s"
    and bn: "unat bn < length (memdisk s)" "bn \<notin> held s" "\<not> in_log s bn"
  shows "\<exists>t. bzero 1 bn s = Ret t \<and> txn s ((view s)(bn := replicate BSIZE 0)) t \<and> credit (Suc k) t"
  using fs_modify [OF ok cr bn, of "\<lambda>_. replicate BSIZE 0"] by (auto simp: bzero_def)

section \<open>Bitmaps\<close>

lemma and_bit_iff:
  fixes x :: byte
  assumes that: "n < 8"
  shows "x AND push_bit n 1 = 0 \<longleftrightarrow> \<not> bit x n"
proof
  assume "x AND push_bit n 1 = 0"
  then have "\<not> bit (x AND push_bit n 1) n" by simp
  then show "\<not> bit x n" using that by (simp add: bit_simps)
next
  assume "\<not> bit x n"
  then show "x AND push_bit n 1 = 0" by (intro bit_eqI) (auto simp: bit_simps bit_1_iff)
qed

lemma bit_get_iff: "bit_get d i \<longleftrightarrow> bit (d ! (i div 8)) (i mod 8)"
  unfolding bit_get_def by (subst and_bit_iff) simp_all

lemma bit_mark_get:
  assumes "i < 8 * length d"
  shows "bit_get (bit_mark d i) j \<longleftrightarrow> j = i \<or> bit_get d j"
proof (cases "j div 8 = i div 8")
  case True
  then have "j = i \<longleftrightarrow> j mod 8 = i mod 8" by (metis div_mult_mod_eq)
  then show ?thesis using True assms
    by (auto simp: bit_get_iff bit_mark_def bit_simps bit_1_iff)
next
  case False
  then show ?thesis by (auto simp: bit_get_iff bit_mark_def)
qed

lemma bit_clear_get:
  assumes "i < 8 * length d"
  shows "bit_get (bit_clear d i) j \<longleftrightarrow> j \<noteq> i \<and> bit_get d j"
proof (cases "j div 8 = i div 8")
  case True
  then have "j = i \<longleftrightarrow> j mod 8 = i mod 8" by (metis div_mult_mod_eq)
  then show ?thesis using True assms
    by (auto simp: bit_get_iff bit_clear_def bit_simps bit_1_iff)
next
  case False
  then show ?thesis by (auto simp: bit_get_iff bit_clear_def)
qed

lemma length_bit_mark [simp]: "length (bit_mark d i) = length d" "length (bit_clear d i) = length d"
  by (simp_all add: bit_mark_def bit_clear_def)

section \<open>The layout of the disk\<close>

text \<open>
  Boot block, super block, log, inodes, bitmap, data, in this order (the comment in \<open>fs.h\<close>);
  \<open>nmeta\<close> is the number of the first data block. The bitmap marks the blocks before it as used.
\<close>

definition nmeta :: "superblock \<Rightarrow> nat" where
  "nmeta b = unat (sb_bmapstart b) + unat (sb_size b) div BPB + 1"

definition fs_geom :: "'a kfs_scheme \<Rightarrow> bool" where
  "fs_geom s \<longleftrightarrow>
     decode_sb (view s 1) = sb s \<and> 1 < unat (lstart s) \<and>
     unat (lstart s) + nat (lsize s) \<le> unat (sb_inodestart (sb s)) \<and>
     unat (sb_inodestart (sb s)) + unat (sb_ninodes (sb s)) div IPB + 1 \<le> unat (sb_bmapstart (sb s)) \<and>
     nmeta (sb s) \<le> unat (sb_size (sb s)) \<and> unat (sb_size (sb s)) \<le> length (memdisk s) \<and>
     unat (sb_size (sb s)) < 2147483648"

definition used :: "(uint \<Rightarrow> blk) \<Rightarrow> superblock \<Rightarrow> uint \<Rightarrow> bool" where
  "used v b bn \<longleftrightarrow> bit_get (v (BBLOCK bn b)) (unat bn mod BPB)"

definition fs_ok :: "'a kfs_scheme \<Rightarrow> bool" where
  "fs_ok s \<longleftrightarrow> trans_ok s \<and> fs_geom s \<and> (\<forall>b. unat b < nmeta (sb s) \<longrightarrow> used (view s) (sb s) b)"

lemma kfs_frame:
  assumes "log_frame s t"
  shows "sb t = sb s" "icache t = icache s" "cwd t = cwd s"
  by (subst assms [unfolded log_frame_def]; simp)+

lemma BBLOCK_unat:
  assumes g: "fs_geom s" and b: "unat b < unat (sb_size (sb s))"
  shows "unat (BBLOCK b (sb s)) = unat b div BPB + unat (sb_bmapstart (sb s))"
    "unat (BBLOCK b (sb s)) < nmeta (sb s)" "unat (BBLOCK b (sb s)) < length (memdisk s)"
    "\<not> in_log s (BBLOCK b (sb s))" "BBLOCK b (sb s) \<noteq> 1"
proof -
  let ?sb = "sb s"
  have le: "unat b div BPB + unat (sb_bmapstart ?sb) < nmeta ?sb"
    using b div_le_mono [of "unat b" "unat (sb_size ?sb)" BPB] by (simp add: nmeta_def)
  have m: "nmeta ?sb \<le> unat (sb_size ?sb)" "unat (sb_size ?sb) < 2147483648"
    "unat (sb_size ?sb) \<le> length (memdisk s)" using g by (simp_all add: fs_geom_def)
  have d: "unat (b div of_nat BPB) = unat b div BPB" by (simp add: unat_div_distrib)
  show u: "unat (BBLOCK b ?sb) = unat b div BPB + unat (sb_bmapstart ?sb)"
    unfolding BBLOCK_def using d le m by (subst unat_add_lem [THEN iffD1]) auto
  show "unat (BBLOCK b ?sb) < nmeta ?sb" using le u by simp
  then show "unat (BBLOCK b ?sb) < length (memdisk s)" using m by linarith
  have lo: "unat (lstart s) + nat (lsize s) < unat (BBLOCK b ?sb)" "1 < unat (lstart s)"
    using g u by (auto simp: fs_geom_def)
  then show "\<not> in_log s (BBLOCK b ?sb)" by (simp add: in_log_def)
  show "BBLOCK b ?sb \<noteq> 1" using lo by auto
qed

lemma data_block:
  assumes g: "fs_geom s" and b: "unat b < unat (sb_size (sb s))" "nmeta (sb s) \<le> unat b"
  shows "unat b < length (memdisk s)" "\<not> in_log s b" "b \<noteq> 1" "b \<noteq> 0"
    "unat c < unat (sb_size (sb s)) \<Longrightarrow> b \<noteq> BBLOCK c (sb s)"
proof -
  show "unat b < length (memdisk s)" using assms by (simp add: fs_geom_def)
  have "unat (lstart s) + nat (lsize s) < unat b" "1 < unat (lstart s)"
    using assms by (auto simp: fs_geom_def nmeta_def)
  then show "\<not> in_log s b" "b \<noteq> 1" "b \<noteq> 0" by (auto simp: in_log_def)
  show "unat c < unat (sb_size (sb s)) \<Longrightarrow> b \<noteq> BBLOCK c (sb s)"
    using BBLOCK_unat(2) [OF g, of c] b(2) by auto
qed

lemma same_BBLOCK:
  assumes "fs_geom s" "unat b < unat (sb_size (sb s))" "unat c < unat (sb_size (sb s))"
  shows "BBLOCK b (sb s) = BBLOCK c (sb s) \<longleftrightarrow> unat b div BPB = unat c div BPB"
  using BBLOCK_unat(1) [OF assms(1,2)] BBLOCK_unat(1) [OF assms(1,3)]
  by (metis add_right_cancel word_unat_eq_iff)

text \<open>The view after the allocation and after the release of block \<open>b\<close>.\<close>

definition alloc_view :: "superblock \<Rightarrow> uint \<Rightarrow> (uint \<Rightarrow> blk) \<Rightarrow> uint \<Rightarrow> blk" where
  "alloc_view sbk b v = v(BBLOCK b sbk := bit_mark (v (BBLOCK b sbk)) (unat b mod BPB),
     b := replicate BSIZE 0)"

definition free_view :: "superblock \<Rightarrow> uint \<Rightarrow> (uint \<Rightarrow> blk) \<Rightarrow> uint \<Rightarrow> blk" where
  "free_view sbk b v = v(BBLOCK b sbk := bit_clear (v (BBLOCK b sbk)) (unat b mod BPB))"

lemma unat_eq_mod_div: "unat b div BPB = unat c div BPB \<Longrightarrow> unat b mod BPB = unat c mod BPB \<longleftrightarrow> b = c" for b c :: uint
  by (metis div_mult_mod_eq word_unat_eq_iff)

lemma used_alloc_view:
  assumes g: "fs_geom s" and b: "unat b < unat (sb_size (sb s))" "nmeta (sb s) \<le> unat b"
    and c: "unat c < unat (sb_size (sb s))" and len: "length (v (BBLOCK b (sb s))) = BSIZE"
  shows "used (alloc_view (sb s) b v) (sb s) c \<longleftrightarrow> c = b \<or> used v (sb s) c"
proof (cases "BBLOCK c (sb s) = BBLOCK b (sb s)")
  case True
  then have "unat c div BPB = unat b div BPB" using same_BBLOCK [OF g c b(1)] by simp
  then have "unat c mod BPB = unat b mod BPB \<longleftrightarrow> c = b" by (rule unat_eq_mod_div)
  then show ?thesis using True data_block(5) [OF g b b(1)] len
    by (simp add: used_def alloc_view_def bit_mark_get)
next
  case False
  then have "c \<noteq> b" by auto
  then show ?thesis using False data_block(5) [OF g b c] by (auto simp: used_def alloc_view_def)
qed

lemma used_free_view:
  assumes g: "fs_geom s" and b: "unat b < unat (sb_size (sb s))"
    and c: "unat c < unat (sb_size (sb s))" and len: "length (v (BBLOCK b (sb s))) = BSIZE"
  shows "used (free_view (sb s) b v) (sb s) c \<longleftrightarrow> c \<noteq> b \<and> used v (sb s) c"
proof (cases "BBLOCK c (sb s) = BBLOCK b (sb s)")
  case True
  then have "unat c div BPB = unat b div BPB" using same_BBLOCK [OF g c b] by simp
  then have "unat c mod BPB = unat b mod BPB \<longleftrightarrow> c = b" by (rule unat_eq_mod_div)
  then show ?thesis using True len by (simp add: used_def free_view_def bit_clear_get)
next
  case False
  then show ?thesis by (auto simp: used_def free_view_def)
qed

lemma fs_ok_frame:
  assumes "fs_ok s" "trans_ok t" "log_frame s t" "memdisk t = memdisk s" "view t 1 = view s 1"
    and "\<And>b. unat b < nmeta (sb s) \<Longrightarrow> used (view t) (sb s) b"
  shows "fs_ok t"
  using assms kfs_frame [OF assms(3)] log_frameD [OF assms(3)] by (simp add: fs_ok_def fs_geom_def)

lemma fs_ok_view:
  assumes "fs_ok s" "txn s v t" "v 1 = view s 1"
    and "\<And>b. unat b < nmeta (sb s) \<Longrightarrow> used v (sb s) b"
  shows "fs_ok t"
  using assms txnD [OF assms(2)] by (intro fs_ok_frame [OF assms(1)]) simp_all

section \<open>Allocation and release of blocks\<close>

text \<open>
  The blocks that a caller of \<open>balloc\<close> holds: none of the bitmap, and all marked as used.
\<close>

definition holds_ok :: "'a kfs_scheme \<Rightarrow> bool" where
  "holds_ok s \<longleftrightarrow> (\<forall>m \<in> held s. nmeta (sb s) \<le> unat m \<and> used (view s) (sb s) m)"

lemma fs_okD:
  assumes "fs_ok s"
  shows "trans_ok s" "fs_geom s" "bio_inv s" "unat b < nmeta (sb s) \<Longrightarrow> used (view s) (sb s) b"
    "unat b < unat (sb_size (sb s)) \<Longrightarrow> length (view s b) = BSIZE"
proof -
  show t: "trans_ok s" and g: "fs_geom s" using assms by (simp_all add: fs_ok_def)
  show i: "bio_inv s" by (rule trans_okD(1) [OF t])
  show "unat b < nmeta (sb s) \<Longrightarrow> used (view s) (sb s) b" using assms by (simp add: fs_ok_def)
  show "unat b < unat (sb_size (sb s)) \<Longrightarrow> length (view s b) = BSIZE"
    using g by (intro length_view [OF i]) (simp add: fs_geom_def)
qed

lemma bitmap_not_held: "fs_ok s \<Longrightarrow> holds_ok s \<Longrightarrow> unat b < unat (sb_size (sb s)) \<Longrightarrow> BBLOCK b (sb s) \<notin> held s"
  using BBLOCK_unat(2) [OF fs_okD(2), of s b] unfolding holds_ok_def by force

text \<open>Marking block \<open>b\<close> in the bitmap block of its group and zeroing it.\<close>

lemma balloc_found:
  assumes ok: "fs_ok s" and ho: "holds_ok s" and cr: "credit (Suc (Suc (Suc k))) s"
    and b: "unat b < unat (sb_size (sb s))" "\<not> used (view s) (sb s) b"
  shows "\<exists>bp t u v w. bread 1 (BBLOCK b (sb s)) s = Ret (bp, t) \<and>
    bdata (bufs t ! bp) = view s (BBLOCK b (sb s)) \<and> log_frame s t \<and>
    log_write bp (setdata bp (bit_mark (view s (BBLOCK b (sb s))) (unat b mod BPB)) t) = Ret u \<and>
    brelse bp u = Ret v \<and> bzero 1 b v = Ret w \<and>
    txn s (alloc_view (sb s) b (view s)) w \<and> credit (Suc k) w"
proof -
  note d = fs_okD [OF ok] and bb = BBLOCK_unat [OF fs_okD(2) [OF ok] b(1)]
  have meta: "nmeta (sb s) \<le> unat b" using d(4) [of b] b(2) by (meson not_le)
  note db = data_block [OF d(2) b(1) meta]
  have nh: "b \<notin> held s" using ho b(2) by (auto simp: holds_ok_def)
  let ?f = "\<lambda>x. bit_mark x (unat b mod BPB)"
  have len: "length (?f (view s (BBLOCK b (sb s)))) = BSIZE" using length_view [OF d(3) bb(3)] by simp
  obtain bp t u v where r: "bread 1 (BBLOCK b (sb s)) s = Ret (bp, t)"
    "bdata (bufs t ! bp) = view s (BBLOCK b (sb s))" "log_frame s t"
    "log_write bp (setdata bp (?f (view s (BBLOCK b (sb s)))) t) = Ret u" "brelse bp u = Ret v"
    "txn s ((view s)(BBLOCK b (sb s) := ?f (view s (BBLOCK b (sb s))))) v" "credit (Suc (Suc k)) v"
    using fs_modify [where f = ?f, OF d(1) cr bb(3) bitmap_not_held [OF ok ho b(1)] bb(4) len] by blast
  note tv = txnD [OF r(6)]
  obtain w where w: "bzero 1 b v = Ret w" "txn v ((view v)(b := replicate BSIZE 0)) w" "credit (Suc k) w"
    using bzero_spec [OF tv(1) r(7), of b] db(1,2) nh tv(3,4,9) by auto
  have "txn s (alloc_view (sb s) b (view s)) w"
    using txn_trans [OF r(6) w(2)] tv(6) by (simp add: alloc_view_def)
  then show ?thesis using r w by blast
qed

lemma find_upt_Some:
  "find P [0..<n] = Some i \<longleftrightarrow> i < n \<and> P i \<and> (\<forall>j<i. \<not> P j)"
  by (auto simp: find_Some_iff)

lemma groups_bounds:
  assumes "n = (x + BPB - 1) div BPB"
  shows "x \<le> n * BPB" "j < n \<Longrightarrow> j * BPB < x"
proof -
  show "x \<le> n * BPB" using dividend_less_div_times [of BPB "x + BPB - 1"] assms by simp
  assume "j < n"
  then have "Suc j * BPB \<le> x + BPB - 1" unfolding assms by (simp add: less_eq_div_iff_mult_less_eq flip: Suc_le_eq)
  then show "j * BPB < x" by simp
qed

text \<open>Block \<open>j * BPB + bi\<close> is bit \<open>bi\<close> of bitmap block \<open>j\<close>.\<close>

lemma group_bit:
  assumes g: "fs_geom s" and bi: "bi < BPB" "j * BPB + bi < unat (sb_size (sb s))"
  defines "c \<equiv> of_nat (j * BPB + bi) :: uint"
  shows "unat c = j * BPB + bi" "BBLOCK c (sb s) = BBLOCK (of_nat (j * BPB)) (sb s)" "unat c mod BPB = bi"
    "used v (sb s) c \<longleftrightarrow> bit_get (v (BBLOCK (of_nat (j * BPB)) (sb s))) bi"
proof -
  have sz: "unat (sb_size (sb s)) < 2147483648" using g by (simp add: fs_geom_def)
  show u: "unat c = j * BPB + bi" unfolding c_def by (rule unat_of_nat32) (use bi sz in linarith)
  have u0: "unat (of_nat (j * BPB) :: uint) = j * BPB" by (rule unat_of_nat32) (use bi sz in linarith)
  show "BBLOCK c (sb s) = BBLOCK (of_nat (j * BPB)) (sb s)"
    using bi u u0 by (subst same_BBLOCK [OF g]) simp_all
  then show "used v (sb s) c \<longleftrightarrow> bit_get (v (BBLOCK (of_nat (j * BPB)) (sb s))) bi"
    using u bi(1) by (simp add: used_def)
  show "unat c mod BPB = bi" using u bi(1) by simp
qed

definition first_free :: "'a kfs_scheme \<Rightarrow> uint \<Rightarrow> bool" where
  "first_free s c \<longleftrightarrow> unat c < unat (sb_size (sb s)) \<and> \<not> used (view s) (sb s) c \<and>
     (\<forall>e. unat e < unat c \<longrightarrow> used (view s) (sb s) e)"

lemma balloc_loop_spec:
  assumes ok: "fs_ok s" and ho: "holds_ok s" and cr: "credit (Suc (Suc (Suc k))) s"
    and n: "n = (unat (sb_size (sb s)) + BPB - 1) div BPB" and j: "j \<le> n"
    and free: "unat b < unat (sb_size (sb s))" "\<not> used (view s) (sb s) b"
    and below: "\<And>c. unat c < j * BPB \<Longrightarrow> used (view s) (sb s) c \<or> unat (sb_size (sb s)) \<le> unat c"
  shows "\<exists>c t. balloc_loop 1 (map (\<lambda>k. k * BPB) [j..<n]) s = Ret (c, t) \<and> first_free s c \<and>
    txn s (alloc_view (sb s) c (view s)) t \<and> credit (Suc k) t"
  using assms
proof (induction "n - j" arbitrary: j s)
  case 0
  then have "unat b < j * BPB" using groups_bounds(1) [OF 0(5)] 0(1,6,7) by simp
  then show ?case using 0(7,8) 0(9) [of b] by simp
next
  case (Suc m)
  let ?sz = "unat (sb_size (sb s))" and ?B = "BBLOCK (of_nat (j * BPB)) (sb s)"
  note d = fs_okD [OF Suc(3)]
  have jn: "j < n" using Suc(2) by simp
  have b0: "j * BPB < ?sz" by (rule groups_bounds(2) [OF Suc(6) jn])
  have list: "map (\<lambda>k. k * BPB) [j..<n] = j * BPB # map (\<lambda>k. k * BPB) [Suc j..<n]"
    using jn by (simp add: upt_conv_Cons)
  have "unat (of_nat (j * BPB) :: uint) = j * BPB" using group_bit(1) [OF d(2), of 0 j] b0 by simp
  then have szb: "unat (of_nat (j * BPB) :: uint) < ?sz" using b0 by simp
  note bb = BBLOCK_unat [OF d(2) szb] and nh = bitmap_not_held [OF Suc(3,4) szb]
  let ?lim = "min BPB (?sz - j * BPB)"
  show ?case
  proof (cases "find (\<lambda>bi. \<not> bit_get (view s ?B) bi) [0..<?lim]")
    case (Some bi)
    then have bi: "bi < BPB" "j * BPB + bi < ?sz" "\<not> bit_get (view s ?B) bi"
      "\<And>i. i < bi \<Longrightarrow> bit_get (view s ?B) i" by (auto simp: find_upt_Some)
    let ?c = "of_nat (j * BPB + bi) :: uint"
    note gb = group_bit [OF d(2) bi(1,2)]
    have fr: "unat ?c < ?sz" "\<not> used (view s) (sb s) ?c" using gb(1,4) bi by simp_all
    obtain bp t u v w where r: "bread 1 ?B s = Ret (bp, t)" "bdata (bufs t ! bp) = view s ?B" "log_frame s t"
      "log_write bp (setdata bp (bit_mark (view s ?B) bi) t) = Ret u" "brelse bp u = Ret v"
      "bzero 1 ?c v = Ret w" "txn s (alloc_view (sb s) ?c (view s)) w" "credit (Suc k) w"
      using balloc_found [OF Suc(3,4,5) fr] unfolding gb(2,3) by blast
    have "used (view s) (sb s) e" if e: "unat e < unat ?c" for e
    proof (cases "unat e < j * BPB")
      case True
      then show ?thesis using Suc(10) [of e] e fr(1) by auto
    next
      case False
      then obtain i where i: "unat e = j * BPB + i" using le_Suc_ex not_less by blast
      then have ii: "i < bi" "i < BPB" "j * BPB + i < ?sz" using e gb(1) bi(1,2) by simp_all
      have "e = of_nat (j * BPB + i)" unfolding i [symmetric] by simp
      then show ?thesis using group_bit(4) [OF d(2) ii(2,3)] bi(4) [OF ii(1)] by simp
    qed
    then have "first_free s ?c" using fr by (simp add: first_free_def)
    moreover have "balloc_loop 1 (map (\<lambda>k. k * BPB) [j..<n]) s = Ret (?c, w)"
      unfolding list using r Some kfs_frame(1) [OF r(3)] by simp
    ultimately show ?thesis using r(7,8) by blast
  next
    case None
    obtain bp t u where r: "bread 1 ?B s = Ret (bp, t)" "bdata (bufs t ! bp) = view s ?B" "log_frame s t"
      "brelse bp t = Ret u" "txn s (view s) u" "credit (Suc (Suc (Suc k))) u"
      using fs_peek [OF d(1) Suc(5) bb(3) nh] by blast
    note tu = txnD [OF r(5)] and fu = kfs_frame [OF txnD(2) [OF r(5)]]
    have oku: "fs_ok u" by (rule fs_ok_view [OF Suc(3) r(5)]) (simp_all add: d(4))
    have hou: "holds_ok u" using Suc(4) tu(3,6) fu(1) by (simp add: holds_ok_def)
    have "used (view u) (sb u) c \<or> unat (sb_size (sb u)) \<le> unat c" if c: "unat c < Suc j * BPB" for c
    proof (cases "unat c < j * BPB")
      case False
      then obtain i where i: "unat c = j * BPB + i" "i < BPB" using c le_Suc_ex [of "j * BPB" "unat c"] by auto
      then have ci: "c = of_nat (j * BPB + i)" unfolding i(1) [symmetric] by simp
      show ?thesis
      proof (cases "unat c < ?sz")
        case True
        then have "bit_get (view s ?B) i" using None i by (auto simp: find_None_iff)
        then show ?thesis using group_bit(4) [OF d(2) i(2), of j] True i ci tu(6) fu(1) by simp
      qed (use fu(1) in simp)
    qed (use Suc(10) [of c] tu(6) fu(1) in simp)
    moreover have "m = n - Suc j" using Suc(2) by simp
    ultimately obtain c w where "balloc_loop 1 (map (\<lambda>k. k * BPB) [Suc j..<n]) u = Ret (c, w)" "first_free u c"
      "txn u (alloc_view (sb u) c (view u)) w" "credit (Suc k) w"
      using Suc(1) [of "Suc j" u] oku hou r(6) Suc(6,8,9) jn tu(6) fu(1) by auto
    moreover from this have "txn s (alloc_view (sb s) c (view s)) w" using txn_trans [OF r(5)] tu(6) fu(1) by simp
    moreover have "balloc_loop 1 (map (\<lambda>k. k * BPB) [j..<n]) s = balloc_loop 1 (map (\<lambda>k. k * BPB) [Suc j..<n]) u"
      unfolding list using r None kfs_frame(1) [OF r(3)] by simp
    ultimately show ?thesis using tu(6) fu(1) by (auto simp: first_free_def)
  qed
qed

lemma balloc_spec:
  assumes ok: "fs_ok s" and ho: "holds_ok s" and cr: "credit (Suc (Suc (Suc k))) s"
    and free: "unat b < unat (sb_size (sb s))" "\<not> used (view s) (sb s) b"
  shows "\<exists>c t. balloc 1 s = Ret (c, t) \<and> first_free s c \<and>
    txn s (alloc_view (sb s) c (view s)) t \<and> credit (Suc k) t"
  unfolding balloc_def
  by (rule balloc_loop_spec [OF ok ho cr refl _ free]) simp_all

lemma first_free_data:
  assumes "fs_ok s" "first_free s c"
  shows "nmeta (sb s) \<le> unat c" "unat c < unat (sb_size (sb s))" "\<not> used (view s) (sb s) c"
  using assms fs_okD(4) [OF assms(1), of c] by (auto simp: first_free_def not_le [symmetric])

lemma balloc_keeps:
  assumes ok: "fs_ok s" and c: "first_free s c" and t: "txn s (alloc_view (sb s) c (view s)) t"
  shows "fs_ok t" "unat e < unat (sb_size (sb s)) \<Longrightarrow> used (view t) (sb s) e \<longleftrightarrow> e = c \<or> used (view s) (sb s) e"
    "nmeta (sb s) \<le> unat e \<Longrightarrow> unat e < unat (sb_size (sb s)) \<Longrightarrow> e \<noteq> c \<Longrightarrow> view t e = view s e"
    "view t c = replicate BSIZE 0"
proof -
  note d = fs_okD [OF ok] and f = first_free_data [OF ok c] and tt = txnD [OF t]
  have len: "length (view s (BBLOCK c (sb s))) = BSIZE"
    by (rule length_view [OF d(3) BBLOCK_unat(3) [OF d(2) f(2)]])
  note ua = used_alloc_view [where v = "view s", OF d(2) f(2,1) _ len]
  have nm: "unat b < unat (sb_size (sb s))" if "unat b < nmeta (sb s)" for b
    using that d(2) unfolding fs_geom_def by linarith
  show "fs_ok t"
  proof (rule fs_ok_view [OF ok t])
    show "alloc_view (sb s) c (view s) 1 = view s 1"
      using data_block(3) [OF d(2) f(2,1)] BBLOCK_unat(5) [OF d(2) f(2)] by (auto simp: alloc_view_def)
  qed (use ua nm d(4) in blast)
  show "unat e < unat (sb_size (sb s)) \<Longrightarrow> used (view t) (sb s) e \<longleftrightarrow> e = c \<or> used (view s) (sb s) e"
    unfolding tt(6) by (rule ua)
  show "view t c = replicate BSIZE 0" unfolding tt(6) by (simp add: alloc_view_def)
  show "nmeta (sb s) \<le> unat e \<Longrightarrow> unat e < unat (sb_size (sb s)) \<Longrightarrow> e \<noteq> c \<Longrightarrow> view t e = view s e"
    unfolding tt(6) using data_block(5) [OF d(2) _ _ f(2), of e] by (auto simp: alloc_view_def)
qed

lemma kfs_upd_bio [simp]:
  "cached (s\<lparr>sb := x\<rparr>) = cached s" "held (s\<lparr>sb := x\<rparr>) = held s" "pinned (s\<lparr>sb := x\<rparr>) = pinned s"
  "bio_inv (s\<lparr>sb := x\<rparr>) = bio_inv s" "view (s\<lparr>sb := x\<rparr>) = view s"
  "cached (updinode i ip s) = cached s" "held (updinode i ip s) = held s"
  "pinned (updinode i ip s) = pinned s" "bio_inv (updinode i ip s) = bio_inv s"
  "view (updinode i ip s) = view s"
  by (simp_all add: cached_def held_def pinned_def bio_inv_def view_def updinode_def fun_eq_iff split: option.split)

lemma kfs_upd_log [simp]:
  "trans_ok (updinode i ip s) = trans_ok s" "credit k (updinode i ip s) = credit k s"
  "fs_ok (updinode i ip s) = fs_ok s" "holds_ok (updinode i ip s) = holds_ok s"
  "memdisk (updinode i ip s) = memdisk s" "sb (updinode i ip s) = sb s" "in_log (updinode i ip s) = in_log s"
  by (simp_all add: trans_ok_def log_ok_def log_geom_def logged_def in_log_def credit_def
      fs_ok_def fs_geom_def holds_ok_def used_def fun_eq_iff)
    (simp_all add: updinode_def)

lemma readsb_spec:
  assumes ok: "fs_ok s" and cr: "credit (Suc k) s" and h: "1 \<notin> held s"
  shows "\<exists>t. readsb 1 s = Ret (sb s, t) \<and> txn s (view s) t \<and> credit (Suc k) t"
proof -
  note d = fs_okD [OF ok]
  have "unat (1 :: uint) < length (memdisk s)" using d(2) by (auto simp: fs_geom_def nmeta_def)
  then obtain i t u where "bread 1 1 s = Ret (i, t)" "bdata (bufs t ! i) = view s 1"
    "brelse i t = Ret u" "txn s (view s) u" "credit (Suc k) u"
    using fs_peek [OF d(1) cr _ h] by blast
  then show ?thesis using d(2) by (auto simp: readsb_def Let_def fs_geom_def)
qed

lemma txn_setsb:
  assumes "txn s v t"
  shows "txn s v (t\<lparr>sb := sb s\<rparr>)" "credit k (t\<lparr>sb := sb s\<rparr>) = credit k t"
proof -
  have "t\<lparr>sb := sb s\<rparr> = t" using kfs_frame(1) [OF txnD(2) [OF assms]] by simp
  then show "txn s v (t\<lparr>sb := sb s\<rparr>)" "credit k (t\<lparr>sb := sb s\<rparr>) = credit k t" using assms by simp_all
qed

lemma bfree_spec:
  assumes ok: "fs_ok s" and ho: "holds_ok s" and cr: "credit (Suc (Suc k)) s"
    and b: "unat b < unat (sb_size (sb s))"
  shows "if used (view s) (sb s) b
    then \<exists>t. bfree 1 b s = Ret t \<and> txn s (free_view (sb s) b (view s)) t \<and> credit (Suc k) t
    else bfree 1 b s = Panic ''freeing free block''"
proof -
  note d = fs_okD [OF ok]
  have "1 \<notin> held s" using ho d(2) by (auto simp: holds_ok_def fs_geom_def nmeta_def)
  then obtain t where t: "readsb 1 s = Ret (sb s, t)" "txn s (view s) t" "credit (Suc (Suc k)) t"
    using readsb_spec [OF ok cr] by blast
  note tt = txnD [OF t(2)] and ft = kfs_frame [OF txnD(2) [OF t(2)]]
  have tsb: "t\<lparr>sb := sb s\<rparr> = t" using ft(1) by simp
  have okt: "fs_ok t" by (rule fs_ok_view [OF ok t(2)]) (simp_all add: d(4))
  have hot: "holds_ok t" using ho tt(3,6) ft(1) by (simp add: holds_ok_def)
  note dt = fs_okD [OF okt]
  have bt: "unat b < unat (sb_size (sb t))" using b ft(1) by simp
  note bb = BBLOCK_unat [OF dt(2) bt] and nh = bitmap_not_held [OF okt hot bt]
  let ?B = "BBLOCK b (sb s)" and ?f = "\<lambda>d. bit_clear d (unat b mod BPB)"
  have len: "length (?f (view t ?B)) = BSIZE" using length_view [OF dt(3) bb(3)] ft(1) by simp
  obtain bp u v w where r: "bread 1 ?B t = Ret (bp, u)" "bdata (bufs u ! bp) = view t ?B"
    "log_write bp (setdata bp (?f (view t ?B)) u) = Ret v" "brelse bp v = Ret w"
    "txn t ((view t)(?B := ?f (view t ?B))) w" "credit (Suc k) w"
    using fs_modify [where f = ?f, OF dt(1) t(3) bb(3) nh bb(4)] len ft(1) by auto
  have "txn s (free_view (sb s) b (view s)) w"
    using txn_trans [OF t(2) r(5)] tt(6) by (simp add: free_view_def)
  then show ?thesis using r tt(6) by (auto simp: bfree_def Let_def used_def t(1) tsb ft(1))
qed

section \<open>A small file system\<close>

text \<open>
  Forty blocks as \<open>mkfs\<close> lays them out: a log of 30 blocks from block 2, two inode blocks from
  block 32, the bitmap in block 34, and data blocks from 35 on, of which 35 is in use. Process 1
  is inside a transaction and has inode 2, an empty file, locked.
\<close>

definition sb0 :: superblock where
  "sb0 = \<lparr>sb_size = 40, sb_nblocks = 5, sb_ninodes = 8, sb_nlog = 30, sb_logstart = 2,
     sb_inodestart = 32, sb_bmapstart = 34\<rparr>"

definition disk0 :: "blk list" where
  "disk0 = (replicate 40 (replicate BSIZE 0))
     [1 := put_words 0 [40, 5, 8, 30, 2, 32, 34] (replicate BSIZE 0),
      34 := foldl bit_mark (replicate BSIZE 0) [0..<36]]"

definition ip0 :: inode where
  "ip0 = zeroinode\<lparr>idev := 1, inum := 2, iref := 1, ilk := \<lparr>slocked = True, spid = 1\<rparr>, valid := True,
     itype := T_FILE, nlink := 1\<rparr>"

definition fs0 :: kfs where
  "fs0 = binit \<lparr>bufs = [], mru = [], memdisk = disk0, writes = [], curpid = 1,
     lstart = 2, lsize = 30, outstanding = 1, committing = False, ldev = 1, lh_n = 0,
     lh_block = replicate LOGSIZE 0, sb = sb0, icache = ip0 # replicate (NINODE - 1) zeroinode, cwd = 0\<rparr>"

lemma bit_get_fold:
  "\<forall>i \<in> set is. i < 8 * length d \<Longrightarrow> bit_get (foldl bit_mark d is) j \<longleftrightarrow> j \<in> set is \<or> bit_get d j"
  by (induction "is" arbitrary: d) (auto simp: bit_mark_get)

lemma length_fold_mark [simp]: "length (foldl bit_mark d is) = length d"
  by (induction "is" arbitrary: d) simp_all

lemma disk0_simps:
  "length disk0 = 40" "\<And>d. d \<in> set disk0 \<Longrightarrow> length d = BSIZE"
  "disk0 ! 34 = foldl bit_mark (replicate BSIZE 0) [0..<36]"
  "disk0 ! 1 = put_words 0 [40, 5, 8, 30, 2, 32, 34] (replicate BSIZE 0)"
  by (auto simp: disk0_def dest!: in_set_list_update)

lemma fs0_simps [simp]:
  "memdisk fs0 = disk0" "lstart fs0 = 2" "lsize fs0 = 30" "outstanding fs0 = 1" "ldev fs0 = 1" "lh_n fs0 = 0"
  "lh_block fs0 = replicate LOGSIZE 0" "sb fs0 = sb0" "icache fs0 = ip0 # replicate (NINODE - 1) zeroinode"
  "curpid fs0 = 1" "logged fs0 = []" "\<not> committing fs0"
  by (simp_all add: fs0_def binit_def logged_def)

lemma fs0_bio: "bio_inv fs0" "held fs0 = {}" "pinned fs0 = {}" "view fs0 b = disk0 ! unat b"
  using binit_spec [of "\<lparr>bufs = [], mru = [], memdisk = disk0, writes = [], curpid = 1,
     lstart = 2, lsize = 30, outstanding = 1, committing = False, ldev = 1, lh_n = 0,
     lh_block = replicate LOGSIZE 0, sb = sb0, icache = ip0 # replicate (NINODE - 1) zeroinode, cwd = 0\<rparr>"]
    disk0_simps(2) by (simp_all add: fs0_def)

lemma fs0_used:
  assumes "unat b < 40"
  shows "used (view fs0) sb0 b \<longleftrightarrow> unat b < 36"
proof -
  have "unat (b div 4096) = 0" using assms by (simp add: unat_div_distrib)
  then have "BBLOCK b sb0 = 34" by (simp add: BBLOCK_def sb0_def unat_eq_zero)
  moreover have "\<not> bit_get (replicate BSIZE 0) j" if "j < 40" for j
    using that by (simp add: bit_get_iff)
  ultimately show ?thesis using assms by (simp add: used_def fs0_bio disk0_simps bit_get_fold)
qed

lemma fs0_ok: "fs_ok fs0"
proof -
  have w: "rd32 (put_words 0 [40, 5, 8, 30, 2, 32, 34] (replicate BSIZE 0)) (0 + 4 * k) =
      ([40, 5, 8, 30, 2, 32, 34] :: uint list) ! k" if "k < 7" for k
    using that by (intro rd32_put_words) simp_all
  have "decode_sb (disk0 ! 1) = sb0"
    using w [of 0] w [of 1] w [of 2] w [of 3] w [of 4] w [of 5] w [of 6]
    unfolding disk0_simps(4) decode_sb_def sb0_def by (simp del: put_words.simps)
  then have "decode_sb (disk0 ! unat (1 :: uint)) = sb0" by simp
  then have "fs_geom fs0" by (simp add: fs_geom_def fs0_bio disk0_simps sb0_def nmeta_def)
  moreover have "trans_ok fs0"
    using fs0_bio by (simp add: trans_ok_def log_ok_def log_geom_def disk0_simps)
  ultimately show ?thesis using fs0_used by (auto simp: fs_ok_def nmeta_def sb0_def)
qed

lemma fs0_credit: "credit 28 fs0"
  by (simp add: credit_def fs0_bio)

section \<open>Properties\<close>



text \<open>
  Releasing a block: \<open>bfree\<close> of a used block clears its bit and nothing else; of a free block it
  panics with ``freeing free block''. So freeing what \<open>balloc\<close> returned restores the bitmap, and
  a double free is always detected.
\<close>

lemma bfree_correct:
  assumes "fs_ok s" and "held s = {}" and "credit 2 s" and "unat b < unat (sb_size (sb s))"
  shows "if used (view s) (sb s) b
    then \<exists>t. bfree 1 b s = Ret t \<and> memdisk t = memdisk s \<and> sb t = sb s \<and>
      (\<forall>e. unat e < unat (sb_size (sb s)) \<longrightarrow>
        (used (view t) (sb t) e \<longleftrightarrow> e \<noteq> b \<and> used (view s) (sb s) e) \<and>
        (nmeta (sb s) \<le> unat e \<longrightarrow> view t e = view s e))
    else bfree 1 b s = Panic ''freeing free block''"
proof -
  have ho: "holds_ok s" using assms(2) by (simp add: holds_ok_def)
  have cr: "credit (Suc (Suc 0)) s" using assms(3) by (simp add: eval_nat_numeral)
  note d = fs_okD [OF assms(1)] and bb = BBLOCK_unat [OF fs_okD(2) [OF assms(1)] assms(4)]
  have len: "length (view s (BBLOCK b (sb s))) = BSIZE" by (rule length_view [OF d(3) bb(3)])
  show ?thesis
  proof (cases "used (view s) (sb s) b")
    case True
    then obtain t where t: "bfree 1 b s = Ret t" "txn s (free_view (sb s) b (view s)) t"
      using bfree_spec [OF assms(1) ho cr assms(4)] by auto
    note tt = txnD [OF t(2)]
    have "sb t = sb s" by (rule kfs_frame(1) [OF tt(2)])
    moreover have "used (view t) (sb s) e \<longleftrightarrow> e \<noteq> b \<and> used (view s) (sb s) e"
      if "unat e < unat (sb_size (sb s))" for e
      unfolding tt(6) by (rule used_free_view [where v = "view s", OF d(2) assms(4) that len])
    moreover have "view t e = view s e" if "nmeta (sb s) \<le> unat e" for e
      unfolding tt(6) using bb(2) that by (auto simp: free_view_def)
    ultimately show ?thesis using True t(1) tt(4) by auto
  next
    case False
    then show ?thesis using bfree_spec [OF assms(1) ho cr assms(4)] by simp
  qed
qed

lemma bfree_example:
  "(\<exists>t. bfree 1 35 fs0 = Ret t \<and> \<not> used (view t) (sb t) 35) \<and> bfree 1 39 fs0 = Panic ''freeing free block''"
proof -
  have c: "credit 2 fs0" by (rule credit_mono [OF fs0_credit]) simp
  have u: "used (view fs0) (sb fs0) 35" "\<not> used (view fs0) (sb fs0) 39"
    using fs0_used [of 35] fs0_used [of 39] by simp_all
  have "unat (35 :: uint) < unat (sb_size (sb fs0))" "unat (39 :: uint) < unat (sb_size (sb fs0))"
    by (simp_all add: sb0_def)
  then show ?thesis
    using bfree_correct [OF fs0_ok fs0_bio(2) c, of 35] bfree_correct [OF fs0_ok fs0_bio(2) c, of 39] u by auto
qed

end
