(* ===== verification/FsFile.thy ===== *)
theory FsFile
  imports FsBlocks
begin

text \<open>
  Contracts of \<open>bmap\<close>, \<open>readi\<close> and \<open>writei\<close> of \<open>xv6/fs.c\<close>: a file is the sequence of bytes in
  the blocks that \<open>bmap\<close> finds; reading returns a slice of it and writing replaces one, and
  neither touches the blocks of other files.
\<close>

section \<open>The blocks of a file as a function of the view\<close>

definition faddr :: "(uint \<Rightarrow> blk) \<Rightarrow> inode \<Rightarrow> nat \<Rightarrow> uint" where
  "faddr v ip k =
     (if k < NDIRECT then addrs ip ! k
      else if addrs ip ! NDIRECT = 0 then 0
      else rd32 (v (addrs ip ! NDIRECT)) (4 * (k - NDIRECT)))"

definition fblk :: "(uint \<Rightarrow> blk) \<Rightarrow> inode \<Rightarrow> nat \<Rightarrow> blk" where
  "fblk v ip k = (if faddr v ip k = 0 then replicate BSIZE 0 else v (faddr v ip k))"

definition data_ok :: "(uint \<Rightarrow> blk) \<Rightarrow> superblock \<Rightarrow> uint \<Rightarrow> bool" where
  "data_ok v b a \<longleftrightarrow> nmeta b \<le> unat a \<and> unat a < unat (sb_size b) \<and> used v b a"

definition file_ok :: "(uint \<Rightarrow> blk) \<Rightarrow> superblock \<Rightarrow> inode \<Rightarrow> bool" where
  "file_ok v b ip \<longleftrightarrow> idev ip = 1 \<and> length (addrs ip) = NDIRECT + 1 \<and>
     (\<forall>k < MAXFILE. faddr v ip k \<noteq> 0 \<longrightarrow> data_ok v b (faddr v ip k) \<and> faddr v ip k \<noteq> addrs ip ! NDIRECT) \<and>
     (addrs ip ! NDIRECT \<noteq> 0 \<longrightarrow> data_ok v b (addrs ip ! NDIRECT)) \<and>
     (\<forall>k < MAXFILE. \<forall>l < MAXFILE. faddr v ip k \<noteq> 0 \<and> faddr v ip k = faddr v ip l \<longrightarrow> k = l)"

text \<open>The blocks that belong to the file.\<close>

definition fblocks :: "(uint \<Rightarrow> blk) \<Rightarrow> inode \<Rightarrow> uint set" where
  "fblocks v ip = {a. a \<noteq> 0 \<and> (a = addrs ip ! NDIRECT \<or> (\<exists>k < MAXFILE. a = faddr v ip k))}"

lemma file_okD:
  assumes "file_ok v b ip"
  shows "idev ip = 1" "length (addrs ip) = NDIRECT + 1"
    "k < MAXFILE \<Longrightarrow> faddr v ip k \<noteq> 0 \<Longrightarrow> data_ok v b (faddr v ip k)"
    "k < MAXFILE \<Longrightarrow> faddr v ip k \<noteq> 0 \<Longrightarrow> faddr v ip k \<noteq> addrs ip ! NDIRECT"
    "addrs ip ! NDIRECT \<noteq> 0 \<Longrightarrow> data_ok v b (addrs ip ! NDIRECT)"
    "k < MAXFILE \<Longrightarrow> l < MAXFILE \<Longrightarrow> faddr v ip k \<noteq> 0 \<Longrightarrow> faddr v ip k = faddr v ip l \<Longrightarrow> k = l"
  using assms unfolding file_ok_def by blast+

lemma file_okI:
  assumes "idev ip = 1" "length (addrs ip) = NDIRECT + 1"
    and "\<And>k. k < MAXFILE \<Longrightarrow> faddr v ip k \<noteq> 0 \<Longrightarrow> data_ok v b (faddr v ip k)"
    and "\<And>k. k < MAXFILE \<Longrightarrow> faddr v ip k \<noteq> 0 \<Longrightarrow> faddr v ip k \<noteq> addrs ip ! NDIRECT"
    and "addrs ip ! NDIRECT \<noteq> 0 \<Longrightarrow> data_ok v b (addrs ip ! NDIRECT)"
    and "\<And>k l. k < MAXFILE \<Longrightarrow> l < MAXFILE \<Longrightarrow> faddr v ip k \<noteq> 0 \<Longrightarrow> faddr v ip k = faddr v ip l \<Longrightarrow> k = l"
  shows "file_ok v b ip"
  using assms unfolding file_ok_def by blast

text \<open>
  Two views of a file with the same block numbers and the same contents in their blocks; the
  second has one more block, number \<open>n\<close> at address \<open>c\<close>, or none (\<open>n = MAXFILE\<close>).
\<close>

lemma file_ok_extend:
  assumes ok: "file_ok v b ip" and dev: "idev ip' = 1" "length (addrs ip') = NDIRECT + 1"
    and same: "\<And>k. k < MAXFILE \<Longrightarrow> k \<noteq> n \<Longrightarrow> faddr w ip' k = faddr v ip k"
    and new: "n < MAXFILE \<Longrightarrow> faddr w ip' n = c" "n < MAXFILE \<Longrightarrow> data_ok w b c \<and> \<not> used v b c"
    and ind: "addrs ip' ! NDIRECT = addrs ip ! NDIRECT \<or>
      addrs ip ! NDIRECT = 0 \<and> data_ok w b (addrs ip' ! NDIRECT) \<and> \<not> used v b (addrs ip' ! NDIRECT)"
    and nc: "n < MAXFILE \<Longrightarrow> c \<noteq> addrs ip' ! NDIRECT"
    and mono: "\<And>a. data_ok v b a \<Longrightarrow> data_ok w b a"
  shows "file_ok w b ip'"
proof (rule file_okI [OF dev])
  note d = file_okD [OF ok]
  have old: "data_ok v b (faddr v ip k) \<and> used v b (faddr v ip k)" if "k < MAXFILE" "faddr v ip k \<noteq> 0" for k
    using d(3) [OF that] by (simp add: data_ok_def)
  show "data_ok w b (faddr w ip' k)" if "k < MAXFILE" "faddr w ip' k \<noteq> 0" for k
    using that same [OF that(1)] old [OF that(1)] new mono by (cases "k = n") auto
  show "faddr w ip' k \<noteq> addrs ip' ! NDIRECT" if "k < MAXFILE" "faddr w ip' k \<noteq> 0" for k
    using that same [OF that(1)] old [OF that(1)] d(4) [OF that(1)] new nc ind by (cases "k = n") auto
  show "data_ok w b (addrs ip' ! NDIRECT)" if "addrs ip' ! NDIRECT \<noteq> 0"
    using that ind d(5) mono by auto
  show "k = l" if kl: "k < MAXFILE" "l < MAXFILE" and nz: "faddr w ip' k \<noteq> 0" and eq: "faddr w ip' k = faddr w ip' l" for k l
  proof (cases "k = n \<or> l = n")
    case True
    then show ?thesis using kl nz eq same [OF kl(1)] same [OF kl(2)] new old [OF kl(1)] old [OF kl(2)] by metis
  next
    case False
    then show ?thesis using same kl nz eq d(6) [OF kl] by simp
  qed
qed

lemma data_ok_alloc:
  assumes ok: "fs_ok s" and c: "first_free s c" and t: "txn s (alloc_view (sb s) c (view s)) t"
  shows "data_ok (view t) (sb s) c" "data_ok (view s) (sb s) a \<Longrightarrow> data_ok (view t) (sb s) a"
    "data_ok (view s) (sb s) a \<Longrightarrow> view t a = view s a" "\<not> data_ok (view s) (sb s) c" "c \<noteq> 0"
proof -
  note k = balloc_keeps [OF ok c t] and f = first_free_data [OF ok c]
  show "data_ok (view t) (sb s) c" using k(2) [of c] f by (simp add: data_ok_def)
  show n: "\<not> data_ok (view s) (sb s) c" using f by (simp add: data_ok_def)
  show "data_ok (view s) (sb s) a \<Longrightarrow> data_ok (view t) (sb s) a" using k(2) [of a] by (auto simp: data_ok_def)
  show "data_ok (view s) (sb s) a \<Longrightarrow> view t a = view s a" using k(3) [of a] n by (auto simp: data_ok_def)
  show "c \<noteq> 0" using f(1) by (auto simp: nmeta_def)
qed

lemma alloc_view_meta:
  assumes ok: "fs_ok s" and c: "first_free s c" and e: "unat e < unat (sb_bmapstart (sb s))"
  shows "alloc_view (sb s) c v e = v e"
proof -
  note ff = first_free_data [OF ok c]
  have "e \<noteq> c" "e \<noteq> BBLOCK c (sb s)"
    using e ff(1) BBLOCK_unat(1) [OF fs_okD(2) [OF ok] ff(2)] by (auto simp: nmeta_def)
  then show ?thesis by (simp add: alloc_view_def)
qed

section \<open>Free blocks\<close>

definition free_blocks :: "'a kfs_scheme \<Rightarrow> uint set" where
  "free_blocks s = {b. unat b < unat (sb_size (sb s)) \<and> \<not> used (view s) (sb s) b}"

lemma free_blocks_alloc:
  assumes ok: "fs_ok s" and c: "first_free s c" and t: "txn s (alloc_view (sb s) c (view s)) t"
  shows "Suc (card (free_blocks t)) = card (free_blocks s)"
proof -
  have "sb t = sb s" by (rule kfs_frame(1) [OF txnD(2) [OF t]])
  then have "free_blocks t = free_blocks s - {c}"
    using balloc_keeps(2) [OF ok c t] by (auto simp: free_blocks_def)
  moreover have "c \<in> free_blocks s" using c by (simp add: free_blocks_def first_free_def)
  ultimately show ?thesis by (simp add: card_Suc_Diff1 del: card_Diff_insert)
qed

lemma free_blocks_upd [simp]: "free_blocks (updinode i ip s) = free_blocks s"
  by (simp add: free_blocks_def)

lemma free_blockE:
  assumes "0 < card (free_blocks s)"
  obtains b where "unat b < unat (sb_size (sb s))" "\<not> used (view s) (sb s) b"
proof -
  have "free_blocks s \<noteq> {}" using assms by auto
  then show ?thesis using that by (auto simp: free_blocks_def)
qed

section \<open>What an operation on one file may change\<close>

definition frel :: "nat \<Rightarrow> 'a kfs_scheme \<Rightarrow> 'a kfs_scheme \<Rightarrow> bool" where
  "frel i s t \<longleftrightarrow>
     fs_ok t \<and> held t = held s \<and> memdisk t = memdisk s \<and> writes t = writes s \<and>
     log_frame (s\<lparr>icache := icache t\<rparr>) t \<and>
     icache t = (icache s)[i := (icache s ! i)\<lparr>addrs := addrs (icache t ! i)\<rparr>] \<and>
     file_ok (view t) (sb s) (icache t ! i) \<and>
     (\<forall>e. data_ok (view s) (sb s) e \<longrightarrow> data_ok (view t) (sb s) e) \<and>
     (\<forall>e. data_ok (view s) (sb s) e \<and> e \<notin> fblocks (view s) (icache s ! i) \<longrightarrow> view t e = view s e) \<and>
     (\<forall>e. unat e < unat (sb_bmapstart (sb s)) \<longrightarrow> view t e = view s e) \<and>
     (\<forall>e \<in> fblocks (view t) (icache t ! i). e \<in> fblocks (view s) (icache s ! i) \<or> \<not> data_ok (view s) (sb s) e) \<and>
     (\<forall>k < MAXFILE. faddr (view s) (icache s ! i) k \<noteq> 0 \<longrightarrow> faddr (view t) (icache t ! i) k = faddr (view s) (icache s ! i) k)"

lemma frelD:
  assumes "frel i s t"
  shows "fs_ok t" "held t = held s" "memdisk t = memdisk s" "writes t = writes s"
    "log_frame (s\<lparr>icache := icache t\<rparr>) t"
    "icache t = (icache s)[i := (icache s ! i)\<lparr>addrs := addrs (icache t ! i)\<rparr>]"
    "file_ok (view t) (sb s) (icache t ! i)"
    "data_ok (view s) (sb s) e \<Longrightarrow> data_ok (view t) (sb s) e"
    "data_ok (view s) (sb s) e \<Longrightarrow> e \<notin> fblocks (view s) (icache s ! i) \<Longrightarrow> view t e = view s e"
    "unat e < unat (sb_bmapstart (sb s)) \<Longrightarrow> view t e = view s e"
    "e \<in> fblocks (view t) (icache t ! i) \<Longrightarrow> e \<in> fblocks (view s) (icache s ! i) \<or> \<not> data_ok (view s) (sb s) e"
    "k < MAXFILE \<Longrightarrow> faddr (view s) (icache s ! i) k \<noteq> 0 \<Longrightarrow> faddr (view t) (icache t ! i) k = faddr (view s) (icache s ! i) k"
  using assms unfolding frel_def by blast+

lemma icache_frame:
  assumes "log_frame (s\<lparr>icache := icache t\<rparr>) t"
  shows "sb t = sb s" "cwd t = cwd s" "lsize t = lsize s" "lstart t = lstart s" "outstanding t = outstanding s"
    "curpid t = curpid s" "in_log t = in_log s"
  using kfs_frame [OF assms] log_frameD [OF assms] by (simp_all add: in_log_def fun_eq_iff)

lemma frel_inode:
  assumes "frel i s t" "i < length (icache s)"
  shows "icache t ! i = (icache s ! i)\<lparr>addrs := addrs (icache t ! i)\<rparr>"
    "length (icache t) = length (icache s)" "j \<noteq> i \<Longrightarrow> icache t ! j = icache s ! j" "sb t = sb s"
proof -
  note e = frelD(6) [OF assms(1)]
  show "icache t ! i = (icache s ! i)\<lparr>addrs := addrs (icache t ! i)\<rparr>"
    using arg_cong [OF e, of "\<lambda>l. l ! i"] assms(2) by simp
  show "length (icache t) = length (icache s)" using arg_cong [OF e, of length] by simp
  show "j \<noteq> i \<Longrightarrow> icache t ! j = icache s ! j" using arg_cong [OF e, of "\<lambda>l. l ! j"] by simp
  show "sb t = sb s" by (rule icache_frame(1) [OF frelD(5) [OF assms(1)]])
qed

lemma frel_refl: "fs_ok s \<Longrightarrow> file_ok (view s) (sb s) (icache s ! i) \<Longrightarrow> frel i s s"
  by (simp add: frel_def)

lemma log_frame_icache_trans:
  assumes "log_frame (s\<lparr>icache := icache t\<rparr>) t" "log_frame (t\<lparr>icache := icache u\<rparr>) u"
  shows "log_frame (s\<lparr>icache := icache u\<rparr>) u"
proof -
  have "log_frame (s\<lparr>icache := icache u\<rparr>) (t\<lparr>icache := icache u\<rparr>)"
    using arg_cong [OF assms(1) [unfolded log_frame_def], of "icache_update (\<lambda>_. icache u)"]
    by (simp add: log_frame_def)
  then show ?thesis using assms(2) log_frame_trans by blast
qed

lemma log_frame_updinode:
  assumes "log_frame s t"
  shows "log_frame (s\<lparr>icache := icache (updinode i ip t)\<rparr>) (updinode i ip t)"
proof -
  have "log_frame (s\<lparr>icache := x\<rparr>) (t\<lparr>icache := x\<rparr>)" for x
    using arg_cong [OF assms [unfolded log_frame_def], of "icache_update (\<lambda>_. x)"]
    by (simp add: log_frame_def)
  then show ?thesis by (simp add: updinode_def)
qed

lemma updinode_simps [simp]:
  "writes (updinode i ip s) = writes s" "icache (updinode i ip s) = (icache s)[i := ip]"
  "curpid (updinode i ip s) = curpid s" "lh_n (updinode i ip s) = lh_n s"
  by (simp_all add: updinode_def)

lemma frel_trans:
  assumes st: "frel i s t" and tu: "frel i t u" and i: "i < length (icache s)"
  shows "frel i s u"
proof -
  note a = frelD [OF st] and b = frelD [OF tu] and fi = frel_inode [OF st i]
  have "log_frame (s\<lparr>icache := icache u\<rparr>) u" by (rule log_frame_icache_trans [OF a(5) b(5)])
  moreover have "icache u = (icache s)[i := (icache s ! i)\<lparr>addrs := addrs (icache u ! i)\<rparr>]"
  proof -
    have "icache u = (icache t)[i := (icache t ! i)\<lparr>addrs := addrs (icache u ! i)\<rparr>]" by (rule b(6))
    also have "\<dots> = (icache s)[i := (icache t ! i)\<lparr>addrs := addrs (icache u ! i)\<rparr>]"
      by (subst a(6)) simp
    also have "(icache t ! i)\<lparr>addrs := addrs (icache u ! i)\<rparr> = (icache s ! i)\<lparr>addrs := addrs (icache u ! i)\<rparr>"
      by (subst fi(1)) simp
    finally show ?thesis .
  qed
  moreover have "data_ok (view u) (sb s) e" if "data_ok (view s) (sb s) e" for e
    using b(8) [of e] a(8) [OF that] fi(4) by simp
  moreover have "view u e = view s e" if e: "data_ok (view s) (sb s) e" "e \<notin> fblocks (view s) (icache s ! i)" for e
  proof -
    have "e \<notin> fblocks (view t) (icache t ! i)" using a(11) [of e] e by blast
    then show ?thesis using a(9) [OF e] b(9) [of e] a(8) [OF e(1)] fi(4) by simp
  qed
  moreover have "view u e = view s e" if "unat e < unat (sb_bmapstart (sb s))" for e
    using a(10) [OF that] b(10) [of e] that fi(4) by simp
  moreover have "e \<in> fblocks (view s) (icache s ! i) \<or> \<not> data_ok (view s) (sb s) e"
    if "e \<in> fblocks (view u) (icache u ! i)" for e
    using b(11) [OF that] a(11) [of e] a(8) [of e] fi(4) by auto
  moreover have "faddr (view u) (icache u ! i) k = faddr (view s) (icache s ! i) k"
    if "k < MAXFILE" "faddr (view s) (icache s ! i) k \<noteq> 0" for k
    using a(12) [OF that] b(12) [of k] that by simp
  moreover have "fs_ok u" "held u = held s" "memdisk u = memdisk s" "writes u = writes s"
    "file_ok (view u) (sb s) (icache u ! i)" using a(2-4) b(1-4,7) fi(4) by simp_all
  ultimately show ?thesis unfolding frel_def by blast
qed

section \<open>The block map\<close>

text \<open>A new block at a free place of \<open>ip->addrs\<close>.\<close>

lemma alloc_addr:
  assumes ok: "fs_ok s" and ho: "holds_ok s" and cr: "credit (Suc (Suc (Suc k))) s"
    and i: "i < length (icache s)" and f: "file_ok (view s) (sb s) (icache s ! i)"
    and free: "0 < card (free_blocks s)" and n: "n \<le> NDIRECT" "addrs (icache s ! i) ! n = 0"
  shows "\<exists>c t. balloc 1 s = Ret (c, t) \<and> frel i s (set_addr i n c t) \<and> c \<noteq> 0 \<and>
    addrs (icache (set_addr i n c t) ! i) ! n = c \<and> credit (Suc k) (set_addr i n c t) \<and>
    (\<forall>j < MAXFILE. fblk (view t) (icache (set_addr i n c t) ! i) j = fblk (view s) (icache s ! i) j) \<and>
    Suc (card (free_blocks (set_addr i n c t))) = card (free_blocks s) \<and> icache t = icache s"
proof -
  obtain b where "unat b < unat (sb_size (sb s))" "\<not> used (view s) (sb s) b" using free_blockE [OF free] .
  then obtain c t where r: "balloc 1 s = Ret (c, t)" "first_free s c" "txn s (alloc_view (sb s) c (view s)) t"
    "credit (Suc k) t" using balloc_spec [OF ok ho cr] by blast
  note kp = balloc_keeps [OF ok r(2,3)] and al = data_ok_alloc [OF ok r(2,3)] and tt = txnD [OF r(3)]
  note fr = kfs_frame [OF txnD(2) [OF r(3)]] and d = file_okD [OF f] and ff = first_free_data [OF ok r(2)]
  let ?ip = "icache s ! i"
  let ?ip' = "?ip\<lparr>addrs := (addrs ?ip)[n := c]\<rparr>"
  have ip': "icache (set_addr i n c t) ! i = ?ip'" using i fr(2) by (simp add: set_addr_def updinode_def)
  have len: "n < length (addrs ?ip)" using d(2) n(1) by simp
  have ind: "addrs ?ip' ! NDIRECT = (if n = NDIRECT then c else addrs ?ip ! NDIRECT)" using len by simp
  have keep: "view t (addrs ?ip ! NDIRECT) = view s (addrs ?ip ! NDIRECT)" if "addrs ?ip ! NDIRECT \<noteq> 0"
    using al(3) d(5) [OF that] by blast
  have fa: "faddr (view t) ?ip' j = (if j = n then c else faddr (view s) ?ip j)" if "j < MAXFILE" "n < NDIRECT \<or> j \<noteq> n" for j
  proof (cases "n = NDIRECT")
    case True
    then show ?thesis using that len kp(4) n(2) by (auto simp: faddr_def rd32_zeros)
  next
    case False
    then show ?thesis using that len keep by (auto simp: faddr_def nth_list_update)
  qed
  have n0: "faddr (view t) ?ip' n = 0 \<and> faddr (view s) ?ip n = 0" if "n = NDIRECT"
    using that len kp(4) n(2) by (simp add: faddr_def rd32_zeros)
  have old0: "faddr (view s) ?ip n = 0" if "n < NDIRECT" using that n(2) by (simp add: faddr_def)
  have fok: "file_ok (view t) (sb s) ?ip'"
  proof (rule file_ok_extend [OF f, where n = "if n < NDIRECT then n else MAXFILE" and c = c])
    show "faddr (view t) ?ip' j = faddr (view s) ?ip j" if "j < MAXFILE" "j \<noteq> (if n < NDIRECT then n else MAXFILE)" for j
      using that fa [of j] n0 n(1) by (cases "j = n") (auto split: if_splits)
    show "(if n < NDIRECT then n else MAXFILE) < MAXFILE \<Longrightarrow> faddr (view t) ?ip' (if n < NDIRECT then n else MAXFILE) = c"
      using fa [of n] by (auto split: if_splits)
    show "(if n < NDIRECT then n else MAXFILE) < MAXFILE \<Longrightarrow> data_ok (view t) (sb s) c \<and> \<not> used (view s) (sb s) c"
      using al(1) ff(3) by simp
    show "addrs ?ip' ! NDIRECT = addrs ?ip ! NDIRECT \<or> addrs ?ip ! NDIRECT = 0 \<and>
        data_ok (view t) (sb s) (addrs ?ip' ! NDIRECT) \<and> \<not> used (view s) (sb s) (addrs ?ip' ! NDIRECT)"
      unfolding ind using al(1) ff(3) n(2) by auto
    show "(if n < NDIRECT then n else MAXFILE) < MAXFILE \<Longrightarrow> c \<noteq> addrs ?ip' ! NDIRECT"
      unfolding ind using al(4,5) d(5) by (auto split: if_splits)
  qed (use d(1,2) al(2) in auto)
  have fb: "fblk (view t) ?ip' j = fblk (view s) ?ip j" if j: "j < MAXFILE" for j
  proof (cases "j = n")
    case True
    then show ?thesis using n0 old0 fa [OF j] kp(4) al(5) n(1) j by (cases "n = NDIRECT") (auto simp: fblk_def)
  next
    case False
    then show ?thesis using fa [OF j] al(3) d(3) [OF j] by (auto simp: fblk_def)
  qed
  have "e \<in> fblocks (view s) ?ip \<or> e = c" if "e \<in> fblocks (view t) ?ip'" for e
    using that fa n0 n(1) unfolding fblocks_def ind by (auto split: if_splits)
  then have sub: "e \<in> fblocks (view s) ?ip \<or> \<not> data_ok (view s) (sb s) e" if "e \<in> fblocks (view t) ?ip'" for e
    using that al(4) by blast
  have meta: "view t e = view s e" if "unat e < unat (sb_bmapstart (sb s))" for e
    unfolding tt(6) by (rule alloc_view_meta [OF ok r(2) that])
  have "faddr (view t) ?ip' j = faddr (view s) ?ip j" if "j < MAXFILE" "faddr (view s) ?ip j \<noteq> 0" for j
  proof (cases "j = n")
    case True
    then have "n < NDIRECT \<or> n = NDIRECT" using n(1) by auto
    then show ?thesis using that True old0 n0 by blast
  qed (use fa [of j] that in simp)
  then have "frel i s (set_addr i n c t)"
    unfolding frel_def ip'
    using kp(1) tt(3,4,5) fok al meta sub fr i log_frame_updinode [OF tt(2)]
    by (auto simp: set_addr_def)
  moreover have "Suc (card (free_blocks (set_addr i n c t))) = card (free_blocks s)"
    using free_blocks_alloc [OF ok r(2,3)] by (simp add: set_addr_def)
  moreover have "credit (Suc k) (set_addr i n c t)" using r(4) by (simp add: set_addr_def)
  ultimately show ?thesis using r(1) al(5) ip' fb len fr(2) by auto
qed

text \<open>A new block at a free place of the indirect block, which the caller holds.\<close>

lemma rd32_wr32_word:
  "length d = BSIZE \<Longrightarrow> j < NINDIRECT \<Longrightarrow> k < NINDIRECT \<Longrightarrow>
    rd32 (wr32 d (4 * j) a) (4 * k) = (if k = j then a else rd32 d (4 * k))"
  by (cases "k = j") (auto intro!: rd32_wr32_other)

lemma alloc_indirect:
  assumes ok: "fs_ok s" and h: "held s = {}" and cr: "credit (Suc (Suc (Suc (Suc (Suc k))))) s"
    and i: "i < length (icache s)" and f: "file_ok (view s) (sb s) (icache s ! i)"
    and free: "0 < card (free_blocks s)" and n: "n < NINDIRECT" and ind: "addrs (icache s ! i) ! NDIRECT = ind" "ind \<noteq> 0"
  shows "\<exists>bp t. bread 1 ind s = Ret (bp, t) \<and> bdata (bufs t ! bp) = view s ind \<and> icache t = icache s \<and>
    (if rd32 (view s ind) (4 * n) = 0 then
       \<exists>c u x y. balloc 1 t = Ret (c, u) \<and> bdata (bufs u ! bp) = view s ind \<and>
         log_write bp (setdata bp (wr32 (view s ind) (4 * n) c) u) = Ret x \<and> brelse bp x = Ret y \<and>
         frel i s y \<and> c \<noteq> 0 \<and> faddr (view y) (icache y ! i) (NDIRECT + n) = c \<and> credit (Suc (Suc k)) y \<and>
         (\<forall>j < MAXFILE. fblk (view y) (icache y ! i) j = fblk (view s) (icache s ! i) j) \<and>
         Suc (card (free_blocks y)) = card (free_blocks s)
     else
       \<exists>y. brelse bp t = Ret y \<and> frel i s y \<and> view y = view s \<and> icache y = icache s \<and> free_blocks y = free_blocks s \<and>
         credit (Suc (Suc (Suc (Suc (Suc k))))) y)"
proof -
  let ?ip = "icache s ! i"
  note d = fs_okD [OF ok] and fo = file_okD [OF f]
  have di: "data_ok (view s) (sb s) ind" using fo(5) ind by simp
  note db = data_block [OF d(2), of ind]
  have ib: "unat ind < length (memdisk s)" "\<not> in_log s ind" "ind \<notin> held s" using db di h by (auto simp: data_ok_def)
  obtain bp t where r: "bread 1 ind s = Ret (bp, t)" "bread_post ind s bp t" "trans_ok t"
    "credit (Suc (Suc (Suc (Suc k)))) t" "log_frame s t"
    using fs_bread [OF d(1) cr ib(1,3)] by blast
  note p = bread_postD [OF r(2)] and fr = kfs_frame [OF r(5)]
  have okt: "fs_ok t"
    using ok p r(3) fr(1) log_frameD(1,2) [OF r(5)] by (simp add: fs_ok_def fs_geom_def)
  have hot: "holds_ok t" using p(4,6) h di fr(1) by (simp add: holds_ok_def data_ok_def)
  have clean: "ind \<in> pinned t \<or> view t ind = memdisk t ! unat ind"
    using view_clean [OF d(3) ib(3)] p(5-7) by auto
  show ?thesis
  proof (cases "rd32 (view s ind) (4 * n) = 0")
    case False
    obtain y where y: "brelse bp t = Ret y" "brelse_post ind t y" "trans_ok y"
      "credit (Suc (Suc (Suc (Suc (Suc k))))) y" "log_frame t y"
      using fs_brelse [OF r(3,4) p(3) _ clean] p(4) by blast
    note q = brelse_postD [OF y(2)]
    have sy: "log_frame s y" using r(5) y(5) log_frame_trans by blast
    have "txn s (view s) y" using y(3) sy q p h by (auto simp: txn_def)
    note fy = kfs_frame [OF sy]
    have "fs_ok y" by (rule fs_ok_view [OF ok \<open>txn s (view s) y\<close>]) (simp_all add: d(4))
    have si: "s\<lparr>icache := icache y\<rparr> = s" using fy(2) by simp
    have "frel i s y"
      unfolding frel_def si using \<open>fs_ok y\<close> sy q p h f fy by auto
    then show ?thesis using False r(1) p(6,9) fr y q fy by (auto simp: free_blocks_def)
  next
    case True
    have "free_blocks t = free_blocks s" using p(6) fr(1) by (simp add: free_blocks_def)
    then obtain b where "unat b < unat (sb_size (sb t))" "\<not> used (view t) (sb t) b"
      using free free_blockE [of t] by metis
    then obtain c u where u: "balloc 1 t = Ret (c, u)" "first_free t c" "txn t (alloc_view (sb t) c (view t)) u"
      "credit (Suc (Suc k)) u" using balloc_spec [OF okt hot, of "Suc k"] r(4) by blast
    note kp = balloc_keeps [OF okt u(2,3)] and al = data_ok_alloc [OF okt u(2,3), unfolded p(6) fr(1)]
      and tu = txnD [OF u(3)] and ff = first_free_data [OF okt u(2)]
    have cu: "cached u ind bp" using tu(8) [of ind bp] p(3,4) by blast
    have vu: "view u ind = view s ind" using al(3) [OF di] by simp
    have bu: "bdata (bufs u ! bp) = view s ind" using view_cached [OF trans_okD(1) [OF tu(1)] cu] vu by simp
    have hu: "ind \<in> held u" using tu(3) p(4) by simp
    have nlu: "\<not> in_log u ind" using tu(9) log_frameD(7) [OF r(5)] ib(2) by simp
    have lenw: "length (wr32 (view s ind) (4 * n) c) = BSIZE"
      using length_view [OF d(3) ib(1)] n by simp
    obtain x where x: "log_write bp (setdata bp (wr32 (view s ind) (4 * n) c) u) = Ret x"
      "txn u ((view u)(ind := wr32 (view s ind) (4 * n) c)) x" "credit (Suc k) x" "cached x = cached u" "ind \<in> pinned x"
      using fs_log_write [OF tu(1) u(4) cu hu nlu lenw] by blast
    note tx = txnD [OF x(2)]
    obtain y where y: "brelse bp x = Ret y" "brelse_post ind x y" "trans_ok y" "credit (Suc (Suc k)) y" "log_frame x y"
      using fs_brelse [OF tx(1) x(3), of ind bp] x(4,5) cu tx(3) hu by auto
    note q = brelse_postD [OF y(2)]
    have sy: "log_frame s y" using r(5) tu(2) tx(2) y(5) log_frame_trans by blast
    note fy = kfs_frame [OF sy]
    have hy: "held y = held s" using q(4) tx(3) tu(3) p(4) h by simp
    have my: "memdisk y = memdisk s" "writes y = writes s" using q(7,8) tx(4,5) tu(4,5) p(7,8) by simp_all
    have vy: "view y = (view u)(ind := wr32 (view s ind) (4 * n) c)" using q(6) tx(6) by simp
    have used_y: "used (view y) (sb s) e = used (view u) (sb s) e" if "unat e < unat (sb_size (sb s))" for e
      using db(5) [OF _ _ that] di by (simp add: used_def vy data_ok_def)
    then have dy: "data_ok (view y) (sb s) e = data_ok (view u) (sb s) e" for e by (auto simp: data_ok_def)
    have cind: "c \<noteq> ind" using al(4) di by auto
    have keep: "view y e = view s e" if "data_ok (view s) (sb s) e" "e \<noteq> ind" for e
      using that al(3) by (simp add: vy)
    have metau: "view u e = view s e" if "unat e < unat (sb_bmapstart (sb s))" for e
      using alloc_view_meta [OF okt u(2)] that fr(1) tu(6) p(6) by simp
    have meta: "view y e = view s e" if "unat e < unat (sb_bmapstart (sb s))" for e
      using metau [OF that] that di by (auto simp: vy data_ok_def nmeta_def)
    have fsy: "fs_ok y"
    proof (rule fs_ok_frame [OF ok y(3) sy my(1)])
      show "view y 1 = view s 1" using d(2) by (intro meta) (simp add: fs_geom_def)
      show "used (view y) (sb s) b" if b: "unat b < nmeta (sb s)" for b
      proof -
        have sz: "unat b < unat (sb_size (sb s))" using b d(2) unfolding fs_geom_def by linarith
        then show ?thesis using used_y [OF sz] kp(2) [of b] d(4) [OF b] p(6) fr(1) by simp
      qed
    qed
    have fa: "faddr (view y) ?ip j = (if j = NDIRECT + n then c else faddr (view s) ?ip j)" if "j < MAXFILE" for j
      using that n ind length_view [OF d(3) ib(1)] by (auto simp: faddr_def vy rd32_wr32_word)
    have old0: "faddr (view s) ?ip (NDIRECT + n) = 0" using True ind by (simp add: faddr_def)
    have fok: "file_ok (view y) (sb s) ?ip"
    proof (rule file_ok_extend [OF f, where n = "NDIRECT + n" and c = c])
      show "data_ok (view y) (sb s) c \<and> \<not> used (view s) (sb s) c"
        using al(1) dy ff(3) p(6) fr(1) by simp
      show "faddr (view y) ?ip (NDIRECT + n) = c" using fa [of "NDIRECT + n"] n by simp
      show "data_ok (view s) (sb s) a \<Longrightarrow> data_ok (view y) (sb s) a" for a using al(2) dy by simp
    qed (use fa fo cind ind in auto)
    have fb: "fblk (view y) ?ip j = fblk (view s) ?ip j" if j: "j < MAXFILE" for j
    proof (cases "j = NDIRECT + n")
      case True
      then show ?thesis using fa [OF j] old0 kp(4) cind al(5) by (simp add: fblk_def vy)
    next
      case False
      then show ?thesis using fa [OF j] keep fo(3,4) [OF j] ind(1) by (auto simp: fblk_def)
    qed
    have indb: "ind \<in> fblocks (view s) ?ip" using ind by (simp add: fblocks_def)
    have "e \<in> fblocks (view s) ?ip \<or> e = c" if "e \<in> fblocks (view y) ?ip" for e
      using that fa unfolding fblocks_def by (auto split: if_splits)
    then have sub: "e \<in> fblocks (view s) ?ip \<or> \<not> data_ok (view s) (sb s) e" if "e \<in> fblocks (view y) ?ip" for e
      using that al(4) by blast
    have si: "s\<lparr>icache := icache y\<rparr> = s" using fy(2) by simp
    have "faddr (view y) ?ip j = faddr (view s) ?ip j" if "j < MAXFILE" "faddr (view s) ?ip j \<noteq> 0" for j
      using fa [of j] that old0 by auto
    moreover have "view y e = view s e" if "data_ok (view s) (sb s) e" "e \<notin> fblocks (view s) ?ip" for e
      using keep [OF that(1)] that(2) indb by blast
    ultimately have "frel i s y"
      unfolding frel_def si fy(2) using fsy hy my sy fok al(2) dy meta sub by auto
    moreover have "free_blocks y = free_blocks u"
      using used_y fy(1) kfs_frame(1) [OF tu(2)] fr(1) by (auto simp: free_blocks_def)
    then have "Suc (card (free_blocks y)) = card (free_blocks s)"
      using free_blocks_alloc [OF okt u(2,3)] \<open>free_blocks t = free_blocks s\<close> by simp
    moreover have "faddr (view y) (icache y ! i) (NDIRECT + n) = c" using fa [of "NDIRECT + n"] n fy(2) by simp
    moreover have "\<forall>j < MAXFILE. fblk (view y) (icache y ! i) j = fblk (view s) (icache s ! i) j"
      using fb fy(2) by simp
    ultimately show ?thesis using True r(1) p(9) fr(2) u(1) bu x(1) y(1,4) al(5) by auto
  qed
qed

text \<open>
  \<open>bmap\<close> returns the address of the block, allocating it if there was none; the contents of the
  file do not change.
\<close>

definition bmap_post :: "nat \<Rightarrow> nat \<Rightarrow> 'a kfs_scheme \<Rightarrow> uint \<Rightarrow> 'a kfs_scheme \<Rightarrow> bool" where
  "bmap_post i n s a t \<longleftrightarrow> frel i s t \<and> a \<noteq> 0 \<and> faddr (view t) (icache t ! i) n = a \<and>
     (\<forall>j < MAXFILE. fblk (view t) (icache t ! i) j = fblk (view s) (icache s ! i) j)"

lemma bmap_direct:
  assumes ok: "fs_ok s" and h: "held s = {}" and cr: "credit (7 + k) s" and i: "i < length (icache s)"
    and f: "file_ok (view s) (sb s) (icache s ! i)" and n: "n < NDIRECT" and fr: "2 \<le> card (free_blocks s)"
  shows "\<exists>a t. bmap i n s = Ret (a, t) \<and> bmap_post i n s a t \<and> credit (2 + k) t \<and>
    card (free_blocks s) \<le> card (free_blocks t) + 2"
proof (cases "addrs (icache s ! i) ! n = 0")
  case True
  have ho: "holds_ok s" using h by (simp add: holds_ok_def)
  have cr3: "credit (Suc (Suc (Suc (1 + k)))) s" by (rule credit_mono [OF cr]) simp
  have fr1: "0 < card (free_blocks s)" and n1: "n \<le> NDIRECT" using fr n by simp_all
  obtain c t where "balloc 1 s = Ret (c, t)" "frel i s (set_addr i n c t)" "c \<noteq> 0"
    "addrs (icache (set_addr i n c t) ! i) ! n = c" "credit (2 + k) (set_addr i n c t)"
    "\<forall>j < MAXFILE. fblk (view t) (icache (set_addr i n c t) ! i) j = fblk (view s) (icache s ! i) j"
    "Suc (card (free_blocks (set_addr i n c t))) = card (free_blocks s)"
    using alloc_addr [OF ok ho cr3 i f fr1 n1 True] by auto
  then show ?thesis
    using True n file_okD(1) [OF f] by (auto simp: bmap_def Let_def bmap_post_def faddr_def set_addr_def)
next
  case False
  have "credit (2 + k) s" by (rule credit_mono [OF cr]) simp
  then show ?thesis using False n frel_refl [OF ok f] by (simp add: bmap_def Let_def bmap_post_def faddr_def)
qed

lemma bmap_ensure:
  assumes ok: "fs_ok s" and h: "held s = {}" and cr: "credit (7 + k) s" and i: "i < length (icache s)"
    and f: "file_ok (view s) (sb s) (icache s ! i)" and fr: "2 \<le> card (free_blocks s)"
  shows "\<exists>a t. (let addr = addrs (icache s ! i) ! NDIRECT in
      if addr = 0 then bindR (balloc 1 s) (\<lambda>(addr, s). Ret (addr, set_addr i NDIRECT addr s))
      else Ret (addr, s)) = Ret (a, t) \<and> frel i s t \<and> a \<noteq> 0 \<and> addrs (icache t ! i) ! NDIRECT = a \<and>
    (\<forall>j < MAXFILE. fblk (view t) (icache t ! i) j = fblk (view s) (icache s ! i) j) \<and>
    credit (5 + k) t \<and> card (free_blocks s) \<le> card (free_blocks t) + 1"
proof (cases "addrs (icache s ! i) ! NDIRECT = 0")
  case True
  have ho: "holds_ok s" using h by (simp add: holds_ok_def)
  have cr3: "credit (Suc (Suc (Suc (4 + k)))) s" by (rule credit_mono [OF cr]) simp
  have fr1: "0 < card (free_blocks s)" using fr by simp
  obtain c t where r: "balloc 1 s = Ret (c, t)" "frel i s (set_addr i NDIRECT c t)" "c \<noteq> 0"
    "addrs (icache (set_addr i NDIRECT c t) ! i) ! NDIRECT = c" "credit (Suc (4 + k)) (set_addr i NDIRECT c t)"
    "\<forall>j < MAXFILE. fblk (view t) (icache (set_addr i NDIRECT c t) ! i) j = fblk (view s) (icache s ! i) j"
    "Suc (card (free_blocks (set_addr i NDIRECT c t))) = card (free_blocks s)"
    using alloc_addr [OF ok ho cr3 i f fr1 order_refl True] by blast
  have v: "view (set_addr i NDIRECT c t) = view t" by (simp add: set_addr_def)
  have "credit (5 + k) (set_addr i NDIRECT c t)" using r(5) by simp
  then show ?thesis using True r v by (intro exI [of _ c] exI [of _ "set_addr i NDIRECT c t"]) simp
next
  case False
  have "credit (5 + k) s" by (rule credit_mono [OF cr]) simp
  then show ?thesis using False frel_refl [OF ok f] by simp
qed

lemma bmap_indirect:
  assumes ok: "fs_ok s" and h: "held s = {}" and cr: "credit (7 + k) s" and i: "i < length (icache s)"
    and f: "file_ok (view s) (sb s) (icache s ! i)" and n: "\<not> n < NDIRECT" "n < MAXFILE"
    and fr: "2 \<le> card (free_blocks s)"
  shows "\<exists>a t. bmap i n s = Ret (a, t) \<and> bmap_post i n s a t \<and> credit (2 + k) t \<and>
    card (free_blocks s) \<le> card (free_blocks t) + 2"
proof -
  let ?n = "n - NDIRECT"
  have nn: "?n < NINDIRECT" "NDIRECT + ?n = n" using n by simp_all
  obtain ind t where e: "(let addr = addrs (icache s ! i) ! NDIRECT in
      if addr = 0 then bindR (balloc 1 s) (\<lambda>(addr, s). Ret (addr, set_addr i NDIRECT addr s))
      else Ret (addr, s)) = Ret (ind, t)" "frel i s t" "ind \<noteq> 0" "addrs (icache t ! i) ! NDIRECT = ind"
    "\<forall>j < MAXFILE. fblk (view t) (icache t ! i) j = fblk (view s) (icache s ! i) j"
    "credit (5 + k) t" "card (free_blocks s) \<le> card (free_blocks t) + 1"
    using bmap_ensure [OF ok h cr i f fr] by blast
  note d = frelD [OF e(2)] and fi = frel_inode [OF e(2) i]
  have it: "i < length (icache t)" and ft: "file_ok (view t) (sb t) (icache t ! i)"
    and ht: "held t = {}" using i fi d(2,7) h by simp_all
  have crt: "credit (Suc (Suc (Suc (Suc (Suc k))))) t" using e(6) by (simp add: eval_nat_numeral)
  have frt: "0 < card (free_blocks t)" using e(7) fr by simp
  obtain bp u where b: "bread 1 ind t = Ret (bp, u)" "bdata (bufs u ! bp) = view t ind" "icache u = icache t"
    and br: "if rd32 (view t ind) (4 * ?n) = 0 then
       \<exists>c x y z. balloc 1 u = Ret (c, x) \<and> bdata (bufs x ! bp) = view t ind \<and>
         log_write bp (setdata bp (wr32 (view t ind) (4 * ?n) c) x) = Ret y \<and> brelse bp y = Ret z \<and>
         frel i t z \<and> c \<noteq> 0 \<and> faddr (view z) (icache z ! i) (NDIRECT + ?n) = c \<and> credit (Suc (Suc k)) z \<and>
         (\<forall>j < MAXFILE. fblk (view z) (icache z ! i) j = fblk (view t) (icache t ! i) j) \<and>
         Suc (card (free_blocks z)) = card (free_blocks t)
     else
       \<exists>z. brelse bp u = Ret z \<and> frel i t z \<and> view z = view t \<and> icache z = icache t \<and> free_blocks z = free_blocks t \<and>
         credit (Suc (Suc (Suc (Suc (Suc k))))) z"
    using alloc_indirect [OF d(1) ht crt it ft frt nn(1) e(4,3)] by blast
  have dev: "idev (icache s ! i) = 1" by (rule file_okD(1) [OF f])
  have start: "bmap i n s = bindR (Ret (ind, t)) (\<lambda>(addr, s).
          bindR (bread 1 addr s) (\<lambda>(bp, s).
          let addr = rd32 (bdata (bufs s ! bp)) (4 * ?n) in
          bindR (if addr = 0 then
                   bindR (balloc 1 s) (\<lambda>(addr, s).
                   bindR (log_write bp (setdata bp (wr32 (bdata (bufs s ! bp)) (4 * ?n) addr) s)) (\<lambda>s.
                   Ret (addr, s)))
                 else Ret (addr, s)) (\<lambda>(addr, s).
          bindR (brelse bp s) (\<lambda>s. Ret (addr, s)))))"
    unfolding bmap_def Let_def dev using n nn(1) e(1) by (simp add: Let_def)
  show ?thesis
  proof (cases "rd32 (view t ind) (4 * ?n) = 0")
    case True
    then obtain c x y z where z: "balloc 1 u = Ret (c, x)" "bdata (bufs x ! bp) = view t ind"
      "log_write bp (setdata bp (wr32 (view t ind) (4 * ?n) c) x) = Ret y" "brelse bp y = Ret z"
      "frel i t z" "c \<noteq> 0" "faddr (view z) (icache z ! i) (NDIRECT + ?n) = c" "credit (Suc (Suc k)) z"
      "\<forall>j < MAXFILE. fblk (view z) (icache z ! i) j = fblk (view t) (icache t ! i) j"
      "Suc (card (free_blocks z)) = card (free_blocks t)" using br by auto
    have "bmap i n s = Ret (c, z)" unfolding start using b(1,2) True z(1-4) by (simp add: Let_def)
    moreover have "bmap_post i n s c z"
      using frel_trans [OF e(2) z(5) i] z(6,7,9) e(5) nn(2) by (simp add: bmap_post_def)
    ultimately show ?thesis using z(8,10) e(7) by auto
  next
    case False
    then obtain z where z: "brelse bp u = Ret z" "frel i t z" "view z = view t" "icache z = icache t"
      "free_blocks z = free_blocks t" "credit (Suc (Suc (Suc (Suc (Suc k))))) z" using br by auto
    have "bmap i n s = Ret (rd32 (view t ind) (4 * ?n), z)" unfolding start using b(1,2) False z(1) by (simp add: Let_def)
    moreover have "bmap_post i n s (rd32 (view t ind) (4 * ?n)) z"
      using frel_trans [OF e(2) z(2) i] False z(3,4) e(3-5) n by (simp add: bmap_post_def faddr_def)
    moreover have "credit (2 + k) z" by (rule credit_mono [OF z(6)]) simp
    ultimately show ?thesis using z(5) e(7) by auto
  qed
qed

lemma bmap_spec:
  assumes "fs_ok s" "held s = {}" "credit (7 + k) s" "i < length (icache s)"
    and "file_ok (view s) (sb s) (icache s ! i)" "n < MAXFILE" "2 \<le> card (free_blocks s)"
  shows "\<exists>a t. bmap i n s = Ret (a, t) \<and> bmap_post i n s a t \<and> credit (2 + k) t \<and>
    card (free_blocks s) \<le> card (free_blocks t) + 2"
  using bmap_direct [OF assms(1-5) _ assms(7)] bmap_indirect [OF assms(1-5) _ assms(6,7)] by blast

section \<open>Writing\<close>

lemma write_data:
  assumes ok: "fs_ok s" and h: "held s = {}" and cr: "credit (2 + k) s"
    and f: "file_ok (view s) (sb s) (icache s ! i)" and n: "n < MAXFILE"
    and a: "faddr (view s) (icache s ! i) n = a" "a \<noteq> 0" and g: "length (g (view s a)) = BSIZE"
  shows "\<exists>bp t u w. bread 1 a s = Ret (bp, t) \<and> bdata (bufs t ! bp) = view s a \<and>
    log_write bp (setdata bp (g (view s a)) t) = Ret u \<and> brelse bp u = Ret w \<and>
    frel i s w \<and> credit (1 + k) w \<and> free_blocks w = free_blocks s \<and>
    (\<forall>j < MAXFILE. fblk (view w) (icache w ! i) j =
       (if j = n then g (fblk (view s) (icache s ! i) n) else fblk (view s) (icache s ! i) j))"
proof -
  let ?ip = "icache s ! i"
  note d = fs_okD [OF ok] and fo = file_okD [OF f]
  have da: "data_ok (view s) (sb s) a" using fo(3) [OF n] a by simp
  have "nmeta (sb s) \<le> unat a" "unat a < unat (sb_size (sb s))" using da by (simp_all add: data_ok_def)
  note db = data_block [OF d(2) this(2,1)]
  have cr': "credit (Suc (Suc k)) s" using cr by simp
  have nh: "a \<notin> held s" using h by simp
  obtain bp t u w where r: "bread 1 a s = Ret (bp, t)" "bdata (bufs t ! bp) = view s a"
    "log_write bp (setdata bp (g (view s a)) t) = Ret u" "brelse bp u = Ret w"
    "txn s ((view s)(a := g (view s a))) w" "credit (Suc k) w"
    using fs_modify [where f = g, OF d(1) cr' db(1) nh db(2) g] by blast
  note tw = txnD [OF r(5)] and fw = kfs_frame [OF txnD(2) [OF r(5)]]
  have used_w: "used (view w) (sb s) e = used (view s) (sb s) e" if "unat e < unat (sb_size (sb s))" for e
    using db(5) [OF that] unfolding tw(6) by (simp add: used_def)
  then have dw: "data_ok (view w) (sb s) e = data_ok (view s) (sb s) e" for e by (auto simp: data_ok_def)
  have ind: "a \<noteq> addrs ?ip ! NDIRECT" using fo(4) [OF n] a by simp
  have fa: "faddr (view w) ?ip j = faddr (view s) ?ip j" for j using ind unfolding tw(6) by (simp add: faddr_def)
  have fsw: "fs_ok w"
  proof (rule fs_ok_view [OF ok r(5)])
    show "((view s)(a := g (view s a))) 1 = view s 1" using db(3) by auto
    show "used ((view s)(a := g (view s a))) (sb s) b" if b: "unat b < nmeta (sb s)" for b
    proof -
      have "unat b < unat (sb_size (sb s))" using b d(2) unfolding fs_geom_def by linarith
      then show ?thesis using used_w [of b] d(4) [OF b] tw(6) by simp
    qed
  qed
  have "file_ok (view w) (sb s) ?ip" using f unfolding file_ok_def fa dw .
  moreover have "view w e = view s e" if "unat e < unat (sb_bmapstart (sb s))" for e
    using that \<open>nmeta (sb s) \<le> unat a\<close> unfolding tw(6) by (auto simp: nmeta_def)
  moreover have "fblocks (view w) ?ip = fblocks (view s) ?ip" by (simp add: fblocks_def fa)
  moreover have "view w e = view s e" if "e \<notin> fblocks (view s) ?ip" for e
    using that a n unfolding tw(6) by (auto simp: fblocks_def)
  ultimately have "frel i s w"
    unfolding frel_def fw(2) dw fa using fsw tw(2-5) by simp
  moreover have "free_blocks w = free_blocks s" using used_w fw(1) by (auto simp: free_blocks_def)
  moreover have "fblk (view w) ?ip j = (if j = n then g (fblk (view s) ?ip n) else fblk (view s) ?ip j)"
    if j: "j < MAXFILE" for j
  proof -
    have "faddr (view s) ?ip j = a \<longleftrightarrow> j = n" using a fo(6) [OF n j] by metis
    then show ?thesis using a unfolding fblk_def fa by (simp add: tw(6))
  qed
  ultimately show ?thesis using r fw(2) by auto
qed

lemma mod_BSIZE: "p mod BSIZE < BSIZE"
  by simp

lemma block_end: "off + (BSIZE - off mod BSIZE) = (off div BSIZE + 1) * BSIZE"
proof -
  have "x + (BSIZE - r) = (q + 1) * BSIZE" if "q * BSIZE + r = x" "r < BSIZE" for x q r using that by simp
  then show ?thesis using div_mult_mod_eq mod_BSIZE by blast
qed

definition fbyte :: "(uint \<Rightarrow> blk) \<Rightarrow> inode \<Rightarrow> nat \<Rightarrow> byte" where
  "fbyte v ip p = fblk v ip (p div BSIZE) ! (p mod BSIZE)"

lemma length_fblk:
  assumes "fs_ok s" "file_ok (view s) (sb s) ip" "k < MAXFILE"
  shows "length (fblk (view s) ip k) = BSIZE"
  using file_okD(3) [OF assms(2,3)] fs_okD(5) [OF assms(1)] by (simp add: fblk_def data_ok_def)

text \<open>The number of iterations of the loops over \<open>len\<close> bytes from \<open>off\<close>.\<close>

definition nchunks :: "nat \<Rightarrow> nat \<Rightarrow> nat" where
  "nchunks off len = (if len = 0 then 0 else Suc ((off + len - 1) div BSIZE - off div BSIZE))"

lemma nchunks_step:
  assumes "0 < len" "\<not> len \<le> BSIZE - off mod BSIZE"
  shows "nchunks off len = Suc (nchunks (off + (BSIZE - off mod BSIZE)) (len - (BSIZE - off mod BSIZE)))"
proof -
  have q: "(off + (BSIZE - off mod BSIZE)) div BSIZE = off div BSIZE + 1" unfolding block_end by simp
  have e: "off + (BSIZE - off mod BSIZE) + (len - (BSIZE - off mod BSIZE)) = off + len" using assms(2) by simp
  have "off + (BSIZE - off mod BSIZE) \<le> off + len - 1" using assms by simp
  then have "off div BSIZE + 1 \<le> (off + len - 1) div BSIZE" unfolding q [symmetric] by (rule div_le_mono)
  then have "Suc ((off + len - 1) div BSIZE - (off div BSIZE + 1)) = (off + len - 1) div BSIZE - off div BSIZE"
    by (metis Suc_diff_Suc Suc_eq_plus1 Suc_le_eq)
  moreover have "len - (BSIZE - off mod BSIZE) \<noteq> 0" "len \<noteq> 0" using assms by simp_all
  ultimately show ?thesis unfolding nchunks_def e q by simp
qed

lemma chunk_range:
  assumes "m \<le> BSIZE - off mod BSIZE"
  shows "off \<le> p \<and> p < off + m \<longleftrightarrow>
    p div BSIZE = off div BSIZE \<and> off mod BSIZE \<le> p mod BSIZE \<and> p mod BSIZE < off mod BSIZE + m"
proof -
  have p: "p = p div BSIZE * BSIZE + p mod BSIZE" and o: "off = off div BSIZE * BSIZE + off mod BSIZE" by simp_all
  show ?thesis
  proof
    assume a: "off \<le> p \<and> p < off + m"
    have "off div BSIZE \<le> p div BSIZE" using a by (intro div_le_mono) simp
    moreover have "p < (off div BSIZE + 1) * BSIZE"
      using a assms unfolding block_end [symmetric] by linarith
    then have "p div BSIZE < off div BSIZE + 1" by (simp add: less_mult_imp_div_less)
    ultimately have eq: "p div BSIZE = off div BSIZE" by simp
    then have "off mod BSIZE \<le> p mod BSIZE \<and> p mod BSIZE < off mod BSIZE + m" using a p o by linarith
    then show "p div BSIZE = off div BSIZE \<and> off mod BSIZE \<le> p mod BSIZE \<and> p mod BSIZE < off mod BSIZE + m"
      using eq by simp
  next
    assume "p div BSIZE = off div BSIZE \<and> off mod BSIZE \<le> p mod BSIZE \<and> p mod BSIZE < off mod BSIZE + m"
    then show "off \<le> p \<and> p < off + m" using p o by linarith
  qed
qed

lemma fbyte_put:
  assumes len: "length (fblk v ip (off div BSIZE)) = BSIZE" and m: "length bs \<le> BSIZE - off mod BSIZE"
    and p: "p < MAXFILE * BSIZE"
    and b: "\<And>j. j < MAXFILE \<Longrightarrow> fblk w ip' j = (if j = off div BSIZE then put_bytes (off mod BSIZE) bs (fblk v ip j) else fblk v ip j)"
  shows "fbyte w ip' p = (if off \<le> p \<and> p < off + length bs then bs ! (p - off) else fbyte v ip p)"
proof -
  have pd: "p div BSIZE < MAXFILE" using p by (simp add: less_mult_imp_div_less)
  have fits: "off mod BSIZE + length bs \<le> BSIZE" using m mod_BSIZE [of off] by linarith
  show ?thesis
  proof (cases "p div BSIZE = off div BSIZE")
    case True
    have "p - off = p mod BSIZE - off mod BSIZE"
      using True div_mult_mod_eq [of p BSIZE] div_mult_mod_eq [of off BSIZE] by linarith
    then show ?thesis
      using True b [OF pd] len fits chunk_range [OF m, of p] by (auto simp: fbyte_def nth_put_bytes)
  next
    case False
    then show ?thesis using b [OF pd] chunk_range [OF m, of p] by (auto simp: fbyte_def)
  qed
qed

text \<open>
One iteration of the loop of \<open>writei\<close>: at most two new blocks, six of the
reserved places, and the bytes of the chunk at their place in the file.
\<close>

lemma write_chunk:
  assumes ok: "fs_ok s" and h: "held s = {}" and cr: "credit (7 + k) s" and i: "i < length (icache s)"
    and f: "file_ok (view s) (sb s) (icache s ! i)" and fr: "2 \<le> card (free_blocks s)"
    and m: "length bs \<le> BSIZE - off mod BSIZE" and off: "off < MAXFILE * BSIZE"
  shows "\<exists>a t bp u v w. bmap i (off div BSIZE) s = Ret (a, t) \<and> bread (idev (icache t ! i)) a t = Ret (bp, u) \<and>
    log_write bp (setdata bp (put_bytes (off mod BSIZE) bs (bdata (bufs u ! bp))) u) = Ret v \<and>
    brelse bp v = Ret w \<and> frel i s w \<and> credit (1 + k) w \<and> faddr (view w) (icache w ! i) (off div BSIZE) \<noteq> 0 \<and>
    card (free_blocks s) \<le> card (free_blocks w) + 2 \<and>
    (\<forall>p < MAXFILE * BSIZE. fbyte (view w) (icache w ! i) p =
       (if off \<le> p \<and> p < off + length bs then bs ! (p - off) else fbyte (view s) (icache s ! i) p))"
proof -
  let ?n = "off div BSIZE" and ?g = "put_bytes (off mod BSIZE) bs"
  have n: "?n < MAXFILE" using off by (simp add: less_mult_imp_div_less)
  obtain a t where b: "bmap i ?n s = Ret (a, t)" "bmap_post i ?n s a t" "credit (2 + k) t"
    "card (free_blocks s) \<le> card (free_blocks t) + 2"
    using bmap_spec [OF ok h cr i f n fr] by blast
  note bp = b(2) [unfolded bmap_post_def]
  have ft: "frel i s t" using bp by blast
  note t = frelD [OF ft] and ti = frel_inode [OF ft i]
  have fot: "file_ok (view t) (sb t) (icache t ! i)" using t(7) ti(4) by simp
  have ht: "held t = {}" using t(2) h by simp
  have "length (view t a) = BSIZE" using length_fblk [OF t(1) fot n] bp by (simp add: fblk_def)
  then have gl: "length (?g (view t a)) = BSIZE" using m mod_BSIZE [of off] by (simp add: length_put_bytes)
  obtain bf u v w where r: "bread 1 a t = Ret (bf, u)" "bdata (bufs u ! bf) = view t a"
    "log_write bf (setdata bf (?g (view t a)) u) = Ret v" "brelse bf v = Ret w"
    "frel i t w" "credit (1 + k) w" "free_blocks w = free_blocks t"
    "\<forall>j < MAXFILE. fblk (view w) (icache w ! i) j =
       (if j = ?n then ?g (fblk (view t) (icache t ! i) ?n) else fblk (view t) (icache t ! i) j)"
    using write_data [where g = ?g, OF t(1) ht b(3) fot n _ _ gl] bp by blast
  have "idev (icache t ! i) = 1" by (rule file_okD(1) [OF fot])
  moreover have "fbyte (view w) (icache w ! i) p =
       (if off \<le> p \<and> p < off + length bs then bs ! (p - off) else fbyte (view s) (icache s ! i) p)"
    if p: "p < MAXFILE * BSIZE" for p
    using length_fblk [OF ok f n] m p by (rule fbyte_put) (use r(8) bp n in simp)
  moreover have "faddr (view w) (icache w ! i) ?n \<noteq> 0" using frelD(12) [OF r(5) n] bp by simp
  ultimately show ?thesis using b r frel_trans [OF ft r(5) i] by auto
qed

lemma writei_loop_spec:
  assumes "fs_ok s" "held s = {}" "i < length (icache s)" "file_ok (view s) (sb s) (icache s ! i)"
    and "off + length src \<le> MAXFILE * BSIZE" "credit (6 * nchunks off (length src) + 1 + k) s"
    and "2 * nchunks off (length src) \<le> card (free_blocks s)"
  shows "\<exists>t. writei_loop i off src s = Ret t \<and> frel i s t \<and> credit (1 + k) t \<and>
    (\<forall>p. off \<le> p \<and> p < off + length src \<longrightarrow> faddr (view t) (icache t ! i) (p div BSIZE) \<noteq> 0) \<and>
    (\<forall>p < MAXFILE * BSIZE. fbyte (view t) (icache t ! i) p =
       (if off \<le> p \<and> p < off + length src then src ! (p - off) else fbyte (view s) (icache s ! i) p))"
  using assms
proof (induction "length src" arbitrary: off src s rule: less_induct)
  case less
  note ok = less.prems(1) and h = less.prems(2) and i = less.prems(3) and f = less.prems(4)
  show ?case
  proof (cases "src = []")
    case True
    have "credit (1 + k) s" by (rule credit_mono [OF less.prems(6)]) simp
    then show ?thesis using True frel_refl [OF ok f] by (auto simp: writei_loop.simps)
  next
    case False
    let ?m = "chunk off (length src)"
    define c where "c = nchunks (off + ?m) (length (drop ?m src))"
    have c: "Suc c \<le> nchunks off (length src)"
    proof (cases "length src \<le> BSIZE - off mod BSIZE")
      case True
      then show ?thesis using False by (simp add: c_def nchunks_def)
    next
      case ne: False
      then have "?m = BSIZE - off mod BSIZE" by simp
      then show ?thesis using nchunks_step [OF _ ne] False by (simp add: c_def)
    qed
    have m: "length (take ?m src) \<le> BSIZE - off mod BSIZE" by simp
    have mpos: "0 < ?m" using False mod_BSIZE [of off] by simp
    have off: "off < MAXFILE * BSIZE" using less.prems(5) False by (cases src) auto
    have cr: "credit (7 + (6 * c + k)) s" by (rule credit_mono [OF less.prems(6)]) (use c in simp)
    have fr: "2 \<le> card (free_blocks s)" using less.prems(7) c by simp
    obtain a t bp u v w where r: "bmap i (off div BSIZE) s = Ret (a, t)" "bread (idev (icache t ! i)) a t = Ret (bp, u)"
      "log_write bp (setdata bp (put_bytes (off mod BSIZE) (take ?m src) (bdata (bufs u ! bp))) u) = Ret v"
      "brelse bp v = Ret w" "frel i s w" "credit (1 + (6 * c + k)) w" "faddr (view w) (icache w ! i) (off div BSIZE) \<noteq> 0"
      "card (free_blocks s) \<le> card (free_blocks w) + 2"
      "\<forall>p < MAXFILE * BSIZE. fbyte (view w) (icache w ! i) p =
        (if off \<le> p \<and> p < off + length (take ?m src) then take ?m src ! (p - off) else fbyte (view s) (icache s ! i) p)"
      using write_chunk [OF ok h cr i f fr m off] by blast
    note wd = frelD [OF r(5)] and wi = frel_inode [OF r(5) i]
    have "\<exists>t. writei_loop i (off + ?m) (drop ?m src) w = Ret t \<and> frel i w t \<and> credit (1 + k) t \<and>
      (\<forall>p. off + ?m \<le> p \<and> p < off + ?m + length (drop ?m src) \<longrightarrow> faddr (view t) (icache t ! i) (p div BSIZE) \<noteq> 0) \<and>
      (\<forall>p < MAXFILE * BSIZE. fbyte (view t) (icache t ! i) p =
         (if off + ?m \<le> p \<and> p < off + ?m + length (drop ?m src) then drop ?m src ! (p - (off + ?m))
          else fbyte (view w) (icache w ! i) p))"
    proof (rule less.hyps)
      show "length (drop ?m src) < length src" using mpos by simp
      show "fs_ok w" "held w = {}" "i < length (icache w)" using wd(1,2) h wi(2) i by simp_all
      show "file_ok (view w) (sb w) (icache w ! i)" using wd(7) wi(4) by simp
      show "off + ?m + length (drop ?m src) \<le> MAXFILE * BSIZE" using less.prems(5) by simp
      show "credit (6 * nchunks (off + ?m) (length (drop ?m src)) + 1 + k) w"
        using r(6) unfolding c_def by (simp add: add.commute add.left_commute)
      show "2 * nchunks (off + ?m) (length (drop ?m src)) \<le> card (free_blocks w)"
        using less.prems(7) r(8) c unfolding c_def by linarith
    qed
    then obtain x where x: "writei_loop i (off + ?m) (drop ?m src) w = Ret x" "frel i w x" "credit (1 + k) x"
      "\<forall>p. off + ?m \<le> p \<and> p < off + ?m + length (drop ?m src) \<longrightarrow> faddr (view x) (icache x ! i) (p div BSIZE) \<noteq> 0"
      "\<forall>p < MAXFILE * BSIZE. fbyte (view x) (icache x ! i) p =
         (if off + ?m \<le> p \<and> p < off + ?m + length (drop ?m src) then drop ?m src ! (p - (off + ?m))
          else fbyte (view w) (icache w ! i) p)" by blast
    have run: "writei_loop i off src s = Ret x"
      using r(1-4) x(1) False by (subst writei_loop.simps) (simp add: Let_def)
    have "fbyte (view x) (icache x ! i) p =
       (if off \<le> p \<and> p < off + length src then src ! (p - off) else fbyte (view s) (icache s ! i) p)"
      if p: "p < MAXFILE * BSIZE" for p
    proof (cases "p < off + ?m")
      case True
      then have "\<not> off + ?m \<le> p" "p < off + length src" "off \<le> p \<Longrightarrow> p - off < ?m" by linarith+
      then show ?thesis using True r(9) x(5) p by (simp del: min_less_iff_conj)
    next
      case False
      then have "off \<le> p" "off + ?m + (p - (off + ?m)) = p" "p - off = ?m + (p - (off + ?m))" by simp_all
      then show ?thesis using False r(9) x(5) p by (simp add: nth_drop)
    qed
    moreover have "faddr (view x) (icache x ! i) (p div BSIZE) \<noteq> 0" if p: "off \<le> p" "p < off + length src" for p
    proof (cases "p < off + ?m")
      case True
      then have e: "p div BSIZE = off div BSIZE" using chunk_range [of ?m off p] p(1) by simp
      have "off div BSIZE < MAXFILE" using off by (simp add: less_mult_imp_div_less)
      then show ?thesis using frelD(12) [OF x(2)] r(7) e by simp
    next
      case False
      then show ?thesis using p x(4) by simp
    qed
    ultimately show ?thesis using run frel_trans [OF r(5) x(2) i] x(3) by blast
  qed
qed

end
