(* ===== verification/FsIo.thy ===== *)
theory FsIo
  imports FsFile
begin

text \<open>
  Inodes on disk and the bytes of a file: what \<open>iupdate\<close> stores and \<open>ilock\<close> reads
  back, what \<open>writei\<close> does to the bytes of a file and what \<open>readi\<close> returns of them
  (\<open>fs.c\<close>).
\<close>

section \<open>The on-disk inode\<close>

lemma rd16_put_words_before:
  "off + 4 * length ws \<le> length d \<Longrightarrow> a + 2 \<le> off \<Longrightarrow> rd16 (put_words off ws d) a = rd16 d a"
  by (induction off ws d rule: put_words.induct) (simp_all add: wr32_def rd16_put_other)

lemma rd32_put_words_after:
  "off + 4 * length ws \<le> a \<Longrightarrow> a + 4 \<le> length d \<Longrightarrow> rd32 (put_words off ws d) a = rd32 d a"
  by (induction off ws d rule: put_words.induct) (simp_all add: rd32_wr32_other)

lemma rd16_put_words_after:
  "off + 4 * length ws \<le> a \<Longrightarrow> a + 2 \<le> length d \<Longrightarrow> rd16 (put_words off ws d) a = rd16 d a"
  by (induction off ws d rule: put_words.induct) (simp_all add: wr32_def rd16_put_other)

lemma length_put_dinode:
  assumes "off + 64 \<le> length d" "length (addrs ip) = NDIRECT + 1"
  shows "length (put_dinode off ip d) = length d"
  using assms by (simp add: put_dinode_def Let_def)

lemma get_put_dinode:
  assumes "off + 64 \<le> length d" "length (addrs ip) = NDIRECT + 1"
  shows "get_dinode off (put_dinode off ip d) jp =
    jp\<lparr>itype := itype ip, major := major ip, minor := minor ip, nlink := nlink ip, isize := isize ip, addrs := addrs ip\<rparr>"
proof -
  have "map (\<lambda>k. rd32 (put_dinode off ip d) (off + 12 + 4 * k)) [0..<NDIRECT + 1] = addrs ip"
    using assms by (intro nth_equalityI) (simp_all add: put_dinode_def Let_def rd32_put_words del: upt_Suc)
  moreover have "rd16 (put_dinode off ip d) off = itype ip" "rd16 (put_dinode off ip d) (off + 2) = major ip"
    "rd16 (put_dinode off ip d) (off + 4) = minor ip" "rd16 (put_dinode off ip d) (off + 6) = nlink ip"
    "rd32 (put_dinode off ip d) (off + 8) = isize ip"
    using assms
    by (simp_all add: put_dinode_def Let_def rd16_put_words_before rd32_put_words_before
        rd16_put_other [where bs = "le16 w" for w, folded wr16_def] rd16_put_other [where bs = "le32 w" for w, folded wr32_def])
  ultimately show ?thesis by (simp add: get_dinode_def)
qed

lemma get_put_dinode_other:
  assumes "off + 64 \<le> length d" "off' + 64 \<le> length d" "off + 64 \<le> off' \<or> off' + 64 \<le> off"
    and "length (addrs ip) = NDIRECT + 1"
  shows "get_dinode off' (put_dinode off ip d) jp = get_dinode off' d jp"
proof -
  have "rd16 (put_dinode off ip d) a = rd16 d a" if "off' \<le> a" "a + 2 \<le> off' + 64" for a
    using assms that
    by (auto simp: put_dinode_def Let_def rd16_put_words_before rd16_put_words_after
        rd16_put_other [where bs = "le16 w" for w, folded wr16_def] rd16_put_other [where bs = "le32 w" for w, folded wr32_def])
  moreover have "rd32 (put_dinode off ip d) a = rd32 d a" if "off' \<le> a" "a + 4 \<le> off' + 64" for a
    using assms that
    by (auto simp: put_dinode_def Let_def rd32_put_words_before rd32_put_words_after
        rd32_put_other [where bs = "le16 w" for w, folded wr16_def] rd32_wr32_other)
  ultimately show ?thesis by (simp add: get_dinode_def del: upt_Suc)
qed

lemma ioff_bound: "ioff n + 64 \<le> BSIZE"
proof -
  have "unat n mod IPB < IPB" by simp
  then show ?thesis unfolding ioff_def by linarith
qed

lemma IBLOCK_unat:
  assumes g: "fs_geom s" and n: "unat n \<le> unat (sb_ninodes (sb s))"
  shows "unat (IBLOCK n (sb s)) = unat n div IPB + unat (sb_inodestart (sb s))"
    "unat (IBLOCK n (sb s)) < unat (sb_bmapstart (sb s))"
    "unat (IBLOCK n (sb s)) < length (memdisk s)" "\<not> in_log s (IBLOCK n (sb s))" "IBLOCK n (sb s) \<noteq> 1"
    "unat (IBLOCK n (sb s)) < unat (sb_size (sb s))"
proof -
  have d: "unat n div IPB \<le> unat (sb_ninodes (sb s)) div IPB" using n by (rule div_le_mono)
  have b: "unat n div IPB + unat (sb_inodestart (sb s)) < unat (sb_bmapstart (sb s))"
    using g d unfolding fs_geom_def by linarith
  then have "unat n div IPB + unat (sb_inodestart (sb s)) < 2 ^ LENGTH(32)"
    using unsigned_less [of "sb_bmapstart (sb s)", where 'a = nat] by simp
  then show e: "unat (IBLOCK n (sb s)) = unat n div IPB + unat (sb_inodestart (sb s))"
    by (simp add: IBLOCK_def unat_add_lem [THEN iffD1] unat_div)
  show lt: "unat (IBLOCK n (sb s)) < unat (sb_bmapstart (sb s))" using b e by simp
  have "unat (sb_bmapstart (sb s)) \<le> nmeta (sb s)" by (simp add: nmeta_def)
  then show "unat (IBLOCK n (sb s)) < length (memdisk s)" "unat (IBLOCK n (sb s)) < unat (sb_size (sb s))"
    using lt g unfolding fs_geom_def by linarith+
  have "unat (lstart s) + nat (lsize s) \<le> unat (IBLOCK n (sb s))" "1 < unat (IBLOCK n (sb s))"
    using g e unfolding fs_geom_def by linarith+
  then show "\<not> in_log s (IBLOCK n (sb s))" "IBLOCK n (sb s) \<noteq> 1" by (auto simp: in_log_def)
qed

lemma meta_not_bitmap:
  assumes g: "fs_geom s" and b: "unat b < unat (sb_bmapstart (sb s))" and c: "unat c < unat (sb_size (sb s))"
  shows "b \<noteq> BBLOCK c (sb s)"
  using BBLOCK_unat(1) [OF g c] b by auto

section \<open>iupdate\<close>

definition iupdate_view :: "'a kfs_scheme \<Rightarrow> inode \<Rightarrow> uint \<Rightarrow> blk" where
  "iupdate_view s ip = (view s)(IBLOCK (inum ip) (sb s) := put_dinode (ioff (inum ip)) ip (view s (IBLOCK (inum ip) (sb s))))"

lemma iupdate_spec:
  assumes ok: "fs_ok s" and h: "held s = {}" and cr: "credit (Suc (Suc k)) s"
    and n: "unat (inum (icache s ! i)) \<le> unat (sb_ninodes (sb s))"
    and ip: "idev (icache s ! i) = 1" "length (addrs (icache s ! i)) = NDIRECT + 1"
  shows "\<exists>t. iupdate i s = Ret t \<and> txn s (iupdate_view s (icache s ! i)) t \<and> fs_ok t \<and> credit (Suc k) t"
proof -
  let ?ip = "icache s ! i"
  let ?bn = "IBLOCK (inum ?ip) (sb s)" and ?g = "put_dinode (ioff (inum ?ip)) ?ip"
  note d = fs_okD [OF ok]
  note ib = IBLOCK_unat [OF d(2) n]
  have len: "length (view s ?bn) = BSIZE" by (rule d(5)) (rule ib(6))
  have gl: "length (?g (view s ?bn)) = BSIZE" using length_put_dinode [of "ioff (inum ?ip)"] ioff_bound ip len by simp
  have nh: "?bn \<notin> held s" using h by simp
  obtain bp t u w where r: "bread 1 ?bn s = Ret (bp, t)" "bdata (bufs t ! bp) = view s ?bn" "log_frame s t"
    "log_write bp (setdata bp (?g (view s ?bn)) t) = Ret u" "brelse bp u = Ret w"
    "txn s ((view s)(?bn := ?g (view s ?bn))) w" "credit (Suc k) w"
    using fs_modify [where f = ?g, OF d(1) cr ib(3) nh ib(4) gl] by blast
  have "used ((view s)(?bn := ?g (view s ?bn))) (sb s) b \<longleftrightarrow> used (view s) (sb s) b"
    if "unat b < unat (sb_size (sb s))" for b
    using meta_not_bitmap [OF d(2) ib(2) that] by (simp add: used_def)
  moreover have "unat b < unat (sb_size (sb s))" if "unat b < nmeta (sb s)" for b
    using that d(2) unfolding fs_geom_def by linarith
  ultimately have "fs_ok w" using d(4) ib(5) by (intro fs_ok_view [OF ok r(6)]) auto
  moreover have "iupdate i s = Ret w"
    using r kfs_frame [OF r(3)] ip by (simp add: iupdate_def Let_def)
  ultimately show ?thesis using r(6,7) unfolding iupdate_view_def by blast
qed

text \<open>A change below the bitmap leaves every file as it is.\<close>

lemma file_meta:
  assumes g: "fs_geom s" and f: "file_ok (view s) (sb s) ip"
    and v: "\<And>e. v e \<noteq> view s e \<Longrightarrow> unat e < unat (sb_bmapstart (sb s))"
  shows "file_ok v (sb s) ip" "faddr v ip = faddr (view s) ip" "\<And>k. k < MAXFILE \<Longrightarrow> fblk v ip k = fblk (view s) ip k"
    "data_ok v (sb s) = data_ok (view s) (sb s)"
proof -
  have data: "v e = view s e" if "nmeta (sb s) \<le> unat e" for e
    using that v [of e] by (auto simp: nmeta_def)
  show dk: "data_ok v (sb s) = data_ok (view s) (sb s)"
  proof
    fix e
    have "v (BBLOCK e (sb s)) = view s (BBLOCK e (sb s))" if "unat e < unat (sb_size (sb s))"
      using v meta_not_bitmap [OF g _ that] by blast
    then show "data_ok v (sb s) e = data_ok (view s) (sb s) e" by (auto simp: data_ok_def used_def)
  qed
  have "v (addrs ip ! NDIRECT) = view s (addrs ip ! NDIRECT)" if "addrs ip ! NDIRECT \<noteq> 0"
    using file_okD(5) [OF f that] data by (simp add: data_ok_def)
  then show fa: "faddr v ip = faddr (view s) ip" by (auto simp: faddr_def fun_eq_iff)
  show "file_ok v (sb s) ip" using f unfolding file_ok_def fa dk .
  show "fblk v ip k = fblk (view s) ip k" if k: "k < MAXFILE" for k
    using file_okD(3) [OF f k] data unfolding fblk_def fa by (auto simp: data_ok_def)
qed

section \<open>writei\<close>

text \<open>
  Reading needs no transaction: only a buffer that is neither held nor pinned. What it leaves is a
  state with the same contents of every block.
\<close>

definition rd_ok :: "'a kbio_scheme \<Rightarrow> bool" where
  "rd_ok s \<longleftrightarrow> bio_inv s \<and> held s = {} \<and> card (pinned s) < NBUF"

definition rd_same :: "'a kbio_scheme \<Rightarrow> 'a kbio_scheme \<Rightarrow> bool" where
  "rd_same s t \<longleftrightarrow> rd_ok t \<and> bio_frame s t \<and> view t = view s \<and> memdisk t = memdisk s \<and> writes t = writes s \<and> pinned t = pinned s"

lemma credit_rd_ok: "fs_ok s \<Longrightarrow> held s = {} \<Longrightarrow> credit k s \<Longrightarrow> rd_ok s"
  using credit_room [of s k] fs_okD(1,3) [of s] by (simp add: rd_ok_def)

text \<open>A file without holes: every block below its size is allocated.\<close>

definition no_holes :: "(uint \<Rightarrow> blk) \<Rightarrow> inode \<Rightarrow> bool" where
  "no_holes v ip \<longleftrightarrow> unat (isize ip) \<le> MAXFILE * BSIZE \<and>
     (\<forall>p < unat (isize ip). faddr v ip (p div BSIZE) \<noteq> 0)"

definition fcontents :: "(uint \<Rightarrow> blk) \<Rightarrow> inode \<Rightarrow> byte list" where
  "fcontents v ip = map (fbyte v ip) [0..<unat (isize ip)]"

lemma length_fcontents [simp]: "length (fcontents v ip) = unat (isize ip)"
  by (simp add: fcontents_def)

lemma nth_fcontents: "p < unat (isize ip) \<Longrightarrow> fcontents v ip ! p = fbyte v ip p"
  by (simp add: fcontents_def)

text \<open>
  The state after a write: the inode with its new size, the file system and the file well-formed,
  nothing held, and no other file touched.
\<close>

definition writei_post :: "nat \<Rightarrow> nat \<Rightarrow> byte list \<Rightarrow> 'a kfs_scheme \<Rightarrow> 'a kfs_scheme \<Rightarrow> bool" where
  "writei_post i off src s t \<longleftrightarrow>
     fs_ok t \<and> rd_ok t \<and> sb t = sb s \<and> file_ok (view t) (sb t) (icache t ! i) \<and> no_holes (view t) (icache t ! i) \<and>
     icache t ! i = (icache s ! i)\<lparr>isize := isize (icache t ! i), addrs := addrs (icache t ! i)\<rparr> \<and>
     length (icache t) = length (icache s) \<and> (\<forall>j. j \<noteq> i \<longrightarrow> icache t ! j = icache s ! j) \<and>
     (\<forall>e. data_ok (view s) (sb s) e \<and> e \<notin> fblocks (view s) (icache s ! i) \<longrightarrow> data_ok (view t) (sb s) e \<and> view t e = view s e) \<and>
     fcontents (view t) (icache t ! i) =
       take off (fcontents (view s) (icache s ! i)) @ src @ drop (off + length src) (fcontents (view s) (icache s ! i))"

lemma fcontents_write:
  assumes off: "off \<le> unat (isize ip)" and le: "unat (isize ip) \<le> MAXFILE * BSIZE" "off + length src \<le> MAXFILE * BSIZE"
    and sz: "unat (isize jp) = max (unat (isize ip)) (off + length src)"
    and b: "\<And>p. p < MAXFILE * BSIZE \<Longrightarrow> fbyte w jp p = (if off \<le> p \<and> p < off + length src then src ! (p - off) else fbyte v ip p)"
  shows "fcontents w jp = take off (fcontents v ip) @ src @ drop (off + length src) (fcontents v ip)"
proof (rule nth_equalityI)
  show len: "length (fcontents w jp) = length (take off (fcontents v ip) @ src @ drop (off + length src) (fcontents v ip))"
    using off sz by simp
  fix p
  assume "p < length (fcontents w jp)"
  then have p: "p < unat (isize jp)" "p < MAXFILE * BSIZE" using sz le by simp_all
  consider "p < off" | "off \<le> p" "p < off + length src" | "off + length src \<le> p" by linarith
  then show "fcontents w jp ! p = (take off (fcontents v ip) @ src @ drop (off + length src) (fcontents v ip)) ! p"
  proof cases
    case 2
    then have "p - off < length src" by linarith
    then show ?thesis using 2 p off b [OF p(2)] by (simp add: nth_append nth_fcontents)
  next
    case 3
    then have "\<not> p - off < length src" by linarith
    then show ?thesis using 3 p sz off b [OF p(2)] by (simp add: nth_append nth_fcontents)
  qed (use p sz off b [OF p(2)] in \<open>simp_all add: nth_append nth_fcontents\<close>)
qed

lemma writei_finish:
  assumes i: "i < length (icache s)" and nh: "no_holes (view s) (icache s ! i)"
    and off: "off \<le> unat (isize (icache s ! i))" "off + length src \<le> MAXFILE * BSIZE"
    and t: "frel i s t"
      "\<forall>p. off \<le> p \<and> p < off + length src \<longrightarrow> faddr (view t) (icache t ! i) (p div BSIZE) \<noteq> 0"
      "\<forall>p < MAXFILE * BSIZE. fbyte (view t) (icache t ! i) p =
         (if off \<le> p \<and> p < off + length src then src ! (p - off) else fbyte (view s) (icache s ! i) p)"
    and u: "fs_ok u" "rd_ok u" "sb u = sb s" "icache u = (icache t)[i := (icache t ! i)\<lparr>isize := sz\<rparr>]"
    and v: "\<And>e. view u e \<noteq> view t e \<Longrightarrow> unat e < unat (sb_bmapstart (sb t))"
    and sz: "unat sz = max (unat (isize (icache s ! i))) (off + length src)"
  shows "writei_post i off src s u"
proof -
  let ?ip = "icache s ! i" and ?jp = "icache t ! i" and ?kp = "(icache t ! i)\<lparr>isize := sz\<rparr>"
  note d = frelD [OF t(1)] and fi = frel_inode [OF t(1) i]
  have fot: "file_ok (view t) (sb t) ?jp" using d(7) fi(4) by simp
  note m = file_meta [where v = "view u", OF fs_okD(2) [OF d(1)] fot v]
  have kp: "icache u ! i = ?kp" using u(4) fi(2) i by simp
  have fk: "faddr w ?kp = faddr w ?jp" "fblk w ?kp = fblk w ?jp" "fbyte w ?kp = fbyte w ?jp" "file_ok w b ?kp = file_ok w b ?jp" for w b
    by (simp_all add: faddr_def fblk_def fbyte_def file_ok_def fun_eq_iff)
  have noh: "faddr (view t) ?jp (p div BSIZE) \<noteq> 0" if p: "p < unat sz" for p
  proof (cases "p < unat (isize ?ip)")
    case True
    then have "p div BSIZE < MAXFILE" "faddr (view s) ?ip (p div BSIZE) \<noteq> 0"
      using nh unfolding no_holes_def by (simp_all add: less_mult_imp_div_less)
    then show ?thesis using d(12) [of "p div BSIZE"] by simp
  next
    case False
    then show ?thesis using p t(2) off(1) sz by simp
  qed
  have le: "unat (isize ?ip) \<le> MAXFILE * BSIZE" using nh by (simp add: no_holes_def)
  then have "no_holes (view u) ?kp" using noh off(2) sz by (simp add: no_holes_def fk m(2))
  moreover have "fcontents (view u) ?kp = take off (fcontents (view s) ?ip) @ src @ drop (off + length src) (fcontents (view s) ?ip)"
  proof (rule fcontents_write [OF off(1) le off(2)])
    fix p
    assume p: "p < MAXFILE * BSIZE"
    then have "fbyte (view u) ?jp p = fbyte (view t) ?jp p"
      using m(3) [of "p div BSIZE"] by (simp add: fbyte_def less_mult_imp_div_less)
    then show "fbyte (view u) ?kp p = (if off \<le> p \<and> p < off + length src then src ! (p - off) else fbyte (view s) ?ip p)"
      using t(3) p fk by simp
  qed (simp add: sz)
  moreover have "data_ok (view u) (sb s) e \<and> view u e = view s e"
    if e: "data_ok (view s) (sb s) e" "e \<notin> fblocks (view s) ?ip" for e
  proof -
    have "\<not> unat e < unat (sb_bmapstart (sb t))" using e(1) fi(4) by (simp add: data_ok_def nmeta_def)
    then have "view u e = view t e" using v by blast
    then show ?thesis using d(8,9) [OF e(1)] e(2) m(4) fi(4) by simp
  qed
  moreover have "icache u ! j = icache s ! j" if "j \<noteq> i" for j using u(4) fi(3) [OF that] that by simp
  moreover have "file_ok (view u) (sb u) ?kp" using m(1) u(3) fi(4) unfolding fk by simp
  moreover have "?kp = ?ip\<lparr>isize := isize ?kp, addrs := addrs ?kp\<rparr>" by (subst fi(1)) simp
  ultimately show ?thesis unfolding writei_post_def kp using u fi(2) by simp
qed

lemma writei_spec:
  assumes ok: "fs_ok s" "held s = {}" and i: "i < length (icache s)" and f: "file_ok (view s) (sb s) (icache s ! i)"
    and nh: "no_holes (view s) (icache s ! i)" and ty: "itype (icache s ! i) \<noteq> T_DEV"
    and n: "unat (inum (icache s ! i)) \<le> unat (sb_ninodes (sb s))"
    and off: "off \<le> isize (icache s ! i)" "unat off + length src \<le> MAXFILE * BSIZE"
    and cr: "credit (6 * nchunks (unat off) (length src) + 2) s"
    and fr: "2 * nchunks (unat off) (length src) \<le> card (free_blocks s)"
  shows "\<exists>t. writei devsw i src off s = Ret (int (length src), t) \<and> writei_post i (unat off) src s t"
proof -
  let ?ip = "icache s ! i" and ?n = "of_nat (length src) :: uint"
  have un: "unat ?n = length src" using off(2) by (simp add: unat_of_nat)
  have uo: "unat (off + ?n) = unat off + length src" using off(2) un by (simp add: unat_word_ariths)
  have sn: "sint ?n = int (length src)" using sint_small [of ?n] un off(2) by simp
  have cr': "credit (6 * nchunks (unat off) (length src) + 1 + 1) s" using cr by simp
  obtain t where t: "writei_loop i (unat off) src s = Ret t" "frel i s t" "credit (1 + 1) t"
    "\<forall>p. unat off \<le> p \<and> p < unat off + length src \<longrightarrow> faddr (view t) (icache t ! i) (p div BSIZE) \<noteq> 0"
    "\<forall>p < MAXFILE * BSIZE. fbyte (view t) (icache t ! i) p =
       (if unat off \<le> p \<and> p < unat off + length src then src ! (p - unat off) else fbyte (view s) ?ip p)"
    using writei_loop_spec [OF ok i f off(2) cr' fr] by blast
  note d = frelD [OF t(2)] and fi = frel_inode [OF t(2) i]
  let ?jp = "icache t ! i"
  have szt: "isize ?jp = isize ?ip" "inum ?jp = inum ?ip" by (subst fi(1), simp)+
  have offn: "unat off \<le> unat (isize ?ip)" using off(1) by (simp add: word_le_nat_alt)
  have fit: "\<not> off > isize ?ip" "\<not> off + ?n < off" "\<not> off + ?n > 71680"
    using offn off(2) uo by (simp_all add: word_less_nat_alt)
  note fin = writei_finish [OF i nh offn off(2) t(2,4,5)]
  show ?thesis
  proof (cases "?n > 0 \<and> off + ?n > isize ?jp")
    case False
    have "writei devsw i src off s = Ret (int (length src), t)"
      using ty fit t(1) False sn unfolding writei_def Let_def by auto
    moreover have "writei_post i (unat off) src s t"
    proof (rule fin [where sz = "isize ?jp"])
      show "unat (isize ?jp) = max (unat (isize ?ip)) (unat off + length src)"
        using False uo un szt offn by (auto simp: word_less_nat_alt max_def)
    qed (use d(1) credit_rd_ok [OF d(1) _ t(3)] d(2) ok fi(2,4) i in simp_all)
    ultimately show ?thesis by blast
  next
    case True
    define u where "u = updinode i (?jp\<lparr>isize := off + ?n\<rparr>) t"
    have uok: "fs_ok u" "held u = {}" "credit (Suc (Suc 0)) u" "view u = view t" "sb u = sb t"
      using d(1,2) ok(2) t(3) by (simp_all add: u_def)
    have ui: "icache u ! i = ?jp\<lparr>isize := off + ?n\<rparr>" using i fi(2) by (simp add: u_def)
    have fot: "file_ok (view t) (sb t) ?jp" using d(7) fi(4) by simp
    have hyp: "unat (inum (icache u ! i)) \<le> unat (sb_ninodes (sb u))" "idev (icache u ! i) = 1" "length (addrs (icache u ! i)) = NDIRECT + 1"
      unfolding ui using n szt fi(4) uok(5) file_okD(1,2) [OF fot] by simp_all
    obtain w where w: "iupdate i u = Ret w" "txn u (iupdate_view u (icache u ! i)) w" "fs_ok w" "credit (Suc 0) w"
      using iupdate_spec [OF uok(1-3) hyp] by blast
    note tw = txnD [OF w(2)] and fw = kfs_frame [OF txnD(2) [OF w(2)]]
    have "writei devsw i src off s = Ret (int (length src), w)"
      using ty fit t(1) True sn w(1) unfolding writei_def Let_def u_def by simp
    moreover have "writei_post i (unat off) src s w"
    proof (rule fin [where sz = "off + ?n"])
      show "unat e < unat (sb_bmapstart (sb t))" if "view w e \<noteq> view t e" for e
        using that IBLOCK_unat(2) [OF fs_okD(2) [OF uok(1)] hyp(1)] uok(4,5) unfolding tw(6) iupdate_view_def
        by (auto split: if_splits)
      show "unat (off + ?n) = max (unat (isize ?ip)) (unat off + length src)"
        using True uo szt by (simp add: word_less_nat_alt)
    qed (use w(3) credit_rd_ok [OF w(3) _ w(4)] tw(3) uok(2,5) fw fi(4) True in \<open>simp_all add: u_def\<close>)
    ultimately show ?thesis by blast
  qed
qed

section \<open>readi\<close>

lemma rd_same_refl: "rd_ok s \<Longrightarrow> rd_same s s"
  by (simp add: rd_same_def)

lemma rd_same_trans: "rd_same s t \<Longrightarrow> rd_same t u \<Longrightarrow> rd_same s u"
  using bio_frame_trans by (auto simp: rd_same_def)

lemma bio_frame_icache:
  assumes "bio_frame s t"
  shows "icache t = icache s" "sb t = sb s"
  by (subst assms [unfolded bio_frame_def], simp)+

lemma rd_peek:
  assumes ok: "rd_ok s" and bn: "unat bn < length (memdisk s)"
  shows "\<exists>i t u. bread 1 bn s = Ret (i, t) \<and> bdata (bufs t ! i) = view s bn \<and> bio_frame s t \<and> brelse i t = Ret u \<and> rd_same s u"
proof -
  have inv: "bio_inv s" and h: "held s = {}" and pc: "card (pinned s) < NBUF" using ok by (simp_all add: rd_ok_def)
  have room: "card (held s \<union> pinned s) < NBUF \<or> (\<exists>j. cached s bn j)" and nh: "bn \<notin> held s" using h pc by simp_all
  obtain i t where r: "bread 1 bn s = Ret (i, t)" "bread_post bn s i t" using bread_spec [OF inv bn nh room] .
  note p = bread_postD [OF r(2)]
  have clean: "bn \<in> pinned t \<or> view t bn = memdisk t ! unat bn" using view_clean [OF inv nh] p(5-7) by auto
  obtain u where u: "brelse i t = Ret u" "brelse_post bn t u" using brelse_spec [OF p(1,3) _ clean] p(4) by blast
  note q = brelse_postD [OF u(2)]
  have "rd_same s u" using p q h pc bio_frame_trans [OF p(2) q(2)] by (simp add: rd_same_def rd_ok_def)
  then show ?thesis using r(1) p(2,9) u(1) by blast
qed

lemma bmap_read:
  assumes ok: "rd_ok s" and ip: "idev (icache s ! i) = 1" and n: "n < MAXFILE"
    and a: "faddr (view s) (icache s ! i) n = a" "a \<noteq> 0"
    and ind: "addrs (icache s ! i) ! NDIRECT \<noteq> 0 \<Longrightarrow> unat (addrs (icache s ! i) ! NDIRECT) < length (memdisk s)"
  shows "\<exists>t. bmap i n s = Ret (a, t) \<and> rd_same s t"
proof (cases "n < NDIRECT")
  case True
  then show ?thesis using a rd_same_refl [OF ok] by (simp add: bmap_def faddr_def)
next
  case False
  let ?ind = "addrs (icache s ! i) ! NDIRECT"
  have nz: "?ind \<noteq> 0" using a False by (auto simp: faddr_def)
  obtain bp t u where r: "bread 1 ?ind s = Ret (bp, t)" "bdata (bufs t ! bp) = view s ?ind" "bio_frame s t"
    "brelse bp t = Ret u" "rd_same s u"
    using rd_peek [OF ok ind [OF nz]] by blast
  have "rd32 (view s ?ind) (4 * (n - NDIRECT)) = a" using a False nz by (simp add: faddr_def)
  then have "bmap i n s = Ret (a, u)" using False n nz r a ip by (simp add: bmap_def Let_def)
  then show ?thesis using r(5) by blast
qed

lemma slice_fbyte:
  assumes "length (fblk v ip (off div BSIZE)) = BSIZE" "m \<le> BSIZE - off mod BSIZE"
  shows "get_bytes (off mod BSIZE) m (fblk v ip (off div BSIZE)) = map (fbyte v ip) [off..<off + m]"
proof (rule nth_equalityI)
  have fits: "off mod BSIZE + m \<le> BSIZE" using assms(2) mod_BSIZE [of off] by linarith
  show "length (get_bytes (off mod BSIZE) m (fblk v ip (off div BSIZE))) = length (map (fbyte v ip) [off..<off + m])"
    using assms(1) fits by simp
  fix k
  assume "k < length (get_bytes (off mod BSIZE) m (fblk v ip (off div BSIZE)))"
  then have k: "k < m" using assms(1) fits by simp
  have "off \<le> off + k \<and> off + k < off + m" using k by simp
  then have e: "(off + k) div BSIZE = off div BSIZE" using chunk_range [OF assms(2), of "off + k"] by blast
  then have "(off + k) mod BSIZE = off mod BSIZE + k"
    using div_mult_mod_eq [of "off + k" BSIZE] div_mult_mod_eq [of off BSIZE] by linarith
  then show "get_bytes (off mod BSIZE) m (fblk v ip (off div BSIZE)) ! k = map (fbyte v ip) [off..<off + m] ! k"
    using k e assms(1) fits by (simp add: nth_get_bytes fbyte_def)
qed

lemma readi_loop_spec:
  assumes "rd_ok s" "idev (icache s ! i) = 1" "off + n \<le> MAXFILE * BSIZE"
    and "addrs (icache s ! i) ! NDIRECT \<noteq> 0 \<Longrightarrow> unat (addrs (icache s ! i) ! NDIRECT) < length (memdisk s)"
    and "\<And>p. off \<le> p \<Longrightarrow> p < off + n \<Longrightarrow> faddr (view s) (icache s ! i) (p div BSIZE) \<noteq> 0 \<and>
      unat (faddr (view s) (icache s ! i) (p div BSIZE)) < length (memdisk s)"
  shows "\<exists>t. readi_loop i off n s = Ret (map (fbyte (view s) (icache s ! i)) [off..<off + n], t) \<and> rd_same s t"
  using assms
proof (induction n arbitrary: off s rule: less_induct)
  case (less n)
  note ok = less.prems(1) and ip = less.prems(2)
  let ?ip = "icache s ! i"
  show ?case
  proof (cases "n = 0")
    case True
    then show ?thesis using rd_same_refl [OF ok] by (simp add: readi_loop.simps)
  next
    case False
    let ?m = "chunk off n" and ?a = "faddr (view s) ?ip (off div BSIZE)"
    have mpos: "0 < ?m" using False mod_BSIZE [of off] by simp
    have k: "off div BSIZE < MAXFILE" using less.prems(3) False by (simp add: less_mult_imp_div_less)
    have a: "?a \<noteq> 0" "unat ?a < length (memdisk s)" using less.prems(5) [of off] False by simp_all
    obtain t where t: "bmap i (off div BSIZE) s = Ret (?a, t)" "rd_same s t"
      using bmap_read [OF ok ip k refl a(1) less.prems(4)] by blast
    have st: "icache t = icache s" "rd_ok t" "view t = view s" "memdisk t = memdisk s"
      using t(2) bio_frame_icache(1) [of s t] by (simp_all add: rd_same_def)
    obtain bp u w where r: "bread 1 ?a t = Ret (bp, u)" "bdata (bufs u ! bp) = view t ?a" "bio_frame t u" "brelse bp u = Ret w" "rd_same t w"
      using rd_peek [OF st(2), of ?a] a st(4) by auto
    have sw: "icache w = icache s" "rd_ok w" "view w = view s" "memdisk w = memdisk s"
      using r(5) st bio_frame_icache(1) [of t w] by (simp_all add: rd_same_def)
    have "\<exists>x. readi_loop i (off + ?m) (n - ?m) w = Ret (map (fbyte (view w) (icache w ! i)) [off + ?m..<off + ?m + (n - ?m)], x) \<and> rd_same w x"
    proof (rule less.IH)
      show "n - ?m < n" using mpos False by simp
      show "off + ?m + (n - ?m) \<le> MAXFILE * BSIZE" using less.prems(3) by simp
      show "faddr (view w) (icache w ! i) (p div BSIZE) \<noteq> 0 \<and> unat (faddr (view w) (icache w ! i) (p div BSIZE)) < length (memdisk w)"
        if "off + ?m \<le> p" "p < off + ?m + (n - ?m)" for p
        using less.prems(5) [of p] that unfolding sw by simp
    qed (use sw less.prems(2,4) in simp_all)
    then obtain x where x: "readi_loop i (off + ?m) (n - ?m) w = Ret (map (fbyte (view s) ?ip) [off + ?m..<off + ?m + (n - ?m)], x)" "rd_same w x"
      unfolding sw by blast
    have "length (view s ?a) = BSIZE" using length_view [of s ?a] ok a(2) by (simp add: rd_ok_def)
    then have "get_bytes (off mod BSIZE) ?m (view s ?a) = map (fbyte (view s) ?ip) [off..<off + ?m]"
      using slice_fbyte [of "view s" ?ip off ?m] a(1) by (simp add: fblk_def)
    moreover have "[off..<off + n] = [off..<off + ?m] @ [off + ?m..<off + ?m + (n - ?m)]"
      using upt_add_eq_append [of off "off + ?m" "n - ?m"] by simp
    ultimately have "readi_loop i off n s = Ret (map (fbyte (view s) ?ip) [off..<off + n], x)"
      using False t(1) st ip r(1,2,4) x(1) by (subst readi_loop.simps) (simp add: Let_def)
    then show ?thesis using rd_same_trans [OF t(2) rd_same_trans [OF r(5) x(2)]] by blast
  qed
qed

lemma readi_spec:
  assumes ok: "rd_ok s" and f: "file_ok (view s) (sb s) (icache s ! i)" and sz: "unat (sb_size (sb s)) \<le> length (memdisk s)"
    and nh: "no_holes (view s) (icache s ! i)" and ty: "itype (icache s ! i) \<noteq> T_DEV"
    and off: "unat off \<le> unat (isize (icache s ! i))" "unat off + unat n < 4294967296"
  shows "\<exists>t. readi devsw i off n s =
      Ret (int (min (unat n) (unat (isize (icache s ! i)) - unat off)),
           take (unat n) (drop (unat off) (fcontents (view s) (icache s ! i))), t) \<and> rd_same s t"
proof -
  let ?ip = "icache s ! i"
  define m where "m = (if off + n > isize ?ip then isize ?ip - off else n)"
  have uo: "unat (off + n) = unat off + unat n" using off(2) by (simp add: unat_word_ariths)
  have um: "unat m = min (unat n) (unat (isize ?ip) - unat off)"
    using uo off(1) by (simp add: m_def word_less_nat_alt unat_sub word_le_nat_alt)
  have le: "unat off + unat m \<le> unat (isize ?ip)" using um off(1) by simp
  then have le': "unat off + unat m \<le> MAXFILE * BSIZE" using nh unfolding no_holes_def by linarith
  have dk: "unat a < length (memdisk s)" if "data_ok (view s) (sb s) a" for a
    using that sz by (simp add: data_ok_def)
  have "\<exists>t. readi_loop i (unat off) (unat m) s = Ret (map (fbyte (view s) ?ip) [unat off..<unat off + unat m], t) \<and> rd_same s t"
  proof (rule readi_loop_spec [OF ok file_okD(1) [OF f] le'])
    show "unat (addrs ?ip ! NDIRECT) < length (memdisk s)" if "addrs ?ip ! NDIRECT \<noteq> 0"
      using file_okD(5) [OF f that] dk by blast
    show "faddr (view s) ?ip (p div BSIZE) \<noteq> 0 \<and> unat (faddr (view s) ?ip (p div BSIZE)) < length (memdisk s)"
      if "p < unat off + unat m" for p
    proof -
      have p: "p < unat (isize ?ip)" "p div BSIZE < MAXFILE"
        using that le le' by (simp_all add: less_mult_imp_div_less)
      then have "faddr (view s) ?ip (p div BSIZE) \<noteq> 0" using nh by (simp add: no_holes_def)
      then show ?thesis using file_okD(3) [OF f p(2)] dk by blast
    qed
  qed
  moreover have "map (fbyte (view s) ?ip) [unat off..<unat off + unat m] = take (unat n) (drop (unat off) (fcontents (view s) ?ip))"
  proof (rule nth_equalityI)
    fix k
    assume "k < length (map (fbyte (view s) ?ip) [unat off..<unat off + unat m])"
    then have "k < unat n" "unat off + k < unat (isize ?ip)" using um by (simp_all add: less_diff_conv add.commute)
    then show "map (fbyte (view s) ?ip) [unat off..<unat off + unat m] ! k =
        take (unat n) (drop (unat off) (fcontents (view s) ?ip)) ! k" using um by (simp add: nth_fcontents)
  qed (use um off(1) in simp)
  moreover have "sint m = int (min (unat n) (unat (isize ?ip) - unat off))"
    using sint_small [of m] um le' by simp
  moreover have "\<not> off > isize ?ip" "\<not> off + n < off" using off uo by (simp_all add: word_less_nat_alt)
  ultimately show ?thesis using ty unfolding readi_def m_def Let_def by auto
qed

section \<open>Properties\<close>

lemma fs0_file:
  "file_ok (view fs0) (sb fs0) (icache fs0 ! 0)" "no_holes (view fs0) (icache fs0 ! 0)" "itype (icache fs0 ! 0) \<noteq> T_DEV"
  "0 < length (icache fs0)" "unat (inum (icache fs0 ! 0)) \<le> unat (sb_ninodes (sb fs0))"
  by (simp_all add: file_ok_def no_holes_def faddr_def ip0_def zeroinode_def sb0_def)

lemma fs0_free: "2 \<le> card (free_blocks fs0)"
proof -
  have "{38, 39} \<subseteq> free_blocks fs0" using fs0_used [of 38] fs0_used [of 39] by (simp add: free_blocks_def sb0_def)
  then have "card {38 :: uint, 39} \<le> card (free_blocks fs0)" by (rule card_mono [rotated]) simp
  then show ?thesis by simp
qed

lemma fs0_rd: "rd_ok fs0" "unat (sb_size (sb fs0)) \<le> length (memdisk fs0)"
  using fs0_bio by (simp_all add: rd_ok_def sb0_def disk0_simps)

text \<open>
  C15. Writing a file: inside a transaction with enough reserved log space and free blocks, \<open>writei\<close>
  of \<open>src\<close> at \<open>off\<close> returns the number of bytes and the file then consists of its old contents with
  \<open>src\<close> in place of what was there, extended when \<open>src\<close> reaches past the end; the file stays without
  holes, its blocks distinct and allocated, and no block of another file changes. A start past the
  end of the file or an end past \<open>MAXFILE\<close> blocks gives \<open>-1\<close> and changes nothing.
\<close>

theorem writei_correct:
  assumes "fs_ok s" "held s = {}" "i < length (icache s)" "file_ok (view s) (sb s) (icache s ! i)"
    and "no_holes (view s) (icache s ! i)" "itype (icache s ! i) \<noteq> T_DEV"
    and "unat (inum (icache s ! i)) \<le> unat (sb_ninodes (sb s))" and len: "length src < 2147483648"
    and "credit (6 * nchunks (unat off) (length src) + 2) s" "2 * nchunks (unat off) (length src) \<le> card (free_blocks s)"
  shows "if unat off > unat (isize (icache s ! i)) \<or> unat off + length src > MAXFILE * BSIZE
    then writei devsw i src off s = Ret (- 1, s)
    else \<exists>t. writei devsw i src off s = Ret (int (length src), t) \<and> writei_post i (unat off) src s t"
proof (cases "unat off > unat (isize (icache s ! i)) \<or> unat off + length src > MAXFILE * BSIZE")
  case True
  let ?n = "of_nat (length src) :: uint"
  have un: "unat ?n = length src" using len by (simp add: unat_of_nat)
  have "off > isize (icache s ! i) \<or> off + ?n < off \<or> off + ?n > 71680"
  proof (cases "unat off + length src < 4294967296")
    case lt: True
    then have "unat (off + ?n) = unat off + length src" using un by (simp add: unat_word_ariths)
    then show ?thesis using True by (auto simp: word_less_nat_alt)
  next
    case False
    then have "unat (off + ?n) = unat off + length src - 4294967296"
      using un len unsigned_less [of off, where 'a = nat] by (simp add: unat_word_ariths mod_if)
    then have "unat (off + ?n) < unat off" using len False by linarith
    then show ?thesis by (simp add: word_less_nat_alt)
  qed
  then show ?thesis using True assms(6) unfolding writei_def Let_def by auto
next
  case False
  then have "off \<le> isize (icache s ! i)" "unat off + length src \<le> MAXFILE * BSIZE" by (simp_all add: word_le_nat_alt)
  then show ?thesis using False writei_spec [OF assms(1-7) _ _ assms(9,10)] by auto
qed

theorem writei_correct_witness:
  "writei (\<lambda>_. (None, None)) 0 [104, 105] 1 fs0 = Ret (- 1, fs0) \<and>
   (\<exists>t. writei (\<lambda>_. (None, None)) 0 [104, 105] 0 fs0 = Ret (2, t) \<and> fcontents (view t) (icache t ! 0) = [104, 105])"
proof -
  have cr: "credit (6 * nchunks (unat off) (length [104, 105 :: byte]) + 2) fs0" if "off < (2 :: uint)" for off
    by (rule credit_mono [OF fs0_credit]) (use that in \<open>simp add: nchunks_def word_less_nat_alt\<close>)
  have fr: "2 * nchunks (unat off) (length [104, 105 :: byte]) \<le> card (free_blocks fs0)" if "off < (2 :: uint)" for off
    using fs0_free that by (simp add: nchunks_def word_less_nat_alt)
  note w = writei_correct [OF fs0_ok fs0_bio(2) fs0_file(4,1,2,3,5) _ cr fr, where devsw = "\<lambda>_. (None, None)"]
  show ?thesis using w [of 1] w [of 0] by (auto simp: writei_post_def ip0_def zeroinode_def fcontents_def)
qed

text \<open>
  C16. Reading a file: \<open>readi\<close> returns exactly the bytes of the file from \<open>off\<close>, at most \<open>n\<close> of them and
  none past the end, together with their number, and leaves the contents of every block as they
  were; a start past the end or a wrap-around of \<open>off + n\<close> gives \<open>-1\<close>. Only a free buffer is needed, no
  transaction.
\<close>

theorem readi_correct:
  assumes "rd_ok s" "file_ok (view s) (sb s) (icache s ! i)" "unat (sb_size (sb s)) \<le> length (memdisk s)"
    and "no_holes (view s) (icache s ! i)" "itype (icache s ! i) \<noteq> T_DEV"
  shows "if unat off > unat (isize (icache s ! i)) \<or> unat off + unat n \<ge> 4294967296
    then readi devsw i off n s = Ret (- 1, [], s)
    else \<exists>d t. readi devsw i off n s = Ret (int (length d), d, t) \<and>
           d = take (unat n) (drop (unat off) (fcontents (view s) (icache s ! i))) \<and> rd_same s t"
proof (cases "unat off > unat (isize (icache s ! i)) \<or> unat off + unat n \<ge> 4294967296")
  case True
  have "off > isize (icache s ! i) \<or> off + n < off"
  proof (cases "unat off + unat n < 4294967296")
    case False
    then have "unat (off + n) = unat off + unat n - 4294967296"
      using unsigned_less [of off, where 'a = nat] unsigned_less [of n, where 'a = nat] by (simp add: unat_word_ariths mod_if)
    then have "unat (off + n) < unat off" using False unsigned_less [of n, where 'a = nat] by simp
    then show ?thesis by (simp add: word_less_nat_alt)
  qed (use True in \<open>simp add: word_less_nat_alt\<close>)
  then show ?thesis using True assms(5) unfolding readi_def Let_def by auto
next
  case False
  then show ?thesis using readi_spec [OF assms] by (auto simp: min.commute)
qed

theorem readi_correct_witness:
  "readi (\<lambda>_. (None, None)) 0 1 5 fs0 = Ret (- 1, [], fs0) \<and>
   (\<exists>t. readi (\<lambda>_. (None, None)) 0 0 5 fs0 = Ret (0, [], t) \<and> rd_same fs0 t)"
  using readi_correct [OF fs0_rd(1) fs0_file(1) fs0_rd(2) fs0_file(2,3), of 1 5 "\<lambda>_. (None, None)"]
    readi_correct [OF fs0_rd(1) fs0_file(1) fs0_rd(2) fs0_file(2,3), of 0 5 "\<lambda>_. (None, None)"]
  by (auto simp: ip0_def zeroinode_def fcontents_def)

text \<open>
  C17. What is written is read back: after a successful \<open>writei\<close> of \<open>src\<close> at \<open>off\<close>, \<open>readi\<close> of as many bytes
  at the same place returns \<open>src\<close>, and \<open>readi\<close> of the bytes before \<open>off\<close> returns what it returned before.
\<close>

theorem writei_readi:
  assumes "fs_ok s" "held s = {}" "i < length (icache s)" "file_ok (view s) (sb s) (icache s ! i)"
    and "no_holes (view s) (icache s ! i)" "itype (icache s ! i) \<noteq> T_DEV"
    and "unat (inum (icache s ! i)) \<le> unat (sb_ninodes (sb s))"
    and off: "off \<le> isize (icache s ! i)" "unat off + length src \<le> MAXFILE * BSIZE"
    and "credit (6 * nchunks (unat off) (length src) + 2) s" "2 * nchunks (unat off) (length src) \<le> card (free_blocks s)"
  shows "\<exists>t. writei devsw i src off s = Ret (int (length src), t) \<and>
    (\<exists>u. readi devsw i off (of_nat (length src)) t = Ret (int (length src), src, u)) \<and>
    (\<exists>u. readi devsw i 0 off t = Ret (int (unat off), take (unat off) (fcontents (view s) (icache s ! i)), u))"
proof -
  let ?n = "of_nat (length src) :: uint" and ?c = "fcontents (view s) (icache s ! i)"
  have un: "unat ?n = length src" using off(2) by (simp add: unat_of_nat)
  have lc: "unat off \<le> length ?c" using off(1) by (simp add: word_le_nat_alt)
  obtain t where w: "writei devsw i src off s = Ret (int (length src), t)" "writei_post i (unat off) src s t"
    using writei_spec [OF assms] by blast
  note p = w(2) [unfolded writei_post_def]
  have e: "icache t ! i = (icache s ! i)\<lparr>isize := isize (icache t ! i), addrs := addrs (icache t ! i)\<rparr>" using p by blast
  have "itype (icache t ! i) = itype (icache s ! i)" by (subst e) simp
  then have ty: "itype (icache t ! i) \<noteq> T_DEV" using assms(6) by simp
  have sz: "unat (sb_size (sb t)) \<le> length (memdisk t)"
    using p fs_okD(2) [of t] by (simp add: fs_geom_def)
  have r: "\<exists>u. readi devsw i o' m t = Ret (int (min (unat m) (unat (isize (icache t ! i)) - unat o')),
      take (unat m) (drop (unat o') (fcontents (view t) (icache t ! i))), u)"
    if "unat o' \<le> unat (isize (icache t ! i))" "unat o' + unat m < 4294967296" for o' m
    using readi_spec [of t i o' m devsw] p ty sz that by blast
  have fc: "fcontents (view t) (icache t ! i) = take (unat off) ?c @ src @ drop (unat off + length src) ?c" using p by blast
  have "length (fcontents (view t) (icache t ! i)) = max (length ?c) (unat off + length src)" unfolding fc using lc by simp
  then have "unat (isize (icache t ! i)) = max (length ?c) (unat off + length src)" by simp
  moreover have "length ?c \<le> MAXFILE * BSIZE" using assms(5) by (simp add: no_holes_def)
  ultimately show ?thesis using w(1) r [of off ?n] r [of 0 off] un lc off(2) unfolding fc by auto
qed

theorem writei_readi_witness:
  "\<exists>t. writei (\<lambda>_. (None, None)) 0 [104, 105] 0 fs0 = Ret (2, t) \<and>
     (\<exists>u. readi (\<lambda>_. (None, None)) 0 0 2 t = Ret (2, [104, 105], u))"
proof -
  have cr: "credit (6 * nchunks (unat (0 :: uint)) (length [104, 105 :: byte]) + 2) fs0"
    by (rule credit_mono [OF fs0_credit]) (simp add: nchunks_def)
  have fr: "2 * nchunks (unat (0 :: uint)) (length [104, 105 :: byte]) \<le> card (free_blocks fs0)"
    using fs0_free by (simp add: nchunks_def)
  show ?thesis
    using writei_readi [OF fs0_ok fs0_bio(2) fs0_file(4,1,2,3,5) _ _ cr fr, of "\<lambda>_. (None, None)"] by auto
qed

lemma brelse_updinode: "brelse b s = Ret t \<Longrightarrow> brelse b (updinode j ip s) = Ret (updinode j ip t)"
  by (auto simp: brelse_def updinode_def updbuf_def Let_def split: if_splits)

text \<open>
  C18. The on-disk inode survives: after \<open>iupdate\<close> of a cached inode, \<open>ilock\<close> of another cache entry for
  the same inode that has not been read yet takes its lock and finds the type, device numbers,
  link count, size and block addresses that were stored; a stored type of 0 makes it panic instead.
\<close>

theorem iupdate_ilock:
  assumes ok: "fs_ok s" "held s = {}" "credit 2 s"
    and ip: "unat (inum (icache s ! i)) \<le> unat (sb_ninodes (sb s))" "idev (icache s ! i) = 1" "length (addrs (icache s ! i)) = NDIRECT + 1"
    and jp: "j < length (icache s)" "iref (icache s ! j) \<ge> 1" "\<not> slocked (ilk (icache s ! j))" "\<not> valid (icache s ! j)"
      "idev (icache s ! j) = 1" "inum (icache s ! j) = inum (icache s ! i)"
  shows "\<exists>t. iupdate i s = Ret t \<and>
    (if itype (icache s ! i) = 0 then ilock j t = Panic ''ilock: no type''
     else \<exists>u. ilock j t = Ret u \<and> icache u ! j = (icache s ! i)\<lparr>iref := iref (icache s ! j),
       ilk := \<lparr>slocked = True, spid = curpid s\<rparr>, valid := True\<rparr>)"
proof -
  let ?ip = "icache s ! i" and ?jp = "icache s ! j"
  have cr: "credit (Suc (Suc 0)) s" using ok(3) by (simp add: numeral_2_eq_2)
  obtain t where t: "iupdate i s = Ret t" "txn s (iupdate_view s ?ip) t" "fs_ok t" "credit (Suc 0) t"
    using iupdate_spec [OF ok(1,2) cr ip] by blast
  note tt = txnD [OF t(2)] and fr = kfs_frame [OF txnD(2) [OF t(2)]]
  let ?bn = "IBLOCK (inum ?ip) (sb s)" and ?lk = "\<lparr>slocked = True, spid = curpid s\<rparr>"
  have cp: "curpid t = curpid s" by (subst txnD(2) [OF t(2), unfolded log_frame_def]) simp
  note ib = IBLOCK_unat [OF fs_okD(2) [OF ok(1)] ip(1)]
  have vb: "view t ?bn = put_dinode (ioff (inum ?ip)) ?ip (view s ?bn)" by (simp add: tt(6) iupdate_view_def)
  have len: "length (view s ?bn) = BSIZE" by (rule fs_okD(5) [OF ok(1) ib(6)])
  define v where "v = updinode j (?jp\<lparr>ilk := ?lk\<rparr>) t"
  have rv: "rd_ok v" "view v = view t" "memdisk v = memdisk t"
    using credit_rd_ok [OF t(3) _ t(4)] tt(3) ok(2) by (simp_all add: v_def rd_ok_def)
  obtain b x y where r: "bread 1 ?bn v = Ret (b, x)" "bdata (bufs x ! b) = view v ?bn" "bio_frame v x" "brelse b x = Ret y" "rd_same v y"
    using rd_peek [OF rv(1)] ib(3) tt(4) rv(3) by metis
  let ?kp = "get_dinode (ioff (inum ?ip)) (view v ?bn) (?jp\<lparr>ilk := ?lk\<rparr>)"
  have ix: "icache x = (icache s)[j := ?jp\<lparr>ilk := ?lk\<rparr>]" using bio_frame_icache(1) [OF r(3)] fr(2) by (simp add: v_def)
  have rel: "brelse b (updinode j ?kp x) = Ret (updinode j ?kp y)" by (rule brelse_updinode [OF r(4)])
  have kp: "?kp = ?jp\<lparr>ilk := ?lk, itype := itype ?ip, major := major ?ip, minor := minor ?ip, nlink := nlink ?ip, isize := isize ?ip, addrs := addrs ?ip\<rparr>"
    using get_put_dinode [of "ioff (inum ?ip)" "view s ?bn" ?ip] ioff_bound ip(3) len by (simp add: rv(2) vb)
  have "ilock j t = (if itype ?ip = 0 then Panic ''ilock: no type'' else Ret (updinode j (?kp\<lparr>valid := True\<rparr>) (updinode j ?kp y)))"
    using jp fr r(1,2) rel ix cp unfolding ilock_def acquiresleep_def Let_def
    by (simp add: v_def [symmetric] sleeplock_all_fields kp)
  moreover have "?kp\<lparr>valid := True\<rparr> = ?ip\<lparr>iref := iref ?jp, ilk := ?lk, valid := True\<rparr>"
    using ip(2) jp(5,6) unfolding kp by (cases ?ip; cases ?jp) simp
  moreover have "j < length (icache y)" using r(5) bio_frame_icache(1) [of v y] jp(1) fr(2) by (simp add: rd_same_def v_def)
  ultimately show ?thesis using t(1) by simp
qed

theorem iupdate_ilock_witness:
  "\<exists>t u. iupdate 0 (updinode 1 (zeroinode\<lparr>idev := 1, inum := 2, iref := 1\<rparr>) fs0) = Ret t \<and> ilock 1 t = Ret u \<and>
     itype (icache u ! 1) = T_FILE \<and> nlink (icache u ! 1) = 1 \<and> valid (icache u ! 1)"
proof -
  let ?s = "updinode 1 (zeroinode\<lparr>idev := 1, inum := 2, iref := 1\<rparr>) fs0"
  have "credit 2 ?s" using credit_mono [OF fs0_credit, of 2] by simp
  then show ?thesis
    using iupdate_ilock [of ?s 0 1] fs0_ok fs0_bio(2) by (auto simp: ip0_def zeroinode_def sb0_def initsleeplock_def)
qed

end
