(* ===== verification/Dir.thy ===== *)
theory Dir
  imports FsIo Strings
begin

text \<open>
  Directories and path names of \<open>xv6/fs.c\<close>. A directory is a file of 16-byte entries; path names
  and name buffers are byte lists, without the terminating NUL for paths.
\<close>

section \<open>Directory entries\<close>

abbreviation "DESIZE \<equiv> (16 :: nat)"

definition namecmp :: "byte list \<Rightarrow> byte list \<Rightarrow> int" where
  "namecmp s t = strncmp_bytes (take DIRSIZ s) (take DIRSIZ t)"

definition mk_dirent :: "ushort \<Rightarrow> byte list \<Rightarrow> byte list" where
  "mk_dirent n name = le16 n @ name"

text \<open>
  The offsets that \<open>for (off = 0; off < dp->size; off += sizeof(de))\<close> visits. They do not wrap
  around: \<open>readi\<close> refuses the only entry that could.
\<close>

definition de_offs :: "uint \<Rightarrow> nat list" where
  "de_offs sz = map (\<lambda>k. DESIZE * k) [0..<(unat sz + (DESIZE - 1)) div DESIZE]"

fun dirlookup_loop :: "'a kfs_scheme devsw \<Rightarrow> nat \<Rightarrow> byte list \<Rightarrow> nat list \<Rightarrow> 'a kfs_scheme \<Rightarrow>
    ((nat \<times> nat) option \<times> 'a kfs_scheme) res" where
  "dirlookup_loop devsw dp name [] s = Ret (None, s)"
| "dirlookup_loop devsw dp name (off # offs) s =
     bindR (readi devsw dp (of_nat off) (of_nat DESIZE) s) (\<lambda>(r, de, s).
     if r \<noteq> int DESIZE then Panic ''dirlookup read''
     else if rd16 de 0 = 0 then dirlookup_loop devsw dp name offs s
     else if namecmp name (drop 2 de) = 0 then
       bindR (iget (idev (icache s ! dp)) (ucast (rd16 de 0)) s) (\<lambda>(ip, s). Ret (Some (off, ip), s))
     else dirlookup_loop devsw dp name offs s)"

definition dirlookup :: "'a kfs_scheme devsw \<Rightarrow> nat \<Rightarrow> byte list \<Rightarrow> 'a kfs_scheme \<Rightarrow>
    ((nat \<times> nat) option \<times> 'a kfs_scheme) res" where
  "dirlookup devsw dp name s =
     (if itype (icache s ! dp) \<noteq> T_DIR then Panic ''dirlookup not DIR''
      else dirlookup_loop devsw dp name (de_offs (isize (icache s ! dp))) s)"

fun dirlink_slot :: "'a kfs_scheme devsw \<Rightarrow> nat \<Rightarrow> nat list \<Rightarrow> 'a kfs_scheme \<Rightarrow> (nat \<times> 'a kfs_scheme) res" where
  "dirlink_slot devsw dp [] s = Ret (DESIZE * length (de_offs (isize (icache s ! dp))), s)"
| "dirlink_slot devsw dp (off # offs) s =
     bindR (readi devsw dp (of_nat off) (of_nat DESIZE) s) (\<lambda>(r, de, s).
     if r \<noteq> int DESIZE then Panic ''dirlink read''
     else if rd16 de 0 = 0 then Ret (off, s)
     else dirlink_slot devsw dp offs s)"

definition dirlink :: "'a kfs_scheme devsw \<Rightarrow> nat \<Rightarrow> byte list \<Rightarrow> uint \<Rightarrow> 'a kfs_scheme \<Rightarrow> (int \<times> 'a kfs_scheme) res" where
  "dirlink devsw dp name n s =
     bindR (dirlookup devsw dp name s) (\<lambda>(found, s).
     case found of
       Some (_, ip) \<Rightarrow> bindR (iput ip s) (\<lambda>s. Ret (- 1, s))
     | None \<Rightarrow>
         bindR (dirlink_slot devsw dp (de_offs (isize (icache s ! dp))) s) (\<lambda>(off, s).
         bindR (writei devsw dp (mk_dirent (ucast n) (pad0 DIRSIZ (cname (take DIRSIZ name)))) (of_nat off) s) (\<lambda>(r, s).
         if r \<noteq> int DESIZE then Panic ''dirlink'' else Ret (0, s))))"

section \<open>Path names\<close>

abbreviation "SLASH \<equiv> (47 :: byte)"

text \<open>\<open>name\<close> is the \<open>DIRSIZ\<close>-byte buffer of the caller; \<open>None\<close> stands for the null pointer.\<close>

definition skipelem :: "byte list \<Rightarrow> byte list \<Rightarrow> (byte list \<times> byte list) option" where
  "skipelem path name =
     (let path = dropWhile (\<lambda>c. c = SLASH) path in
      if path = [] then None
      else
        let s = takeWhile (\<lambda>c. c \<noteq> SLASH) path;
            path = dropWhile (\<lambda>c. c \<noteq> SLASH) path;
            len = length s;
            name = (if len \<ge> DIRSIZ then put_bytes 0 (take DIRSIZ s) name else put_bytes 0 (s @ [0]) name)
        in Some (dropWhile (\<lambda>c. c = SLASH) path, name))"

lemma skipelem_shorter:
  assumes "skipelem path name = Some (path', name')"
  shows "length path' < length path"
proof -
  let ?p = "dropWhile (\<lambda>c. c = SLASH) path"
  have ne: "?p \<noteq> []" and p': "path' = dropWhile (\<lambda>c. c = SLASH) (dropWhile (\<lambda>c. c \<noteq> SLASH) ?p)"
    using assms by (auto simp: skipelem_def Let_def split: if_splits)
  obtain c cs where c: "?p = c # cs" using ne by (cases ?p) auto
  then have "c \<noteq> SLASH" using hd_dropWhile [OF ne] by simp
  then have "length path' \<le> length cs" unfolding p' c by (simp add: order_trans [OF length_dropWhile_le length_dropWhile_le])
  also have "\<dots> < length ?p" using c by simp
  also have "\<dots> \<le> length path" by (rule length_dropWhile_le)
  finally show ?thesis .
qed

function namex_loop :: "'a kfs_scheme devsw \<Rightarrow> byte list \<Rightarrow> bool \<Rightarrow> byte list \<Rightarrow> nat \<Rightarrow> 'a kfs_scheme \<Rightarrow>
    ((nat \<times> byte list) option \<times> 'a kfs_scheme) res" where
  "namex_loop devsw path parent name ip s =
     (case skipelem path name of
        None \<Rightarrow>
          if parent then bindR (iput ip s) (\<lambda>s. Ret (None, s)) else Ret (Some (ip, name), s)
      | Some (path', name') \<Rightarrow>
          bindR (ilock ip s) (\<lambda>s.
          if itype (icache s ! ip) \<noteq> T_DIR then bindR (iunlockput ip s) (\<lambda>s. Ret (None, s))
          else if parent \<and> path' = [] then bindR (iunlock ip s) (\<lambda>s. Ret (Some (ip, name'), s))
          else
            bindR (dirlookup devsw ip name' s) (\<lambda>(next, s).
            case next of
              None \<Rightarrow> bindR (iunlockput ip s) (\<lambda>s. Ret (None, s))
            | Some (_, nip) \<Rightarrow> bindR (iunlockput ip s) (\<lambda>s. namex_loop devsw path' parent name' nip s))))"
  by pat_completeness auto
termination
  by (relation "measure (\<lambda>(devsw, path, parent, name, ip, s). length path)") (auto dest: skipelem_shorter)

declare namex_loop.simps [simp del]

definition namex :: "'a kfs_scheme devsw \<Rightarrow> byte list \<Rightarrow> bool \<Rightarrow> byte list \<Rightarrow> 'a kfs_scheme \<Rightarrow>
    ((nat \<times> byte list) option \<times> 'a kfs_scheme) res" where
  "namex devsw path parent name s =
     bindR (if path \<noteq> [] \<and> hd path = SLASH then iget ROOTDEV ROOTINO s else Ret (cwd s, idup (cwd s) s))
       (\<lambda>(ip, s). namex_loop devsw path parent name ip s)"

text \<open>The name buffer of \<open>namei\<close> is uninitialised; \<open>name\<close> stands for what it holds.\<close>

definition namei :: "'a kfs_scheme devsw \<Rightarrow> byte list \<Rightarrow> byte list \<Rightarrow> 'a kfs_scheme \<Rightarrow> (nat option \<times> 'a kfs_scheme) res" where
  "namei devsw name path s =
     bindR (namex devsw path False name s) (\<lambda>(r, s). Ret (map_option fst r, s))"

definition nameiparent :: "'a kfs_scheme devsw \<Rightarrow> byte list \<Rightarrow> byte list \<Rightarrow> 'a kfs_scheme \<Rightarrow>
    ((nat \<times> byte list) option \<times> 'a kfs_scheme) res" where
  "nameiparent devsw path name s = namex devsw path True name s"

section \<open>Path elements\<close>

text \<open>The reference for \<open>skipelem\<close>: the nonempty segments between slashes.\<close>

primrec segs :: "byte list \<Rightarrow> byte list list" where
  "segs [] = [[]]"
| "segs (c # cs) = (if c = SLASH then [] # segs cs else (c # hd (segs cs)) # tl (segs cs))"

definition path_elems :: "byte list \<Rightarrow> byte list list" where
  "path_elems p = filter (\<lambda>e. e \<noteq> []) (segs p)"

lemma segs_ne [simp]: "segs p \<noteq> []"
  by (cases p) auto

lemma segs_takeWhile: "segs p = takeWhile (\<lambda>c. c \<noteq> SLASH) p #
    (case dropWhile (\<lambda>c. c \<noteq> SLASH) p of [] \<Rightarrow> [] | _ # q \<Rightarrow> segs q)"
  by (induction p) auto

lemma path_elems_Nil [simp]: "path_elems [] = []"
  by (simp add: path_elems_def)

lemma path_elems_slash [simp]: "path_elems (SLASH # p) = path_elems p"
  by (simp add: path_elems_def)

lemma path_elems_dropWhile [simp]: "path_elems (dropWhile (\<lambda>c. c = SLASH) p) = path_elems p"
  by (induction p) auto

lemma path_elems_step:
  assumes "p \<noteq> []" "hd p \<noteq> SLASH"
  shows "path_elems p = takeWhile (\<lambda>c. c \<noteq> SLASH) p # path_elems (dropWhile (\<lambda>c. c \<noteq> SLASH) p)"
proof -
  have tw: "takeWhile (\<lambda>c. c \<noteq> SLASH) p \<noteq> []" using assms by (cases p) auto
  show ?thesis
  proof (cases "dropWhile (\<lambda>c. c \<noteq> SLASH) p")
    case Nil
    then show ?thesis unfolding path_elems_def by (subst segs_takeWhile [of p]) (simp add: tw del: dropWhile_eq_Nil_conv)
  next
    case (Cons c q)
    then have "c = SLASH" using hd_dropWhile [of "\<lambda>c. c \<noteq> SLASH" p] by simp
    then show ?thesis unfolding path_elems_def by (subst segs_takeWhile [of p]) (simp add: tw Cons)
  qed
qed

lemma hd_dropWhile_slash: "dropWhile (\<lambda>c. c = SLASH) p \<noteq> [] \<Longrightarrow> hd (dropWhile (\<lambda>c. c = SLASH) p) \<noteq> SLASH"
  using hd_dropWhile [of "\<lambda>c. c = SLASH" p] by blast

lemma path_elems_ne: "path_elems p = [] \<longleftrightarrow> dropWhile (\<lambda>c. c = SLASH) p = []"
proof (cases "dropWhile (\<lambda>c. c = SLASH) p = []")
  case True
  then have "path_elems p = path_elems []" using path_elems_dropWhile [of p] by metis
  then show ?thesis using True by simp
next
  case False
  then show ?thesis
    using path_elems_step [OF False hd_dropWhile_slash [OF False]] path_elems_dropWhile [of p] by simp
qed

lemma put_bytes_0: "length bs \<le> length b \<Longrightarrow> put_bytes 0 bs b = bs @ drop (length bs) b"
  by (simp add: put_bytes_def)

text \<open>
  \<open>skipelem\<close> cuts a path at its slashes: on a path without elements it returns the null pointer;
  otherwise it returns the rest of the path, which does not start with a slash and holds exactly
  the remaining elements, and stores the first element, cut to \<open>DIRSIZ\<close> bytes, in the name buffer,
  whose size does not change, whatever the buffer held.
\<close>

lemma skipelem_elems:
  assumes "length name = DIRSIZ" "0 \<notin> set path"
  shows "case path_elems path of
      [] \<Rightarrow> skipelem path name = None
    | e # es \<Rightarrow> \<exists>path' name'. skipelem path name = Some (path', name') \<and> path_elems path' = es \<and>
        (path' = [] \<or> hd path' \<noteq> SLASH) \<and> cname name' = take DIRSIZ e \<and> length name' = DIRSIZ"
proof (cases "dropWhile (\<lambda>c. c = SLASH) path = []")
  case True
  then show ?thesis using path_elems_ne [of path] by (simp add: skipelem_def)
next
  case False
  let ?p = "dropWhile (\<lambda>c. c = SLASH) path"
  define e where "e = takeWhile (\<lambda>c. c \<noteq> SLASH) ?p"
  let ?q = "dropWhile (\<lambda>c. c = SLASH) (dropWhile (\<lambda>c. c \<noteq> SLASH) ?p)"
  define name' where "name' = (if length e \<ge> DIRSIZ then put_bytes 0 (take DIRSIZ e) name else put_bytes 0 (e @ [0]) name)"
  have "path_elems path = e # path_elems ?q"
    using path_elems_step [OF False hd_dropWhile_slash [OF False]] by (simp add: e_def)
  moreover have "skipelem path name = Some (?q, name')"
    using False by (simp add: skipelem_def Let_def e_def name'_def)
  moreover have e0: "0 \<notin> set e"
    using assms(2) unfolding e_def by (meson set_takeWhileD set_dropWhileD)
  have "cname name' = take DIRSIZ e"
  proof (cases "length e \<ge> DIRSIZ")
    case True
    then have "name' = take DIRSIZ e" using assms(1) by (simp add: name'_def put_bytes_def)
    moreover have "0 \<notin> set (take DIRSIZ e)" using e0 by (meson in_set_takeD)
    ultimately show ?thesis unfolding cname_def by (metis (mono_tags, lifting) takeWhile_eq_all_conv)
  next
    case lt: False
    then have "name' = e @ 0 # drop (Suc (length e)) name" using assms(1) by (simp add: name'_def put_bytes_def)
    then show ?thesis using lt e0 by (auto simp: cname_def takeWhile_append)
  qed
  moreover have "length name' = DIRSIZ" using assms(1) by (simp add: name'_def)
  ultimately show ?thesis using hd_dropWhile_slash by auto
qed

lemma skipelem_elems_example:
  "skipelem [47, 97, 47, 47, 98] (replicate DIRSIZ 0) = Some ([98], 97 # replicate 13 0) \<and> path_elems [98] = [[98]]"
proof -
  have "skipelem [47, 97, 47, 47, 98] (replicate DIRSIZ 0) = Some ([98], 97 # replicate 13 0)"
    "path_elems [47, 97, 47, 47, 98] = [[97], [98]]" by code_simp+
  with skipelem_elems [of "replicate DIRSIZ 0" "[47, 97, 47, 47, 98]"] show ?thesis by simp
qed

section \<open>Looking up a name\<close>

text \<open>The entries of a directory as a function of its contents.\<close>

definition dent :: "byte list \<Rightarrow> nat \<Rightarrow> byte list" where
  "dent c k = take DESIZE (drop (DESIZE * k) c)"

definition dnum :: "byte list \<Rightarrow> nat \<Rightarrow> ushort" where
  "dnum c k = rd16 (dent c k) 0"

definition dname :: "byte list \<Rightarrow> nat \<Rightarrow> byte list" where
  "dname c k = cname (drop 2 (dent c k))"

definition ndents :: "byte list \<Rightarrow> nat" where
  "ndents c = length c div DESIZE"

definition dir_find :: "byte list \<Rightarrow> byte list \<Rightarrow> nat option" where
  "dir_find name c = find (\<lambda>k. dnum c k \<noteq> 0 \<and> dname c k = cname (take DIRSIZ name)) [0..<ndents c]"

definition dir_ok :: "'a kfs_scheme \<Rightarrow> nat \<Rightarrow> bool" where
  "dir_ok s dp \<longleftrightarrow> rd_ok s \<and> file_ok (view s) (sb s) (icache s ! dp) \<and> no_holes (view s) (icache s ! dp) \<and>
     itype (icache s ! dp) = T_DIR \<and> DESIZE dvd unat (isize (icache s ! dp)) \<and> unat (sb_size (sb s)) \<le> length (memdisk s)"

abbreviation dircont :: "'a kfs_scheme \<Rightarrow> nat \<Rightarrow> byte list" where
  "dircont s dp \<equiv> fcontents (view s) (icache s ! dp)"

definition terminated :: "byte list \<Rightarrow> bool" where
  "terminated name \<longleftrightarrow> DIRSIZ \<le> length name \<or> 0 \<in> set name"

lemma rd_sameD:
  assumes "rd_same s t"
  shows "rd_ok t" "view t = view s" "memdisk t = memdisk s" "icache t = icache s" "sb t = sb s"
  using assms bio_frame_icache [of s t] by (auto simp: rd_same_def)

lemma dir_ok_same: "rd_same s t \<Longrightarrow> dir_ok s dp \<Longrightarrow> dir_ok t dp"
  using rd_sameD [of s t] by (simp add: dir_ok_def)

lemma strncmp_bytes_terminated:
  "length xs = length ys \<or> 0 \<in> set xs \<and> length xs \<le> length ys \<Longrightarrow> strncmp_bytes xs ys = 0 \<longleftrightarrow> cname xs = cname ys"
  by (induction xs ys rule: strncmp_bytes.induct)
    (auto simp: cname_def uint_0_iff simp flip: word_uint_eq_iff)

lemma namecmp_iff:
  assumes "terminated name" "length f = DIRSIZ"
  shows "namecmp name f = 0 \<longleftrightarrow> cname f = cname (take DIRSIZ name)"
proof -
  have "length (take DIRSIZ name) = length f \<or> 0 \<in> set (take DIRSIZ name) \<and> length (take DIRSIZ name) \<le> length f"
    using assms by (cases "DIRSIZ \<le> length name") (auto simp: terminated_def)
  then show ?thesis using strncmp_bytes_terminated [of "take DIRSIZ name" f] assms(2) by (auto simp: namecmp_def)
qed

lemma de_offs_eq:
  "DESIZE dvd unat sz \<Longrightarrow> de_offs sz = map (\<lambda>k. DESIZE * k) [0..<unat sz div DESIZE]"
  by (auto simp: de_offs_def elim!: dvdE)

lemma length_dent: "k < ndents c \<Longrightarrow> length (dent c k) = DESIZE"
proof -
  assume "k < ndents c"
  then have "Suc k \<le> length c div 16" by (simp add: ndents_def)
  then have "Suc k * 16 \<le> length c" by (simp add: less_eq_div_iff_mult_less_eq)
  then show ?thesis by (simp add: dent_def)
qed

lemma readi_dent:
  assumes d: "dir_ok s dp" and k: "k < ndents (dircont s dp)"
  shows "\<exists>t. readi devsw dp (of_nat (DESIZE * k)) (of_nat DESIZE) s = Ret (int DESIZE, dent (dircont s dp) k, t) \<and> rd_same s t"
proof -
  let ?sz = "unat (isize (icache s ! dp))"
  have "Suc k \<le> ?sz div 16" using k by (simp add: ndents_def)
  then have le: "Suc k * 16 \<le> ?sz" by (simp add: less_eq_div_iff_mult_less_eq)
  moreover have "?sz \<le> 71680" using d by (simp add: dir_ok_def no_holes_def)
  ultimately have uo: "unat (of_nat (16 * k) :: uint) = 16 * k" by (simp add: unat_of_nat del: of_nat_mult)
  have mn: "min 16 (?sz - 16 * k) = 16" using le by simp
  have "itype (icache s ! dp) \<noteq> T_DEV" using d by (simp add: dir_ok_def)
  then show ?thesis
    using readi_spec [of s dp "of_nat (16 * k)" "of_nat 16" devsw] d le uo mn \<open>?sz \<le> 71680\<close>
    by (simp add: dir_ok_def dent_def del: of_nat_mult)
qed

lemma dirlookup_loop_spec:
  assumes "dir_ok s dp" "terminated name" "n = ndents (dircont s dp)" "j \<le> n"
  shows "\<exists>t. rd_same s t \<and> dirlookup_loop devsw dp name (map (\<lambda>k. DESIZE * k) [j..<n]) s =
    (case find (\<lambda>k. dnum (dircont s dp) k \<noteq> 0 \<and> dname (dircont s dp) k = cname (take DIRSIZ name)) [j..<n] of
       None \<Rightarrow> Ret (None, t)
     | Some k \<Rightarrow> bindR (iget 1 (ucast (dnum (dircont s dp) k)) t) (\<lambda>(ip, u). Ret (Some (DESIZE * k, ip), u)))"
  using assms
proof (induction "n - j" arbitrary: j s)
  case 0
  then show ?case using rd_same_refl [of s] by (auto simp: dir_ok_def)
next
  case (Suc m)
  let ?c = "dircont s dp"
  have j: "j < n" using Suc.hyps(2) by simp
  obtain t where t: "readi devsw dp (of_nat (DESIZE * j)) (of_nat DESIZE) s = Ret (int DESIZE, dent ?c j, t)" "rd_same s t"
    using readi_dent [OF Suc.prems(1), of j devsw] j Suc.prems(3) by auto
  note st = rd_sameD [OF t(2)]
  have up: "[j..<n] = j # [Suc j..<n]" using j by (rule upt_conv_Cons)
  have len: "length (drop 2 (dent ?c j)) = DIRSIZ" using length_dent [of j ?c] j Suc.prems(3) by simp
  have cmp: "namecmp name (drop 2 (dent ?c j)) = 0 \<longleftrightarrow> dname ?c j = cname (take DIRSIZ name)"
    using namecmp_iff [OF Suc.prems(2) len] by (simp add: dname_def)
  have dev: "idev (icache t ! dp) = 1" using Suc.prems(1) st(4) file_okD(1) by (auto simp: dir_ok_def)
  show ?case
  proof (cases "dnum ?c j \<noteq> 0 \<and> dname ?c j = cname (take DIRSIZ name)")
    case True
    then show ?thesis using t cmp dev unfolding up by (auto simp: dnum_def simp del: of_nat_mult)
  next
    case False
    obtain u where u: "rd_same t u" "dirlookup_loop devsw dp name (map (\<lambda>k. DESIZE * k) [Suc j..<n]) t =
      (case find (\<lambda>k. dnum ?c k \<noteq> 0 \<and> dname ?c k = cname (take DIRSIZ name)) [Suc j..<n] of
         None \<Rightarrow> Ret (None, u)
       | Some k \<Rightarrow> bindR (iget 1 (ucast (dnum ?c k)) u) (\<lambda>(ip, u). Ret (Some (DESIZE * k, ip), u)))"
    proof -
      have e: "dircont t dp = ?c" using st by simp
      have "m = n - Suc j" "Suc j \<le> n" using Suc.hyps(2) j by simp_all
      then show ?thesis
        using Suc.hyps(1) [OF _ dir_ok_same [OF t(2) Suc.prems(1)] Suc.prems(2), unfolded e, OF _ Suc.prems(3)] that by blast
    qed
    have "dirlookup_loop devsw dp name (map (\<lambda>k. DESIZE * k) [j..<n]) s =
      dirlookup_loop devsw dp name (map (\<lambda>k. DESIZE * k) [Suc j..<n]) t"
      using t(1) cmp False unfolding up by (auto simp: dnum_def simp del: of_nat_mult)
    then show ?thesis using u False rd_same_trans [OF t(2) u(1)] unfolding up by auto
  qed
qed

lemma dirlookup_spec:
  assumes "dir_ok s dp" "terminated name"
  shows "\<exists>t. rd_same s t \<and> dirlookup devsw dp name s =
    (case dir_find name (dircont s dp) of
       None \<Rightarrow> Ret (None, t)
     | Some k \<Rightarrow> bindR (iget 1 (ucast (dnum (dircont s dp) k)) t) (\<lambda>(ip, u). Ret (Some (DESIZE * k, ip), u)))"
  using dirlookup_loop_spec [OF assms refl, of 0] assms(1)
  by (simp add: dirlookup_def dir_find_def ndents_def de_offs_eq dir_ok_def)

section \<open>Adding an entry\<close>

definition dir_slot :: "byte list \<Rightarrow> nat" where
  "dir_slot c = (case find (\<lambda>k. dnum c k = 0) [0..<ndents c] of None \<Rightarrow> ndents c | Some k \<Rightarrow> k)"

lemma find_upt_None: "find P [0..<n] = None \<longleftrightarrow> (\<forall>k < n. \<not> P k)"
  by (auto simp: find_None_iff)

lemma dir_slot_props:
  shows "dir_slot c \<le> ndents c" "k < dir_slot c \<Longrightarrow> dnum c k \<noteq> 0" "dir_slot c < ndents c \<Longrightarrow> dnum c (dir_slot c) = 0"
proof -
  have "dir_slot c \<le> ndents c \<and> (\<forall>k < dir_slot c. dnum c k \<noteq> 0) \<and> (dir_slot c < ndents c \<longrightarrow> dnum c (dir_slot c) = 0)"
  proof (cases "find (\<lambda>k. dnum c k = 0) [0..<ndents c]")
    case None
    then show ?thesis unfolding dir_slot_def None option.case using None [unfolded find_upt_None] by blast
  next
    case (Some k)
    then show ?thesis unfolding dir_slot_def Some option.case using Some [unfolded find_upt_Some] by auto
  qed
  then show "dir_slot c \<le> ndents c" "k < dir_slot c \<Longrightarrow> dnum c k \<noteq> 0" "dir_slot c < ndents c \<Longrightarrow> dnum c (dir_slot c) = 0"
    by blast+
qed

lemma dirlink_slot_spec:
  assumes "dir_ok s dp" "n = ndents (dircont s dp)" "j \<le> n" "\<forall>k < j. dnum (dircont s dp) k \<noteq> 0"
  shows "\<exists>t. rd_same s t \<and> dirlink_slot devsw dp (map (\<lambda>k. DESIZE * k) [j..<n]) s = Ret (DESIZE * dir_slot (dircont s dp), t)"
  using assms
proof (induction "n - j" arbitrary: j s)
  case 0
  let ?c = "dircont s dp"
  have j: "j = n" using 0 by simp
  then have "find (\<lambda>k. dnum ?c k = 0) [0..<ndents ?c] = None" using 0 by (auto simp: find_upt_None)
  then have "dir_slot ?c = n" using 0 by (simp add: dir_slot_def)
  moreover have "length (de_offs (isize (icache s ! dp))) = n"
    using 0 de_offs_eq [of "isize (icache s ! dp)"] by (simp add: dir_ok_def ndents_def)
  ultimately show ?case using rd_same_refl [of s] 0(2) j by (auto simp: dir_ok_def)
next
  case (Suc m)
  let ?c = "dircont s dp"
  have j: "j < n" using Suc.hyps(2) by simp
  obtain t where t: "readi devsw dp (of_nat (DESIZE * j)) (of_nat DESIZE) s = Ret (int DESIZE, dent ?c j, t)" "rd_same s t"
    using readi_dent [OF Suc.prems(1), of j devsw] j Suc.prems(2) by auto
  have e: "dircont t dp = ?c" using rd_sameD [OF t(2)] by simp
  have up: "[j..<n] = j # [Suc j..<n]" using j by (rule upt_conv_Cons)
  show ?case
  proof (cases "dnum ?c j = 0")
    case True
    then have "find (\<lambda>k. dnum ?c k = 0) [0..<ndents ?c] = Some j" using j Suc.prems(2,4) by (simp add: find_upt_Some)
    then show ?thesis using t True unfolding up by (auto simp: dir_slot_def dnum_def simp del: of_nat_mult)
  next
    case False
    have "m = n - Suc j" "Suc j \<le> n" "\<forall>k < Suc j. dnum ?c k \<noteq> 0"
      using Suc.hyps(2) j Suc.prems(4) False by (auto simp: less_Suc_eq)
    then obtain u where u: "rd_same t u" "dirlink_slot devsw dp (map (\<lambda>k. DESIZE * k) [Suc j..<n]) t = Ret (DESIZE * dir_slot ?c, u)"
      using Suc.hyps(1) [OF _ dir_ok_same [OF t(2) Suc.prems(1)], unfolded e, OF _ Suc.prems(2)] by blast
    then show ?thesis
      using t(1) False rd_same_trans [OF t(2) u(1)] unfolding up by (auto simp: dnum_def simp del: of_nat_mult)
  qed
qed

text \<open>The contents of the directory with one entry replaced or appended.\<close>

definition dir_put :: "nat \<Rightarrow> byte list \<Rightarrow> byte list \<Rightarrow> byte list" where
  "dir_put k de c = take (DESIZE * k) c @ de @ drop (DESIZE * k + length de) c"

lemma dent_dir_put:
  assumes de: "length de = DESIZE" and c: "DESIZE dvd length c" and k: "k \<le> ndents c"
  shows "dent (dir_put k de c) j = (if j = k then de else dent c j)"
    "ndents (dir_put k de c) = (if k = ndents c then Suc k else ndents c)" "DESIZE dvd length (dir_put k de c)"
proof -
  obtain n where n: "length c = 16 * n" using c by (elim dvdE)
  have nd: "ndents c = n" by (simp add: ndents_def n)
  have len: "length (dir_put k de c) = (if k = n then 16 * Suc n else 16 * n)"
    using de k n nd by (auto simp: dir_put_def)
  then show "ndents (dir_put k de c) = (if k = ndents c then Suc k else ndents c)" "DESIZE dvd length (dir_put k de c)"
    unfolding nd by (auto simp: ndents_def)
  have tk: "length (take (16 * k) c) = 16 * k" using k n nd by simp
  consider "j < k" | "j = k" | "k < j" by linarith
  then show "dent (dir_put k de c) j = (if j = k then de else dent c j)"
  proof cases
    case 1
    then have "16 * j + 16 \<le> 16 * k" by simp
    then have "dent (dir_put k de c) j = take 16 (drop (16 * j) (take (16 * k) c))"
      using tk by (simp add: dent_def dir_put_def)
    also have "\<dots> = dent c j" using \<open>16 * j + 16 \<le> 16 * k\<close> by (simp add: dent_def drop_take min_def)
    finally show ?thesis using 1 by simp
  next
    case 2
    then show ?thesis using tk de by (simp add: dent_def dir_put_def)
  next
    case 3
    then have "16 * j = 16 * k + 16 + (16 * j - (16 * k + 16))" by simp
    then show ?thesis using 3 tk de by (simp add: dent_def dir_put_def)
  qed
qed

lemma dir_find_put:
  assumes de: "length de = DESIZE" "rd16 de 0 \<noteq> 0" and c: "DESIZE dvd length c"
    and name: "cname (drop 2 de) = cname (take DIRSIZ name)" and new: "dir_find name c = None"
  shows "dir_find name (dir_put (dir_slot c) de c) = Some (dir_slot c)" "dnum (dir_put (dir_slot c) de c) (dir_slot c) = rd16 de 0"
    "cname (take DIRSIZ other) \<noteq> cname (take DIRSIZ name) \<Longrightarrow> dir_find other (dir_put (dir_slot c) de c) = dir_find other c"
proof -
  let ?k = "dir_slot c" and ?c' = "dir_put (dir_slot c) de c"
  note sp = dir_slot_props [where c = c] and dp = dent_dir_put [OF de(1) c sp(1)]
  have num: "dnum ?c' j = (if j = ?k then rd16 de 0 else dnum c j)"
    and nm: "dname ?c' j = (if j = ?k then cname (take DIRSIZ name) else dname c j)" for j
    using dp(1) [of j] name by (simp_all add: dnum_def dname_def)
  show "dnum ?c' ?k = rd16 de 0" by (simp add: num)
  have no: "\<not> (dnum c j \<noteq> 0 \<and> dname c j = cname (take DIRSIZ name))" if "j < ndents c" for j
    using new that unfolding dir_find_def find_upt_None by blast
  show "dir_find name ?c' = Some ?k"
    unfolding dir_find_def find_upt_Some dp(2) using de(2) no sp(1) by (auto simp: num nm)
  assume o: "cname (take DIRSIZ other) \<noteq> cname (take DIRSIZ name)"
  define P where "P = (\<lambda>j. dnum c j \<noteq> 0 \<and> dname c j = cname (take DIRSIZ other))"
  define Q where "Q = (\<lambda>j. dnum ?c' j \<noteq> 0 \<and> dname ?c' j = cname (take DIRSIZ other))"
  have PQ: "Q j \<longleftrightarrow> P j \<and> j \<noteq> ?k" for j using o by (auto simp: P_def Q_def num nm)
  have Pk: "\<not> P ?k \<or> ?k = ndents c" using sp(1,3) by (cases "?k < ndents c") (auto simp: P_def)
  have "find Q [0..<ndents ?c'] = find P [0..<ndents c]"
  proof (cases "find P [0..<ndents c]")
    case None
    then have "\<forall>j < ndents c. \<not> P j" by (rule find_upt_None [THEN iffD1])
    then have "\<forall>j < ndents ?c'. \<not> Q j" unfolding dp(2) PQ by (auto simp: less_Suc_eq)
    then show ?thesis using None find_upt_None [of Q] by simp
  next
    case (Some k)
    then have k: "k < ndents c" "P k" "\<forall>j < k. \<not> P j" using find_upt_Some [of P] by blast+
    then have "k \<noteq> ?k" using Pk by auto
    moreover have "k < ndents ?c'" using k(1) dp(2) by (simp split: if_splits)
    ultimately have "find Q [0..<ndents ?c'] = Some k" using k PQ find_upt_Some [of Q] by blast
    then show ?thesis using Some by simp
  qed
  then show "dir_find other ?c' = dir_find other c" by (simp add: dir_find_def P_def Q_def)
qed

lemma rd_same_fs:
  assumes "rd_same s t" "fs_ok s" and h: "held s = {}"
  shows "fs_ok t" "free_blocks t = free_blocks s" "credit k t = credit k s"
proof -
  have f: "bio_frame s t" "bio_inv t" "memdisk t = memdisk s" "pinned t = pinned s" "view t = view s" "held t = {}"
    using assms(1) by (simp_all add: rd_same_def rd_ok_def)
  note tf = trans_frame [OF fs_okD(1) [OF assms(2)] f(1-4)]
  show "fs_ok t" using f(3,5) fs_okD(4) [OF assms(2)] by (intro fs_ok_frame [OF assms(2) tf(1,2)]) simp_all
  show "free_blocks t = free_blocks s" using f(5) bio_frame_icache(2) [OF f(1)] by (simp add: free_blocks_def)
  show "credit k t = credit k s" using klog_frame [OF f(1)] f(6) h by (simp add: credit_def)
qed

lemma length_pad_cname: "length (pad0 DIRSIZ (cname (take DIRSIZ name))) = DIRSIZ"
  using length_cname [of "take DIRSIZ name"] by simp

lemma mk_dirent_simps:
  "length (mk_dirent n (pad0 DIRSIZ (cname (take DIRSIZ name)))) = DESIZE"
  "rd16 (mk_dirent n f) 0 = n" "drop 2 (mk_dirent n f) = f"
  using length_pad_cname [of name] by (simp_all add: mk_dirent_def rd16_def get_bytes_def)

lemma nchunks_dent:
  assumes "DESIZE dvd off"
  shows "nchunks off DESIZE = 1"
proof -
  obtain k where k: "off = 16 * k" using assms by (elim dvdE)
  have "(16 * k + 15) div 512 = (16 * k) div 512"
    using div_mult2_eq [of "16 * k + 15" 16 32] div_mult2_eq [of "16 * k" 16 32] by simp
  then show ?thesis by (simp add: nchunks_def k)
qed

lemma dirlink_spec:
  assumes ok: "fs_ok s" and d: "dir_ok s dp" and dp: "dp < length (icache s)"
    and ino: "unat (inum (icache s ! dp)) \<le> unat (sb_ninodes (sb s))"
    and cr: "credit 8 s" and fr: "2 \<le> card (free_blocks s)" and name: "terminated name"
    and new: "dir_find name (dircont s dp) = None"
    and room: "DESIZE * Suc (dir_slot (dircont s dp)) \<le> MAXFILE * BSIZE"
  shows "\<exists>t u. dirlink devsw dp name n s = Ret (0, u) \<and> rd_same s t \<and>
    writei_post dp (DESIZE * dir_slot (dircont s dp)) (mk_dirent (ucast n) (pad0 DIRSIZ (cname (take DIRSIZ name)))) t u"
proof -
  let ?c = "dircont s dp" and ?de = "mk_dirent (ucast n) (pad0 DIRSIZ (cname (take DIRSIZ name)))"
  have h: "held s = {}" using d by (simp add: dir_ok_def rd_ok_def)
  obtain t where t: "rd_same s t" "dirlookup devsw dp name s = Ret (None, t)"
    using dirlookup_spec [OF d name, of devsw] new by auto
  note st = rd_sameD [OF t(1)] and dt = dir_ok_same [OF t(1) d]
  have offs: "de_offs (isize (icache t ! dp)) = map (\<lambda>k. DESIZE * k) [0..<ndents ?c]"
    using de_offs_eq [of "isize (icache t ! dp)"] dt st(4) by (simp add: dir_ok_def ndents_def)
  have e: "dircont t dp = ?c" using st by simp
  obtain u where u: "rd_same t u" "dirlink_slot devsw dp (de_offs (isize (icache t ! dp))) t = Ret (DESIZE * dir_slot ?c, u)"
    using dirlink_slot_spec [OF dt, of _ 0 devsw, unfolded e] unfolding offs by auto
  have su: "rd_same s u" by (rule rd_same_trans [OF t(1) u(1)])
  note sv = rd_sameD [OF su] and du = dir_ok_same [OF su d] and fu = rd_same_fs [OF su ok h]
  have hu: "held u = {}" using sv(1) by (simp add: rd_ok_def)
  let ?off = "of_nat (DESIZE * dir_slot ?c) :: uint"
  have uo: "unat ?off = DESIZE * dir_slot ?c" using room by (simp add: unat_of_nat del: of_nat_mult)
  have le: "DESIZE * dir_slot ?c \<le> unat (isize (icache s ! dp))"
  proof -
    have "DESIZE * dir_slot ?c \<le> DESIZE * ndents ?c" using dir_slot_props(1) by simp
    also have "\<dots> \<le> unat (isize (icache s ! dp))" by (simp add: ndents_def)
    finally show ?thesis .
  qed
  note len = mk_dirent_simps(1) [of "ucast n" name]
  have ch: "nchunks (unat ?off) (length ?de) = 1" unfolding len uo by (rule nchunks_dent) simp
  have "\<exists>x. writei devsw dp ?de ?off u = Ret (int (length ?de), x) \<and> writei_post dp (unat ?off) ?de u x"
    using du dp ino cr fr fu le room ch uo sv(4,5) hu unfolding dir_ok_def
    by (intro writei_spec) (simp_all add: word_le_nat_alt len del: of_nat_mult)
  then obtain x where x: "writei devsw dp ?de ?off u = Ret (int DESIZE, x)" "writei_post dp (DESIZE * dir_slot ?c) ?de u x"
    unfolding uo len by blast
  have "dirlink devsw dp name n s = Ret (0, x)" using t(2) u(2) x(1) by (simp add: dirlink_def del: of_nat_mult)
  then show ?thesis using su x(2) by blast
qed

section \<open>The inode cache\<close>

text \<open>At most one entry of the inode cache is in use for an inode.\<close>

definition icache_inv :: "'a kfs_scheme \<Rightarrow> bool" where
  "icache_inv s \<longleftrightarrow> (\<forall>ip \<in> set (icache s). 0 \<le> iref ip) \<and>
     (\<forall>i < length (icache s). \<forall>j < length (icache s). iref (icache s ! i) > 0 \<and> iref (icache s ! j) > 0 \<and>
        idev (icache s ! i) = idev (icache s ! j) \<and> inum (icache s ! i) = inum (icache s ! j) \<longrightarrow> i = j)"

lemma icache_invD:
  assumes "icache_inv s" "i < length (icache s)" "j < length (icache s)" "iref (icache s ! i) > 0" "iref (icache s ! j) > 0"
    and "idev (icache s ! i) = idev (icache s ! j)" "inum (icache s ! i) = inum (icache s ! j)"
  shows "i = j"
  using assms unfolding icache_inv_def by blast

definition in_icache :: "uint \<Rightarrow> uint \<Rightarrow> inode \<Rightarrow> bool" where
  "in_icache dev n ip \<longleftrightarrow> iref ip > 0 \<and> idev ip = dev \<and> inum ip = n"

lemma icache_inv_upd:
  assumes inv: "icache_inv s" and ip: "0 \<le> iref ip"
    and new: "\<And>j. j < length (icache s) \<Longrightarrow> j \<noteq> i \<Longrightarrow> iref (icache s ! j) > 0 \<Longrightarrow> iref ip > 0 \<Longrightarrow>
      \<not> (idev (icache s ! j) = idev ip \<and> inum (icache s ! j) = inum ip)"
  shows "icache_inv (updinode i ip s)"
proof -
  have "a = b" if "a < length (icache s)" "b < length (icache s)"
    and ab: "iref ((icache s)[i := ip] ! a) > 0" "iref ((icache s)[i := ip] ! b) > 0"
      "idev ((icache s)[i := ip] ! a) = idev ((icache s)[i := ip] ! b)" "inum ((icache s)[i := ip] ! a) = inum ((icache s)[i := ip] ! b)" for a b
  proof (cases "a = i \<or> b = i")
    case True
    then show ?thesis using new [of a] new [of b] that by (cases "a = b") auto
  next
    case False
    then show ?thesis using inv that unfolding icache_inv_def by simp
  qed
  moreover have "0 \<le> iref jp" if "jp \<in> set ((icache s)[i := ip])" for jp
    using in_set_list_update [OF that] inv ip unfolding icache_inv_def by blast
  ultimately show ?thesis unfolding icache_inv_def by simp
qed

lemma iget_cases:
  obtains (hit) i where "i < length (icache s)" "in_icache dev n (icache s ! i)"
      "iget dev n s = Ret (i, updinode i ((icache s ! i)\<lparr>iref := iref (icache s ! i) + 1\<rparr>) s)"
  | (miss) i where "\<forall>ip \<in> set (icache s). \<not> in_icache dev n ip" "i < length (icache s)" "iref (icache s ! i) = 0"
      "iget dev n s = Ret (i, updinode i ((icache s ! i)\<lparr>idev := dev, inum := n, iref := 1, valid := False\<rparr>) s)"
  | (full) "\<forall>ip \<in> set (icache s). \<not> in_icache dev n ip \<and> iref ip \<noteq> 0" "iget dev n s = Panic ''iget: no inodes''"
proof (cases "find_index (in_icache dev n) (icache s)")
  case (Some i)
  have f: "find_index (\<lambda>ip. iref ip > 0 \<and> idev ip = dev \<and> inum ip = n) (icache s) = Some i"
    using Some unfolding in_icache_def [abs_def] .
  show ?thesis by (rule hit [of i]) (use find_index_SomeD [OF Some] in \<open>simp_all add: iget_def f\<close>)
next
  case None
  have f: "find_index (\<lambda>ip. iref ip > 0 \<and> idev ip = dev \<and> inum ip = n) (icache s) = None"
    using None unfolding in_icache_def [abs_def] .
  have no: "\<forall>ip \<in> set (icache s). \<not> in_icache dev n ip" using None by simp
  show ?thesis
  proof (cases "find_index (\<lambda>ip. iref ip = 0) (icache s)")
    case (Some i)
    show ?thesis
      by (rule miss [OF no, of i]) (use find_index_SomeD [OF Some] in \<open>simp_all add: iget_def Some f del: find_index_None\<close>)
  next
    case g: None
    have "\<forall>ip \<in> set (icache s). \<not> in_icache dev n ip \<and> iref ip \<noteq> 0" using no g by simp
    then show ?thesis by (rule full) (simp add: iget_def f g del: find_index_None)
  qed
qed

text \<open>
  One cache entry per inode: from a cache in which no two used entries stand for the same inode,
  \<open>iget\<close> returns an entry for the inode asked for with one reference more than before, keeps every
  other entry and the uniqueness, and panics exactly when the inode is not cached and every entry
  is in use.
\<close>

lemma iget_unique:
  assumes "icache_inv s"
  shows "case iget dev n s of
      Ret (i, t) \<Rightarrow> i < length (icache s) \<and> in_icache dev n (icache t ! i) \<and> icache_inv t \<and>
        iref (icache t ! i) = (if in_icache dev n (icache s ! i) then iref (icache s ! i) + 1 else 1) \<and>
        ((\<exists>ip \<in> set (icache s). in_icache dev n ip) \<longrightarrow> in_icache dev n (icache s ! i)) \<and>
        t = s\<lparr>icache := (icache s)[i := icache t ! i]\<rparr>
    | Panic m \<Rightarrow> \<forall>ip \<in> set (icache s). iref ip > 0 \<and> \<not> in_icache dev n ip
    | _ \<Rightarrow> False"
proof (cases rule: iget_cases [of s dev n])
  case (hit i)
  have "icache_inv (updinode i ((icache s ! i)\<lparr>iref := iref (icache s ! i) + 1\<rparr>) s)"
  proof (rule icache_inv_upd [OF assms])
    show "\<not> (idev (icache s ! j) = idev ((icache s ! i)\<lparr>iref := iref (icache s ! i) + 1\<rparr>) \<and>
        inum (icache s ! j) = inum ((icache s ! i)\<lparr>iref := iref (icache s ! i) + 1\<rparr>))"
      if "j < length (icache s)" "j \<noteq> i" "iref (icache s ! j) > 0" for j
      using icache_invD [OF assms that(1) hit(1) that(3)] hit(2) that(2) by (auto simp: in_icache_def)
  qed (use hit(2) in \<open>simp add: in_icache_def\<close>)
  then show ?thesis using hit by (auto simp: in_icache_def updinode_def)
next
  case (miss i)
  have "icache_inv (updinode i ((icache s ! i)\<lparr>idev := dev, inum := n, iref := 1, valid := False\<rparr>) s)"
    by (rule icache_inv_upd [OF assms]) (use miss(1) in \<open>auto simp: in_icache_def\<close>)
  then show ?thesis using miss by (auto simp: in_icache_def updinode_def)
next
  case full
  then show ?thesis using assms by (auto simp: icache_inv_def le_less)
qed

lemma fs0_icache: "icache_inv fs0"
  by (auto simp: icache_inv_def ip0_def zeroinode_def nth_Cons split: nat.splits)

lemma iget_unique_example:
  "case iget 1 7 fs0 of Ret (i, t) \<Rightarrow> in_icache 1 7 (icache t ! i) \<and> icache_inv t | _ \<Rightarrow> False"
  using iget_unique [OF fs0_icache, of 1 7] by (auto simp: zeroinode_def split: res.splits)

section \<open>Properties of directories\<close>

lemma writei_postD:
  assumes "writei_post i off src s t"
  shows "fs_ok t" "rd_ok t" "sb t = sb s" "file_ok (view t) (sb t) (icache t ! i)" "no_holes (view t) (icache t ! i)"
    "icache t ! i = (icache s ! i)\<lparr>isize := isize (icache t ! i), addrs := addrs (icache t ! i)\<rparr>"
    "fcontents (view t) (icache t ! i) =
       take off (fcontents (view s) (icache s ! i)) @ src @ drop (off + length src) (fcontents (view s) (icache s ! i))"
  using assms unfolding writei_post_def by blast+

text \<open>
  C20. \<open>dirlookup\<close> finds the first entry with a nonzero inode number whose name agrees with the name
  looked for in the first \<open>DIRSIZ\<close> bytes up to a NUL: it returns the offset of that entry and a
  reference to the cached inode with its number (or panics in \<open>iget\<close> when the inode cache is full),
  and returns the null pointer when there is no such entry; it never panics on its own and leaves
  every block as it was.
\<close>

theorem dirlookup_correct:
  assumes "dir_ok s dp" "terminated name"
  shows "case dir_find name (dircont s dp) of
      None \<Rightarrow> \<exists>t. dirlookup devsw dp name s = Ret (None, t) \<and> rd_same s t
    | Some k \<Rightarrow> k < ndents (dircont s dp) \<and>
        (if \<exists>ip \<in> set (icache s). in_icache 1 (ucast (dnum (dircont s dp) k)) ip \<or> iref ip = 0
         then \<exists>ip t. dirlookup devsw dp name s = Ret (Some (DESIZE * k, ip), t) \<and> view t = view s \<and>
           iref (icache t ! ip) > 0 \<and> idev (icache t ! ip) = 1 \<and> inum (icache t ! ip) = ucast (dnum (dircont s dp) k)
         else dirlookup devsw dp name s = Panic ''iget: no inodes'')"
proof -
  let ?c = "dircont s dp"
  obtain t where t: "rd_same s t" "dirlookup devsw dp name s =
    (case dir_find name ?c of
       None \<Rightarrow> Ret (None, t)
     | Some k \<Rightarrow> bindR (iget 1 (ucast (dnum ?c k)) t) (\<lambda>(ip, u). Ret (Some (DESIZE * k, ip), u)))"
    using dirlookup_spec [OF assms] by blast
  note st = rd_sameD [OF t(1)]
  show ?thesis
  proof (cases "dir_find name ?c")
    case None
    then show ?thesis using t by auto
  next
    case (Some k)
    let ?n = "ucast (dnum ?c k) :: uint"
    have k: "k < ndents ?c" using Some unfolding dir_find_def find_upt_Some by blast
    have run: "dirlookup devsw dp name s = bindR (iget 1 ?n t) (\<lambda>(ip, u). Ret (Some (DESIZE * k, ip), u))"
      using t(2) Some by simp
    show ?thesis
    proof (cases rule: iget_cases [of t 1 ?n])
      case (hit i)
      then have "\<exists>ip \<in> set (icache s). in_icache 1 ?n ip" using st(4) nth_mem by metis
      then show ?thesis using hit run k st Some by (auto simp: in_icache_def)
    next
      case (miss i)
      then have "\<exists>ip \<in> set (icache s). iref ip = 0" using st(4) nth_mem by metis
      then show ?thesis using miss run k st Some by (auto simp: in_icache_def)
    next
      case full
      then show ?thesis using run k st Some by auto
    qed
  qed
qed

definition dir0 :: kfs where
  "dir0 = updinode 0 (ip0\<lparr>itype := T_DIR\<rparr>) fs0"

lemma dir0_ok: "fs_ok dir0" "dir_ok dir0 0" "credit 28 dir0" "2 \<le> card (free_blocks dir0)" "0 < length (icache dir0)"
  "unat (inum (icache dir0 ! 0)) \<le> unat (sb_ninodes (sb dir0))" "dircont dir0 0 = []"
  using fs0_ok fs0_rd fs0_credit fs0_free
  by (simp_all add: dir0_def dir_ok_def rd_ok_def file_ok_def no_holes_def faddr_def ip0_def zeroinode_def sb0_def fcontents_def)

theorem dirlookup_correct_witness: "\<exists>t. dirlookup (\<lambda>_. (None, None)) 0 [46, 0] dir0 = Ret (None, t)"
  using dirlookup_correct [OF dir0_ok(2), of "[46, 0]" "\<lambda>_. (None, None)"]
  by (auto simp: terminated_def dir0_ok dir_find_def ndents_def)

text \<open>
  C19. Linking a name: for a name that is not in the directory, \<open>dirlink\<close> inside a transaction returns
  0 and afterwards the directory is well-formed, looking the name up finds the new entry with the
  given inode number in the first free slot, and every other name is found exactly where it was.
\<close>

theorem dirlink_lookup:
  assumes "fs_ok s" "dir_ok s dp" "dp < length (icache s)" "unat (inum (icache s ! dp)) \<le> unat (sb_ninodes (sb s))"
    and "credit 8 s" "2 \<le> card (free_blocks s)" "terminated name" and "dir_find name (dircont s dp) = None"
    and "DESIZE * Suc (dir_slot (dircont s dp)) \<le> MAXFILE * BSIZE" and n: "n \<noteq> 0" "unat n < 65536"
  shows "\<exists>t. dirlink devsw dp name n s = Ret (0, t) \<and> dir_ok t dp \<and> fs_ok t \<and>
    dir_find name (dircont t dp) = Some (dir_slot (dircont s dp)) \<and>
    ucast (dnum (dircont t dp) (dir_slot (dircont s dp))) = n \<and>
    (\<forall>other. cname (take DIRSIZ other) \<noteq> cname (take DIRSIZ name) \<longrightarrow>
       dir_find other (dircont t dp) = dir_find other (dircont s dp))"
proof -
  let ?c = "dircont s dp" and ?de = "mk_dirent (ucast n) (pad0 DIRSIZ (cname (take DIRSIZ name)))"
  obtain r t where t: "dirlink devsw dp name n s = Ret (0, t)" "rd_same s r" "writei_post dp (DESIZE * dir_slot ?c) ?de r t"
    using dirlink_spec [OF assms(1-9)] by blast
  note sr = rd_sameD [OF t(2)] and p = writei_postD [OF t(3)] and m = mk_dirent_simps(1) [of "ucast n" name]
  have uc: "ucast (ucast n :: ushort) = n"
    using n(2) by (intro word_unat_eq_iff [THEN iffD2]) (simp add: unsigned_ucast_eq unsigned_take_bit_eq take_bit_nat_eq_self)
  then have nz: "rd16 ?de 0 \<noteq> 0" using n(1) mk_dirent_simps(2) by auto
  have d16: "DESIZE dvd length ?c" using assms(2) by (simp add: dir_ok_def)
  have c': "dircont t dp = dir_put (dir_slot ?c) ?de ?c" using p(7) sr by (simp add: dir_put_def)
  have nm: "cname (drop 2 ?de) = cname (take DIRSIZ name)" by (simp add: mk_dirent_simps)
  note put = dir_find_put [OF m nz d16 nm assms(8)]
  have "itype (icache t ! dp) = T_DIR" by (subst p(6)) (use assms(2) sr in \<open>simp add: dir_ok_def\<close>)
  moreover have "DESIZE dvd unat (isize (icache t ! dp))"
    using dent_dir_put(3) [OF m d16 dir_slot_props(1)] c' by (metis length_fcontents)
  moreover have "unat (sb_size (sb t)) \<le> length (memdisk t)" using fs_okD(2) [OF p(1)] by (simp add: fs_geom_def)
  ultimately have "dir_ok t dp" using p(2,4,5) by (simp add: dir_ok_def)
  then show ?thesis using t(1) p(1) put uc by (intro exI [of _ t]) (simp add: c' mk_dirent_simps)
qed

theorem dirlink_lookup_witness:
  "\<exists>t. dirlink (\<lambda>_. (None, None)) 0 [97, 0] 5 dir0 = Ret (0, t) \<and> dir_find [97, 0] (dircont t 0) = Some 0 \<and>
     dir_find [98, 0] (dircont t 0) = None"
proof -
  have cr: "credit 8 dir0" by (rule credit_mono [OF dir0_ok(3)]) simp
  have f: "dir_find name [] = None" "dir_slot [] = 0" for name by (simp_all add: dir_find_def dir_slot_def ndents_def)
  have "cname (take DIRSIZ [98, 0]) \<noteq> cname (take DIRSIZ [97, 0])" by (simp add: cname_def)
  then show ?thesis
    using dirlink_lookup [OF dir0_ok(1,2,5,6) cr dir0_ok(4), of "[97, 0]" 5 "\<lambda>_. (None, None)"]
    by (auto simp: terminated_def dir0_ok f)
qed

end
