(* ===== verification/Kalloc.thy ===== *)
theory Kalloc
  imports Strings
begin

text \<open>
  The physical page allocator of \<open>xv6/kalloc.c\<close> over the flat memory of the kernel. The free list runs
  through the first word of each free page. The lock of \<open>kmem\<close> brackets the body of each operation;
  \<open>kend\<close> is the address of the linker symbol \<open>end\<close>.
\<close>

unbundle bit_operations_syntax

section \<open>Addresses\<close>

abbreviation "KERNBASE \<equiv> (0x80000000 :: uint)"
abbreviation "PHYSTOP \<equiv> (0xE000000 :: uint)"
abbreviation "PGSZ \<equiv> (4096 :: uint)"

definition V2P :: "uint \<Rightarrow> uint" where
  "V2P a = a - KERNBASE"

definition P2V :: "uint \<Rightarrow> uint" where
  "P2V a = a + KERNBASE"

definition PGROUNDUP :: "uint \<Rightarrow> uint" where
  "PGROUNDUP sz = (sz + PGSZ - 1) AND NOT (PGSZ - 1)"

definition PGROUNDDOWN :: "uint \<Rightarrow> uint" where
  "PGROUNDDOWN a = a AND NOT (PGSZ - 1)"

definition load32 :: "mem \<Rightarrow> uint \<Rightarrow> uint" where
  "load32 m a = of_le32 [m a, m (a + 1), m (a + 2), m (a + 3)]"

section \<open>The allocator\<close>

record kmem =
  kmemory :: mem
  use_lock :: bool
  freelist :: uint

definition kfree :: "uint \<Rightarrow> uint \<Rightarrow> 'a kmem_scheme \<Rightarrow> 'a kmem_scheme res" where
  "kfree kend v s =
     (if v mod PGSZ \<noteq> 0 \<or> v < kend \<or> V2P v \<ge> PHYSTOP then Panic ''kfree''
      else
        let m = memset (kmemory s) v 1 PGSZ
        in Ret (s\<lparr>kmemory := store32 m v (freelist s), freelist := v\<rparr>))"

definition kalloc :: "'a kmem_scheme \<Rightarrow> uint \<times> 'a kmem_scheme" where
  "kalloc s =
     (let r = freelist s in
      (r, if r \<noteq> 0 then s\<lparr>freelist := load32 (kmemory s) r\<rparr> else s))"

lemma kfree_range:
  assumes "kfree kend p s = Ret t"
  shows "2147483648 \<le> unat p" "unat p < 2382364672" "unat p mod 4096 = 0"
proof -
  have a: "p mod 4096 = 0" "p - 0x80000000 < 0xE000000" using assms by (auto simp: kfree_def V2P_def split: if_splits)
  have "unat (p mod 4096) = 0" using a(1) by simp
  then show "unat p mod 4096 = 0" by (simp add: unat_mod_distrib)
  define q where "q = p - 0x80000000"
  have p: "p = q + 0x80000000" by (simp add: q_def)
  have lt: "unat q < 234881024" using a(2) by (simp add: word_less_nat_alt q_def)
  then have "unat p = unat q + 2147483648" unfolding p by (simp add: unat_word_ariths)
  then show "2147483648 \<le> unat p" "unat p < 2382364672" using lt by simp_all
qed

function freerange_loop :: "uint \<Rightarrow> uint \<Rightarrow> uint \<Rightarrow> 'a kmem_scheme \<Rightarrow> 'a kmem_scheme res" where
  "freerange_loop kend vend p s =
     (if p + PGSZ \<le> vend then bindR (kfree kend p s) (\<lambda>s. freerange_loop kend vend (p + PGSZ) s)
      else Ret s)"
  by pat_completeness auto
termination
proof (relation "measure (\<lambda>(kend, vend, p, s). 4294967296 - unat p)")
  fix kend vend p :: uint and s t :: "'a kmem_scheme"
  assume "kfree kend p s = Ret t"
  then have "unat p < 2382364672" by (rule kfree_range)
  then have "unat (p + 4096) = unat p + 4096" by (simp add: unat_word_ariths)
  then show "((kend, vend, p + PGSZ, t), (kend, vend, p, s)) \<in> measure (\<lambda>(kend, vend, p, s). 4294967296 - unat p)"
    using \<open>unat p < 2382364672\<close> by simp
qed simp

declare freerange_loop.simps [simp del]

definition freerange :: "uint \<Rightarrow> uint \<Rightarrow> uint \<Rightarrow> 'a kmem_scheme \<Rightarrow> 'a kmem_scheme res" where
  "freerange kend vstart vend s = freerange_loop kend vend (PGROUNDUP vstart) s"

definition kinit1 :: "uint \<Rightarrow> uint \<Rightarrow> uint \<Rightarrow> 'a kmem_scheme \<Rightarrow> 'a kmem_scheme res" where
  "kinit1 kend vstart vend s = freerange kend vstart vend (s\<lparr>use_lock := False\<rparr>)"

definition kinit2 :: "uint \<Rightarrow> uint \<Rightarrow> uint \<Rightarrow> 'a kmem_scheme \<Rightarrow> 'a kmem_scheme res" where
  "kinit2 kend vstart vend s = bindR (freerange kend vstart vend s) (\<lambda>s. Ret (s\<lparr>use_lock := True\<rparr>))"

section \<open>The free list\<close>

definition page_ok :: "uint \<Rightarrow> uint \<Rightarrow> bool" where
  "page_ok kend v \<longleftrightarrow> v mod PGSZ = 0 \<and> kend \<le> v \<and> V2P v < PHYSTOP"

definition in_page :: "uint \<Rightarrow> uint \<Rightarrow> bool" where
  "in_page p a \<longleftrightarrow> unat p \<le> unat a \<and> unat a < unat p + PGSIZE"

primrec flist :: "mem \<Rightarrow> uint \<Rightarrow> uint list \<Rightarrow> bool" where
  "flist m p [] \<longleftrightarrow> p = 0"
| "flist m p (q # qs) \<longleftrightarrow> p = q \<and> q \<noteq> 0 \<and> flist m (load32 m q) qs"

definition kmem_ok :: "uint \<Rightarrow> 'a kmem_scheme \<Rightarrow> uint list \<Rightarrow> bool" where
  "kmem_ok kend s ps \<longleftrightarrow> flist (kmemory s) (freelist s) ps \<and> distinct ps \<and> (\<forall>p \<in> set ps. page_ok kend p)"

lemma load32_cong:
  "m a = m' a \<Longrightarrow> m (a + 1) = m' (a + 1) \<Longrightarrow> m (a + 2) = m' (a + 2) \<Longrightarrow> m (a + 3) = m' (a + 3) \<Longrightarrow> load32 m a = load32 m' a"
  by (simp add: load32_def)

lemma load32_store32 [simp]: "load32 (store32 m a w) a = w"
proof -
  have "load32 (store32 m a w) a = of_le32 (le32 w)" by (simp add: load32_def store32_def le32_def)
  then show ?thesis by simp
qed

lemma page_ok_range:
  assumes "page_ok kend p"
  shows "2147483648 \<le> unat p" "unat p + 4096 \<le> 2382364672" "unat p mod 4096 = 0" "p \<noteq> 0"
proof -
  have "kfree kend p s = Ret (s\<lparr>kmemory := store32 (memset (kmemory s) p 1 PGSZ) p (freelist s), freelist := p\<rparr>)" for s :: kmem
    using assms by (simp add: kfree_def page_ok_def not_less not_le)
  note r = kfree_range [OF this]
  then show "2147483648 \<le> unat p" "unat p mod 4096 = 0" by simp_all
  then show "p \<noteq> 0" by auto
  obtain k where k: "unat p = 4096 * k" using r(3) by (auto elim: dvdE [OF mod_eq_0_iff_dvd [THEN iffD1]])
  then show "unat p + 4096 \<le> 2382364672" using r(2) by simp
qed

lemma page_unat: "page_ok kend p \<Longrightarrow> i < 4096 \<Longrightarrow> unat (p + of_nat i) = unat p + i"
  using page_ok_range [of kend p] by (intro unat_addr) simp

lemma in_page_iff:
  assumes "page_ok kend p"
  shows "in_page p a \<longleftrightarrow> (\<exists>i < PGSIZE. a = p + of_nat i)"
proof
  assume "in_page p a"
  then obtain i where "i < 4096" "a = p + of_nat i" using region_index [of p a 4096] by (auto simp: in_page_def)
  then show "\<exists>i < PGSIZE. a = p + of_nat i" by blast
next
  assume "\<exists>i < PGSIZE. a = p + of_nat i"
  then show "in_page p a" using page_unat [OF assms] by (auto simp: in_page_def)
qed

lemma pages_disjoint:
  assumes "page_ok kend p" "page_ok kend q" "p \<noteq> q" "in_page p a"
  shows "\<not> in_page q a"
proof
  assume "in_page q a"
  have "x div 4096 = y div 4096" if "x mod 4096 = 0" "x \<le> y" "y < x + 4096" for x y :: nat
  proof -
    have "4096 * (x div 4096) = x" using that(1) by (simp add: mod_eq_0_iff_dvd)
    then have "y div 4096 = x div 4096" using that(2,3) by (intro div_nat_eqI) simp_all
    then show ?thesis by simp
  qed
  then have "unat p div 4096 = unat a div 4096" "unat q div 4096 = unat a div 4096"
    using assms(4) \<open>in_page q a\<close> page_ok_range(3) [OF assms(1)] page_ok_range(3) [OF assms(2)]
    by (simp_all add: in_page_def)
  then have "unat p = unat q"
    using page_ok_range(3) [OF assms(1)] page_ok_range(3) [OF assms(2)] by (metis div_mult_mod_eq)
  then show False using assms(3) by (simp add: word_unat_eq_iff)
qed

lemma load32_in_page:
  assumes "page_ok kend p" "i + 4 \<le> PGSIZE" "\<And>a. in_page p a \<Longrightarrow> m a = m' a"
  shows "load32 m (p + of_nat i) = load32 m' (p + of_nat i)"
proof -
  have "m (p + of_nat i + of_nat j) = m' (p + of_nat i + of_nat j)" if "j < 4" for j
  proof -
    have "p + of_nat i + of_nat j = p + of_nat (i + j)" by simp
    moreover have "i + j < PGSIZE" using assms(2) that by simp
    then have "in_page p (p + of_nat (i + j))" unfolding in_page_iff [OF assms(1)] by blast
    ultimately show ?thesis using assms(3) by metis
  qed
  from this [of 0] this [of 1] this [of 2] this [of 3] show ?thesis by (intro load32_cong) simp_all
qed

lemma load32_page0: "page_ok kend p \<Longrightarrow> (\<And>a. in_page p a \<Longrightarrow> m a = m' a) \<Longrightarrow> load32 m p = load32 m' p"
  using load32_in_page [of kend p 0 m m'] by simp

lemma store32_outside:
  assumes "page_ok kend p" "i + 4 \<le> PGSIZE" "\<not> in_page p a"
  shows "store32 m (p + of_nat i) w a = m a"
proof -
  have "a \<noteq> p + of_nat i + of_nat j" if "j < 4" for j
  proof -
    have "i + j < PGSIZE" using assms(2) that by simp
    then have "a \<noteq> p + of_nat (i + j)" using assms(3) unfolding in_page_iff [OF assms(1)] by blast
    then show ?thesis by (simp add: add.assoc)
  qed
  from this [of 0] this [of 1] this [of 2] this [of 3] show ?thesis by (simp add: store32_def)
qed

lemma flist_cong:
  assumes "\<And>p. p \<in> set ps \<Longrightarrow> load32 m p = load32 m' p"
  shows "flist m q ps = flist m' q ps"
  using assms by (induction ps arbitrary: q) auto

lemma flist_unique: "flist m p ps \<Longrightarrow> flist m p qs \<Longrightarrow> ps = qs"
proof (induction ps arbitrary: p qs)
  case Nil
  then show ?case by (cases qs) auto
next
  case (Cons x xs)
  then show ?case by (cases qs) auto
qed

lemma kfree_spec:
  assumes ok: "kmem_ok kend s ps" and v: "page_ok kend v" "v \<notin> set ps"
  shows "\<exists>t. kfree kend v s = Ret t \<and> kmem_ok kend t (v # ps) \<and> use_lock t = use_lock s \<and>
    (\<forall>a. \<not> in_page v a \<longrightarrow> kmemory t a = kmemory s a)"
proof -
  let ?m = "memset (kmemory s) v 1 PGSZ"
  let ?t = "s\<lparr>kmemory := store32 ?m v (freelist s), freelist := v\<rparr>"
  have out: "kmemory ?t a = kmemory s a" if a: "\<not> in_page v a" for a
  proof -
    have "a \<noteq> v + of_nat i" if "i < 4096" for i using a in_page_iff [OF v(1), of a] that by blast
    then have "?m a = kmemory s a" by (simp add: memset_stosb stosb_outside)
    then show ?thesis using store32_outside [OF v(1), of 0 a] a by simp
  qed
  have "flist (kmemory ?t) (freelist s) ps \<longleftrightarrow> flist (kmemory s) (freelist s) ps"
  proof (rule flist_cong)
    fix p assume p: "p \<in> set ps"
    then have pk: "page_ok kend p" and ne: "p \<noteq> v" using ok v(2) by (auto simp: kmem_ok_def)
    show "load32 (kmemory ?t) p = load32 (kmemory s) p"
      by (rule load32_page0 [OF pk], rule out) (rule pages_disjoint [OF pk v(1) ne])
  qed
  then have "kmem_ok kend ?t (v # ps)"
    using ok v page_ok_range(4) [OF v(1)] by (simp add: kmem_ok_def)
  moreover have "kfree kend v s = Ret ?t" using v(1) by (simp add: kfree_def page_ok_def not_less not_le)
  ultimately show ?thesis using out by auto
qed

lemma kalloc_spec:
  assumes "kmem_ok kend s ps"
  shows "case ps of [] \<Rightarrow> kalloc s = (0, s)
    | p # qs \<Rightarrow> \<exists>t. kalloc s = (p, t) \<and> kmem_ok kend t qs \<and> kmemory t = kmemory s \<and> use_lock t = use_lock s"
  using assms by (cases ps) (auto simp: kalloc_def kmem_ok_def Let_def)

section \<open>The contract of a page allocator\<close>

text \<open>
  What the clients of the allocator rely on: a page that is handed out is not handed out again
  before it is freed, and the allocator only fails when nothing is left.
\<close>

locale page_allocator =
  fixes alloc :: "'s \<Rightarrow> 'p \<times> 's" and free :: "'p \<Rightarrow> 's \<Rightarrow> 's res"
    and null :: 'p and inv :: "'s \<Rightarrow> bool" and avail :: "'s \<Rightarrow> 'p set" and page :: "'p \<Rightarrow> bool"
  assumes avail_page: "inv s \<Longrightarrow> p \<in> avail s \<Longrightarrow> page p"
    and finite_avail: "inv s \<Longrightarrow> finite (avail s)"
    and page_null: "page p \<Longrightarrow> p \<noteq> null"
    and alloc_empty: "inv s \<Longrightarrow> avail s = {} \<Longrightarrow> alloc s = (null, s)"
    and alloc_page: "inv s \<Longrightarrow> avail s \<noteq> {} \<Longrightarrow> alloc s = (p, t) \<Longrightarrow> p \<in> avail s \<and> inv t \<and> avail t = avail s - {p}"
    and free_page: "inv s \<Longrightarrow> page p \<Longrightarrow> p \<notin> avail s \<Longrightarrow> \<exists>t. free p s = Ret t \<and> inv t \<and> avail t = insert p (avail s)"
begin

primrec alloc_n :: "nat \<Rightarrow> 's \<Rightarrow> 'p list \<times> 's" where
  "alloc_n 0 s = ([], s)"
| "alloc_n (Suc n) s = (let (p, s) = alloc s; (ps, s) = alloc_n n s in (p # ps, s))"

lemma alloc_null_iff:
  assumes "inv s"
  shows "fst (alloc s) = null \<longleftrightarrow> avail s = {}"
proof (cases "alloc s")
  case (Pair p t)
  then show ?thesis
    using assms alloc_empty [OF assms] alloc_page [OF assms _ Pair] avail_page [OF assms, of p] page_null [of p] by auto
qed

lemma alloc_n_distinct:
  assumes "inv s" "n \<le> card (avail s)" "alloc_n n s = (ps, t)"
  shows "distinct ps \<and> length ps = n \<and> set ps \<subseteq> avail s \<and> inv t \<and> avail t = avail s - set ps"
  using assms
proof (induction n arbitrary: s ps t)
  case (Suc n)
  obtain p u where a: "alloc s = (p, u)" by (cases "alloc s")
  obtain qs where q: "alloc_n n u = (qs, t)" "ps = p # qs" using Suc.prems(3) a by (auto simp: Let_def split: prod.splits)
  have "avail s \<noteq> {}" using Suc.prems(2) by auto
  then have p: "p \<in> avail s" "inv u" "avail u = avail s - {p}" using alloc_page [OF Suc.prems(1) _ a] by blast+
  have "n \<le> card (avail u)" using Suc.prems(2) p(1,3) finite_avail [OF Suc.prems(1)] by simp
  then show ?case using Suc.IH [OF p(2) _ q(1)] p q(2) by auto
qed simp

lemma free_all:
  assumes "inv s" "distinct ps" "\<forall>p \<in> set ps. page p \<and> p \<notin> avail s"
  shows "\<exists>t. foldR free ps s = Ret t \<and> inv t \<and> avail t = avail s \<union> set ps"
  using assms
proof (induction ps arbitrary: s)
  case (Cons p ps)
  obtain t where t: "free p s = Ret t" "inv t" "avail t = insert p (avail s)" using free_page [of s p] Cons.prems by auto
  then have "\<forall>q \<in> set ps. page q \<and> q \<notin> avail t" using Cons.prems by auto
  then show ?case using Cons.IH [OF t(2)] Cons.prems(2) t by auto
qed simp

lemma alloc_free_restores:
  assumes "inv s" "n \<le> card (avail s)" "alloc_n n s = (ps, t)"
  shows "\<exists>u. foldR free ps t = Ret u \<and> inv u \<and> avail u = avail s"
proof -
  note d = alloc_n_distinct [OF assms]
  have "\<forall>p \<in> set ps. page p \<and> p \<notin> avail t" using d avail_page [OF assms(1)] by auto
  then show ?thesis using free_all [of t ps] d by (metis Diff_partition Un_commute)
qed

end

definition kmem_inv :: "uint \<Rightarrow> 'a kmem_scheme \<Rightarrow> bool" where
  "kmem_inv kend s \<longleftrightarrow> (\<exists>ps. kmem_ok kend s ps)"

definition free_pages :: "'a kmem_scheme \<Rightarrow> uint set" where
  "free_pages s = {p. \<exists>ps. flist (kmemory s) (freelist s) ps \<and> p \<in> set ps}"

lemma free_pages_eq: "kmem_ok kend s ps \<Longrightarrow> free_pages s = set ps"
  using flist_unique [of "kmemory s" "freelist s" ps] by (auto simp: free_pages_def kmem_ok_def)

interpretation ka: page_allocator kalloc "kfree kend" 0 "kmem_inv kend" free_pages "page_ok kend" for kend
proof
  fix s t :: "'a kmem_scheme" and p :: uint
  show "kmem_inv kend s \<Longrightarrow> p \<in> free_pages s \<Longrightarrow> page_ok kend p"
    using free_pages_eq [of kend s] by (auto simp: kmem_inv_def kmem_ok_def)
  show "kmem_inv kend s \<Longrightarrow> finite (free_pages s)"
    using free_pages_eq [of kend s] by (auto simp: kmem_inv_def)
  show "page_ok kend p \<Longrightarrow> p \<noteq> 0" by (rule page_ok_range(4))
  show "kalloc s = (0, s)" if a: "kmem_inv kend s" "free_pages s = {}"
  proof -
    obtain ps where ps: "kmem_ok kend s ps" using a(1) by (auto simp: kmem_inv_def)
    then have "ps = []" using a(2) free_pages_eq [OF ps] by simp
    then show ?thesis using kalloc_spec [OF ps] by simp
  qed
  show "p \<in> free_pages s \<and> kmem_inv kend t \<and> free_pages t = free_pages s - {p}"
    if a: "kmem_inv kend s" "free_pages s \<noteq> {}" "kalloc s = (p, t)"
  proof -
    obtain ps where ps: "kmem_ok kend s ps" using a(1) by (auto simp: kmem_inv_def)
    then obtain q qs where q: "ps = q # qs" using a(2) free_pages_eq [OF ps] by (cases ps) auto
    then have "q = p" "kmem_ok kend t qs" using kalloc_spec [OF ps] a(3) by auto
    moreover have "q \<notin> set qs" using ps q by (simp add: kmem_ok_def)
    ultimately show ?thesis using free_pages_eq [OF ps] free_pages_eq [of kend t qs] q by (auto simp: kmem_inv_def)
  qed
  show "\<exists>t. kfree kend p s = Ret t \<and> kmem_inv kend t \<and> free_pages t = insert p (free_pages s)"
    if a: "kmem_inv kend s" "page_ok kend p" "p \<notin> free_pages s"
  proof -
    obtain ps where ps: "kmem_ok kend s ps" using a(1) by (auto simp: kmem_inv_def)
    then obtain t where "kfree kend p s = Ret t" "kmem_ok kend t (p # ps)"
      using kfree_spec [OF ps a(2)] a(3) free_pages_eq [OF ps] by auto
    then show ?thesis using free_pages_eq [OF ps] free_pages_eq [of kend t "p # ps"] by (auto simp: kmem_inv_def)
  qed
qed

section \<open>Rounding to pages and initialisation\<close>

lemma and_not_mask: "(x :: uint) AND NOT (mask n) = push_bit n (drop_bit n x)"
  by (rule bit_word_eqI) (auto simp: bit_simps)

lemma and_m4096: "(x :: uint) AND - 4096 = x div 4096 * 4096"
proof -
  have "(- 4096 :: uint) = NOT (mask 12)" by (simp add: mask_eq_exp_minus_1)
  then have "x AND - 4096 = push_bit 12 (drop_bit 12 x)" by (simp only: and_not_mask)
  then show ?thesis by (simp add: push_bit_eq_mult drop_bit_eq_div)
qed

lemma unat_PGROUNDDOWN: "unat (PGROUNDDOWN a) = unat a div 4096 * 4096"
proof -
  have le: "unat a div 4096 * 4096 < 2 ^ 32" using unsigned_less [of a, where 'a = nat] div_times_less_eq_dividend [of "unat a" 4096] by simp
  have "unat (PGROUNDDOWN a) = unat (a div 4096 * 4096)" by (simp add: PGROUNDDOWN_def and_m4096)
  also have "\<dots> = unat a div 4096 * 4096" using le by (simp add: unat_word_ariths unat_div_distrib)
  finally show ?thesis .
qed

lemma unat_PGROUNDUP:
  assumes "unat a + 4095 < 2 ^ 32"
  shows "unat (PGROUNDUP a) = (unat a + 4095) div 4096 * 4096"
proof -
  have "PGROUNDUP a = PGROUNDDOWN (a + 4095)" by (simp add: PGROUNDUP_def PGROUNDDOWN_def add.commute)
  moreover have "unat (a + 4095) = unat a + 4095" using assms by (simp add: unat_word_ariths)
  ultimately show ?thesis by (simp add: unat_PGROUNDDOWN)
qed

definition page_range :: "uint \<Rightarrow> nat \<Rightarrow> uint list" where
  "page_range p n = map (\<lambda>k. p + of_nat (4096 * k)) [0..<n]"

lemma page_range_Suc: "page_range p (Suc n) = p # page_range (p + 4096) n"
proof -
  have "page_range p (Suc n) = p # map (\<lambda>k. p + of_nat (4096 * Suc k)) [0..<n]"
    unfolding page_range_def map_upt_Suc by simp
  then show ?thesis by (simp add: page_range_def algebra_simps)
qed

lemma freerange_loop_spec:
  assumes "kmem_ok kend s ps" "\<forall>p \<in> set (page_range p n). page_ok kend p \<and> p \<notin> set ps"
    and "unat p + 4096 * n < 2 ^ 32" "n = 0 \<or> unat p + 4096 * n \<le> unat vend" "unat vend < unat p + 4096 * Suc n"
    and "unat p + 4096 * Suc n < 2 ^ 32"
  shows "\<exists>t. freerange_loop kend vend p s = Ret t \<and> kmem_ok kend t (rev (page_range p n) @ ps) \<and> use_lock t = use_lock s"
  using assms
proof (induction n arbitrary: p s ps)
  case 0
  have "unat (p + 4096) = unat p + 4096" using 0(6) by (simp add: unat_word_ariths)
  then have "\<not> p + 4096 \<le> vend" using 0(5) by (simp add: word_le_nat_alt)
  then show ?case using 0(1) by (simp add: freerange_loop.simps page_range_def)
next
  case (Suc n)
  have up: "unat (p + 4096) = unat p + 4096" using Suc.prems(3) by (simp add: unat_word_ariths)
  then have le: "p + 4096 \<le> vend" using Suc.prems(4) by (simp add: word_le_nat_alt)
  have p: "page_ok kend p" "p \<notin> set ps" using Suc.prems(2) by (simp_all add: page_range_Suc)
  obtain t where t: "kfree kend p s = Ret t" "kmem_ok kend t (p # ps)" "use_lock t = use_lock s"
    using kfree_spec [OF Suc.prems(1) p] by blast
  have "p \<notin> set (page_range (p + 4096) n)"
  proof
    assume "p \<in> set (page_range (p + 4096) n)"
    then obtain k where k: "k < n" "p = p + 4096 + of_nat (4096 * k)" by (auto simp: page_range_def)
    then have "unat p = unat (p + of_nat (4096 * Suc k))" by (simp add: algebra_simps)
    also have "\<dots> = unat p + 4096 * Suc k" using Suc.prems(3) k(1) by (intro unat_addr) simp
    finally show False by simp
  qed
  then have "\<forall>q \<in> set (page_range (p + 4096) n). page_ok kend q \<and> q \<notin> set (p # ps)"
    using Suc.prems(2) by (auto simp: page_range_Suc)
  then obtain u where "freerange_loop kend vend (p + 4096) t = Ret u"
    "kmem_ok kend u (rev (page_range (p + 4096) n) @ p # ps)" "use_lock u = use_lock t"
    using Suc.IH [OF t(2), of "p + 4096"] Suc.prems(3-6) up by auto
  then show ?case using le t by (subst freerange_loop.simps) (simp add: page_range_Suc)
qed

primrec kallocs :: "nat \<Rightarrow> 'a kmem_scheme \<Rightarrow> uint list \<times> 'a kmem_scheme" where
  "kallocs 0 s = ([], s)"
| "kallocs (Suc n) s = (let (p, s) = kalloc s; (ps, s) = kallocs n s in (p # ps, s))"

lemma kallocs_alloc_n: "kallocs n s = ka.alloc_n n s"
  by (induction n arbitrary: s) (simp_all add: Let_def split: prod.split)

text \<open>
  C23. The page allocator never hands out a page twice: \<open>n\<close> calls of \<open>kalloc\<close>, with at least \<open>n\<close> pages free,
  return \<open>n\<close> distinct page-aligned pages of physical memory above the kernel that were free before
  and are not free any more; freeing them all with \<open>kfree\<close> succeeds and makes exactly the same
  pages free again. With no free page \<open>kalloc\<close> returns the null pointer.
\<close>

theorem kalloc_kfree:
  assumes "kmem_inv kend s" "n \<le> card (free_pages s)"
  shows "case kallocs n s of (ps, t) \<Rightarrow>
    distinct ps \<and> length ps = n \<and> (\<forall>p \<in> set ps. page_ok kend p) \<and> set ps \<subseteq> free_pages s \<and>
    free_pages t = free_pages s - set ps \<and>
    (free_pages t = {} \<longrightarrow> kalloc t = (0, t)) \<and>
    (\<exists>u. foldR (kfree kend) ps t = Ret u \<and> kmem_inv kend u \<and> free_pages u = free_pages s)"
proof -
  obtain ps t where e: "kallocs n s = (ps, t)" by (cases "kallocs n s")
  note al = e [unfolded kallocs_alloc_n]
  note d = ka.alloc_n_distinct [OF assms al]
  show ?thesis
    using e d ka.alloc_free_restores [OF assms al] ka.avail_page [OF assms(1)] ka.alloc_empty [of kend t] by auto
qed

definition kmem0 :: kmem where
  "kmem0 = \<lparr>kmemory = (\<lambda>_. 0), use_lock = False, freelist = 0\<rparr>"

lemma kmem0_ok: "kmem_ok kend kmem0 []"
  by (simp add: kmem_ok_def kmem0_def)

theorem kalloc_kfree_witness:
  "\<exists>s t. kfree 0x80100000 0x80101000 kmem0 = Ret s \<and> kfree 0x80100000 0x80102000 s = Ret t \<and>
     (case kallocs 2 t of (ps, u) \<Rightarrow> distinct ps \<and> length ps = 2 \<and> set ps \<subseteq> {0x80101000, 0x80102000} \<and> kalloc u = (0, u))"
proof -
  have p: "page_ok 0x80100000 0x80101000" "page_ok 0x80100000 0x80102000" by (simp_all add: page_ok_def V2P_def)
  obtain s where s: "kfree 0x80100000 0x80101000 kmem0 = Ret s" "kmem_ok 0x80100000 s [0x80101000]"
    using kfree_spec [OF kmem0_ok p(1)] by auto
  obtain t where t: "kfree 0x80100000 0x80102000 s = Ret t" "kmem_ok 0x80100000 t [0x80102000, 0x80101000]"
    using kfree_spec [OF s(2) p(2)] by auto
  have f: "free_pages t = {0x80101000, 0x80102000}" using free_pages_eq [OF t(2)] by auto
  have i: "kmem_inv 0x80100000 t" using t(2) by (auto simp: kmem_inv_def)
  have c: "2 \<le> card (free_pages t)" unfolding f by simp
  obtain ps u where e: "kallocs 2 t = (ps, u)" by (cases "kallocs 2 t")
  have k: "distinct ps" "length ps = 2" "set ps \<subseteq> {0x80101000, 0x80102000}" "free_pages u = free_pages t - set ps"
    "free_pages u = {} \<longrightarrow> kalloc u = (0, u)"
    using kalloc_kfree [OF i c] e f by auto
  have "card (set ps) = 2" using k(1,2) distinct_card by metis
  then have "set ps = {0x80101000, 0x80102000}" using k(3) by (intro card_subset_eq) simp_all
  then show ?thesis using s(1) t(1) e k f by auto
qed

text \<open>
  Initialisation of the allocator: started on an empty free list, \<open>kinit1\<close> of a range of memory
  above the kernel and below \<open>PHYSTOP\<close> never panics and frees exactly the whole pages of the range,
  the last one first in the list.
\<close>

lemma kinit1_pages:
  assumes s: "kmem_ok kend s []" and a: "kend \<le> vstart" "KERNBASE \<le> vstart" "vstart \<le> vend" "V2P vend \<le> PHYSTOP"
  shows "\<exists>t. kinit1 kend vstart vend s = Ret t \<and>
    kmem_ok kend t (rev (page_range (PGROUNDUP vstart) (unat vend div PGSIZE - unat (PGROUNDUP vstart) div PGSIZE)))"
proof -
  let ?p = "PGROUNDUP vstart"
  define q r where "q = unat vend div 4096" and "r = (unat vstart + 4095) div 4096"
  have vs: "2147483648 \<le> unat vstart" "unat vstart \<le> unat vend" "unat kend \<le> unat vstart" using a by (simp_all add: word_le_nat_alt)
  have "unat (vend - 0x80000000) = unat vend - 2147483648" using a(2,3) by (subst unat_sub) auto
  then have ve: "unat vend \<le> 2382364672" using a(4) by (simp add: V2P_def word_le_nat_alt)
  have up: "unat ?p = r * 4096" using unat_PGROUNDUP [of vstart] vs ve by (simp add: r_def)
  have rd: "unat vstart \<le> r * 4096" "r * 4096 < unat vstart + 4096"
    using div_mult_mod_eq [of "unat vstart + 4095" 4096] mod_less_divisor [of 4096 "unat vstart + 4095"]
    unfolding r_def by linarith+
  have qd: "q * 4096 \<le> unat vend" "unat vend < q * 4096 + 4096"
    using div_mult_mod_eq [of "unat vend" 4096] mod_less_divisor [of 4096 "unat vend"] unfolding q_def by linarith+
  obtain x where x: "r * 4096 + 4096 * (q - r) = x * 4096" "q \<le> r \<and> x = r \<or> r < q \<and> x = q"
  proof (cases "q \<le> r")
    case True
    then show ?thesis by (intro that [of r]) simp_all
  next
    case False
    then have "r + (q - r) = q" by simp
    then have "r * 4096 + (q - r) * 4096 = q * 4096" by (metis distrib_right)
    then show ?thesis using False by (intro that [of q]) simp_all
  qed
  have b: "x * 4096 \<le> 2382368768" "unat vend < x * 4096 + 4096" using x(2) rd qd ve vs(2) by linarith+
  have "\<exists>t. freerange_loop kend vend ?p (s\<lparr>use_lock := False\<rparr>) = Ret t \<and> kmem_ok kend t (rev (page_range ?p (q - r)) @ []) \<and>
    use_lock t = use_lock (s\<lparr>use_lock := False\<rparr>)"
  proof (rule freerange_loop_spec)
    show "kmem_ok kend (s\<lparr>use_lock := False\<rparr>) []" using s by (simp add: kmem_ok_def)
    show "\<forall>p \<in> set (page_range ?p (q - r)). page_ok kend p \<and> p \<notin> set []"
    proof
      fix p
      assume "p \<in> set (page_range ?p (q - r))"
      then obtain k where k: "k < q - r" "p = ?p + of_nat (4096 * k)" by (auto simp: page_range_def)
      have b: "unat ?p + 4096 * k + 4096 \<le> unat vend" using k(1) up qd(1) by linarith
      then have u: "unat p = 4096 * (r + k)" using k(2) up ve unat_addr [of ?p "4096 * k"] by simp
      have "unat (p mod 4096) = 0" using u by (simp add: unat_mod_distrib)
      then have "p mod 4096 = 0" by (simp add: unat_eq_zero)
      moreover have "unat (p - 0x80000000) = unat p - 2147483648" using u rd vs by (subst unat_sub) (auto simp: word_le_nat_alt)
      ultimately show "page_ok kend p \<and> p \<notin> set []"
        using u up b vs rd ve by (simp add: page_ok_def V2P_def word_le_nat_alt word_less_nat_alt)
    qed
    show "unat ?p + 4096 * (q - r) < 2 ^ 32" "unat ?p + 4096 * Suc (q - r) < 2 ^ 32" "unat vend < unat ?p + 4096 * Suc (q - r)"
      using x(1) up b by simp_all
    show "q - r = 0 \<or> unat ?p + 4096 * (q - r) \<le> unat vend" using x up qd by linarith
  qed
  moreover have "unat ?p div 4096 = r" unfolding up by simp
  ultimately show ?thesis by (auto simp: kinit1_def freerange_def q_def)
qed

lemma kinit1_pages_example:
  "\<exists>t. kinit1 0x80100000 0x80100001 0x80103000 kmem0 = Ret t \<and> kmem_ok 0x80100000 t [0x80102000, 0x80101000]"
proof -
  have "PGROUNDUP 0x80100001 = 0x80101000" by (simp add: PGROUNDUP_def and_m4096)
  then show ?thesis
    using kinit1_pages [OF kmem0_ok, of "0x80100000" "0x80100001" "0x80103000"] by (simp add: V2P_def page_range_def upt_rec)
qed

end
