(* ===== verification/Ring.thy ===== *)
theory Ring
  imports Prelude
begin

text \<open>
  Ring buffers with free-running 32-bit indices, as the pipe (\<open>xv6/pipe.c\<close>) and the console input
  (\<open>xv6/console.c\<close>) use them, and the queue contract that both implement.
\<close>

section \<open>Contents of a ring\<close>

definition ring :: "'a list \<Rightarrow> uint \<Rightarrow> uint \<Rightarrow> 'a list" where
  "ring d r w = map (\<lambda>i. d ! (unat (r + of_nat i) mod length d)) [0..<unat (w - r)]"

definition ring_ok :: "'a list \<Rightarrow> uint \<Rightarrow> uint \<Rightarrow> bool" where
  "ring_ok d r w \<longleftrightarrow> unat (w - r) \<le> length d \<and> d \<noteq> [] \<and> length d dvd 4294967296 \<and> length d < 4294967296"

lemma length_ring [simp]: "length (ring d r w) = unat (w - r)"
  by (simp add: ring_def)

lemma ring_empty_iff: "ring d r w = [] \<longleftrightarrow> r = w"
  by (auto simp: ring_def unat_eq_zero)

text \<open>The indices wrap around at a multiple of the size, so that the slots of different indices differ.\<close>

lemma ring_slot_mod:
  assumes "n dvd 4294967296"
  shows "unat (r + of_nat i :: uint) mod n = (unat r + i) mod n"
proof -
  have "unat (r + of_nat i :: uint) = (unat r + i) mod 4294967296"
    by (simp add: unat_word_ariths unat_of_nat mod_simps)
  then show ?thesis using assms by (simp add: mod_mod_cancel)
qed

lemma ring_slot_inj:
  assumes "n dvd 4294967296" "i < j" "j - i < n"
  shows "unat (r + of_nat i :: uint) mod n \<noteq> unat (r + of_nat j :: uint) mod n"
proof
  assume "unat (r + of_nat i :: uint) mod n = unat (r + of_nat j :: uint) mod n"
  then have "(unat r + j) mod n = (unat r + i) mod n" by (simp add: ring_slot_mod [OF assms(1)])
  then have "n dvd unat r + j - (unat r + i)" using assms(2) by (intro mod_eq_dvd_iff_nat [THEN iffD1]) simp_all
  then have "n dvd j - i" by simp
  then show False using assms(2,3) by (auto dest: dvd_imp_le)
qed

lemma ring_push:
  assumes ok: "ring_ok d r w" and room: "unat (w - r) < length d"
  shows "ring (d[unat w mod length d := x]) r (w + 1) = ring d r w @ [x]" "ring_ok (d[unat w mod length d := x]) r (w + 1)"
proof -
  let ?n = "unat (w - r)" and ?d = "d[unat w mod length d := x]"
  have dvd: "length d dvd 4294967296" "d \<noteq> []" "length d < 4294967296" using ok by (simp_all add: ring_ok_def)
  have e: "w + 1 - r = (w - r) + 1" by simp
  have suc: "unat (w + 1 - r) = Suc ?n"
    using room dvd(3) unfolding e by (subst unat_word_ariths(1)) simp
  have w: "w = r + of_nat ?n" by simp
  have "?d ! (unat (r + of_nat i) mod length d) = (if i = ?n then x else d ! (unat (r + of_nat i) mod length d))"
    if "i < Suc ?n" for i
  proof (cases "i = ?n")
    case True
    then show ?thesis using dvd(2) by simp
  next
    case False
    then have "unat (r + of_nat i) mod length d \<noteq> unat (r + of_nat ?n) mod length d"
      using that room by (intro ring_slot_inj [OF dvd(1)]) simp_all
    then show ?thesis using False w by (metis nth_list_update_neq)
  qed
  then show "ring ?d r (w + 1) = ring d r w @ [x]" unfolding ring_def suc using dvd(2) by (simp add: map_eq_conv)
  show "ring_ok ?d r (w + 1)" using suc room dvd by (simp add: ring_ok_def)
qed

lemma ring_pop:
  assumes ok: "ring_ok d r w" and ne: "r \<noteq> w"
  shows "ring d r w = d ! (unat r mod length d) # ring d (r + 1) w" "ring_ok d (r + 1) w"
proof -
  have "w - r \<noteq> 0" using ne by simp
  then have "0 < unat (w - r)" by (simp add: unat_gt_0)
  then obtain n where n: "unat (w - r) = Suc n" by (metis gr0_implies_Suc)
  have e: "w - (r + 1) = (w - r) - 1" by simp
  have n': "unat (w - (r + 1)) = n" using n unat_minus_one [OF \<open>w - r \<noteq> 0\<close>] unfolding e by simp
  show "ring d r w = d ! (unat r mod length d) # ring d (r + 1) w"
    unfolding ring_def n n' map_upt_Suc by (simp add: add.assoc)
  show "ring_ok d (r + 1) w" using ok n n' by (simp add: ring_ok_def)
qed

section \<open>The contract of a bounded queue\<close>

locale fifo =
  fixes put :: "'x \<Rightarrow> 's \<Rightarrow> 's" and get :: "'s \<Rightarrow> 'x \<times> 's"
    and items :: "'s \<Rightarrow> 'x list" and inv :: "'s \<Rightarrow> bool" and cap :: nat
  assumes put_items: "inv s \<Longrightarrow> length (items s) < cap \<Longrightarrow> inv (put x s) \<and> items (put x s) = items s @ [x]"
    and get_items: "inv s \<Longrightarrow> items s = x # xs \<Longrightarrow> get s = (y, t) \<Longrightarrow> y = x \<and> inv t \<and> items t = xs"
begin

lemma puts_items:
  assumes "inv s" "length (items s) + length xs \<le> cap"
  shows "inv (fold put xs s) \<and> items (fold put xs s) = items s @ xs"
  using assms by (induction xs arbitrary: s) (simp_all add: put_items)

primrec gets :: "nat \<Rightarrow> 's \<Rightarrow> 'x list \<times> 's" where
  "gets 0 s = ([], s)"
| "gets (Suc n) s = (if items s = [] then ([], s) else let (x, s) = get s; (xs, s) = gets n s in (x # xs, s))"

lemma gets_items:
  assumes "inv s" "gets n s = (xs, t)"
  shows "xs = take n (items s) \<and> inv t \<and> items t = drop n (items s)"
  using assms
proof (induction n arbitrary: s xs t)
  case (Suc n)
  show ?case
  proof (cases "items s")
    case Nil
    then show ?thesis using Suc.prems by simp
  next
    case (Cons y ys)
    obtain x u where g: "get s = (x, u)" by (cases "get s")
    obtain zs where z: "gets n u = (zs, t)" "xs = x # zs"
      using Suc.prems(2) g Cons by (auto simp: Let_def split: prod.splits)
    have "x = y \<and> inv u \<and> items u = ys" using get_items [OF Suc.prems(1) Cons g] .
    then show ?thesis using Suc.IH [OF _ z(1)] z(2) Cons by simp
  qed
qed simp

text \<open>What goes in comes out, in order.\<close>

lemma put_get:
  assumes "inv s" "items s = []" "length xs \<le> cap" "gets (length xs) (fold put xs s) = (ys, t)"
  shows "ys = xs \<and> items t = []"
proof -
  have p: "inv (fold put xs s)" "items (fold put xs s) = xs" using puts_items [OF assms(1), of xs] assms(2,3) by simp_all
  show ?thesis using gets_items [OF p(1) assms(4)] p(2) by simp
qed

end

end
