(* ===== verification/Pipe.thy ===== *)
theory Pipe
  imports Ring
begin

text \<open>
  Pipes (\<open>xv6/pipe.c\<close>). Each operation runs with the lock of the pipe held until it returns or goes to
  sleep. A run of \<open>pipewrite\<close> that sleeps keeps the bytes it has not stored yet; a run of \<open>piperead\<close> that
  sleeps has read nothing; when they are woken they run again from the test of their loop. A run
  lists the channels it wakes.
\<close>

section \<open>State and operations\<close>

abbreviation "PIPESIZE \<equiv> (512 :: nat)"

record pipe =
  pdata :: "byte list"
  nread :: uint
  nwrite :: uint
  readopen :: bool
  writeopen :: bool

datatype pchan = ChNread | ChNwrite

datatype write_result = WDone | WFail | WSleep "byte list"

datatype read_result = RDone "byte list" | RFail | RSleep

text \<open>The pipe that \<open>pipealloc\<close> sets up in a fresh page, whose contents \<open>d\<close> are arbitrary.\<close>

definition pipe_init :: "byte list \<Rightarrow> pipe" where
  "pipe_init d = \<lparr>pdata = d, nread = 0, nwrite = 0, readopen = True, writeopen = True\<rparr>"

definition pipe_put :: "byte \<Rightarrow> pipe \<Rightarrow> pipe" where
  "pipe_put c p = p\<lparr>pdata := (pdata p)[unat (nwrite p) mod PIPESIZE := c], nwrite := nwrite p + 1\<rparr>"

definition pipe_get :: "pipe \<Rightarrow> byte \<times> pipe" where
  "pipe_get p = (pdata p ! (unat (nread p) mod PIPESIZE), p\<lparr>nread := nread p + 1\<rparr>)"

text \<open>\<open>killed\<close> is \<open>myproc()->killed\<close>; the result of a completed write is the number of bytes given.\<close>

fun pipewrite :: "bool \<Rightarrow> byte list \<Rightarrow> pipe \<Rightarrow> write_result \<times> pchan list \<times> pipe" where
  "pipewrite killed [] p = (WDone, [ChNread], p)"
| "pipewrite killed (c # cs) p =
     (if nwrite p = nread p + of_nat PIPESIZE then
        if \<not> readopen p \<or> killed then (WFail, [], p) else (WSleep (c # cs), [ChNread], p)
      else pipewrite killed cs (pipe_put c p))"

fun piperead_copy :: "nat \<Rightarrow> pipe \<Rightarrow> byte list \<times> pipe" where
  "piperead_copy 0 p = ([], p)"
| "piperead_copy (Suc n) p =
     (if nread p = nwrite p then ([], p)
      else let (c, p) = pipe_get p; (cs, p) = piperead_copy n p in (c # cs, p))"

definition piperead :: "bool \<Rightarrow> nat \<Rightarrow> pipe \<Rightarrow> read_result \<times> pchan list \<times> pipe" where
  "piperead killed n p =
     (if nread p = nwrite p \<and> writeopen p then if killed then (RFail, [], p) else (RSleep, [], p)
      else let (cs, p) = piperead_copy n p in (RDone cs, [ChNwrite], p))"

text \<open>The first component says whether the page of the pipe is freed.\<close>

definition pipeclose :: "bool \<Rightarrow> pipe \<Rightarrow> bool \<times> pchan list \<times> pipe" where
  "pipeclose writable p =
     (let p = (if writable then p\<lparr>writeopen := False\<rparr> else p\<lparr>readopen := False\<rparr>) in
      (\<not> readopen p \<and> \<not> writeopen p, [if writable then ChNread else ChNwrite], p))"

section \<open>The pipe is a bounded queue\<close>

definition pitems :: "pipe \<Rightarrow> byte list" where
  "pitems p = ring (pdata p) (nread p) (nwrite p)"

definition pipe_inv :: "pipe \<Rightarrow> bool" where
  "pipe_inv p \<longleftrightarrow> length (pdata p) = PIPESIZE \<and> ring_ok (pdata p) (nread p) (nwrite p)"

interpretation pf: fifo pipe_put pipe_get pitems pipe_inv PIPESIZE
proof
  show "pipe_inv (pipe_put x s) \<and> pitems (pipe_put x s) = pitems s @ [x]"
    if "pipe_inv s" "length (pitems s) < PIPESIZE" for s x
    using that ring_push [of "pdata s" "nread s" "nwrite s" x] by (simp add: pipe_inv_def pitems_def pipe_put_def)
  show "y = x \<and> pipe_inv t \<and> pitems t = xs" if "pipe_inv s" "pitems s = x # xs" "pipe_get s = (y, t)" for s x xs y t
  proof -
    have "nread s \<noteq> nwrite s" using that(2) ring_empty_iff [of "pdata s" "nread s" "nwrite s"] by (auto simp: pitems_def)
    then show ?thesis using that ring_pop [of "pdata s" "nread s" "nwrite s"] by (auto simp: pipe_inv_def pitems_def pipe_get_def)
  qed
qed

lemma pipe_full_iff: "pipe_inv p \<Longrightarrow> nwrite p = nread p + 512 \<longleftrightarrow> length (pitems p) = PIPESIZE"
proof -
  assume "pipe_inv p"
  have "nwrite p = nread p + 512 \<longleftrightarrow> nwrite p - nread p = 512" by (auto simp: diff_eq_eq)
  also have "\<dots> \<longleftrightarrow> unat (nwrite p - nread p) = unat (512 :: uint)" by (simp only: word_unat_eq_iff)
  finally show ?thesis by (simp add: pitems_def)
qed

lemma pipe_empty_iff: "nread p = nwrite p \<longleftrightarrow> pitems p = []"
  by (simp add: pitems_def ring_empty_iff)

lemma pipewrite_spec:
  assumes "pipe_inv p" "pipewrite killed cs p = (r, ws, q)"
  shows "pipe_inv q \<and> readopen q = readopen p \<and> writeopen q = writeopen p \<and>
    (\<exists>d rest. cs = d @ rest \<and> pitems q = pitems p @ d \<and>
      (case r of
         WDone \<Rightarrow> rest = [] \<and> ChNread \<in> set ws
       | WSleep rs \<Rightarrow> rs = rest \<and> rest \<noteq> [] \<and> length (pitems q) = PIPESIZE \<and> readopen p \<and> \<not> killed \<and> ChNread \<in> set ws
       | WFail \<Rightarrow> ws = [] \<and> rest \<noteq> [] \<and> length (pitems q) = PIPESIZE \<and> (killed \<or> \<not> readopen p)))"
  using assms
proof (induction killed cs p rule: pipewrite.induct)
  case (1 killed p)
  then show ?case by auto
next
  case (2 killed c cs p)
  show ?case
  proof (cases "nwrite p = nread p + of_nat PIPESIZE")
    case True
    then show ?thesis using 2(2,3) pipe_full_iff [OF 2(2)] by (auto split: if_splits)
  next
    case False
    have "length (pitems p) \<le> PIPESIZE" using 2(2) by (simp add: pipe_inv_def ring_ok_def pitems_def)
    then have "length (pitems p) < PIPESIZE" using False pipe_full_iff [OF 2(2)] by simp
    then have p: "pipe_inv (pipe_put c p)" "pitems (pipe_put c p) = pitems p @ [c]" using pf.put_items [OF 2(2)] by blast+
    have "pipewrite killed cs (pipe_put c p) = (r, ws, q)" using 2(3) False by simp
    from 2(1) [OF False p(1) this] obtain d rest where d: "cs = d @ rest" "pitems q = pitems (pipe_put c p) @ d"
      and r: "case r of WDone \<Rightarrow> rest = [] \<and> ChNread \<in> set ws
         | WSleep rs \<Rightarrow> rs = rest \<and> rest \<noteq> [] \<and> length (pitems q) = PIPESIZE \<and> readopen (pipe_put c p) \<and> \<not> killed \<and> ChNread \<in> set ws
         | WFail \<Rightarrow> ws = [] \<and> rest \<noteq> [] \<and> length (pitems q) = PIPESIZE \<and> (killed \<or> \<not> readopen (pipe_put c p))"
      and o: "pipe_inv q" "readopen q = readopen (pipe_put c p)" "writeopen q = writeopen (pipe_put c p)" by blast
    have op: "readopen (pipe_put c p) = readopen p" "writeopen (pipe_put c p) = writeopen p" by (simp_all add: pipe_put_def)
    have e: "c # cs = (c # d) @ rest" "pitems q = pitems p @ (c # d)" using d p(2) by simp_all
    show ?thesis using o r unfolding op by (intro conjI exI [of _ "c # d"] exI [of _ rest] e) simp_all
  qed
qed

lemma piperead_copy_gets: "piperead_copy n p = pf.gets n p"
  by (induction n arbitrary: p) (simp_all add: pipe_empty_iff Let_def split: prod.split)

lemma piperead_copy_open: "piperead_copy n p = (cs, q) \<Longrightarrow> readopen q = readopen p \<and> writeopen q = writeopen p"
proof (induction n arbitrary: p cs)
  case (Suc n)
  then show ?case by (auto simp: pipe_get_def Let_def split: if_splits prod.splits)
qed simp

lemma piperead_spec:
  assumes "pipe_inv p" "piperead killed n p = (r, ws, q)"
  shows "pipe_inv q \<and> readopen q = readopen p \<and> writeopen q = writeopen p \<and>
    (case r of
       RDone cs \<Rightarrow> cs = take n (pitems p) \<and> pitems q = drop n (pitems p) \<and> (pitems p \<noteq> [] \<or> \<not> writeopen p) \<and> ChNwrite \<in> set ws
     | RSleep \<Rightarrow> q = p \<and> pitems p = [] \<and> writeopen p \<and> \<not> killed
     | RFail \<Rightarrow> q = p \<and> pitems p = [] \<and> writeopen p \<and> killed)"
proof (cases "nread p = nwrite p \<and> writeopen p")
  case True
  then show ?thesis using assms by (auto simp: piperead_def pipe_empty_iff split: if_splits)
next
  case False
  obtain cs u where g: "piperead_copy n p = (cs, u)" by (cases "piperead_copy n p")
  then show ?thesis
    using assms False pf.gets_items [OF assms(1) g [unfolded piperead_copy_gets]] piperead_copy_open [OF g]
    by (auto simp: piperead_def pipe_empty_iff)
qed

section \<open>Readers and writers of one pipe\<close>

text \<open>
  The ghost state of a pipe in use: the bytes its writers have stored and the bytes its readers
  have been given, and the processes asleep on each channel. Any process that is not asleep may run
  one of the operations, with any arguments; a woken process runs again by a step of its own. An end
  is closed only when no process sleeps in a call on it, because the call holds a reference. The
  processes are not killed; what a killed writer does is a property of its own below.
\<close>

record pipe_use =
  the_pipe :: pipe
  sent :: "byte list"
  received :: "byte list"
  rsleep :: "nat set"
  wsleep :: "nat set"

definition wake :: "pchan list \<Rightarrow> pipe_use \<Rightarrow> pipe_use" where
  "wake ws s = s\<lparr>rsleep := (if ChNread \<in> set ws then {} else rsleep s), wsleep := (if ChNwrite \<in> set ws then {} else wsleep s)\<rparr>"

definition pipe_start :: "pipe_use \<Rightarrow> bool" where
  "pipe_start s \<longleftrightarrow> (\<exists>d. length d = PIPESIZE \<and>
     s = \<lparr>the_pipe = pipe_init d, sent = [], received = [], rsleep = {}, wsleep = {}\<rparr>)"

definition after_write :: "nat \<Rightarrow> write_result \<times> pchan list \<times> pipe \<Rightarrow> pipe_use \<Rightarrow> pipe_use" where
  "after_write pid x s =
     (case x of (r, ws, q) \<Rightarrow>
        let t = wake ws (s\<lparr>the_pipe := q, sent := sent s @ drop (length (pitems (the_pipe s))) (pitems q)\<rparr>)
        in case r of WSleep rest \<Rightarrow> t\<lparr>wsleep := insert pid (wsleep t)\<rparr> | _ \<Rightarrow> t)"

definition after_read :: "nat \<Rightarrow> read_result \<times> pchan list \<times> pipe \<Rightarrow> pipe_use \<Rightarrow> pipe_use" where
  "after_read pid x s =
     (case x of (r, ws, q) \<Rightarrow>
        let t = wake ws (s\<lparr>the_pipe := q, received := received s @ (case r of RDone cs \<Rightarrow> cs | _ \<Rightarrow> [])\<rparr>)
        in case r of RSleep \<Rightarrow> t\<lparr>rsleep := insert pid (rsleep t)\<rparr> | _ \<Rightarrow> t)"

inductive pipe_step :: "pipe_use \<Rightarrow> pipe_use \<Rightarrow> bool" where
  p_write: "pid \<notin> wsleep s \<union> rsleep s \<Longrightarrow> writeopen (the_pipe s) \<Longrightarrow>
    pipe_step s (after_write pid (pipewrite False cs (the_pipe s)) s)"
| p_read: "pid \<notin> wsleep s \<union> rsleep s \<Longrightarrow> readopen (the_pipe s) \<Longrightarrow>
    pipe_step s (after_read pid (piperead False n (the_pipe s)) s)"
| p_close: "(if writable then wsleep s = {} else rsleep s = {}) \<Longrightarrow> pipeclose writable (the_pipe s) = (freed, ws, q) \<Longrightarrow>
    pipe_step s (wake ws (s\<lparr>the_pipe := q\<rparr>))"

text \<open>
  No wakeup is lost: a reader only sleeps while the pipe is empty and a writer is left, a writer only
  while the pipe is full and a reader is left.
\<close>

definition pipe_use_inv :: "pipe_use \<Rightarrow> bool" where
  "pipe_use_inv s \<longleftrightarrow> pipe_inv (the_pipe s) \<and> sent s = received s @ pitems (the_pipe s) \<and>
     (rsleep s \<noteq> {} \<longrightarrow> pitems (the_pipe s) = [] \<and> writeopen (the_pipe s) \<and> readopen (the_pipe s)) \<and>
     (wsleep s \<noteq> {} \<longrightarrow> length (pitems (the_pipe s)) = PIPESIZE \<and> writeopen (the_pipe s) \<and> readopen (the_pipe s))"

lemma inv_after_write:
  assumes "pipe_use_inv s" "writeopen (the_pipe s)"
  shows "pipe_use_inv (after_write pid (pipewrite False cs (the_pipe s)) s)"
proof -
  obtain r ws q where x: "pipewrite False cs (the_pipe s) = (r, ws, q)" by (cases "pipewrite False cs (the_pipe s)")
  have inv: "pipe_inv (the_pipe s)" using assms(1) by (simp add: pipe_use_inv_def)
  obtain d rest where d: "pipe_inv q" "readopen q = readopen (the_pipe s)" "writeopen q = writeopen (the_pipe s)"
    "pitems q = pitems (the_pipe s) @ d"
    and r: "case r of WDone \<Rightarrow> rest = [] \<and> ChNread \<in> set ws
       | WSleep rs \<Rightarrow> rs = rest \<and> rest \<noteq> [] \<and> length (pitems q) = PIPESIZE \<and> readopen (the_pipe s) \<and> \<not> False \<and> ChNread \<in> set ws
       | WFail \<Rightarrow> ws = [] \<and> rest \<noteq> [] \<and> length (pitems q) = PIPESIZE \<and> (False \<or> \<not> readopen (the_pipe s))"
    using pipewrite_spec [OF inv x] by blast
  have le: "length (pitems q) \<le> PIPESIZE" using d(1) by (simp add: pipe_inv_def ring_ok_def pitems_def)
  have full: "wsleep s \<noteq> {} \<Longrightarrow> length (pitems q) = PIPESIZE" using assms(1) le d(4) by (simp add: pipe_use_inv_def)
  show ?thesis
  proof (cases r)
    case WDone
    then show ?thesis using assms d r full by (auto simp: x after_write_def wake_def pipe_use_inv_def)
  next
    case WFail
    then show ?thesis using assms d r full by (auto simp: x after_write_def wake_def pipe_use_inv_def)
  next
    case (WSleep rs)
    then show ?thesis using assms d r full by (auto simp: x after_write_def wake_def pipe_use_inv_def)
  qed
qed

lemma inv_after_read:
  assumes "pipe_use_inv s" "readopen (the_pipe s)"
  shows "pipe_use_inv (after_read pid (piperead False n (the_pipe s)) s)"
proof -
  obtain r ws q where x: "piperead False n (the_pipe s) = (r, ws, q)" by (cases "piperead False n (the_pipe s)")
  have inv: "pipe_inv (the_pipe s)" using assms(1) by (simp add: pipe_use_inv_def)
  note sp = piperead_spec [OF inv x]
  show ?thesis
  proof (cases r)
    case (RDone cs)
    then show ?thesis using assms sp by (auto simp: x after_read_def wake_def pipe_use_inv_def)
  next
    case RFail
    then show ?thesis using sp by simp
  next
    case RSleep
    then show ?thesis using assms sp by (auto simp: x after_read_def wake_def pipe_use_inv_def)
  qed
qed

lemma inv_close:
  assumes "pipe_use_inv s" "if writable then wsleep s = {} else rsleep s = {}" "pipeclose writable (the_pipe s) = (freed, ws, q)"
  shows "pipe_use_inv (wake ws (s\<lparr>the_pipe := q\<rparr>))"
proof -
  have "pitems q = pitems (the_pipe s)" "pipe_inv q = pipe_inv (the_pipe s)"
    using assms(3) by (cases writable; auto simp: pipeclose_def pitems_def pipe_inv_def Let_def)+
  then show ?thesis
    using assms by (cases writable) (auto simp: pipeclose_def wake_def pipe_use_inv_def Let_def)
qed

interpretation pipem: inductive_invariant pipe_start pipe_step pipe_use_inv
proof
  show "pipe_use_inv s" if "pipe_start s" for s
    using that by (auto simp: pipe_start_def pipe_use_inv_def pipe_init_def pipe_inv_def ring_ok_def pitems_def ring_def)
  show "pipe_use_inv t" if "pipe_use_inv s" "pipe_step s t" for s t
    using that(2,1) by cases (auto intro: inv_after_write inv_after_read inv_close)
qed

section \<open>Properties\<close>


definition pipe0 :: pipe_use where
  "pipe0 = \<lparr>the_pipe = pipe_init (replicate 512 0), sent = [], received = [], rsleep = {}, wsleep = {}\<rparr>"

lemma pipe0_reachable: "reachable pipe_start pipe_step pipe0"
proof (rule reachable_init)
  show "pipe_start pipe0" unfolding pipe_start_def pipe0_def by (rule exI [of _ "replicate 512 0"]) simp
qed

definition pipe1 :: pipe_use where
  "pipe1 = after_write 1 (pipewrite False [1, 2, 3] (the_pipe pipe0)) pipe0"

definition pipe2 :: pipe_use where
  "pipe2 = after_read 2 (piperead False 2 (the_pipe pipe1)) pipe1"

lemma pipe1_reachable: "reachable pipe_start pipe_step pipe1"
  unfolding pipe1_def by (rule reachable_step [OF pipe0_reachable p_write]) (simp_all add: pipe0_def pipe_init_def)

lemma pipe1_simps: "readopen (the_pipe pipe1)" "rsleep pipe1 = {}" "wsleep pipe1 = {}" "sent pipe1 = [1, 2, 3]"
  "pitems (the_pipe pipe1) = [1, 2, 3]"
  by (simp_all add: pipe1_def pipe0_def after_write_def wake_def pipe_init_def pipe_put_def pitems_def ring_def upt_rec)

lemma pipe2_reachable: "reachable pipe_start pipe_step pipe2"
  unfolding pipe2_def by (rule reachable_step [OF pipe1_reachable p_read]) (simp_all add: pipe1_simps)

lemma pipe2_simps: "sent pipe2 = [1, 2, 3]" "received pipe2 = [1, 2]"
proof -
  have inv: "pipe_inv (the_pipe pipe1)" using pipem.inv_reachable [OF pipe1_reachable] by (simp add: pipe_use_inv_def)
  obtain r ws q where x: "piperead False 2 (the_pipe pipe1) = (r, ws, q)" by (cases "piperead False 2 (the_pipe pipe1)")
  have "r = RDone [1, 2]" using piperead_spec [OF inv x] by (cases r) (simp_all add: pipe1_simps)
  moreover have "received pipe1 = []" by (simp add: pipe1_def pipe0_def after_write_def wake_def pipe_init_def pipe_put_def)
  ultimately show "sent pipe2 = [1, 2, 3]" "received pipe2 = [1, 2]"
    by (simp_all add: pipe2_def x after_read_def wake_def pipe1_simps)
qed




text \<open>
  A killed writer can strand a reader: with a reader asleep on an empty pipe, a process that has been
  killed and writes more than \<open>PIPESIZE\<close> bytes fills the buffer and returns \<open>-1\<close> without waking the
  reader, which sleeps on although the buffer is full of data for it.
\<close>

lemma pipe_killed_writer:
  assumes "reachable pipe_start pipe_step s" "pid \<in> rsleep s" "PIPESIZE < length cs"
  shows "\<exists>q. pipewrite True cs (the_pipe s) = (WFail, [], q) \<and> pitems q = take PIPESIZE cs \<and>
    pid \<in> rsleep (after_write w (pipewrite True cs (the_pipe s)) s)"
proof -
  note inv = pipem.inv_reachable [OF assms(1), unfolded pipe_use_inv_def]
  have e: "pitems (the_pipe s) = []" "pipe_inv (the_pipe s)" using inv assms(2) by auto
  obtain r ws q where x: "pipewrite True cs (the_pipe s) = (r, ws, q)" by (cases "pipewrite True cs (the_pipe s)")
  obtain d rest where d: "pipe_inv q" "cs = d @ rest" "pitems q = d"
    and r: "case r of WDone \<Rightarrow> rest = [] \<and> ChNread \<in> set ws
       | WSleep rs \<Rightarrow> rs = rest \<and> rest \<noteq> [] \<and> length (pitems q) = PIPESIZE \<and> readopen (the_pipe s) \<and> \<not> True \<and> ChNread \<in> set ws
       | WFail \<Rightarrow> ws = [] \<and> rest \<noteq> [] \<and> length (pitems q) = PIPESIZE \<and> (True \<or> \<not> readopen (the_pipe s))"
    using pipewrite_spec [OF e(2) x] e(1) by auto
  have "length (pitems q) \<le> PIPESIZE" using d(1) by (simp add: pipe_inv_def ring_ok_def pitems_def)
  then have "r = WFail" using r d assms(3) by (cases r) auto
  then show ?thesis using x r d assms(2) by (auto simp: after_write_def wake_def)
qed

definition pipe3 :: pipe_use where
  "pipe3 = \<lparr>the_pipe = pipe_init (replicate 512 0), sent = [], received = [], rsleep = {7}, wsleep = {}\<rparr>"

lemma pipe3_reachable: "reachable pipe_start pipe_step pipe3"
proof -
  have "pipe_step pipe0 (after_read 7 (piperead False 1 (the_pipe pipe0)) pipe0)"
    by (rule p_read) (simp_all add: pipe0_def pipe_init_def)
  moreover have "after_read 7 (piperead False 1 (the_pipe pipe0)) pipe0 = pipe3"
    by (simp add: after_read_def wake_def piperead_def pipe_init_def pipe3_def pipe0_def)
  ultimately show ?thesis using reachable_step [OF pipe0_reachable] by metis
qed

lemma pipe_killed_writer_example:
  "\<exists>q. pipewrite True (replicate 600 1) (the_pipe pipe3) = (WFail, [], q) \<and> pitems q = replicate 512 1"
  using pipe_killed_writer [OF pipe3_reachable, of 7 "replicate 600 1"] by (auto simp: pipe3_def)

end
