(* ===== verification/Grep.thy ===== *)
theory Grep
  imports Prelude
begin

text \<open>
  The regular expression matcher and the line loop of \<open>xv6/grep.c\<close>. Patterns and lines are strings
  without NUL characters; the terminating NUL is the end of the list.
\<close>

section \<open>The matcher\<close>

function (sequential) matchhere :: "string \<Rightarrow> string \<Rightarrow> bool"
  and matchstar :: "char \<Rightarrow> string \<Rightarrow> string \<Rightarrow> bool" where
  "matchhere [] str = True"
| "matchhere (c # re) str =
     (if re \<noteq> [] \<and> hd re = CHR ''*'' then matchstar c (tl re) str
      else if c = CHR ''$'' \<and> re = [] then str = []
      else (case str of
              [] \<Rightarrow> False
            | t # ts \<Rightarrow> if c = CHR ''.'' \<or> c = t then matchhere re ts else False))"
| "matchstar c re str =
     (if matchhere re str then True
      else (case str of
              [] \<Rightarrow> False
            | t # ts \<Rightarrow> if t = c \<or> c = CHR ''.'' then matchstar c re ts else False))"
  by pat_completeness auto
termination
  by (relation "measures [\<lambda>x. case x of Inl (re, t) \<Rightarrow> length re | Inr (c, re, t) \<Rightarrow> Suc (length re),
        \<lambda>x. case x of Inl (re, t) \<Rightarrow> length t | Inr (c, re, t) \<Rightarrow> length t]")
    (auto simp: Suc_diff_le neq_Nil_conv)

declare matchhere.simps(2) [simp del] matchstar.simps [simp del]

fun match_suffixes :: "string \<Rightarrow> string \<Rightarrow> bool" where
  "match_suffixes re str =
     (if matchhere re str then True else (case str of [] \<Rightarrow> False | _ # ts \<Rightarrow> match_suffixes re ts))"

declare match_suffixes.simps [simp del]

definition match :: "string \<Rightarrow> string \<Rightarrow> bool" where
  "match re str =
     (if re \<noteq> [] \<and> hd re = CHR ''^'' then matchhere (tl re) str else match_suffixes re str)"

section \<open>What a pattern means\<close>

text \<open>
  A pattern is a sequence of atoms, each possibly starred, and possibly anchored at the end of the
  line. Its language is the concatenation of the languages of the atoms.
\<close>

datatype atom = Ch char | Dot

primrec atom_ok :: "atom \<Rightarrow> char \<Rightarrow> bool" where
  "atom_ok (Ch c) t \<longleftrightarrow> t = c"
| "atom_ok Dot t \<longleftrightarrow> True"

definition atom_of :: "char \<Rightarrow> atom" where
  "atom_of c = (if c = CHR ''.'' then Dot else Ch c)"

fun parse :: "string \<Rightarrow> (atom \<times> bool) list \<times> bool" where
  "parse [] = ([], False)"
| "parse [c] = (if c = CHR ''$'' then ([], True) else ([(atom_of c, False)], False))"
| "parse (c # d # re) =
     (if d = CHR ''*'' then (let (xs, e) = parse re in ((atom_of c, True) # xs, e))
      else (let (xs, e) = parse (d # re) in ((atom_of c, False) # xs, e)))"

primrec lang :: "(atom \<times> bool) list \<Rightarrow> string set" where
  "lang [] = {[]}"
| "lang (x # xs) =
     (case x of (a, star) \<Rightarrow>
        if star then {u @ v | u v. (\<forall>t \<in> set u. atom_ok a t) \<and> v \<in> lang xs}
        else {t # v | t v. atom_ok a t \<and> v \<in> lang xs})"

definition matches_at :: "string \<Rightarrow> string \<Rightarrow> bool" where
  "matches_at re str \<longleftrightarrow>
     (case parse re of (xs, e) \<Rightarrow> \<exists>u v. str = u @ v \<and> u \<in> lang xs \<and> (e \<longrightarrow> v = []))"

lemma atom_ok_of: "atom_ok (atom_of c) t \<longleftrightarrow> c = CHR ''.'' \<or> t = c"
  by (auto simp: atom_of_def)

lemma matches_at_Nil: "matches_at [] str"
  by (simp add: matches_at_def)

lemma conc_split:
  "(\<exists>u v. s = u @ v \<and> (\<exists>a b. u = a @ b \<and> P a \<and> b \<in> L) \<and> E v) \<longleftrightarrow>
     (\<exists>a w. s = a @ w \<and> P a \<and> (\<exists>b v. w = b @ v \<and> b \<in> L \<and> E v))"
proof
  assume "\<exists>u v. s = u @ v \<and> (\<exists>a b. u = a @ b \<and> P a \<and> b \<in> L) \<and> E v"
  then obtain a b v where "s = a @ (b @ v)" "P a" "b \<in> L" "E v" by auto
  then show "\<exists>a w. s = a @ w \<and> P a \<and> (\<exists>b v. w = b @ v \<and> b \<in> L \<and> E v)" by blast
next
  assume "\<exists>a w. s = a @ w \<and> P a \<and> (\<exists>b v. w = b @ v \<and> b \<in> L \<and> E v)"
  then obtain a b v where "s = (a @ b) @ v" "P a" "b \<in> L" "E v" by auto
  then show "\<exists>u v. s = u @ v \<and> (\<exists>a b. u = a @ b \<and> P a \<and> b \<in> L) \<and> E v" by blast
qed

lemma matches_at_star:
  "matches_at (c # CHR ''*'' # re) str \<longleftrightarrow>
     (\<exists>u w. str = u @ w \<and> (\<forall>t \<in> set u. atom_ok (atom_of c) t) \<and> matches_at re w)"
proof -
  obtain xs e where p: "parse re = (xs, e)" by (cases "parse re")
  show ?thesis
    using conc_split [of str "\<lambda>u. \<forall>t \<in> set u. atom_ok (atom_of c) t" "lang xs" "\<lambda>v. e \<longrightarrow> v = []"]
    by (simp add: matches_at_def p)
qed

lemma matches_at_char:
  assumes "\<not> (re \<noteq> [] \<and> hd re = CHR ''*'')" "\<not> (c = CHR ''$'' \<and> re = [])"
  shows "matches_at (c # re) str \<longleftrightarrow> (\<exists>t ts. str = t # ts \<and> atom_ok (atom_of c) t \<and> matches_at re ts)"
proof -
  obtain xs e where p: "parse re = (xs, e)" by (cases "parse re")
  have "parse (c # re) = ((atom_of c, False) # xs, e)" using assms p by (cases re) auto
  then have "matches_at (c # re) str \<longleftrightarrow>
      (\<exists>u v. str = u @ v \<and> (\<exists>t w. u = t # w \<and> atom_ok (atom_of c) t \<and> w \<in> lang xs) \<and> (e \<longrightarrow> v = []))"
    by (simp add: matches_at_def)
  also have "\<dots> \<longleftrightarrow> (\<exists>t ts. str = t # ts \<and> atom_ok (atom_of c) t \<and> (\<exists>u v. ts = u @ v \<and> u \<in> lang xs \<and> (e \<longrightarrow> v = [])))"
    by (metis append_Cons)
  finally show ?thesis by (simp add: matches_at_def p)
qed

lemma star_unfold:
  "(\<exists>u w. str = u @ w \<and> (\<forall>t \<in> set u. A t) \<and> P w) \<longleftrightarrow>
     P str \<or> (\<exists>t ts. str = t # ts \<and> A t \<and> (\<exists>u w. ts = u @ w \<and> (\<forall>t \<in> set u. A t) \<and> P w))" (is "?L \<longleftrightarrow> ?R")
proof
  assume ?L
  then obtain u w where u: "str = u @ w" "\<forall>t \<in> set u. A t" "P w" by blast
  show ?R
  proof (cases u)
    case Nil
    then show ?thesis using u by simp
  next
    case (Cons t u')
    then have "str = t # (u' @ w)" "A t" "\<forall>t \<in> set u'. A t" using u by auto
    then show ?thesis using u(3) by blast
  qed
next
  assume ?R
  then consider "P str" | t u w where "str = (t # u) @ w" "\<forall>x \<in> set (t # u). A x" "P w" by auto
  then show ?L
  proof cases
    case 1
    then show ?thesis by (intro exI [of _ "[]"] exI [of _ str]) simp
  next
    case 2
    then show ?thesis by blast
  qed
qed

lemma matchhere_correct:
  "matchhere re str \<longleftrightarrow> matches_at re str"
  "matchstar c re str \<longleftrightarrow> matches_at (c # CHR ''*'' # re) str"
proof (induction re str and c re str rule: matchhere_matchstar.induct)
  case (1 str)
  then show ?case by (simp add: matches_at_Nil)
next
  case (2 c re str)
  consider "re \<noteq> [] \<and> hd re = CHR ''*''" | "\<not> (re \<noteq> [] \<and> hd re = CHR ''*'')" "c = CHR ''$'' \<and> re = []"
    | "\<not> (re \<noteq> [] \<and> hd re = CHR ''*'')" "\<not> (c = CHR ''$'' \<and> re = [])" by blast
  then show ?case
  proof cases
    case 1
    then have "re = CHR ''*'' # tl re" by (cases re) auto
    then show ?thesis using 1 2(1) [OF 1] by (simp add: matchhere.simps(2))
  next
    case 2
    then show ?thesis by (simp add: matchhere.simps(2) matches_at_def)
  next
    case 3
    show ?thesis
    proof (cases str)
      case Nil
      then show ?thesis using 3 by (auto simp: matchhere.simps(2) matches_at_char [OF 3])
    next
      case (Cons t ts)
      then show ?thesis
        using 2(2) [OF 3 Cons] 3 by (auto simp: matchhere.simps(2) matches_at_char [OF 3] atom_ok_of)
    qed
  qed
next
  case (3 c re str)
  show ?case
  proof (cases str)
    case Nil
    then show ?thesis using 3(1) by (simp add: matchstar.simps matches_at_star)
  next
    case (Cons t ts)
    have "matchstar c re str \<longleftrightarrow> matches_at re str \<or> (t = c \<or> c = CHR ''.'') \<and> matchstar c re ts"
      using 3(1) Cons by (subst matchstar.simps) simp
    also have "\<dots> \<longleftrightarrow> matches_at (c # CHR ''*'' # re) str"
    proof (cases "matches_at re str")
      case True
      then show ?thesis unfolding matches_at_star star_unfold [of str] by simp
    next
      case False
      then show ?thesis
        using 3(2) [OF _ Cons] 3(1) unfolding matches_at_star star_unfold [of str] by (auto simp: Cons atom_ok_of)
    qed
    finally show ?thesis .
  qed
qed

lemma match_suffixes_correct:
  "match_suffixes re str \<longleftrightarrow> (\<exists>pre suf. str = pre @ suf \<and> matches_at re suf)"
proof (induction str)
  case Nil
  then show ?case by (simp add: match_suffixes.simps matchhere_correct)
next
  case (Cons t ts)
  have "match_suffixes re (t # ts) \<longleftrightarrow> matches_at re (t # ts) \<or> match_suffixes re ts"
    by (subst match_suffixes.simps) (simp add: matchhere_correct)
  also have "\<dots> \<longleftrightarrow> (\<exists>pre suf. t # ts = pre @ suf \<and> matches_at re suf)"
    unfolding Cons by (auto simp: Cons_eq_append_conv)
  finally show ?case .
qed

section \<open>The line loop\<close>

abbreviation "NL \<equiv> CHR 0x0A"
abbreviation "NUL \<equiv> CHR 0x00"
abbreviation "GBUF \<equiv> (1024 :: nat)"

text \<open>\<open>strchr\<close> on the NUL-terminated contents of the buffer.\<close>

fun strchr_pos :: "char \<Rightarrow> string \<Rightarrow> nat option" where
  "strchr_pos c [] = None"
| "strchr_pos c (x # xs) = (if x = c then Some 0 else if x = NUL then None else map_option Suc (strchr_pos c xs))"

lemma strchr_pos_less: "strchr_pos c p = Some q \<Longrightarrow> q < length p"
  by (induction c p arbitrary: q rule: strchr_pos.induct) (auto split: if_splits)

text \<open>The inner loop: the lines written to standard output, and the rest of the buffer.\<close>

function grep_lines :: "string \<Rightarrow> string \<Rightarrow> string \<times> string" where
  "grep_lines pattern p =
     (case strchr_pos NL p of
        None \<Rightarrow> ([], p)
      | Some q \<Rightarrow>
          let (out, rest) = grep_lines pattern (drop (Suc q) p)
          in (if match pattern (take q p) then take q p @ NL # out else out, rest))"
  by pat_completeness auto
termination
  by (relation "measure (\<lambda>(pattern, p). length p)") (auto dest: strchr_pos_less)

declare grep_lines.simps [simp del]

text \<open>
  The outer loop over the successive results of \<open>read\<close>; \<open>m\<close> is the text kept at the start of the
  buffer. Each read returns at least one and at most \<open>sizeof(buf) - m - 1\<close> characters.
\<close>

fun grep :: "string \<Rightarrow> string \<Rightarrow> string list \<Rightarrow> string" where
  "grep pattern m [] = []"
| "grep pattern m (c # cs) =
     (let b = m @ c;
          (out, p) = grep_lines pattern b
      in out @ grep pattern (if length p = length b then [] else p) cs)"

text \<open>
  Reading a regular file that holds \<open>s\<close>: every \<open>read\<close> returns as much as fits, and a read of no bytes
  ends the loop.
\<close>

function reads :: "string \<Rightarrow> string \<Rightarrow> string \<Rightarrow> string list" where
  "reads pattern m s =
     (let k = GBUF - length m - 1 in
      if k = 0 \<or> s = [] then []
      else
        let b = m @ take k s; p = snd (grep_lines pattern b)
        in take k s # reads pattern (if length p = length b then [] else p) (drop k s))"
  by pat_completeness auto
termination
proof (relation "measure (\<lambda>(pattern, m, s). length s)")
  fix pattern m s :: string and k b p
  assume "k = GBUF - length m - 1" "\<not> (k = 0 \<or> s = [])"
  then show "((pattern, if length p = length b then [] else p, drop k s), pattern, m, s) \<in> measure (\<lambda>(pattern, m, s). length s)"
    by (cases s) auto
qed simp

declare reads.simps [simp del]

text \<open>The segments between newlines; all but the last are the complete lines of a text.\<close>

primrec nlsegs :: "string \<Rightarrow> string list" where
  "nlsegs [] = [[]]"
| "nlsegs (c # cs) = (if c = NL then [] # nlsegs cs else (c # hd (nlsegs cs)) # tl (nlsegs cs))"

definition full_lines :: "string \<Rightarrow> string list" where
  "full_lines s = butlast (nlsegs s)"

definition grep_out :: "string \<Rightarrow> string list \<Rightarrow> string" where
  "grep_out pattern ls = concat (map (\<lambda>l. l @ [NL]) (filter (match pattern) ls))"

lemma nlsegs_ne [simp]: "nlsegs s \<noteq> []"
  by (cases s) auto

lemma nlsegs_noNL: "NL \<notin> set s \<Longrightarrow> nlsegs s = [s]"
  by (induction s) auto

lemma nlsegs_append: "nlsegs (x @ y) = butlast (nlsegs x) @ (last (nlsegs x) @ hd (nlsegs y)) # tl (nlsegs y)"
proof (induction x)
  case (Cons c x)
  obtain z zs where z: "nlsegs x = z # zs" by (cases "nlsegs x") auto
  show ?case using Cons by (cases zs) (auto simp: z)
qed simp

lemma nlsegs_line: "NL \<notin> set l \<Longrightarrow> nlsegs (l @ NL # s) = l # nlsegs s"
  by (induction l) auto

lemma full_lines_append: "full_lines (x @ y) = full_lines x @ full_lines (last (nlsegs x) @ y)"
proof -
  have l: "NL \<notin> set (last (nlsegs x))"
  proof (induction x)
    case (Cons c x)
    then show ?case by (cases "nlsegs x") (auto split: if_splits)
  qed simp
  show ?thesis by (simp add: full_lines_def nlsegs_append nlsegs_noNL [OF l] butlast_append)
qed

lemma last_nlsegs_noNL: "NL \<notin> set (last (nlsegs x))"
proof (induction x)
  case (Cons c x)
  then show ?case by (cases "nlsegs x") (auto split: if_splits)
qed simp

lemma set_last_nlsegs: "set (last (nlsegs x)) \<subseteq> set x"
proof (induction x)
  case (Cons c x)
  then show ?case by (cases "nlsegs x") (auto split: if_splits)
qed simp

lemma length_last_nlsegs_le: "length (last (nlsegs x)) \<le> length x"
proof (induction x)
  case (Cons c x)
  then show ?case by (cases "nlsegs x") (auto split: if_splits)
qed simp

lemma nlsegs_first:
  assumes "NL \<in> set x"
  obtains l s where "x = l @ NL # s" "NL \<notin> set l" "nlsegs x = l # nlsegs s"
  using split_list_first [OF assms] nlsegs_line by metis

lemma length_last_nlsegs: "NL \<in> set x \<Longrightarrow> length (last (nlsegs x)) < length x"
proof (elim nlsegs_first)
  fix l s
  assume "x = l @ NL # s" "nlsegs x = l # nlsegs s"
  then show ?thesis using length_last_nlsegs_le [of s] by simp
qed

lemma strchr_pos_noNL: "NUL \<notin> set p \<Longrightarrow> NL \<notin> set p \<Longrightarrow> strchr_pos NL p = None"
  by (induction p) auto

lemma strchr_pos_line: "NUL \<notin> set l \<Longrightarrow> NL \<notin> set l \<Longrightarrow> strchr_pos NL (l @ NL # s) = Some (length l)"
  by (induction l) auto

lemma grep_lines_spec:
  "NUL \<notin> set p \<Longrightarrow> grep_lines pattern p = (grep_out pattern (full_lines p), last (nlsegs p))"
proof (induction "length p" arbitrary: p rule: less_induct)
  case less
  show ?case
  proof (cases "NL \<in> set p")
    case True
    then obtain l s where l: "p = l @ NL # s" "NL \<notin> set l" "nlsegs p = l # nlsegs s" by (rule nlsegs_first)
    then have "grep_lines pattern s = (grep_out pattern (full_lines s), last (nlsegs s))" using less by simp
    moreover have "strchr_pos NL p = Some (length l)" using less.prems l strchr_pos_line by simp
    moreover have "full_lines p = l # full_lines s" using l(3) by (simp add: full_lines_def)
    ultimately show ?thesis using l by (subst grep_lines.simps) (simp add: grep_out_def)
  next
    case False
    then show ?thesis
      using less.prems by (subst grep_lines.simps) (simp add: strchr_pos_noNL nlsegs_noNL full_lines_def grep_out_def)
  qed
qed

lemma grep_out_append: "grep_out pattern (xs @ ys) = grep_out pattern xs @ grep_out pattern ys"
  by (simp add: grep_out_def)

lemma grep_step:
  assumes "NUL \<notin> set (m @ c)" "NL \<in> set (m @ c)"
  shows "grep pattern m (c # cs) = grep_out pattern (full_lines (m @ c)) @ grep pattern (last (nlsegs (m @ c))) cs"
  using assms grep_lines_spec [of "m @ c" pattern] length_last_nlsegs [of "m @ c"] by (simp add: Let_def)

lemma grep_file_gen:
  assumes "NUL \<notin> set (m @ s)" "NL \<notin> set m" "\<forall>l \<in> set (nlsegs (m @ s)). length l < GBUF - 1" "k = GBUF - length m - 1"
  shows "grep pattern m (reads pattern m s) = grep_out pattern (full_lines (m @ s))"
  using assms
proof (induction "length s" arbitrary: m s k rule: less_induct)
  case less
  have "hd (nlsegs (m @ s)) \<in> set (nlsegs (m @ s))" by simp
  then have "length (hd (nlsegs (m @ s))) < 1023" using less.prems(3) by auto
  moreover have hm: "hd (nlsegs (m @ s)) = m @ hd (nlsegs s)" using less.prems(2) by (simp add: nlsegs_append nlsegs_noNL)
  ultimately have mk: "length m < 1023" "k > 0" using less.prems(4) by simp_all
  show ?case
  proof (cases "s = []")
    case True
    then show ?thesis using less.prems(2) by (simp add: reads.simps full_lines_def nlsegs_noNL grep_out_def)
  next
    case False
    let ?c = "take k s" and ?b = "m @ take k s"
    have nb: "NUL \<notin> set ?b" using less.prems(1) by (auto dest: in_set_takeD)
    define m' where "m' = (if length (snd (grep_lines pattern ?b)) = length ?b then [] else snd (grep_lines pattern ?b))"
    have rd: "reads pattern m s = ?c # reads pattern m' (drop k s)"
      using False mk less.prems(4) by (subst reads.simps) (simp add: Let_def m'_def)
    have gr: "grep pattern m (?c # cs) = grep_out pattern (full_lines ?b) @ grep pattern m' cs" for cs
      using grep_lines_spec [OF nb, of pattern] by (simp add: Let_def m'_def)
    show ?thesis
    proof (cases "drop k s = []")
      case True
      then have "take k s = s" by simp
      then show ?thesis using True unfolding rd gr by (simp add: reads.simps)
    next
      case long: False
      have "NL \<in> set ?b"
      proof (rule ccontr)
        assume no: "NL \<notin> set ?b"
        have "nlsegs (?b @ drop k s) = (?b @ hd (nlsegs (drop k s))) # tl (nlsegs (drop k s))"
          using nlsegs_append [of ?b "drop k s"] nlsegs_noNL [OF no] by simp
        then have "length (?b @ hd (nlsegs (drop k s))) < 1023" using less.prems(3) by simp
        moreover have "length ?b = 1023" using long less.prems(4) mk by simp
        ultimately show False by simp
      qed
      then have m': "m' = last (nlsegs ?b)"
        using grep_lines_spec [OF nb, of pattern] length_last_nlsegs [of ?b] by (simp add: m'_def)
      have "grep pattern m' (reads pattern m' (drop k s)) = grep_out pattern (full_lines (m' @ drop k s))"
      proof (rule less.hyps [OF _ _ _ _ refl])
        show "length (drop k s) < length s" using False mk by simp
        show "NUL \<notin> set (m' @ drop k s)"
          using less.prems(1) nb set_last_nlsegs [of ?b] unfolding m' by (auto dest: in_set_dropD)
        show "NL \<notin> set m'" unfolding m' by (rule last_nlsegs_noNL)
        show "\<forall>l \<in> set (nlsegs (m' @ drop k s)). length l < GBUF - 1"
        proof -
          have "nlsegs (m @ s) = butlast (nlsegs ?b) @ nlsegs (m' @ drop k s)"
            using nlsegs_append [of ?b "drop k s"] nlsegs_append [of m' "drop k s"] nlsegs_noNL [OF last_nlsegs_noNL [of ?b]]
            unfolding m' by simp
          then show ?thesis using less.prems(3) by simp
        qed
      qed
      then show ?thesis using full_lines_append [of ?b "drop k s"] unfolding rd gr m' by (simp add: grep_out_append)
    qed
  qed
qed

section \<open>Properties\<close>

text \<open>
  C31. \<open>grep\<close> on a file: for a file without NUL characters whose lines are shorter than the buffer, the
  output of the loop, whose reads may cut lines anywhere, is exactly the complete lines of the file
  that match the pattern, in order.
\<close>

theorem grep_file:
  assumes "NUL \<notin> set s" "\<forall>l \<in> set (nlsegs s). length l < GBUF - 1"
  shows "grep pattern [] (reads pattern [] s) = concat (map (\<lambda>l. l @ [NL]) (filter (match pattern) (full_lines s)))"
  using grep_file_gen [of "[]" s _ pattern] assms by (simp add: grep_out_def)

theorem grep_file_witness: "grep ''^ab'' [] (reads ''^ab'' [] ''abb\<newline>cab\<newline>ab'') = ''abb\<newline>''"
proof -
  have "match ''^ab'' ''abb''" "\<not> match ''^ab'' ''cab''" by (simp_all add: match_def matchhere.simps)
  then show ?thesis using grep_file [of "''abb\<newline>cab\<newline>ab''" "''^ab''"] by (simp add: full_lines_def)
qed

text \<open>
  Input that arrives in pieces is lost: when a read ends before the first newline, as reads of a pipe or
  of the console may, the loop drops the characters it has got and goes on as if the line began with
  the next read.
\<close>

lemma grep_forgets:
  assumes "NUL \<notin> set (m @ c)" "NL \<notin> set (m @ c)"
  shows "grep pattern m (c # cs) = grep pattern [] cs"
  using assms by (simp add: grep_lines_spec full_lines_def nlsegs_noNL grep_out_def)

lemma grep_forgets_example:
  "grep ''hello'' [] [''hel'', ''lo\<newline>''] = [] \<and> grep ''hello'' [] [''hello\<newline>''] = ''hello\<newline>''"
proof -
  have m: "match ''hello'' ''hello''" "\<not> match ''hello'' ''lo''"
    by (simp_all add: match_def match_suffixes.simps matchhere.simps)
  have "grep ''hello'' [] [''lo\<newline>''] = []" "grep ''hello'' [] [''hello\<newline>''] = ''hello\<newline>''"
    using m by (simp_all add: grep_lines_spec full_lines_def grep_out_def)
  then show ?thesis using grep_forgets [of "[]" "''hel''" "''hello''" "[''lo\<newline>'']"] by simp
qed

text \<open>
  C30. The matcher decides the language of the pattern: \<open>match\<close> accepts a line exactly when some part of it
  (the beginning, if the pattern starts with \<open>^\<close>; a part reaching the end, if it ends with \<open>$\<close>) is in
  the language of the pattern, where \<open>.\<close> stands for any character and \<open>*\<close> for any number of repetitions
  of the preceding one.
\<close>

theorem match_correct:
  "match re str \<longleftrightarrow>
     (if re \<noteq> [] \<and> hd re = CHR ''^'' then matches_at (tl re) str
      else \<exists>pre suf. str = pre @ suf \<and> matches_at re suf)"
  by (simp add: match_def matchhere_correct match_suffixes_correct)


end
