(* ===== verification/Sh.thy ===== *)
theory Sh
  imports Prelude
begin

text \<open>
  The command parser of the shell (\<open>xv6/sh.c\<close>). The input line is a string \<open>b\<close> without NUL characters;
  positions in it stand for the pointers \<open>s\<close>, \<open>q\<close>, \<open>eq\<close> of the code, and \<open>length b\<close> for \<open>es\<close>, where the
  terminating NUL is. A word of a command is its start and end position, as in the code.
\<close>

section \<open>Commands\<close>

abbreviation "NULC \<equiv> CHR 0x00"
abbreviation (input) "MAXARGS \<equiv> (10 :: nat)"
abbreviation (input) "O_RDONLY \<equiv> (0 :: nat)"
abbreviation (input) "O_WRONLY_CREATE \<equiv> (0x201 :: nat)"

type_synonym wordpos = "nat \<times> nat"

datatype cmd =
    EXEC "wordpos list"
  | REDIR cmd wordpos nat nat
  | PIPE cmd cmd
  | LIST cmd cmd
  | BACK cmd

text \<open>The store \<open>cmd->argv[argc] = q\<close> into the \<open>execcmd\<close> that the redirections parsed so far enclose.\<close>

fun add_arg :: "wordpos \<Rightarrow> cmd \<Rightarrow> cmd" where
  "add_arg w (EXEC ws) = EXEC (ws @ [w])"
| "add_arg w (REDIR c f m fd) = REDIR (add_arg w c) f m fd"
| "add_arg w c = c"

section \<open>Tokens\<close>

definition is_ws :: "char \<Rightarrow> bool" where
  "is_ws c \<longleftrightarrow> c \<in> set [CHR '' '', CHR 0x09, CHR 0x0D, CHR 0x0A, CHR 0x0B]"

definition is_sym :: "char \<Rightarrow> bool" where
  "is_sym c \<longleftrightarrow> c \<in> set ''<|>&;()''"

definition char_at :: "string \<Rightarrow> nat \<Rightarrow> char" where
  "char_at b s = (if s < length b then b ! s else NULC)"

definition skipws :: "string \<Rightarrow> nat \<Rightarrow> nat" where
  "skipws b s = s + length (takeWhile is_ws (drop s b))"

definition gettoken :: "string \<Rightarrow> nat \<Rightarrow> char \<times> wordpos \<times> nat" where
  "gettoken b s =
     (let q = skipws b s;
          c = char_at b q;
          (ret, eq) =
            (if c = NULC then (c, q)
             else if c \<in> set ''|();&<'' then (c, q + 1)
             else if c = CHR ''>'' then
               if char_at b (q + 1) = CHR ''>'' then (CHR ''+'', q + 2) else (c, q + 1)
             else (CHR ''a'', q + length (takeWhile (\<lambda>c. \<not> is_ws c \<and> \<not> is_sym c) (drop q b))))
      in (ret, (q, eq), skipws b eq))"

definition peek :: "string \<Rightarrow> nat \<Rightarrow> string \<Rightarrow> bool \<times> nat" where
  "peek b s toks = (let s = skipws b s; c = char_at b s in (c \<noteq> NULC \<and> c \<in> set toks, s))"

lemma skipws_ge: "s \<le> skipws b s"
  by (simp add: skipws_def)

lemma skipws_le: "s \<le> length b \<Longrightarrow> skipws b s \<le> length b"
  using length_takeWhile_le [of is_ws "drop s b"] by (simp add: skipws_def)

lemma char_at_range: "char_at b s \<noteq> NULC \<Longrightarrow> s < length b"
  by (auto simp: char_at_def split: if_splits)

text \<open>A token other than the end of the input starts inside it, is not empty, and stays inside.\<close>

lemma skipws_not_ws: "skipws b s < length b \<Longrightarrow> \<not> is_ws (b ! skipws b s)"
proof -
  assume a: "skipws b s < length b"
  then have l: "length (takeWhile is_ws (drop s b)) < length (drop s b)" by (simp add: skipws_def)
  then have "\<not> is_ws (drop s b ! length (takeWhile is_ws (drop s b)))" by (rule nth_length_takeWhile)
  then show ?thesis using a by (simp add: skipws_def)
qed

lemma gettoken_pos:
  assumes "gettoken b s = (t, (q, e), s')"
  shows "q = skipws b s" "s \<le> q" "q \<le> e" "e \<le> s'" "t \<noteq> NULC \<Longrightarrow> q < e \<and> q < length b" "t = NULC \<Longrightarrow> char_at b q = NULC"
    "s \<le> length b \<Longrightarrow> s' \<le> length b \<and> e \<le> length b"
    "t = CHR ''a'' \<Longrightarrow> e = q + length (takeWhile (\<lambda>c. \<not> is_ws c \<and> \<not> is_sym c) (drop q b))"
proof -
  define c where "c = char_at b q"
  have q: "q = skipws b s" and s': "s' = skipws b e"
    using assms(1) by (auto simp: gettoken_def Let_def split: prod.splits if_splits)
  have te: "(t, e) = (if c = NULC then (c, q)
             else if c \<in> set ''|();&<'' then (c, q + 1)
             else if c = CHR ''>'' then
               if char_at b (q + 1) = CHR ''>'' then (CHR ''+'', q + 2) else (c, q + 1)
             else (CHR ''a'', q + length (takeWhile (\<lambda>c. \<not> is_ws c \<and> \<not> is_sym c) (drop q b))))"
    using assms(1) unfolding c_def q by (auto simp: gettoken_def Let_def split: prod.splits)
  show "q = skipws b s" by (rule q)
  show "s \<le> q" unfolding q by (rule skipws_ge)
  show "q \<le> e" using te by (auto split: if_splits)
  show "e \<le> s'" unfolding s' by (rule skipws_ge)
  show "t = NULC \<Longrightarrow> char_at b q = NULC" using te by (auto simp: c_def split: if_splits)
  show "t = CHR ''a'' \<Longrightarrow> e = q + length (takeWhile (\<lambda>c. \<not> is_ws c \<and> \<not> is_sym c) (drop q b))"
    using te by (auto split: if_splits)
  have in_b: "c \<noteq> NULC \<Longrightarrow> q < length b" unfolding c_def by (rule char_at_range)
  show "s' \<le> length b \<and> e \<le> length b" if s: "s \<le> length b"
  proof -
    have ql: "q \<le> length b" unfolding q by (rule skipws_le [OF s])
    have "char_at b (q + 1) = CHR ''>'' \<Longrightarrow> q + 1 < length b" using char_at_range [of b "q + 1"] by simp
    moreover have "q + length (takeWhile (\<lambda>c. \<not> is_ws c \<and> \<not> is_sym c) (drop q b)) \<le> length b"
      using ql length_takeWhile_le [of "\<lambda>c. \<not> is_ws c \<and> \<not> is_sym c" "drop q b"] by simp
    ultimately have "e \<le> length b" using te in_b ql by (auto split: if_splits)
    then show ?thesis using skipws_le unfolding s' by blast
  qed
  show "q < e \<and> q < length b" if t: "t \<noteq> NULC"
  proof (cases "c \<in> set ''|();&<'' \<or> c = CHR ''>''")
    case True
    then show ?thesis using te t in_b by (auto split: if_splits)
  next
    case False
    have c: "c \<noteq> NULC" using te t by (auto split: if_splits)
    then have ql: "q < length b" by (rule in_b)
    then have "drop q b = c # drop (Suc q) b" by (simp add: c_def char_at_def Cons_nth_drop_Suc)
    moreover have "\<not> is_ws c" using skipws_not_ws [of b s] ql unfolding q c_def by (simp add: char_at_def)
    moreover have "\<not> is_sym c" using False by (auto simp: is_sym_def)
    ultimately show ?thesis using te False c ql by simp
  qed
qed

lemma peek_pos:
  assumes "peek b s toks = (r, s')"
  shows "s \<le> s'" "s \<le> length b \<Longrightarrow> s' \<le> length b" "s' = skipws b s" "r \<Longrightarrow> s' < length b \<and> b ! s' \<in> set toks" "skipws b s' = s'"
proof -
  have e: "s' = skipws b s" "r \<longleftrightarrow> char_at b s' \<noteq> NULC \<and> char_at b s' \<in> set toks"
    using assms by (auto simp: peek_def Let_def)
  show "s \<le> s'" "s \<le> length b \<Longrightarrow> s' \<le> length b" "s' = skipws b s" using e(1) skipws_ge skipws_le by auto
  show "s' < length b \<and> b ! s' \<in> set toks" if "r"
  proof -
    have "char_at b s' \<noteq> NULC" and t: "char_at b s' \<in> set toks" using e(2) that by simp_all
    then have l: "s' < length b" by (intro char_at_range)
    then have "char_at b s' = b ! s'" by (simp add: char_at_def)
    then show ?thesis using l t by metis
  qed
  show "skipws b s' = s'"
  proof (cases "s' < length b")
    case True
    then have "\<not> is_ws (b ! s')" using skipws_not_ws e(1) by simp
    moreover have "drop s' b = b ! s' # drop (Suc s') b" using True by (simp add: Cons_nth_drop_Suc)
    ultimately show ?thesis by (simp add: skipws_def)
  qed (simp add: skipws_def)
qed

text \<open>After \<open>peek\<close> has seen one of the characters \<open>toks\<close>, \<open>gettoken\<close> consumes a token.\<close>

lemma peek_gettoken:
  assumes "peek b s toks = (True, s1)" "gettoken b s1 = (t, (q, e), s2)" "NULC \<notin> set toks"
  shows "s < s2" "s < length b" "t \<noteq> NULC"
proof -
  note p = peek_pos [OF assms(1)] and g = gettoken_pos [OF assms(2)]
  have qs: "q = s1" using g(1) p(5) by simp
  moreover have "s1 < length b" "b ! s1 \<noteq> NULC" using p(4) assms(3) by auto
  ultimately have "char_at b q \<noteq> NULC" by (simp add: char_at_def)
  then show t: "t \<noteq> NULC" using g(6) by blast
  then show "s < s2" using g(3,4,5) p(1) qs by linarith
  show "s < length b" using p(1,4) by simp
qed

lemma token_progress:
  assumes "(True, s1) = peek b s toks" "(t, x, s2) = gettoken b s1" "NULC \<notin> set toks"
  shows "length b - s2 < length b - s"
proof -
  obtain q e where x: "x = (q, e)" by (cases x)
  have "s < s2" "s < length b"
    using peek_gettoken [OF assms(1) [symmetric] assms(2) [symmetric, unfolded x] assms(3)] by auto
  then show ?thesis by linarith
qed

lemma redir_progress:
  assumes "(True, s1) = peek b s toks" "(t, x, s2) = gettoken b s1" "(u, y, s3) = gettoken b s2" "NULC \<notin> set toks"
  shows "length b - s3 < length b - s"
proof -
  obtain q e where y: "y = (q, e)" by (cases y)
  have "s2 \<le> s3" using gettoken_pos(2-4) [OF assms(3) [symmetric, unfolded y]] by linarith
  then show ?thesis using token_progress [OF assms(1,2,4)] by linarith
qed

section \<open>The parser\<close>

definition redir :: "char \<Rightarrow> wordpos \<Rightarrow> cmd \<Rightarrow> cmd" where
  "redir tok f c =
     (if tok = CHR ''<'' then REDIR c f O_RDONLY 0
      else if tok = CHR ''>'' then REDIR c f O_WRONLY_CREATE 1
      else if tok = CHR ''+'' then REDIR c f O_WRONLY_CREATE 1
      else c)"

function parseredirs :: "cmd \<Rightarrow> string \<Rightarrow> nat \<Rightarrow> (cmd \<times> nat) res" where
  "parseredirs c b s =
     (let (r, s) = peek b s ''<>'' in
      if \<not> r then Ret (c, s)
      else
        let (tok, _, s) = gettoken b s;
            (t, f, s) = gettoken b s
        in if t \<noteq> CHR ''a'' then Panic ''missing file for redirection''
           else parseredirs (redir tok f c) b s)"
  by pat_completeness auto
termination
  by (relation "measure (\<lambda>(c, b, s). length b - s)") (auto elim: redir_progress)

declare parseredirs.simps [simp del]

function parseback :: "cmd \<Rightarrow> string \<Rightarrow> nat \<Rightarrow> cmd \<times> nat" where
  "parseback c b s =
     (let (r, s) = peek b s ''&'' in
      if \<not> r then (c, s) else let (_, _, s) = gettoken b s in parseback (BACK c) b s)"
  by pat_completeness auto
termination
  by (relation "measure (\<lambda>(c, b, s). length b - s)") (auto elim: token_progress)

declare parseback.simps [simp del]

function parseargs :: "cmd \<Rightarrow> nat \<Rightarrow> string \<Rightarrow> nat \<Rightarrow> (cmd \<times> nat) res" where
  "parseargs c argc b s =
     (let (r, s) = peek b s ''|)&;'' in
      if r then Ret (c, s)
      else
        let (tok, w, s) = gettoken b s in
        if tok = NULC then Ret (c, s)
        else if tok \<noteq> CHR ''a'' then Panic ''syntax''
        else if argc + 1 \<ge> MAXARGS then Panic ''too many args''
        else bindR (parseredirs (add_arg w c) b s) (\<lambda>(c, s). parseargs c (argc + 1) b s))"
  by pat_completeness auto
termination
  by (relation "measure (\<lambda>(c, argc, b, s). MAXARGS - argc)") auto

declare parseargs.simps [simp del]

text \<open>
  The recursive descent. The first argument bounds the depth of the recursion; \<open>Undef\<close> marks a recursion that
  used it up.
\<close>

function parseline :: "nat \<Rightarrow> string \<Rightarrow> nat \<Rightarrow> (cmd \<times> nat) res"
and parsepipe :: "nat \<Rightarrow> string \<Rightarrow> nat \<Rightarrow> (cmd \<times> nat) res"
and parseexec :: "nat \<Rightarrow> string \<Rightarrow> nat \<Rightarrow> (cmd \<times> nat) res"
and parseblock :: "nat \<Rightarrow> string \<Rightarrow> nat \<Rightarrow> (cmd \<times> nat) res"
where
  "parseline 0 b s = Undef ''depth''"
| "parseline (Suc n) b s =
     bindR (parsepipe n b s) (\<lambda>(c, s).
       let (c, s) = parseback c b s; (r, s) = peek b s '';'' in
       if r then
         let (_, _, s) = gettoken b s in
         bindR (parseline n b s) (\<lambda>(d, s). Ret (LIST c d, s))
       else Ret (c, s))"
| "parsepipe 0 b s = Undef ''depth''"
| "parsepipe (Suc n) b s =
     bindR (parseexec n b s) (\<lambda>(c, s).
       let (r, s) = peek b s ''|'' in
       if r then
         let (_, _, s) = gettoken b s in
         bindR (parsepipe n b s) (\<lambda>(d, s). Ret (PIPE c d, s))
       else Ret (c, s))"
| "parseexec 0 b s = Undef ''depth''"
| "parseexec (Suc n) b s =
     (let (r, s) = peek b s ''('' in
      if r then parseblock n b s
      else bindR (parseredirs (EXEC []) b s) (\<lambda>(c, s). parseargs c 0 b s))"
| "parseblock 0 b s = Undef ''depth''"
| "parseblock (Suc n) b s =
     (let (r, s) = peek b s ''('' in
      if \<not> r then Panic ''parseblock''
      else
        let (_, _, s) = gettoken b s in
        bindR (parseline n b s) (\<lambda>(c, s).
          let (r, s) = peek b s '')'' in
          if \<not> r then Panic ''syntax - missing )''
          else let (_, _, s) = gettoken b s in parseredirs c b s))"
  by pat_completeness simp_all
termination
  by (relation "measure (\<lambda>x. case x of Inl (Inl y) \<Rightarrow> fst y | Inl (Inr y) \<Rightarrow> fst y | Inr (Inl y) \<Rightarrow> fst y | Inr (Inr y) \<Rightarrow> fst y)")
    simp_all

fun nulterminate :: "cmd \<Rightarrow> string \<Rightarrow> string" where
  "nulterminate (EXEC ws) b = foldl (\<lambda>b (q, e). b[e := NULC]) b ws"
| "nulterminate (REDIR c (q, e) m fd) b = (nulterminate c b)[e := NULC]"
| "nulterminate (PIPE c d) b = nulterminate d (nulterminate c b)"
| "nulterminate (LIST c d) b = nulterminate d (nulterminate c b)"
| "nulterminate (BACK c) b = nulterminate c b"

definition parsecmd :: "string \<Rightarrow> (cmd \<times> string) res" where
  "parsecmd b =
     bindR (parseline (4 * length b + 4) b 0) (\<lambda>(c, s).
       let (_, s) = peek b s [] in
       if s \<noteq> length b then Panic ''syntax'' else Ret (c, nulterminate c (b @ [NULC])))"

section \<open>The parser returns\<close>

fun words :: "cmd \<Rightarrow> wordpos list" where
  "words (EXEC ws) = ws"
| "words (REDIR c f m fd) = words c @ [f]"
| "words (PIPE c d) = words c @ words d"
| "words (LIST c d) = words c @ words d"
| "words (BACK c) = words c"

fun argc_le :: "nat \<Rightarrow> cmd \<Rightarrow> bool" where
  "argc_le n (EXEC ws) \<longleftrightarrow> length ws \<le> n"
| "argc_le n (REDIR c f m fd) \<longleftrightarrow> argc_le n c"
| "argc_le n (PIPE c d) \<longleftrightarrow> argc_le n c \<and> argc_le n d"
| "argc_le n (LIST c d) \<longleftrightarrow> argc_le n c \<and> argc_le n d"
| "argc_le n (BACK c) \<longleftrightarrow> argc_le n c"

text \<open>A word is a maximal run of characters that are neither white space nor symbols.\<close>

definition wordc :: "char \<Rightarrow> bool" where
  "wordc c \<longleftrightarrow> \<not> is_ws c \<and> \<not> is_sym c"

definition word_ok :: "string \<Rightarrow> wordpos \<Rightarrow> bool" where
  "word_ok b w \<longleftrightarrow> fst w < snd w \<and> snd w \<le> length b \<and>
     (\<forall>i \<in> {fst w..<snd w}. wordc (b ! i)) \<and> (snd w < length b \<longrightarrow> \<not> wordc (b ! snd w))"

definition cmd_ok :: "string \<Rightarrow> cmd \<Rightarrow> bool" where
  "cmd_ok b c \<longleftrightarrow> list_all (word_ok b) (words c)"

definition parse_msgs :: "string set" where
  "parse_msgs = {''syntax'', ''too many args'', ''missing file for redirection'', ''parseblock'', ''syntax - missing )''}"

text \<open>What a parser routine started at position \<open>s\<close> gives: a command and a later position, or one of the messages.\<close>

definition parsed :: "nat \<Rightarrow> string \<Rightarrow> nat \<Rightarrow> (cmd \<times> nat) res \<Rightarrow> bool" where
  "parsed n b s r \<longleftrightarrow> (case r of
      Ret (c, s') \<Rightarrow> s \<le> s' \<and> s' \<le> length b \<and> cmd_ok b c \<and> argc_le n c
    | Panic m \<Rightarrow> m \<in> parse_msgs
    | _ \<Rightarrow> False)"

lemma parsed_simps [simp]:
  "parsed n b s (Ret (c, s')) \<longleftrightarrow> s \<le> s' \<and> s' \<le> length b \<and> cmd_ok b c \<and> argc_le n c"
  "parsed n b s (Panic m) \<longleftrightarrow> m \<in> parse_msgs" "\<not> parsed n b s (Undef u)" "\<not> parsed n b s (Sleep ch)"
  by (auto simp: parsed_def)

lemma parsed_bind:
  assumes "parsed n b s r" "\<And>c s'. r = Ret (c, s') \<Longrightarrow> s \<le> s' \<Longrightarrow> s' \<le> length b \<Longrightarrow> cmd_ok b c \<Longrightarrow> argc_le n c \<Longrightarrow> parsed m b s (f (c, s'))"
  shows "parsed m b s (bindR r f)"
  using assms by (cases r) auto

lemma parsed_later: "parsed n b s' r \<Longrightarrow> s \<le> s' \<Longrightarrow> parsed n b s r"
  by (cases r) auto

lemma argc_le_mono: "argc_le n c \<Longrightarrow> n \<le> m \<Longrightarrow> argc_le m c"
  by (induction c) auto

lemma cmd_ok_simps [simp]:
  "cmd_ok b (EXEC ws) \<longleftrightarrow> list_all (word_ok b) ws"
  "cmd_ok b (REDIR c f m fd) \<longleftrightarrow> cmd_ok b c \<and> word_ok b f"
  "cmd_ok b (PIPE c d) \<longleftrightarrow> cmd_ok b c \<and> cmd_ok b d"
  "cmd_ok b (LIST c d) \<longleftrightarrow> cmd_ok b c \<and> cmd_ok b d"
  "cmd_ok b (BACK c) \<longleftrightarrow> cmd_ok b c"
  by (auto simp: cmd_ok_def)

lemma add_arg_ok:
  "cmd_ok b c \<Longrightarrow> word_ok b w \<Longrightarrow> cmd_ok b (add_arg w c)" "argc_le n c \<Longrightarrow> argc_le (Suc n) (add_arg w c)"
  by (induction c) (auto intro: argc_le_mono)

lemma redir_ok:
  "cmd_ok b c \<Longrightarrow> word_ok b f \<Longrightarrow> cmd_ok b (redir tok f c)" "argc_le n (redir tok f c) = argc_le n c"
  by (auto simp: redir_def)

lemma gettoken_word:
  assumes "gettoken b s = (CHR ''a'', w, s')" "s \<le> length b"
  shows "word_ok b w"
proof -
  obtain q e where w: "w = (q, e)" by (cases w)
  note g = gettoken_pos [OF assms(1) [unfolded w]]
  let ?t = "takeWhile wordc (drop q b)"
  have e: "e = q + length ?t" using g(8) by (simp add: wordc_def [abs_def])
  have "wordc (b ! i)" if "q \<le> i" "i < e" for i
  proof -
    have "i - q < length ?t" using that e by simp
    then have "wordc (drop q b ! (i - q))" using nth_mem set_takeWhileD takeWhile_nth by metis
    then show ?thesis using that g(5,7) assms(2) by simp
  qed
  moreover have "\<not> wordc (b ! e)" if "e < length b"
  proof -
    have "length ?t < length (drop q b)" using that e by simp
    then have "\<not> wordc (drop q b ! length ?t)" by (rule nth_length_takeWhile)
    then show ?thesis using that e by simp
  qed
  ultimately show ?thesis using g(5,7) assms(2) w by (auto simp: word_ok_def)
qed

lemma gettoken_later: "gettoken b s = (t, w, s') \<Longrightarrow> s \<le> s' \<and> (s \<le> length b \<longrightarrow> s' \<le> length b)"
  using gettoken_pos(2-4,7) [of b s t "fst w" "snd w" s'] by auto

lemma parseredirs_spec: "s \<le> length b \<Longrightarrow> cmd_ok b c \<Longrightarrow> argc_le n c \<Longrightarrow> parsed n b s (parseredirs c b s)"
proof (induction c b s rule: parseredirs.induct)
  case (1 c b s)
  obtain r s1 where p: "peek b s ''<>'' = (r, s1)" by (cases "peek b s ''<>''")
  obtain t w s2 where g: "gettoken b s1 = (t, w, s2)" by (cases "gettoken b s1")
  obtain u f s3 where h: "gettoken b s2 = (u, f, s3)" by (cases "gettoken b s2")
  note l = peek_pos(1,2) [OF p] gettoken_later [OF g] gettoken_later [OF h]
  show ?case
  proof (cases "r \<and> u = CHR ''a''")
    case True
    then have "word_ok b f" using gettoken_word [of b s2 f s3] h l 1(2) by auto
    then have "parsed n b s3 (parseredirs (redir t f c) b s3)"
      using True p g h l 1(2,3,4) by (intro 1(1)) (auto intro: redir_ok simp: redir_ok)
    then have "parsed n b s (parseredirs (redir t f c) b s3)" using l 1(2) by (auto intro: parsed_later)
    then show ?thesis using True p g h by (simp add: parseredirs.simps [of c b s])
  next
    case False
    then show ?thesis using p g h l 1(2-4) by (auto simp: parseredirs.simps [of c b s] parse_msgs_def)
  qed
qed

lemma parseback_spec:
  "s \<le> length b \<Longrightarrow> cmd_ok b c \<Longrightarrow> argc_le n c \<Longrightarrow> parseback c b s = (d, s') \<Longrightarrow>
     s \<le> s' \<and> s' \<le> length b \<and> cmd_ok b d \<and> argc_le n d"
proof (induction c b s rule: parseback.induct)
  case (1 c b s)
  obtain r s1 where p: "peek b s ''&'' = (r, s1)" by (cases "peek b s ''&''")
  obtain t w s2 where g: "gettoken b s1 = (t, w, s2)" by (cases "gettoken b s1")
  note l = peek_pos(1,2) [OF p] gettoken_later [OF g]
  show ?case
  proof (cases r)
    case True
    then have "parseback (BACK c) b s2 = (d, s')" using 1(5) p g by (simp add: parseback.simps [of c b s])
    then have "s2 \<le> s' \<and> s' \<le> length b \<and> cmd_ok b d \<and> argc_le n d"
      using True p g l 1(2-4) by (intro 1(1)) auto
    then show ?thesis using l 1(2) by auto
  next
    case False
    then show ?thesis using p l 1(2-5) by (auto simp: parseback.simps [of c b s])
  qed
qed

lemma parseargs_spec:
  "s \<le> length b \<Longrightarrow> cmd_ok b c \<Longrightarrow> argc_le argc c \<Longrightarrow> argc < MAXARGS \<Longrightarrow> parsed (MAXARGS - 1) b s (parseargs c argc b s)"
proof (induction c argc b s rule: parseargs.induct)
  case (1 c argc b s)
  obtain r s1 where p: "peek b s ''|)&;'' = (r, s1)" by (cases "peek b s ''|)&;''")
  obtain t w s2 where g: "gettoken b s1 = (t, w, s2)" by (cases "gettoken b s1")
  note l = peek_pos(1,2) [OF p] gettoken_later [OF g]
  show ?case
  proof (cases "\<not> r \<and> t = CHR ''a'' \<and> argc + 1 < MAXARGS")
    case True
    then have "word_ok b w" using gettoken_word [of b s1 w s2] g l 1(2) by auto
    then have "parsed (argc + 1) b s2 (parseredirs (add_arg w c) b s2)"
      using l 1(2-4) add_arg_ok by (intro parseredirs_spec) auto
    then have "parsed (MAXARGS - 1) b s2 (bindR (parseredirs (add_arg w c) b s2) (\<lambda>(c, s). parseargs c (argc + 1) b s))"
    proof (rule parsed_bind, simp only: split)
      fix c' s'
      assume a: "parseredirs (add_arg w c) b s2 = Ret (c', s')" "s2 \<le> s'" "s' \<le> length b" "cmd_ok b c'" "argc_le (argc + 1) c'"
      have "parsed (MAXARGS - 1) b s' (parseargs c' (argc + 1) b s')"
        using True p g a by (intro 1(1)) auto
      then show "parsed (MAXARGS - 1) b s2 (parseargs c' (argc + 1) b s')" using a(2) by (rule parsed_later)
    qed
    then have "parsed (MAXARGS - 1) b s (bindR (parseredirs (add_arg w c) b s2) (\<lambda>(c, s). parseargs c (argc + 1) b s))"
      using l 1(2) by (auto intro: parsed_later)
    then show ?thesis using True p g by (simp add: parseargs.simps [of c argc b s])
  next
    case False
    moreover have "argc_le 9 c" using argc_le_mono [OF 1(4), of 9] 1(5) by simp
    ultimately show ?thesis using p g l 1(2,3) by (auto simp: parseargs.simps [of c argc b s] parse_msgs_def)
  qed
qed

lemma parsed_step:
  assumes "peek b s toks = (True, s1)" "gettoken b s1 = (t, w, s2)" "NULC \<notin> set toks" "s \<le> length b"
  shows "s < s2" "s2 \<le> length b"
  using token_progress [of s1 b s toks t w s2] gettoken_later [OF assms(2)] peek_pos(1,2) [OF assms(1)] assms by auto

lemma parse_spec:
  "s \<le> length b \<Longrightarrow> 4 * (length b - s) + 4 \<le> n \<Longrightarrow> parsed (MAXARGS - 1) b s (parseline n b s)"
  "s \<le> length b \<Longrightarrow> 4 * (length b - s) + 3 \<le> n \<Longrightarrow> parsed (MAXARGS - 1) b s (parsepipe n b s)"
  "s \<le> length b \<Longrightarrow> 4 * (length b - s) + 2 \<le> n \<Longrightarrow> parsed (MAXARGS - 1) b s (parseexec n b s)"
  "s \<le> length b \<Longrightarrow> 4 * (length b - s) + 1 \<le> n \<Longrightarrow> parsed (MAXARGS - 1) b s (parseblock n b s)"
proof (induction n b s and n b s and n b s and n b s rule: parseline_parsepipe_parseexec_parseblock.induct)
  case (2 n b s)
  note IH = 2
  have "parsed (MAXARGS - 1) b s (parsepipe n b s)" using IH(3,4) by (intro IH(1)) auto
  then show ?case
    unfolding parseline.simps
  proof (rule parsed_bind, goal_cases)
    case (1 c s1)
    obtain d s2 where k: "parseback c b s1 = (d, s2)" by (cases "parseback c b s1")
    have kb: "s1 \<le> s2 \<and> s2 \<le> length b \<and> cmd_ok b d \<and> argc_le (MAXARGS - 1) d"
      using parseback_spec [OF 1(3-5) k] .
    obtain r s3 where p: "peek b s2 '';'' = (r, s3)" by (cases "peek b s2 '';''")
    obtain t w s4 where g: "gettoken b s3 = (t, w, s4)" by (cases "gettoken b s3")
    show ?case
    proof (cases r)
      case True
      have l: "s2 < s4" "s4 \<le> length b" using parsed_step [of b s2 "'';''" s3 t w s4] p g kb True by auto
      have "parsed (MAXARGS - 1) b s4 (parseline n b s4)"
        using True k p g l kb 1 IH(4) by (intro IH(2)) auto
      then show ?thesis using True k p g l kb 1 by (cases "parseline n b s4") auto
    next
      case False
      then show ?thesis using k p kb peek_pos(1,2) [OF p] 1(2) by auto
    qed
  qed
next
  case (4 n b s)
  note IH = 4
  have "parsed (MAXARGS - 1) b s (parseexec n b s)" using IH(3,4) by (intro IH(1)) auto
  then show ?case
    unfolding parsepipe.simps
  proof (rule parsed_bind, goal_cases)
    case (1 c s2)
    obtain r s3 where p: "peek b s2 ''|'' = (r, s3)" by (cases "peek b s2 ''|''")
    obtain t w s4 where g: "gettoken b s3 = (t, w, s4)" by (cases "gettoken b s3")
    show ?case
    proof (cases r)
      case True
      have l: "s2 < s4" "s4 \<le> length b" using parsed_step [of b s2 "''|''" s3 t w s4] p g 1(3) True by auto
      have "parsed (MAXARGS - 1) b s4 (parsepipe n b s4)"
        using True p g l 1 IH(4) by (intro IH(2)) auto
      then show ?thesis using True p g l 1 by (cases "parsepipe n b s4") auto
    next
      case False
      then show ?thesis using p peek_pos(1,2) [OF p] 1(2-) by auto
    qed
  qed
next
  case (6 n b s)
  note IH = 6
  obtain r s1 where p: "peek b s ''('' = (r, s1)" by (cases "peek b s ''(''")
  note l = peek_pos(1,2) [OF p]
  show ?case
  proof (cases r)
    case True
    have "parsed (MAXARGS - 1) b s1 (parseblock n b s1)" using True p l IH(2,3) by (intro IH(1)) auto
    then show ?thesis using True p l(1) by (auto intro: parsed_later)
  next
    case False
    have "parsed 0 b s1 (parseredirs (EXEC []) b s1)" using l IH(2) by (intro parseredirs_spec) auto
    then have "parsed (MAXARGS - 1) b s1 (bindR (parseredirs (EXEC []) b s1) (\<lambda>(c, s). parseargs c 0 b s))"
    proof (rule parsed_bind, simp only: split)
      fix c s'
      assume a: "s1 \<le> s'" "s' \<le> length b" "cmd_ok b c" "argc_le 0 c"
      then show "parsed (MAXARGS - 1) b s1 (parseargs c 0 b s')"
        by (intro parsed_later [OF parseargs_spec]) auto
    qed
    then show ?thesis using False p l(1) by (auto intro: parsed_later)
  qed
next
  case (8 n b s)
  note IH = 8
  obtain r s1 where p: "peek b s ''('' = (r, s1)" by (cases "peek b s ''(''")
  obtain t w s2 where g: "gettoken b s1 = (t, w, s2)" by (cases "gettoken b s1")
  show ?case
  proof (cases r)
    case True
    have l: "s < s2" "s2 \<le> length b" using parsed_step [of b s "''(''" s1 t w s2] p g IH(2) True by auto
    have "parsed (MAXARGS - 1) b s2 (parseline n b s2)" using True p g l IH(2,3) by (intro IH(1)) auto
    then have "parsed (MAXARGS - 1) b s2 (bindR (parseline n b s2) (\<lambda>(c, s).
          let (r, s) = peek b s '')'' in
          if \<not> r then Panic ''syntax - missing )''
          else let (_, _, s) = gettoken b s in parseredirs c b s))"
    proof (rule parsed_bind, goal_cases)
      case (1 c s3)
      obtain r' s4 where p': "peek b s3 '')'' = (r', s4)" by (cases "peek b s3 '')''")
      obtain t' w' s5 where g': "gettoken b s4 = (t', w', s5)" by (cases "gettoken b s4")
      note l' = peek_pos(1,2) [OF p'] gettoken_later [OF g']
      have "parsed (MAXARGS - 1) b s5 (parseredirs c b s5)" using l' 1 by (intro parseredirs_spec) auto
      then have "parsed (MAXARGS - 1) b s2 (parseredirs c b s5)" using l' 1 by (auto intro: parsed_later)
      then show ?case using p' g' by (auto simp: parse_msgs_def)
    qed
    then show ?thesis using True p g l(1) by (auto intro: parsed_later)
  next
    case False
    then show ?thesis using p by (simp add: parse_msgs_def)
  qed
qed auto

section \<open>The words after \<open>nulterminate\<close>\<close>

lemma nulterminate_length [simp]: "length (nulterminate c b) = length b"
proof (induction c arbitrary: b)
  case (EXEC ws)
  then show ?case by (induction ws arbitrary: b) auto
next
  case (REDIR c f m fd)
  then show ?case by (cases f) simp
qed simp_all

lemma nth_update: "j < length xs \<Longrightarrow> xs[i := x] ! j = (if i = j then x else xs ! j)"
  by auto

lemma nulterminate_nth:
  "i < length b \<Longrightarrow> nulterminate c b ! i = (if \<exists>q. (q, i) \<in> set (words c) then NULC else b ! i)"
proof (induction c arbitrary: b)
  case (EXEC ws)
  then show ?case by (induction ws arbitrary: b) (auto simp: nth_update)
next
  case (REDIR c f m fd)
  then show ?case by (cases f) (auto simp: nth_update)
qed auto

text \<open>The C string that starts at position \<open>q\<close>.\<close>

definition cstr_at :: "string \<Rightarrow> nat \<Rightarrow> string" where
  "cstr_at b q = takeWhile (\<lambda>c. c \<noteq> NULC) (drop q b)"

definition substr :: "string \<Rightarrow> wordpos \<Rightarrow> string" where
  "substr b w = take (snd w - fst w) (drop (fst w) b)"

lemma cstr_at_eq:
  assumes "q \<le> e" "e < length b" "b ! e = NULC" "\<And>i. q \<le> i \<Longrightarrow> i < e \<Longrightarrow> b ! i \<noteq> NULC"
  shows "cstr_at b q = take (e - q) (drop q b)"
  unfolding cstr_at_def using assms by (intro takeWhile_eq_take_P_nth) auto

lemma word_cstr:
  assumes "list_all (word_ok b) (words c)" "w \<in> set (words c)" "NULC \<notin> set b"
  shows "cstr_at (nulterminate c (b @ [NULC])) (fst w) = substr b w"
proof -
  let ?n = "nulterminate c (b @ [NULC])"
  have w: "word_ok b v" if "v \<in> set (words c)" for v using assms(1) that by (simp add: list_all_iff)
  have le: "fst w < snd w" "snd w \<le> length b" using w [OF assms(2)] by (simp_all add: word_ok_def)
  have keep: "?n ! i = b ! i" if i: "fst w \<le> i" "i < snd w" for i
  proof -
    have "wordc (b ! i)" using w [OF assms(2)] i by (simp add: word_ok_def)
    then have "\<not> (\<exists>q. (q, i) \<in> set (words c))" using w i le unfolding word_ok_def by fastforce
    then show ?thesis using i le by (simp add: nulterminate_nth nth_append)
  qed
  have "cstr_at ?n (fst w) = take (snd w - fst w) (drop (fst w) ?n)"
  proof (rule cstr_at_eq)
    show "?n ! snd w = NULC" using le assms(2) by (cases w) (auto simp: nulterminate_nth)
    fix i
    assume i: "fst w \<le> i" "i < snd w"
    then have "b ! i \<in> set b" using le by simp
    then show "?n ! i \<noteq> NULC" using keep [OF i] assms(3) by metis
  qed (use le in auto)
  also have "\<dots> = substr b w"
    unfolding substr_def using le keep by (intro nth_equalityI) auto
  finally show ?thesis .
qed

lemma parsecmd_spec:
  "case parsecmd b of
     Ret (c, b') \<Rightarrow> cmd_ok b c \<and> argc_le (MAXARGS - 1) c \<and> b' = nulterminate c (b @ [NULC])
   | Panic m \<Rightarrow> m \<in> parse_msgs
   | _ \<Rightarrow> False"
proof -
  have "parsed (MAXARGS - 1) b 0 (parseline (4 * length b + 4) b 0)" by (rule parse_spec(1)) auto
  then show ?thesis
    by (cases "parseline (4 * length b + 4) b 0") (auto simp: parsecmd_def parse_msgs_def split: prod.splits)
qed


text \<open>
  C29. Cutting the line at the ends of its words damages none of them: in the line that \<open>parsecmd\<close> leaves behind,
  the C string at the start of every word of the command is the text of that word in the line that was typed.
\<close>

theorem parsecmd_words:
  assumes "parsecmd b = Ret (c, b')" "NULC \<notin> set b" "w \<in> set (words c)"
  shows "cstr_at b' (fst w) = substr b w"
  using parsecmd_spec [of b] assms word_cstr [of b c w] by (simp add: cmd_ok_def)

lemma parse_example:
  "parsecmd ''(a;b)>c|d e&'' =
     Ret (BACK (PIPE (REDIR (LIST (EXEC [(1, 2)]) (EXEC [(3, 4)])) (6, 7) O_WRONLY_CREATE 1) (EXEC [(8, 9), (10, 11)])),
          ''(a'' @ [NULC] @ ''b'' @ [NULC] @ ''>c'' @ [NULC] @ ''d'' @ [NULC] @ ''e'' @ [NULC, NULC])"
  by code_simp

theorem parsecmd_words_witness:
  "\<exists>c b'. parsecmd ''(a;b)>c|d e&'' = Ret (c, b') \<and> NULC \<notin> set ''(a;b)>c|d e&'' \<and> (6, 7) \<in> set (words c) \<and>
     cstr_at b' 6 = substr ''(a;b)>c|d e&'' (6, 7) \<and> substr ''(a;b)>c|d e&'' (6, 7) = ''c''"
  using parsecmd_words [OF parse_example, of "(6, 7)"] parse_example by (simp add: substr_def)

end
