(* ===== verification/Printf.thy ===== *)
theory Printf
  imports Prelude
begin

text \<open>
  Formatted output: \<open>printf\<close> of the user library (\<open>xv6/printf.c\<close>) and \<open>cprintf\<close> of the kernel
  (\<open>xv6/console.c\<close>), as functions from a format string and the list of the 32-bit argument words to the
  characters that are written. The argument \<open>str\<close> gives the C string at an address of memory.
\<close>

section \<open>Integers\<close>

definition digits_user :: string where
  "digits_user = ''0123456789ABCDEF''"

definition digits_kernel :: string where
  "digits_kernel = ''0123456789abcdef''"

text \<open>
  The loop \<open>do { buf[i++] = digits[x % base]; } while((x /= base) != 0)\<close>: the contents of \<open>buf\<close>, lowest digit first.
  The callers pass the bases 10 and 16.
\<close>

function put_digits :: "string \<Rightarrow> uint \<Rightarrow> uint \<Rightarrow> string" where
  "put_digits ds base x =
     ds ! unat (x mod base) # (if x div base = 0 \<or> base < 2 then [] else put_digits ds base (x div base))"
  by pat_completeness auto
termination
proof (relation "measure (\<lambda>(ds, base, x). unat x)")
  fix base x :: uint and ds :: string
  assume a: "\<not> (x div base = 0 \<or> base < 2)"
  then have "unat base \<ge> 2" using word_le_nat_alt [of 2 base] by (simp add: not_less)
  moreover have "x \<noteq> 0" using a by auto
  then have "unat x > 0" by (simp add: unat_gt_0)
  ultimately have "unat x div unat base < unat x" by (intro div_less_dividend) auto
  then show "((ds, base, x div base), (ds, base, x)) \<in> measure (\<lambda>(ds, base, x). unat x)" by (simp add: unat_div)
qed simp

declare put_digits.simps [simp del]

definition printint :: "uint \<Rightarrow> uint \<Rightarrow> bool \<Rightarrow> string" where
  "printint xx base sg =
     (let neg = (sg \<and> sint xx < 0);
          x = (if neg then - xx else xx);
          buf = put_digits digits_user base x;
          buf = (if neg then buf @ ''-'' else buf)
      in rev buf)"

definition cprintint :: "uint \<Rightarrow> uint \<Rightarrow> bool \<Rightarrow> string" where
  "cprintint xx base sign =
     (let sign = (sign \<and> sint xx < 0);
          x = (if sign then - xx else xx);
          buf = put_digits digits_kernel base x;
          buf = (if sign then buf @ ''-'' else buf)
      in rev buf)"

section \<open>Format strings\<close>

definition emit :: "string \<Rightarrow> string res \<Rightarrow> string res" where
  "emit out r = bindR r (\<lambda>rest. Ret (out @ rest))"

text \<open>An argument that the caller has not passed is read from whatever is on the stack: \<open>Undef\<close>.\<close>

definition next_arg :: "uint list \<Rightarrow> (uint \<Rightarrow> uint list \<Rightarrow> string res) \<Rightarrow> string res" where
  "next_arg ap f = (case ap of [] \<Rightarrow> Undef ''missing argument'' | a # ap \<Rightarrow> f a ap)"

lemma next_arg_cong [fundef_cong]:
  "ap = ap' \<Longrightarrow> (\<And>a as. ap' = a # as \<Longrightarrow> f a as = g a as) \<Longrightarrow> next_arg ap f = next_arg ap' g"
  by (cases ap') (auto simp: next_arg_def)

definition arg_str :: "(uint \<Rightarrow> string) \<Rightarrow> uint \<Rightarrow> string" where
  "arg_str str a = (if a = 0 then ''(null)'' else str a)"

text \<open>The second argument is the variable \<open>state\<close>: whether a percent sign has just been read.\<close>

fun printf :: "(uint \<Rightarrow> string) \<Rightarrow> bool \<Rightarrow> string \<Rightarrow> uint list \<Rightarrow> string res" where
  "printf str state [] ap = Ret []"
| "printf str False (c # fmt) ap =
     (if c = CHR ''%'' then printf str True fmt ap else emit [c] (printf str False fmt ap))"
| "printf str True (c # fmt) ap =
     (if c = CHR ''d'' then next_arg ap (\<lambda>a ap. emit (printint a 10 True) (printf str False fmt ap))
      else if c = CHR ''x'' \<or> c = CHR ''p'' then next_arg ap (\<lambda>a ap. emit (printint a 16 False) (printf str False fmt ap))
      else if c = CHR ''s'' then next_arg ap (\<lambda>a ap. emit (arg_str str a) (printf str False fmt ap))
      else if c = CHR ''c'' then next_arg ap (\<lambda>a ap. emit [char_of (unat a mod 256)] (printf str False fmt ap))
      else if c = CHR ''%'' then emit [c] (printf str False fmt ap)
      else emit [CHR ''%'', c] (printf str False fmt ap))"

fun cprintf :: "(uint \<Rightarrow> string) \<Rightarrow> string \<Rightarrow> uint list \<Rightarrow> string res" where
  "cprintf str [] argp = Ret []"
| "cprintf str [c] argp = (if c \<noteq> CHR ''%'' then Ret [c] else Ret [])"
| "cprintf str (c # d # fmt) argp =
     (if c \<noteq> CHR ''%'' then emit [c] (cprintf str (d # fmt) argp)
      else if d = CHR ''d'' then next_arg argp (\<lambda>a argp. emit (cprintint a 10 True) (cprintf str fmt argp))
      else if d = CHR ''x'' \<or> d = CHR ''p'' then next_arg argp (\<lambda>a argp. emit (cprintint a 16 False) (cprintf str fmt argp))
      else if d = CHR ''s'' then next_arg argp (\<lambda>a argp. emit (arg_str str a) (cprintf str fmt argp))
      else if d = CHR ''%'' then emit [CHR ''%''] (cprintf str fmt argp)
      else emit [CHR ''%'', d] (cprintf str fmt argp))"

section \<open>Reading a number back\<close>

definition digit_val :: "char \<Rightarrow> nat" where
  "digit_val c = (let n = of_char c in if n \<le> 57 then n - 48 else if n \<le> 70 then n - 55 else n - 87)"

definition num_val :: "nat \<Rightarrow> string \<Rightarrow> int" where
  "num_val b s =
     (if s \<noteq> [] \<and> hd s = CHR ''-'' then - int (foldl (\<lambda>n c. b * n + digit_val c) 0 (tl s))
      else int (foldl (\<lambda>n c. b * n + digit_val c) 0 s))"

lemma digits_ok:
  assumes "ds = digits_user \<or> ds = digits_kernel" "k < 16"
  shows "digit_val (ds ! k) = k" "ds ! k \<noteq> CHR ''-''"
proof -
  have "\<forall>k \<in> set [0..<16]. digit_val (digits_user ! k) = k \<and> digits_user ! k \<noteq> CHR ''-''" by code_simp
  moreover have "\<forall>k \<in> set [0..<16]. digit_val (digits_kernel ! k) = k \<and> digits_kernel ! k \<noteq> CHR ''-''" by code_simp
  moreover have "k \<in> set [0..<16]" using assms(2) by simp
  ultimately show "digit_val (ds ! k) = k" "ds ! k \<noteq> CHR ''-''" using assms(1) by blast+
qed

lemma put_digits_spec:
  assumes "ds = digits_user \<or> ds = digits_kernel" "2 \<le> base" "unat base \<le> 16"
  shows "foldr (\<lambda>c n. unat base * n + digit_val c) (put_digits ds base x) 0 = unat x"
    "CHR ''-'' \<notin> set (put_digits ds base x)" "put_digits ds base x \<noteq> []"
    "unat x < unat base ^ Suc n \<Longrightarrow> length (put_digits ds base x) \<le> Suc n"
proof -
  have "foldr (\<lambda>c n. unat base * n + digit_val c) (put_digits ds base x) 0 = unat x \<and>
    CHR ''-'' \<notin> set (put_digits ds base x) \<and> (\<forall>n. unat x < unat base ^ Suc n \<longrightarrow> length (put_digits ds base x) \<le> Suc n)"
    using assms
  proof (induction ds base x rule: put_digits.induct)
    case (1 ds base x)
    have b: "unat base \<ge> 2" using 1(3) by (simp add: word_le_nat_alt)
    then have "unat x mod unat base < unat base" by (intro mod_less_divisor) simp
    then have m: "unat (x mod base) < 16" using 1(4) by (simp add: unat_mod)
    note d = digits_ok [OF 1(2) m]
    show ?case
    proof (cases "x div base = 0 \<or> base < 2")
      case True
      moreover have "\<not> base < 2" using 1(3) by (simp add: not_less)
      ultimately have "x div base = 0" by blast
      then have "unat x div unat base = 0" by (metis unat_0 unat_div)
      then have "unat x mod unat base = unat x" by (metis add.right_neutral mult_0_right mult_div_mod_eq add.commute)
      then show ?thesis using True d by (simp add: put_digits.simps [of ds base x] unat_mod)
    next
      case False
      note IH = 1(1) [OF False 1(2-4)]
      have e: "put_digits ds base x = ds ! unat (x mod base) # put_digits ds base (x div base)"
        using False by (simp add: put_digits.simps [of ds base x])
      have l: "length (put_digits ds base x) \<le> Suc n" if "unat x < unat base ^ Suc n" for n
      proof (cases n)
        case 0
        then have "unat x div unat base = 0" using that by simp
        then show ?thesis using False by (metis unat_div unat_eq_zero)
      next
        case (Suc k)
        have "unat (x div base) < unat base ^ Suc k" using that Suc b
          by (simp add: unat_div less_mult_imp_div_less mult.commute)
        then show ?thesis using IH e Suc by simp
      qed
      have "foldr (\<lambda>c n. unat base * n + digit_val c) (put_digits ds base x) 0 = unat x"
        unfolding e using IH d(1) by (simp add: unat_div unat_mod)
      then show ?thesis using l d(2) IH unfolding e by auto
    qed
  qed
  then show "foldr (\<lambda>c n. unat base * n + digit_val c) (put_digits ds base x) 0 = unat x"
    "CHR ''-'' \<notin> set (put_digits ds base x)"
    "unat x < unat base ^ Suc n \<Longrightarrow> length (put_digits ds base x) \<le> Suc n" by blast+
  show "put_digits ds base x \<noteq> []" by (simp add: put_digits.simps [of ds base x])
qed

lemma num_val_digits:
  assumes "ds = digits_user \<or> ds = digits_kernel" "2 \<le> base" "unat base \<le> 16"
  shows "num_val (unat base) (rev (put_digits ds base x)) = int (unat x)"
    "num_val (unat base) (rev (put_digits ds base x @ ''-'')) = - int (unat x)"
proof -
  note p = put_digits_spec [OF assms, of x]
  have v: "foldl (\<lambda>n c. unat base * n + digit_val c) 0 (rev (put_digits ds base x)) = unat x"
    using p(1) by (simp add: foldl_conv_foldr)
  have "hd (rev (put_digits ds base x)) \<in> set (put_digits ds base x)" using p(3) by (metis hd_in_set rev_is_Nil_conv set_rev)
  then have "hd (rev (put_digits ds base x)) \<noteq> CHR ''-''" using p(2) by metis
  then show "num_val (unat base) (rev (put_digits ds base x)) = int (unat x)" using v by (simp add: num_val_def)
  show "num_val (unat base) (rev (put_digits ds base x @ ''-'')) = - int (unat x)" using v by (simp add: num_val_def)
qed

lemma sint_neg: "sint (x :: uint) < 0 \<Longrightarrow> sint x = - int (unat (- x))" "\<not> sint (x :: uint) < 0 \<Longrightarrow> sint x = int (unat x)"
  "unat (x :: uint) < 4294967296"
proof -
  show "unat x < 4294967296" using unsigned_less [of x, where 'a = nat] by simp
  have u: "0 \<le> uint x" "uint x < 4294967296" using unsigned_less [of x, where 'a = int] by simp_all
  have "sint x = (uint x + 2147483648) mod 4294967296 - 2147483648" using int_word_sint [of "uint x", where 'a = 32] by simp
  then have s: "sint x = (if uint x < 2147483648 then uint x else uint x - 4294967296)"
    using u zmod_trivial_iff [of "uint x + 2147483648" 4294967296]
      mod_pos_pos_trivial [of "uint x + 2147483648 - 4294967296" 4294967296] minus_mod_self2 [of "uint x + 2147483648" 4294967296]
    by (auto split: if_splits)
  show "sint x = int (unat x)" if "\<not> sint x < 0" using that s u by (auto split: if_splits)
  show "sint x = - int (unat (- x))" if "sint x < 0"
  proof -
    have n: "uint x > 0" "sint x = uint x - 4294967296" using that s u by (auto split: if_splits)
    have "uint (- x) = (- uint x) mod 4294967296" by (simp add: uint_word_ariths)
    then show ?thesis using n u by (simp add: zmod_zminus1_eq_if)
  qed
qed

text \<open>
  C38. Both \<open>printint\<close> routines print what they are given: read back in base 10, the output for a signed number is
  the number, the smallest one included, whose negation overflows; in base 16 it is the unsigned
  value; and never more than 11 characters are stored in the 16 bytes of \<open>buf\<close>.
\<close>

theorem printint_value:
  "num_val 10 (printint xx 10 True) = sint xx \<and> num_val 16 (printint xx 16 False) = int (unat xx) \<and>
   num_val 10 (cprintint xx 10 True) = sint xx \<and> num_val 16 (cprintint xx 16 False) = int (unat xx) \<and>
   length (printint xx 10 True) \<le> 11 \<and> length (printint xx 16 False) \<le> 8 \<and>
   length (cprintint xx 10 True) \<le> 11 \<and> length (cprintint xx 16 False) \<le> 8"
proof -
  have ten: "length (put_digits ds 10 x) \<le> 10" if "ds = digits_user \<or> ds = digits_kernel" for ds x
    using put_digits_spec(4) [OF that, of 10 x 9] sint_neg(3) [of x] by simp
  have hex: "length (put_digits ds 16 x) \<le> 8" if "ds = digits_user \<or> ds = digits_kernel" for ds x
    using put_digits_spec(4) [OF that, of 16 x 7] sint_neg(3) [of x] by simp
  have v10: "num_val 10 (rev (put_digits ds 10 x)) = int (unat x)" "num_val 10 (rev (put_digits ds 10 x @ ''-'')) = - int (unat x)"
    if "ds = digits_user \<or> ds = digits_kernel" for ds x using num_val_digits [OF that, of 10 x] by simp_all
  have v16: "num_val 16 (rev (put_digits ds 16 x)) = int (unat x)" if "ds = digits_user \<or> ds = digits_kernel" for ds x
    using num_val_digits(1) [OF that, of 16 x] by simp
  show ?thesis
    using ten [of digits_user xx] ten [of digits_user "- xx"] ten [of digits_kernel xx] ten [of digits_kernel "- xx"] hex [of digits_user] hex [of digits_kernel]
      v10 [of digits_user] v10 [of digits_kernel] v16 [of digits_user] v16 [of digits_kernel] sint_neg(1,2) [of xx]
    by (auto simp: printint_def cprintint_def Let_def)
qed

end
