(* ===== verification/Console.thy ===== *)
theory Console
  imports Ring Printf
begin

text \<open>
  The console: the keyboard driver (\<open>xv6/kbd.c\<close>, \<open>xv6/kbd.h\<close>), the screen, the line editing of \<open>consoleintr\<close> and
  the reading of lines by \<open>consoleread\<close> (\<open>xv6/console.c\<close>). Ports are arguments: what the keyboard controller
  and the cursor registers of the screen give is passed in, what is written to them is part of the
  state. The lock \<open>cons.lock\<close> makes every operation below atomic.
\<close>

unbundle bit_operations_syntax

section \<open>Keyboard\<close>

abbreviation (input) "SHIFT \<equiv> (1 :: byte)"
abbreviation (input) "CTL \<equiv> (2 :: byte)"
abbreviation (input) "ALT \<equiv> (4 :: byte)"
abbreviation (input) "CAPSLOCK \<equiv> (8 :: byte)"
abbreviation (input) "NUMLOCK \<equiv> (16 :: byte)"
abbreviation (input) "SCROLLLOCK \<equiv> (32 :: byte)"
abbreviation (input) "E0ESC \<equiv> (64 :: byte)"

definition codes :: "string \<Rightarrow> byte list" where
  "codes s = map of_char s"

definition table :: "byte list \<Rightarrow> (nat \<times> byte) list \<Rightarrow> byte list" where
  "table xs us = foldl (\<lambda>m (i, v). m[i := v]) (xs @ replicate (256 - length xs) 0) us"

definition shiftcode :: "byte list" where
  "shiftcode = table [] [(0x1D, CTL), (0x2A, SHIFT), (0x36, SHIFT), (0x38, ALT), (0x9D, CTL), (0xB8, ALT)]"

definition togglecode :: "byte list" where
  "togglecode = table [] [(0x3A, CAPSLOCK), (0x45, NUMLOCK), (0x46, SCROLLLOCK)]"

definition keypad :: "(nat \<times> byte) list" where
  "keypad = [(0xC8, 0xE2), (0xD0, 0xE3), (0xC9, 0xE6), (0xD1, 0xE7), (0xCB, 0xE4), (0xCD, 0xE5),
     (0x97, 0xE0), (0xCF, 0xE1), (0xD2, 0xE8), (0xD3, 0xE9)]"

definition normalmap :: "byte list" where
  "normalmap = table
     ([0, 0x1B] @ codes ''1234567890-='' @ [8, 9] @ codes ''qwertyuiop[]'' @ [10, 0] @ codes ''asdfghjkl;'' @
      [39, 96, 0, 92] @ codes ''zxcvbnm,./'' @ [0] @ codes ''*'' @ [0] @ codes '' '' @ replicate 6 0 @ replicate 7 0 @
      codes ''789-456+1230.'' @ replicate 4 0)
     ([(0x9C, 10), (0xB5, 47)] @ keypad)"

definition shiftmap :: "byte list" where
  "shiftmap = table
     ([0, 0x1B] @ codes ''!@#$%^&*()_+'' @ [8, 9] @ codes ''QWERTYUIOP{}'' @ [10, 0] @ codes ''ASDFGHJKL:'' @
      [34, 126, 0, 124] @ codes ''ZXCVBNM<>?'' @ [0] @ codes ''*'' @ [0] @ codes '' '' @ replicate 6 0 @ replicate 7 0 @
      codes ''789-456+1230.'' @ replicate 4 0)
     ([(0x9C, 10), (0xB5, 47)] @ keypad)"

definition ctl :: "string \<Rightarrow> byte list" where
  "ctl s = map (\<lambda>c. of_char c - 64) s"

definition ctlmap :: "byte list" where
  "ctlmap = table
     (replicate 16 0 @ ctl ''QWERTYUIOP'' @ [0, 0] @ [13, 0] @ ctl ''ASDFGHJKL'' @ [0, 0, 0, 0] @ [92 - 64] @
      ctl ''ZXCVBNM'' @ [0, 0] @ ctl ''/'' @ [0, 0])
     ([(0x9C, 13), (0xB5, 47 - 64)] @ keypad)"

text \<open>
  \<open>kbdgetc\<close> with the values of the status and the data port; the result is the character, \<open>None\<close> for -1 (no
  data), and the new value of \<open>shift\<close>.
\<close>

definition kbdgetc :: "byte \<Rightarrow> byte \<Rightarrow> byte \<Rightarrow> byte option \<times> byte" where
  "kbdgetc st data shift =
     (if st AND 1 = 0 then (None, shift)
      else if data = 0xE0 then (Some 0, shift OR E0ESC)
      else if data AND 0x80 \<noteq> 0 then
        let data = (if shift AND E0ESC \<noteq> 0 then data else data AND 0x7F)
        in (Some 0, shift AND NOT (shiftcode ! unat data OR E0ESC))
      else
        let (data, shift) = (if shift AND E0ESC \<noteq> 0 then (data OR 0x80, shift AND NOT E0ESC) else (data, shift));
            shift = shift OR shiftcode ! unat data;
            shift = shift XOR togglecode ! unat data;
            c = [normalmap, shiftmap, ctlmap, ctlmap] ! unat (shift AND (CTL OR SHIFT)) ! unat data;
            c = (if shift AND CAPSLOCK \<noteq> 0 then
                   if 97 \<le> c \<and> c \<le> 122 then c + (65 - 97)
                   else if 65 \<le> c \<and> c \<le> 90 then c + (97 - 65)
                   else c
                 else c)
        in (Some c, shift))"

section \<open>Screen\<close>

text \<open>The memory of the screen, the cursor registers, and the characters sent to the serial port.\<close>

record screen =
  crt :: "ushort list"
  cursor :: nat
  uart_out :: "nat list"
  panicked :: bool

abbreviation (input) "BACKSPACE \<equiv> (0x100 :: nat)"

text \<open>The three parts of \<open>cgaputc\<close>: place the character, scroll, and store the cursor.\<close>

definition cga_place :: "nat \<Rightarrow> screen \<Rightarrow> (nat \<times> ushort list) res" where
  "cga_place c s =
     (let pos = cursor s in
      if c = 10 then Ret (pos + (80 - pos mod 80), crt s)
      else if c = BACKSPACE then Ret (if pos > 0 then pos - 1 else pos, crt s)
      else if pos < length (crt s) then Ret (pos + 1, (crt s)[pos := (of_nat c AND 0xFF) OR 0x0700])
      else Undef ''screen'')"

definition cga_scroll :: "nat \<Rightarrow> ushort list \<Rightarrow> nat \<times> ushort list" where
  "cga_scroll pos m =
     (if pos div 80 \<ge> 24 then
        let m = take (23 * 80) (drop 80 m) @ drop (23 * 80) m;
            pos = pos - 80
        in (pos, take pos m @ replicate (24 * 80 - pos) 0 @ drop (24 * 80) m)
      else (pos, m))"

definition cgaputc :: "nat \<Rightarrow> screen \<Rightarrow> screen res" where
  "cgaputc c s =
     bindR (cga_place c s) (\<lambda>(pos, m).
       if pos > 25 * 80 then Panic ''pos under/overflow''
       else
         let (pos, m) = cga_scroll pos m
         in Ret (s\<lparr>cursor := pos, crt := m[pos := 32 OR 0x0700]\<rparr>))"

definition uartputc :: "nat \<Rightarrow> screen \<Rightarrow> screen" where
  "uartputc c s = s\<lparr>uart_out := uart_out s @ [c]\<rparr>"

text \<open>A processor that finds \<open>panicked\<close> set stops for ever.\<close>

definition consputc :: "nat \<Rightarrow> screen \<Rightarrow> screen res" where
  "consputc c s =
     (if panicked s then Panic ''panicked''
      else
        let s = (if c = BACKSPACE then uartputc 8 (uartputc 32 (uartputc 8 s)) else uartputc c s)
        in cgaputc c s)"

definition consolewrite :: "byte list \<Rightarrow> screen \<Rightarrow> screen res" where
  "consolewrite buf s = foldR (\<lambda>b. consputc (unat b)) buf s"

definition screen_ok :: "screen \<Rightarrow> bool" where
  "screen_ok s \<longleftrightarrow> 25 * 80 \<le> length (crt s) \<and> cursor s < 25 * 80 \<and> \<not> panicked s"

section \<open>Line editing\<close>

abbreviation (input) "INPUT_BUF \<equiv> (128 :: nat)"

record input =
  ibuf :: "byte list"
  ir :: uint
  iw :: uint
  ie :: uint

text \<open>The loop of the kill character; the second component is the number of backspaces written.\<close>

function kill_line :: "input \<Rightarrow> input \<times> nat" where
  "kill_line s =
     (if ie s \<noteq> iw s \<and> ibuf s ! (unat (ie s - 1) mod INPUT_BUF) \<noteq> 10
      then let (s, n) = kill_line (s\<lparr>ie := ie s - 1\<rparr>) in (s, Suc n)
      else (s, 0))"
  by pat_completeness auto
termination
proof (relation "measure (\<lambda>s. unat (ie s - iw s))")
  fix s :: input
  assume "ie s \<noteq> iw s \<and> ibuf s ! (unat (ie s - 1) mod INPUT_BUF) \<noteq> 10"
  then have n: "ie s - iw s \<noteq> 0" by simp
  then have "unat (ie s - iw s - 1) < unat (ie s - iw s)" by (simp add: unat_minus_one unat_gt_0)
  moreover have "ie s - 1 - iw s = ie s - iw s - 1" by simp
  ultimately have "unat (ie s - 1 - iw s) < unat (ie s - iw s)" by (simp only:)
  then show "(s\<lparr>ie := ie s - 1\<rparr>, s) \<in> measure (\<lambda>s. unat (ie s - iw s))" by simp
qed simp

declare kill_line.simps [simp del]

text \<open>
  One turn of the loop of \<open>consoleintr\<close>: the new state, the characters echoed with \<open>consputc\<close>, and whether the
  readers are woken.
\<close>

definition input_char :: "byte \<Rightarrow> input \<Rightarrow> input \<times> nat list \<times> bool" where
  "input_char c s =
     (if c = 16 then (s, [], False)
      else if c = 21 then let (s, n) = kill_line s in (s, replicate n BACKSPACE, False)
      else if c = 8 \<or> c = 0x7F then
        if ie s \<noteq> iw s then (s\<lparr>ie := ie s - 1\<rparr>, [BACKSPACE], False) else (s, [], False)
      else if c \<noteq> 0 \<and> ie s - ir s < of_nat INPUT_BUF then
        let c = (if c = 13 then 10 else c);
            s = s\<lparr>ibuf := (ibuf s)[unat (ie s) mod INPUT_BUF := c], ie := ie s + 1\<rparr>
        in if c = 10 \<or> c = 4 \<or> ie s = ir s + of_nat INPUT_BUF
           then (s\<lparr>iw := ie s\<rparr>, [unat c], True)
           else (s, [unat c], False)
      else (s, [], False))"

text \<open>\<open>consoleintr\<close> for the characters that \<open>getc\<close> returns until it returns -1; the last component is \<open>doprocdump\<close>.\<close>

fun consoleintr :: "byte list \<Rightarrow> input \<Rightarrow> input \<times> nat list \<times> bool \<times> bool" where
  "consoleintr [] s = (s, [], False, False)"
| "consoleintr (c # cs) s =
     (let (s, out, wake) = input_char c s;
          (s, out', wake', dump) = consoleintr cs s
      in (s, out @ out', wake \<or> wake', c = 16 \<or> dump))"

datatype cread = CDone "byte list" | CFail | CSleep "byte list"

text \<open>
  The loop of \<open>consoleread\<close>; \<open>got\<close> are the bytes stored so far and \<open>n\<close> the bytes still wanted. \<open>CSleep\<close> ends the part
  that runs without releasing the lock; after a wakeup the loop goes on with the same arguments.
\<close>

fun consoleread :: "bool \<Rightarrow> byte list \<Rightarrow> nat \<Rightarrow> input \<Rightarrow> cread \<times> input" where
  "consoleread killed got 0 s = (CDone got, s)"
| "consoleread killed got (Suc n) s =
     (if ir s = iw s then (if killed then CFail else CSleep got, s)
      else
        let c = ibuf s ! (unat (ir s) mod INPUT_BUF);
            s = s\<lparr>ir := ir s + 1\<rparr>
        in if c = 4 then (CDone got, if got \<noteq> [] then s\<lparr>ir := ir s - 1\<rparr> else s)
           else if c = 10 then (CDone (got @ [c]), s)
           else consoleread killed (got @ [c]) n s)"

section \<open>The screen never overflows\<close>

lemma cga_place_ok:
  assumes "screen_ok s"
  obtains q m where "cga_place c s = Ret (q, m)" "q \<le> 25 * 80" "length m = length (crt s)" "\<And>i. 25 * 80 \<le> i \<Longrightarrow> m ! i = crt s ! i"
proof -
  let ?p = "cursor s"
  have p: "?p < 2000" "2000 \<le> length (crt s)" using assms by (simp_all add: screen_ok_def)
  have nl: "?p + (80 - ?p mod 80) \<le> 2000"
  proof -
    have "?p div 80 \<le> 24" using p(1) by simp
    moreover have "p + (80 - m) = 80 * (d + 1)" if "m < 80" "80 * d + m = p" for p m d :: nat using that by auto
    from this [of "?p mod 80" "?p div 80" ?p] have "?p + (80 - ?p mod 80) = 80 * (?p div 80 + 1)" by simp
    ultimately show ?thesis by simp
  qed
  consider "c = 10" | "c = 256" | "c \<noteq> 10" "c \<noteq> 256" by blast
  then show thesis
  proof cases
    case 1
    then show ?thesis using that [of "?p + (80 - ?p mod 80)" "crt s"] nl by (simp add: cga_place_def Let_def)
  next
    case 2
    have "(if ?p > 0 then ?p - 1 else ?p) \<le> 2000" using p by auto
    then show ?thesis using 2 that [of "if ?p > 0 then ?p - 1 else ?p" "crt s"] by (simp add: cga_place_def Let_def)
  next
    case 3
    then show ?thesis using that [of "?p + 1" "(crt s)[?p := (of_nat c AND 0xFF) OR 0x0700]"] p by (simp add: cga_place_def Let_def)
  qed
qed

lemma cga_scroll_ok:
  assumes "q \<le> 25 * 80" "25 * 80 \<le> length m"
  obtains r m' where "cga_scroll q m = (r, m')" "r \<le> 24 * 80" "length m' = length m" "\<And>i. 25 * 80 \<le> i \<Longrightarrow> m' ! i = m ! i"
proof (cases "q div 80 \<ge> 24")
  case True
  then have q: "1920 \<le> q" by (simp add: less_eq_div_iff_mult_less_eq)
  define n where "n = take (23 * 80) (drop 80 m) @ drop (23 * 80) m"
  have n: "length n = length m" "\<And>i. 2000 \<le> i \<Longrightarrow> n ! i = m ! i" using assms(2) by (simp_all add: n_def nth_append)
  define r where "r = q - 80"
  have r: "r \<le> 1920" using assms(1) by (simp add: r_def)
  let ?m = "take r n @ replicate (24 * 80 - r) 0 @ drop (24 * 80) n"
  have l: "length ?m = length m" using n(1) r assms(2) by simp
  have k: "?m ! i = m ! i" if "25 * 80 \<le> i" for i
  proof -
    have "?m ! i = n ! i" using that r n(1) assms(2) by (auto simp: nth_append)
    then show ?thesis using n(2) that by simp
  qed
  have "cga_scroll q m = (r, ?m)" using True by (simp add: cga_scroll_def Let_def r_def n_def)
  moreover have "r \<le> 24 * 80" using r by simp
  ultimately show ?thesis using l k by (rule that)
next
  case False
  then have "q < 1920" by (simp add: not_le div_less_iff_less_mult)
  then show ?thesis using False by (intro that [of q m]) (simp_all add: cga_scroll_def)
qed

lemma cgaputc_ok:
  assumes "screen_ok s"
  shows "\<exists>t. cgaputc c s = Ret t \<and> screen_ok t \<and> uart_out t = uart_out s \<and>
    cursor t \<le> 24 * 80 \<and> (\<forall>i. 25 * 80 \<le> i \<longrightarrow> crt t ! i = crt s ! i)"
proof -
  obtain q m where p: "cga_place c s = Ret (q, m)" "q \<le> 25 * 80" "length m = length (crt s)" "\<And>i. 25 * 80 \<le> i \<Longrightarrow> m ! i = crt s ! i"
    using cga_place_ok [OF assms, of c] by blast
  have "25 * 80 \<le> length m" using assms p(3) by (simp add: screen_ok_def)
  then obtain r m' where r: "cga_scroll q m = (r, m')" "r \<le> 24 * 80" "length m' = length m" "\<And>i. 25 * 80 \<le> i \<Longrightarrow> m' ! i = m ! i"
    using cga_scroll_ok [OF p(2)] by blast
  show ?thesis using assms p r by (auto simp: cgaputc_def screen_ok_def)
qed

lemma consolewrite_ok:
  assumes "screen_ok s"
  shows "\<exists>t. consolewrite buf s = Ret t \<and> screen_ok t \<and> uart_out t = uart_out s @ map unat buf"
  using assms
proof (induction buf arbitrary: s)
  case Nil
  then show ?case by (simp add: consolewrite_def)
next
  case (Cons b buf)
  have "unat b \<noteq> 256" using unsigned_less [of b, where 'a = nat] by simp
  then have c: "consputc (unat b) s = cgaputc (unat b) (uartputc (unat b) s)"
    using Cons.prems by (simp add: consputc_def screen_ok_def)
  have "screen_ok (uartputc (unat b) s)" using Cons.prems by (simp add: screen_ok_def uartputc_def)
  from cgaputc_ok [OF this, of "unat b"] obtain t where t: "cgaputc (unat b) (uartputc (unat b) s) = Ret t" "screen_ok t"
    "uart_out t = uart_out s @ [unat b]" by (auto simp: uartputc_def)
  from Cons.IH [OF t(2)] show ?case using c t by (auto simp: consolewrite_def)
qed

section \<open>Line editing as an operation on two lists\<close>

text \<open>The characters that \<open>read\<close> may return, and the line that is still being edited.\<close>

definition ready :: "input \<Rightarrow> byte list" where
  "ready s = ring (ibuf s) (ir s) (iw s)"

definition edited :: "input \<Rightarrow> byte list" where
  "edited s = ring (ibuf s) (iw s) (ie s)"

definition input_ok :: "input \<Rightarrow> bool" where
  "input_ok s \<longleftrightarrow> length (ibuf s) = INPUT_BUF \<and> unat (iw s - ir s) + unat (ie s - iw s) \<le> INPUT_BUF \<and> 10 \<notin> set (edited s)"

fun edit_char :: "byte \<Rightarrow> byte list \<times> byte list \<Rightarrow> byte list \<times> byte list" where
  "edit_char c (r, l) =
     (if c = 16 then (r, l)
      else if c = 21 then (r, [])
      else if c = 8 \<or> c = 0x7F then (r, butlast l)
      else if c \<noteq> 0 \<and> length r + length l < INPUT_BUF then
        let c = (if c = 13 then 10 else c); l = l @ [c]
        in if c = 10 \<or> c = 4 \<or> length r + length l = INPUT_BUF then (r @ l, []) else (r, l)
      else (r, l))"

fun read_line :: "bool \<Rightarrow> byte list \<Rightarrow> nat \<Rightarrow> byte list \<Rightarrow> cread \<times> byte list" where
  "read_line killed got 0 r = (CDone got, r)"
| "read_line killed got (Suc n) [] = (if killed then CFail else CSleep got, [])"
| "read_line killed got (Suc n) (c # r) =
     (if c = 4 then (CDone got, if got \<noteq> [] then c # r else r)
      else if c = 10 then (CDone (got @ [c]), r)
      else read_line killed (got @ [c]) n r)"

lemma ring_split:
  assumes "unat (w - r) + unat (e - w) < 4294967296"
  shows "unat (e - r) = unat (w - r) + unat (e - w)" "ring d r e = ring d r w @ ring d w e"
proof -
  have "e - r = (w - r) + (e - w)" by simp
  then show n: "unat (e - r) = unat (w - r) + unat (e - w)"
    using assms by (simp only: unat_word_ariths(1)) simp
  have "ring d r e = map (\<lambda>i. d ! (unat (r + of_nat i) mod length d)) ([0..<unat (w - r)] @ [unat (w - r)..<unat (w - r) + unat (e - w)])"
    unfolding ring_def n by (simp only: upt_add_eq_append [OF le0])
  also have "\<dots> = ring d r w @ ring d w e"
  proof -
    have "map (\<lambda>i. d ! (unat (r + of_nat i) mod length d)) [unat (w - r)..<unat (w - r) + unat (e - w)] = ring d w e"
      unfolding ring_def by (rule nth_equalityI) (simp_all add: add.commute add.left_commute)
    then show ?thesis by (simp add: ring_def)
  qed
  finally show "ring d r e = ring d r w @ ring d w e" .
qed

lemma ring_butlast:
  assumes "e \<noteq> w"
  shows "ring d w (e - 1) = butlast (ring d w e)" "last (ring d w e) = d ! (unat (e - 1) mod length d)"
    "unat (e - 1 - w) = unat (e - w) - 1" "0 < unat (e - w)"
proof -
  have z: "e - w \<noteq> 0" using assms by simp
  then show "0 < unat (e - w)" by (simp add: unat_gt_0)
  then obtain n where n: "unat (e - w) = Suc n" by (metis gr0_implies_Suc)
  have "e - 1 - w = e - w - 1" by simp
  then show m: "unat (e - 1 - w) = unat (e - w) - 1" by (simp only: unat_minus_one [OF z])
  show "ring d w (e - 1) = butlast (ring d w e)" unfolding ring_def m n by simp
  have "of_nat (Suc n) = e - w" unfolding n [symmetric] by simp
  then have "w + of_nat n = e - 1" by (simp add: algebra_simps)
  then show "last (ring d w e) = d ! (unat (e - 1) mod length d)" unfolding ring_def n by simp
qed

lemma input_okD:
  assumes "input_ok s"
  shows "ring_ok (ibuf s) (ir s) (ie s)" "ring_ok (ibuf s) (ir s) (iw s)" "ring_ok (ibuf s) (iw s) (ie s)" "length (ibuf s) = INPUT_BUF"
    "unat (ie s - ir s) = length (ready s) + length (edited s)" "length (ready s) + length (edited s) \<le> INPUT_BUF" "10 \<notin> set (edited s)"
  using assms ring_split(1) [of "iw s" "ir s" "ie s"] by (auto simp: input_ok_def ring_ok_def ready_def edited_def)

lemma input_ok_iff:
  "input_ok s \<longleftrightarrow> length (ibuf s) = INPUT_BUF \<and> length (ready s) + length (edited s) \<le> INPUT_BUF \<and> 10 \<notin> set (edited s)"
  by (auto simp: input_ok_def ready_def edited_def)

lemma input_back:
  assumes "input_ok s" "ie s \<noteq> iw s"
  shows "input_ok (s\<lparr>ie := ie s - 1\<rparr>)" "ready (s\<lparr>ie := ie s - 1\<rparr>) = ready s" "edited (s\<lparr>ie := ie s - 1\<rparr>) = butlast (edited s)"
proof -
  show e: "ready (s\<lparr>ie := ie s - 1\<rparr>) = ready s" "edited (s\<lparr>ie := ie s - 1\<rparr>) = butlast (edited s)"
    using ring_butlast(1) [OF assms(2)] by (simp_all add: ready_def edited_def)
  have "10 \<notin> set (butlast (edited s))" using assms(1) by (auto simp: input_ok_def dest: in_set_butlastD)
  then show "input_ok (s\<lparr>ie := ie s - 1\<rparr>)" using assms(1) by (auto simp: input_ok_iff e)
qed

lemma kill_line_spec:
  "input_ok s \<Longrightarrow> kill_line s = (t, n) \<Longrightarrow> input_ok t \<and> ready t = ready s \<and> edited t = [] \<and> n = length (edited s)"
proof (induction s arbitrary: t n rule: kill_line.induct)
  case (1 s)
  show ?case
  proof (cases "ie s = iw s")
    case True
    then show ?thesis using 1(2,3) by (auto simp: kill_line.simps [of s] edited_def ring_empty_iff)
  next
    case False
    have ne: "edited s \<noteq> []" using False by (simp add: edited_def ring_empty_iff)
    then have "last (edited s) \<noteq> 10" using last_in_set [OF ne] 1(2) by (metis input_ok_def)
    then have c: "ie s \<noteq> iw s \<and> ibuf s ! (unat (ie s - 1) mod INPUT_BUF) \<noteq> 10"
      using False ring_butlast(2) [OF False, of "ibuf s"] 1(2) by (simp add: edited_def input_ok_def)
    obtain u m where k: "kill_line (s\<lparr>ie := ie s - 1\<rparr>) = (u, m)" by (cases "kill_line (s\<lparr>ie := ie s - 1\<rparr>)")
    then have "t = u" "n = Suc m" using 1(3) c by (simp_all add: kill_line.simps [of s])
    then show ?thesis using 1(1) [OF c input_back(1) [OF 1(2) False] k] input_back [OF 1(2) False] ne by simp
  qed
qed

lemma input_push:
  fixes c :: byte
  assumes "input_ok s" "length (ready s) + length (edited s) < INPUT_BUF"
  defines "t \<equiv> s\<lparr>ibuf := (ibuf s)[unat (ie s) mod INPUT_BUF := c], ie := ie s + 1\<rparr>"
  shows "ready t = ready s" "edited t = edited s @ [c]" "length (ibuf t) = INPUT_BUF"
proof -
  note d = input_okD [OF assms(1)]
  have l: "unat (ie s - ir s) < length (ibuf s)" "unat (ie s - iw s) < length (ibuf s)"
    using assms(2) d(4,5) by (simp_all add: edited_def)
  have a: "ring (ibuf t) (ir s) (ie s + 1) = ring (ibuf s) (ir s) (ie s) @ [c]"
    using ring_push(1) [OF d(1) l(1)] d(4) by (simp add: t_def)
  have e: "ring (ibuf t) (iw s) (ie s + 1) = ring (ibuf s) (iw s) (ie s) @ [c]"
    using ring_push(1) [OF d(3) l(2)] d(4) by (simp add: t_def)
  show et: "edited t = edited s @ [c]" using e by (simp add: edited_def t_def)
  have le: "unat (iw s - ir s) + unat (ie s - iw s) < 4294967296" using assms(2) by (simp add: ready_def edited_def)
  have "unat (ie s + 1 - iw s) = Suc (unat (ie s - iw s))" using arg_cong [OF e, of length] by simp
  then have le': "unat (iw s - ir s) + unat (ie s + 1 - iw s) < 4294967296" using assms(2) by (simp add: ready_def edited_def)
  have "ready t @ edited t = (ready s @ edited s) @ [c]"
    using a ring_split(2) [OF le, of "ibuf s"] ring_split(2) [OF le', of "ibuf t"] by (simp add: ready_def edited_def t_def)
  then show "ready t = ready s" using et by simp
  show "length (ibuf t) = INPUT_BUF" using d(4) by (simp add: t_def)
qed

lemma input_commit:
  assumes "length (ready s) + length (edited s) \<le> INPUT_BUF" "length (ibuf s) = INPUT_BUF"
  shows "input_ok (s\<lparr>iw := ie s\<rparr>)" "ready (s\<lparr>iw := ie s\<rparr>) = ready s @ edited s" "edited (s\<lparr>iw := ie s\<rparr>) = []"
proof -
  have "unat (iw s - ir s) + unat (ie s - iw s) < 4294967296" using assms by (simp add: ready_def edited_def)
  note r = ring_split [OF this]
  show e: "ready (s\<lparr>iw := ie s\<rparr>) = ready s @ edited s" "edited (s\<lparr>iw := ie s\<rparr>) = []"
    using r(2) by (simp_all add: ready_def edited_def ring_empty_iff)
  show "input_ok (s\<lparr>iw := ie s\<rparr>)" using assms by (simp add: input_ok_iff e)
qed

lemma input_char_refines:
  assumes "input_ok s" "input_char c s = (t, out, wake)"
  shows "input_ok t \<and> (ready t, edited t) = edit_char c (ready s, edited s)"
proof -
  note d = input_okD [OF assms(1)]
  have em: "edited s = [] \<longleftrightarrow> ie s = iw s" by (auto simp: edited_def ring_empty_iff)
  have full: "ie s - ir s < of_nat INPUT_BUF \<longleftrightarrow> length (ready s) + length (edited s) < INPUT_BUF"
    using d(5) by (simp add: word_less_nat_alt)
  consider "c = 16" | "c = 21" | "c = 8 \<or> c = 127" | "c \<notin> {16, 21, 8, 127}" "\<not> (c \<noteq> 0 \<and> ie s - ir s < of_nat INPUT_BUF)"
    | "c \<notin> {16, 21, 8, 127}" "c \<noteq> 0" "ie s - ir s < of_nat INPUT_BUF" by blast
  then show ?thesis
  proof cases
    case 2
    then show ?thesis using assms kill_line_spec [OF assms(1)] by (auto simp: input_char_def split: prod.splits)
  next
    case 3
    then show ?thesis using assms em input_back [OF assms(1)] by (auto simp: input_char_def split: if_splits)
  next
    case 5
    define c' where "c' = (if c = 13 then 10 else c)"
    define u where "u = s\<lparr>ibuf := (ibuf s)[unat (ie s) mod INPUT_BUF := c'], ie := ie s + 1\<rparr>"
    have room: "length (ready s) + length (edited s) < INPUT_BUF" using 5(3) full by simp
    note p = input_push [OF assms(1) room, of c', folded u_def]
    have io: "ie u = ir u + of_nat INPUT_BUF \<longleftrightarrow> length (ready u) + length (edited u) = INPUT_BUF"
    proof -
      have "length (ready u) + length (edited u) \<le> INPUT_BUF" using p room by simp
      then have "unat (iw u - ir u) + unat (ie u - iw u) < 4294967296" by (simp add: ready_def edited_def)
      then have "unat (ie u - ir u) = length (ready u) + length (edited u)"
        using ring_split(1) [of "iw u" "ir u" "ie u"] by (simp only: ready_def edited_def length_ring)
      moreover have "ie u = ir u + of_nat INPUT_BUF \<longleftrightarrow> ie u - ir u = of_nat INPUT_BUF" by (auto simp: diff_eq_eq add.commute)
      moreover have "\<dots> \<longleftrightarrow> unat (ie u - ir u) = INPUT_BUF" by (simp add: word_unat_eq_iff)
      ultimately show ?thesis by simp
    qed
    show ?thesis
    proof (cases "c' = 10 \<or> c' = 4 \<or> ie u = ir u + of_nat INPUT_BUF")
      case True
      then have "t = u\<lparr>iw := ie u\<rparr>" using assms(2) 5 by (auto simp: input_char_def Let_def u_def c'_def)
      moreover have "edit_char c (ready s, edited s) = (ready u @ edited u, [])"
        using True 5 room p io by (auto simp: Let_def c'_def)
      ultimately show ?thesis using input_commit [of u] p room by simp
    next
      case False
      then have "t = u" using assms(2) 5 by (auto simp: input_char_def Let_def u_def c'_def split: if_splits)
      moreover have "edit_char c (ready s, edited s) = (ready u, edited u)"
        using False 5 room p io by (auto simp: Let_def c'_def)
      moreover have "input_ok u" using False p room d(7) by (simp add: input_ok_iff)
      ultimately show ?thesis by simp
    qed
  qed (use assms full in \<open>auto simp: input_char_def\<close>)
qed

lemma consoleread_refines:
  assumes "input_ok s" "consoleread killed got n s = (r, t)"
  shows "input_ok t \<and> (r, ready t) = read_line killed got n (ready s) \<and> edited t = edited s"
  using assms
proof (induction killed got n s rule: consoleread.induct)
  case (2 killed got n s)
  show ?case
  proof (cases "ir s = iw s")
    case True
    then have "ready s = []" by (simp add: ready_def ring_empty_iff)
    then show ?thesis using 2(2,3) True by (auto split: if_splits)
  next
    case False
    define c where "c = ibuf s ! (unat (ir s) mod INPUT_BUF)"
    define u where "u = s\<lparr>ir := ir s + 1\<rparr>"
    note d = input_okD [OF 2(2)]
    have rs: "ready s = c # ready u" and eu: "edited u = edited s"
      using ring_pop(1) [OF d(2) False] d(4) by (simp_all add: ready_def edited_def c_def u_def)
    have u: "input_ok u" using 2(2) rs eu by (simp add: input_ok_iff u_def)
    have bk: "u\<lparr>ir := ir u - 1\<rparr> = s" by (simp add: u_def)
    show ?thesis
    proof (cases "c = 4 \<or> c = 10")
      case True
      then show ?thesis using 2(2,3) False u eu rs bk by (auto simp: Let_def c_def [symmetric] u_def [symmetric])
    next
      case no: False
      then have "consoleread killed (got @ [c]) n u = (r, t)" using 2(3) False by (simp add: Let_def c_def u_def)
      then show ?thesis using 2(1) [OF False c_def u_def] no u eu rs by simp
    qed
  qed
qed auto

fun edit_chars :: "byte list \<Rightarrow> byte list \<times> byte list \<Rightarrow> byte list \<times> byte list" where
  "edit_chars [] x = x"
| "edit_chars (c # cs) x = edit_chars cs (edit_char c x)"

lemma consoleintr_refines:
  "input_ok s \<Longrightarrow> consoleintr cs s = (t, out, wake, dump) \<Longrightarrow>
     input_ok t \<and> (ready t, edited t) = edit_chars cs (ready s, edited s)"
proof (induction cs arbitrary: s out wake dump)
  case (Cons c cs)
  obtain u o' w' where i: "input_char c s = (u, o', w')" by (cases "input_char c s")
  obtain o'' w'' d'' where k: "consoleintr cs u = (t, o'', w'', d'')"
    using Cons.prems(2) i by (auto simp: Let_def split: prod.splits)
  note r = input_char_refines [OF Cons.prems(1) i]
  show ?case using Cons.IH [OF _ k] r by (metis edit_chars.simps(2))
qed simp

text \<open>
  C37. The ring buffer of the console implements line editing: for any characters typed, \<open>consoleintr\<close> acts on the
  pair of the characters ready for reading and the line being edited as the editing commands say
  (erase a character, erase the line, complete the line at a newline, at end-of-file or when the
  buffer is full), and \<open>consoleread\<close> takes from the ready characters up to the end of a line, the
  wrap-around of the three indices notwithstanding; both keep the invariant that the buffer is never
  overfull and the line being edited holds no newline.
\<close>

theorem console_refines:
  assumes "input_ok s" "consoleintr cs s = (t, out, wake, dump)" "consoleread killed got n t = (r, u)"
  shows "input_ok t \<and> input_ok u \<and> (ready t, edited t) = edit_chars cs (ready s, edited s) \<and>
    (r, ready u) = read_line killed got n (ready t) \<and> edited u = edited t"
  using consoleintr_refines [OF assms(1,2)] consoleread_refines [OF _ assms(3)] by blast

text \<open>A line typed with a correction, on a buffer whose indices are about to wrap around.\<close>

definition input0 :: input where
  "input0 = \<lparr>ibuf = replicate INPUT_BUF 0, ir = - 1, iw = - 1, ie = - 1\<rparr>"

theorem console_refines_witness:
  "input_ok input0 \<and>
   (\<exists>t out wake dump u. consoleintr [97, 98, 8, 99, 13] input0 = (t, out, wake, dump) \<and>
      consoleread False [] 80 t = (CDone [97, 99, 10], u) \<and> ready u = [] \<and> edited u = [])"
proof -
  have i: "input_ok input0" by (simp add: input_ok_def input0_def edited_def ring_def)
  obtain t out wake dump where t: "consoleintr [97, 98, 8, 99, 13] input0 = (t, out, wake, dump)"
    by (cases "consoleintr [97, 98, 8, 99, 13] input0")
  obtain r u where r: "consoleread False [] 80 t = (r, u)" by (cases "consoleread False [] 80 t")
  have e: "edit_chars [97, 98, 8, 99, 13] (ready input0, edited input0) = ([97, 99, 10], [])"
    by (simp add: input0_def ready_def edited_def ring_def)
  have l: "read_line False [] 80 [97, 99, 10] = (CDone [97, 99, 10], [])" by code_simp
  show ?thesis using i t r l console_refines [OF i t r, unfolded e] by auto
qed

end
