(* ===== verification/Vm.thy ===== *)
theory Vm
  imports Kalloc
begin

text \<open>
  Page tables (\<open>xv6/vm.c\<close>) in the flat memory of the kernel, on top of the page allocator. A page directory
  and its page tables are pages of that memory and are read and written word by word, as in the code.
  \<open>kdata\<close> is the address of the linker symbol \<open>data\<close>.
\<close>

unbundle bit_operations_syntax

section \<open>Addresses and entries\<close>

abbreviation (input) "PTE_P \<equiv> (1 :: uint)"
abbreviation (input) "PTE_W \<equiv> (2 :: uint)"
abbreviation (input) "PTE_U \<equiv> (4 :: uint)"
abbreviation (input) "EXTMEM \<equiv> (0x100000 :: uint)"
abbreviation (input) "DEVSPACE \<equiv> (0xFE000000 :: uint)"
abbreviation (input) "KERNLINK \<equiv> (0x80100000 :: uint)"

definition PDX :: "uint \<Rightarrow> uint" where
  "PDX va = drop_bit 22 va AND 0x3FF"

definition PTX :: "uint \<Rightarrow> uint" where
  "PTX va = drop_bit 12 va AND 0x3FF"

definition PGADDR :: "uint \<Rightarrow> uint \<Rightarrow> uint \<Rightarrow> uint" where
  "PGADDR d t ofs = push_bit 22 d OR push_bit 12 t OR ofs"

definition PTE_ADDR :: "uint \<Rightarrow> uint" where
  "PTE_ADDR pte = pte AND NOT 0xFFF"

definition PTE_FLAGS :: "uint \<Rightarrow> uint" where
  "PTE_FLAGS pte = pte AND 0xFFF"

text \<open>The page addresses of a loop \<open>for(a = lo; a < hi; a += PGSIZE)\<close>, for \<open>hi\<close> at most \<open>2\<^sup>32 - PGSIZE\<close>.\<close>

definition page_addrs :: "uint \<Rightarrow> uint \<Rightarrow> uint list" where
  "page_addrs lo hi = map (\<lambda>k. lo + of_nat (PGSIZE * k)) [0..<(unat hi - unat lo + (PGSIZE - 1)) div PGSIZE]"

section \<open>Operations\<close>

record vm = kmem +
  kpgdir :: uint
  cr3 :: uint

definition walkpgdir :: "uint \<Rightarrow> uint \<Rightarrow> bool \<Rightarrow> 'a kmem_scheme \<Rightarrow> uint \<times> 'a kmem_scheme" where
  "walkpgdir pgdir va alloc s =
     (let pde = pgdir + 4 * PDX va;
          e = load32 (kmemory s) pde
      in if e AND PTE_P \<noteq> 0 then (P2V (PTE_ADDR e) + 4 * PTX va, s)
         else if \<not> alloc then (0, s)
         else
           let (pgtab, s) = kalloc s in
           if pgtab = 0 then (0, s)
           else
             let m = memset (kmemory s) pgtab 0 PGSZ;
                 m = store32 m pde (V2P pgtab OR PTE_P OR PTE_W OR PTE_U)
             in (pgtab + 4 * PTX va, s\<lparr>kmemory := m\<rparr>))"

text \<open>The loop of \<open>mappages\<close>; the first argument is the number of pages from \<open>a\<close> to \<open>last\<close>.\<close>

primrec mappages_loop :: "nat \<Rightarrow> uint \<Rightarrow> uint \<Rightarrow> uint \<Rightarrow> uint \<Rightarrow> 'a kmem_scheme \<Rightarrow> (int \<times> 'a kmem_scheme) res" where
  "mappages_loop 0 pgdir a pa perm s = Ret (0, s)"
| "mappages_loop (Suc n) pgdir a pa perm s =
     (let (pte, s) = walkpgdir pgdir a True s in
      if pte = 0 then Ret (- 1, s)
      else if load32 (kmemory s) pte AND PTE_P \<noteq> 0 then Panic ''remap''
      else
        mappages_loop n pgdir (a + PGSZ) (pa + PGSZ) perm
          (s\<lparr>kmemory := store32 (kmemory s) pte (pa OR perm OR PTE_P)\<rparr>))"

definition mappages :: "uint \<Rightarrow> uint \<Rightarrow> uint \<Rightarrow> uint \<Rightarrow> uint \<Rightarrow> 'a kmem_scheme \<Rightarrow> (int \<times> 'a kmem_scheme) res" where
  "mappages pgdir va n pa perm s =
     (let a = PGROUNDDOWN va;
          last = PGROUNDDOWN (va + n - 1)
      in mappages_loop (unat (last - a) div PGSIZE + 1) pgdir a pa perm s)"

text \<open>The loop of \<open>deallocuvm\<close> over the remaining page addresses; without a page table it goes on at the next directory entry.\<close>

function deallocuvm_loop :: "uint \<Rightarrow> uint \<Rightarrow> uint list \<Rightarrow> 'a kmem_scheme \<Rightarrow> 'a kmem_scheme res" where
  "deallocuvm_loop kend pgdir [] s = Ret s"
| "deallocuvm_loop kend pgdir (a # as) s =
     (let (pte, s) = walkpgdir pgdir a False s in
      if pte = 0 then deallocuvm_loop kend pgdir (dropWhile (\<lambda>b. b < PGADDR (PDX a + 1) 0 0) as) s
      else
        let e = load32 (kmemory s) pte in
        if e AND PTE_P \<noteq> 0 then
          if PTE_ADDR e = 0 then Panic ''kfree''
          else bindR (kfree kend (P2V (PTE_ADDR e)) s) (\<lambda>s.
            deallocuvm_loop kend pgdir as (s\<lparr>kmemory := store32 (kmemory s) pte 0\<rparr>))
        else deallocuvm_loop kend pgdir as s)"
  by pat_completeness auto
termination
  by (relation "measure (\<lambda>(kend, pgdir, as, s). length as)") (auto simp: le_imp_less_Suc length_dropWhile_le)

definition deallocuvm :: "uint \<Rightarrow> uint \<Rightarrow> uint \<Rightarrow> uint \<Rightarrow> 'a kmem_scheme \<Rightarrow> (uint \<times> 'a kmem_scheme) res" where
  "deallocuvm kend pgdir oldsz newsz s =
     (if newsz \<ge> oldsz then Ret (oldsz, s)
      else bindR (deallocuvm_loop kend pgdir (page_addrs (PGROUNDUP newsz) oldsz) s) (\<lambda>s. Ret (newsz, s)))"

definition freevm_entry :: "uint \<Rightarrow> uint \<Rightarrow> nat \<Rightarrow> 'a kmem_scheme \<Rightarrow> 'a kmem_scheme res" where
  "freevm_entry kend pgdir i s =
     (let e = load32 (kmemory s) (pgdir + of_nat (4 * i)) in
      if e AND PTE_P \<noteq> 0 then kfree kend (P2V (PTE_ADDR e)) s else Ret s)"

definition freevm :: "uint \<Rightarrow> uint \<Rightarrow> 'a kmem_scheme \<Rightarrow> 'a kmem_scheme res" where
  "freevm kend pgdir s =
     (if pgdir = 0 then Panic ''freevm: no pgdir''
      else
        bindR (deallocuvm kend pgdir KERNBASE 0 s) (\<lambda>(_, s).
          bindR (foldR (freevm_entry kend pgdir) [0..<1024] s) (kfree kend pgdir)))"

definition kmap :: "uint \<Rightarrow> (uint \<times> uint \<times> uint \<times> uint) list" where
  "kmap kdata =
     [(KERNBASE, 0, EXTMEM, PTE_W),
      (KERNLINK, V2P KERNLINK, V2P kdata, 0),
      (kdata, V2P kdata, PHYSTOP, PTE_W),
      (DEVSPACE, DEVSPACE, 0, PTE_W)]"

fun setupkvm_loop :: "uint \<Rightarrow> uint \<Rightarrow> (uint \<times> uint \<times> uint \<times> uint) list \<Rightarrow> 'a kmem_scheme \<Rightarrow> (uint \<times> 'a kmem_scheme) res" where
  "setupkvm_loop kend pgdir [] s = Ret (pgdir, s)"
| "setupkvm_loop kend pgdir ((virt, phys_start, phys_end, perm) # ks) s =
     bindR (mappages pgdir virt (phys_end - phys_start) phys_start perm s) (\<lambda>(r, s).
       if r < 0 then bindR (freevm kend pgdir s) (\<lambda>s. Ret (0, s))
       else setupkvm_loop kend pgdir ks s)"

definition setupkvm :: "uint \<Rightarrow> uint \<Rightarrow> 'a kmem_scheme \<Rightarrow> (uint \<times> 'a kmem_scheme) res" where
  "setupkvm kend kdata s =
     (let (pgdir, s) = kalloc s in
      if pgdir = 0 then Ret (0, s)
      else
        let s = s\<lparr>kmemory := memset (kmemory s) pgdir 0 PGSZ\<rparr> in
        if P2V PHYSTOP > DEVSPACE then Panic ''PHYSTOP too high''
        else setupkvm_loop kend pgdir (kmap kdata) s)"

definition switchkvm :: "'a vm_scheme \<Rightarrow> 'a vm_scheme" where
  "switchkvm s = s\<lparr>cr3 := V2P (kpgdir s)\<rparr>"

definition kvmalloc :: "uint \<Rightarrow> uint \<Rightarrow> 'a vm_scheme \<Rightarrow> 'a vm_scheme res" where
  "kvmalloc kend kdata s = bindR (setupkvm kend kdata s) (\<lambda>(p, s). Ret (switchkvm (s\<lparr>kpgdir := p\<rparr>)))"

text \<open>The result of \<open>kalloc\<close> is not checked: with no free page, \<open>memset\<close> runs at address 0.\<close>

definition inituvm :: "uint \<Rightarrow> uint \<Rightarrow> uint \<Rightarrow> 'a kmem_scheme \<Rightarrow> 'a kmem_scheme res" where
  "inituvm pgdir ini sz s =
     (if sz \<ge> PGSZ then Panic ''inituvm: more than a page''
      else
        let (mem, s) = kalloc s in
        if mem = 0 then Undef ''inituvm: null page''
        else
          bindR (mappages pgdir 0 PGSZ (V2P mem) (PTE_W OR PTE_U) (s\<lparr>kmemory := memset (kmemory s) mem 0 PGSZ\<rparr>)) (\<lambda>(_, s).
            Ret (s\<lparr>kmemory := memmove (kmemory s) mem ini sz\<rparr>)))"

fun allocuvm_loop :: "uint \<Rightarrow> uint \<Rightarrow> uint \<Rightarrow> uint \<Rightarrow> uint list \<Rightarrow> 'a kmem_scheme \<Rightarrow> (uint \<times> 'a kmem_scheme) res" where
  "allocuvm_loop kend pgdir oldsz newsz [] s = Ret (newsz, s)"
| "allocuvm_loop kend pgdir oldsz newsz (a # as) s =
     (let (mem, s) = kalloc s in
      if mem = 0 then bindR (deallocuvm kend pgdir newsz oldsz s) (\<lambda>(_, s). Ret (0, s))
      else
        bindR (mappages pgdir a PGSZ (V2P mem) (PTE_W OR PTE_U) (s\<lparr>kmemory := memset (kmemory s) mem 0 PGSZ\<rparr>)) (\<lambda>(r, s).
          if r < 0 then
            bindR (deallocuvm kend pgdir newsz oldsz s) (\<lambda>(_, s). bindR (kfree kend mem s) (\<lambda>s. Ret (0, s)))
          else allocuvm_loop kend pgdir oldsz newsz as s))"

definition allocuvm :: "uint \<Rightarrow> uint \<Rightarrow> uint \<Rightarrow> uint \<Rightarrow> 'a kmem_scheme \<Rightarrow> (uint \<times> 'a kmem_scheme) res" where
  "allocuvm kend pgdir oldsz newsz s =
     (if newsz \<ge> KERNBASE then Ret (0, s)
      else if newsz < oldsz then Ret (oldsz, s)
      else allocuvm_loop kend pgdir oldsz newsz (page_addrs (PGROUNDUP oldsz) newsz) s)"

definition clearpteu :: "uint \<Rightarrow> uint \<Rightarrow> 'a kmem_scheme \<Rightarrow> 'a kmem_scheme res" where
  "clearpteu pgdir uva s =
     (let (pte, s) = walkpgdir pgdir uva False s in
      if pte = 0 then Panic ''clearpteu''
      else Ret (s\<lparr>kmemory := store32 (kmemory s) pte (load32 (kmemory s) pte AND NOT PTE_U)\<rparr>))"

fun copyuvm_loop :: "uint \<Rightarrow> uint \<Rightarrow> uint \<Rightarrow> uint list \<Rightarrow> 'a kmem_scheme \<Rightarrow> (uint \<times> 'a kmem_scheme) res" where
  "copyuvm_loop kend pgdir d [] s = Ret (d, s)"
| "copyuvm_loop kend pgdir d (i # is) s =
     (let (pte, s) = walkpgdir pgdir i False s in
      if pte = 0 then Panic ''copyuvm: pte should exist''
      else
        let e = load32 (kmemory s) pte in
        if e AND PTE_P = 0 then Panic ''copyuvm: page not present''
        else
          let (mem, s) = kalloc s in
          if mem = 0 then bindR (freevm kend d s) (\<lambda>s. Ret (0, s))
          else
            bindR (mappages d i PGSZ (V2P mem) (PTE_FLAGS e) (s\<lparr>kmemory := memmove (kmemory s) mem (P2V (PTE_ADDR e)) PGSZ\<rparr>)) (\<lambda>(r, s).
              if r < 0 then bindR (kfree kend mem s) (\<lambda>s. bindR (freevm kend d s) (\<lambda>s. Ret (0, s)))
              else copyuvm_loop kend pgdir d is s))"

definition copyuvm :: "uint \<Rightarrow> uint \<Rightarrow> uint \<Rightarrow> uint \<Rightarrow> 'a kmem_scheme \<Rightarrow> (uint \<times> 'a kmem_scheme) res" where
  "copyuvm kend kdata pgdir sz s =
     bindR (setupkvm kend kdata s) (\<lambda>(d, s).
       if d = 0 then Ret (0, s) else copyuvm_loop kend pgdir d (page_addrs 0 sz) s)"

text \<open>The null pointer that \<open>walkpgdir\<close> returns for an address without a page table is not checked.\<close>

definition uva2ka :: "uint \<Rightarrow> uint \<Rightarrow> 'a kmem_scheme \<Rightarrow> uint res" where
  "uva2ka pgdir uva s =
     (let (pte, s) = walkpgdir pgdir uva False s in
      if pte = 0 then Undef ''uva2ka: null pte''
      else
        let e = load32 (kmemory s) pte in
        if e AND PTE_P = 0 then Ret 0
        else if e AND PTE_U = 0 then Ret 0
        else Ret (P2V (PTE_ADDR e)))"

lemma unat_minus_PGROUNDDOWN: "unat (va - PGROUNDDOWN va) = unat va mod 4096"
proof -
  have "PGROUNDDOWN va \<le> va" by (simp add: word_le_nat_alt unat_PGROUNDDOWN)
  then have "unat (va - PGROUNDDOWN va) = unat va - unat va div 4096 * 4096" by (simp add: unat_sub unat_PGROUNDDOWN)
  then show ?thesis by (simp add: minus_div_mult_eq_mod)
qed

function copyout :: "uint \<Rightarrow> uint \<Rightarrow> uint \<Rightarrow> uint \<Rightarrow> 'a kmem_scheme \<Rightarrow> (int \<times> 'a kmem_scheme) res" where
  "copyout pgdir va buf len s =
     (if len > 0 then
        let va0 = PGROUNDDOWN va in
        bindR (uva2ka pgdir va0 s) (\<lambda>pa0.
          if pa0 = 0 then Ret (- 1, s)
          else
            let n = PGSZ - (va - va0);
                n = (if n > len then len else n)
            in copyout pgdir (va0 + PGSZ) (buf + n) (len - n)
                 (s\<lparr>kmemory := memmove (kmemory s) (pa0 + (va - va0)) buf n\<rparr>))
      else Ret (0, s))"
  by pat_completeness auto
termination
proof (relation "measure (\<lambda>(pgdir, va, buf, len, s). unat len)", simp)
  fix pgdir va buf len va0 pa0 n n' :: uint and s :: "'a kmem_scheme"
  assume len: "len > 0" and v: "va0 = PGROUNDDOWN va" and n: "n = PGSZ - (va - va0)" "n' = (if n > len then len else n)"
  have "unat va mod 4096 < 4096" by simp
  then have "unat n = 4096 - unat va mod 4096"
    unfolding n v using unat_sub [of "va - PGROUNDDOWN va" PGSZ] by (simp add: word_le_nat_alt unat_minus_PGROUNDDOWN)
  then have "unat n > 0" by simp
  then have "n' > 0" "n' \<le> len" using len n(2) by (auto simp: word_less_nat_alt word_le_nat_alt)
  then have "unat (len - n') < unat len" by (simp add: unat_sub word_less_nat_alt word_le_nat_alt)
  then show "((pgdir, va0 + PGSZ, buf + n', len - n', s\<lparr>kmemory := memmove (kmemory s) (pa0 + (va - va0)) buf n'\<rparr>), pgdir, va, buf, len, s)
     \<in> measure (\<lambda>(pgdir, va, buf, len, s). unat len)" by simp
qed

declare copyout.simps [simp del]

section \<open>Words in pages\<close>

lemma page_word_distinct:
  assumes "page_ok kend p" "i < 1024" "j < 1024" "i \<noteq> j" "x < 4" "y < 4"
  shows "p + of_nat (4 * i) + of_nat x \<noteq> p + of_nat (4 * j) + of_nat y"
proof
  assume "p + of_nat (4 * i) + of_nat x = p + of_nat (4 * j) + of_nat y"
  then have "unat (p + of_nat (4 * i + x)) = unat (p + of_nat (4 * j + y))" by (simp add: add.assoc)
  then have "4 * i + x = 4 * j + y"
    using page_unat [OF assms(1), of "4 * i + x"] page_unat [OF assms(1), of "4 * j + y"] assms by simp
  then show False using assms by presburger
qed

lemma load32_store32_word:
  assumes "page_ok kend p" "i < 1024" "j < 1024"
  shows "load32 (store32 m (p + of_nat (4 * i)) w) (p + of_nat (4 * j)) = (if i = j then w else load32 m (p + of_nat (4 * j)))"
proof (cases "i = j")
  case False
  note d = page_word_distinct [OF assms False]
  have "store32 m (p + of_nat (4 * i)) w (p + of_nat (4 * j) + of_nat y) = m (p + of_nat (4 * j) + of_nat y)" if "y < 4" for y
    using d [of 0 y] d [of 1 y] d [of 2 y] d [of 3 y] that by (simp add: store32_def)
  from this [of 0] this [of 1] this [of 2] this [of 3] have
    "load32 (store32 m (p + of_nat (4 * i)) w) (p + of_nat (4 * j)) = load32 m (p + of_nat (4 * j))"
    by (intro load32_cong) simp_all
  then show ?thesis using False by simp
qed simp

lemma load32_store32_page:
  assumes "page_ok kend p" "page_ok kend q" "p \<noteq> q" "i < 1024" "j < 1024"
  shows "load32 (store32 m (p + of_nat (4 * i)) w) (q + of_nat (4 * j)) = load32 m (q + of_nat (4 * j))"
proof (rule load32_in_page [OF assms(2)])
  fix a
  assume "in_page q a"
  then have "\<not> in_page p a" using pages_disjoint [OF assms(2,1)] assms(3) by auto
  then show "store32 m (p + of_nat (4 * i)) w a = m a" using store32_outside [OF assms(1), of "4 * i" a m w] assms(4) by (simp del: of_nat_mult)
qed (use assms in simp)

lemma memset0_page:
  assumes "page_ok kend p"
  shows "in_page p a \<Longrightarrow> memset m p 0 PGSZ a = 0" "\<not> in_page p a \<Longrightarrow> memset m p 0 PGSZ a = m a"
proof -
  show "memset m p 0 PGSZ a = m a" if "\<not> in_page p a"
  proof -
    have "a \<noteq> p + of_nat i" if "i < 4096" for i using \<open>\<not> in_page p a\<close> in_page_iff [OF assms, of a] that by blast
    then show ?thesis by (simp add: memset_stosb stosb_outside)
  qed
  show "memset m p 0 PGSZ a = 0" if a: "in_page p a"
  proof -
    obtain i where "i < 4096" "a = p + of_nat i" using a in_page_iff [OF assms, of a] by blast
    then show ?thesis by (simp add: memset_stosb stosb_inside)
  qed
qed

lemma load32_zero_page:
  assumes "page_ok kend p" "\<And>a. in_page p a \<Longrightarrow> m a = 0" "j < 1024"
  shows "load32 m (p + of_nat (4 * j)) = 0"
proof -
  have "load32 m (p + of_nat (4 * j)) = load32 (\<lambda>_. 0) (p + of_nat (4 * j))"
    using assms by (intro load32_in_page [OF assms(1)]) auto
  then show ?thesis by (simp add: load32_def)
qed

lemma kmem_ok_frame:
  assumes "kmem_ok kend s ps" "\<And>p a. p \<in> set ps \<Longrightarrow> in_page p a \<Longrightarrow> m a = kmemory s a"
  shows "kmem_ok kend (s\<lparr>kmemory := m\<rparr>) ps"
proof -
  have "load32 m p = load32 (kmemory s) p" if "p \<in> set ps" for p
    using assms that by (intro load32_page0 [of kend p]) (auto simp: kmem_ok_def)
  then have "flist m (freelist s) ps = flist (kmemory s) (freelist s) ps" by (rule flist_cong)
  then show ?thesis using assms(1) by (simp add: kmem_ok_def)
qed

lemma kmem_inv_frame:
  assumes "kmem_inv kend s" "\<And>p a. p \<in> free_pages s \<Longrightarrow> in_page p a \<Longrightarrow> m a = kmemory s a"
  shows "kmem_inv kend (s\<lparr>kmemory := m\<rparr>)" "free_pages (s\<lparr>kmemory := m\<rparr>) = free_pages s"
proof -
  obtain ps where ps: "kmem_ok kend s ps" using assms(1) by (auto simp: kmem_inv_def)
  then have "kmem_ok kend (s\<lparr>kmemory := m\<rparr>) ps" using assms(2) free_pages_eq [OF ps] by (intro kmem_ok_frame) auto
  then show "kmem_inv kend (s\<lparr>kmemory := m\<rparr>)" "free_pages (s\<lparr>kmemory := m\<rparr>) = free_pages s"
    using free_pages_eq [OF ps] free_pages_eq [of kend "s\<lparr>kmemory := m\<rparr>" ps] by (auto simp: kmem_inv_def)
qed

lemma kalloc_cases:
  assumes "kmem_inv kend s"
  obtains (none) "free_pages s = {}" "kalloc s = (0, s)"
  | (page) p t where "kalloc s = (p, t)" "p \<in> free_pages s" "page_ok kend p" "kmem_inv kend t"
      "free_pages t = free_pages s - {p}" "kmemory t = kmemory s"
proof (cases "free_pages s = {}")
  case True
  then show thesis using none ka.alloc_empty [OF assms] by blast
next
  case False
  obtain p t where k: "kalloc s = (p, t)" by (cases "kalloc s")
  have "kmemory t = kmemory s" using k by (auto simp: kalloc_def Let_def split: if_splits)
  then show thesis using page [OF k] ka.alloc_page [OF assms False k] ka.avail_page [OF assms] by blast
qed

section \<open>Page tables\<close>

definition present :: "uint \<Rightarrow> bool" where
  "present e \<longleftrightarrow> e AND PTE_P \<noteq> 0"

definition pgtab :: "uint \<Rightarrow> uint" where
  "pgtab e = P2V (PTE_ADDR e)"

definition pdi :: "uint \<Rightarrow> nat" where
  "pdi va = unat va div 4194304"

definition pti :: "uint \<Rightarrow> nat" where
  "pti va = unat va div 4096 mod 1024"

definition pde :: "mem \<Rightarrow> uint \<Rightarrow> nat \<Rightarrow> uint" where
  "pde m pgdir i = load32 m (pgdir + of_nat (4 * i))"

text \<open>The page table entry of a virtual address, 0 where there is no page table: what the hardware finds.\<close>

definition lookup :: "mem \<Rightarrow> uint \<Rightarrow> uint \<Rightarrow> uint" where
  "lookup m pgdir va =
     (if present (pde m pgdir (pdi va)) then load32 m (pgtab (pde m pgdir (pdi va)) + of_nat (4 * pti va)) else 0)"

text \<open>A well-formed page table: its pages are distinct, in use and proper pages.\<close>

definition pt_ok :: "uint \<Rightarrow> uint \<Rightarrow> 'a kmem_scheme \<Rightarrow> bool" where
  "pt_ok kend pgdir s \<longleftrightarrow> kmem_inv kend s \<and> page_ok kend pgdir \<and> pgdir \<notin> free_pages s \<and>
     (\<forall>i < 1024. present (pde (kmemory s) pgdir i) \<longrightarrow>
        page_ok kend (pgtab (pde (kmemory s) pgdir i)) \<and> pgtab (pde (kmemory s) pgdir i) \<notin> free_pages s \<and>
        pgtab (pde (kmemory s) pgdir i) \<noteq> pgdir) \<and>
     (\<forall>i < 1024. \<forall>j < 1024. present (pde (kmemory s) pgdir i) \<longrightarrow> present (pde (kmemory s) pgdir j) \<longrightarrow>
        pgtab (pde (kmemory s) pgdir i) = pgtab (pde (kmemory s) pgdir j) \<longrightarrow> i = j)"

definition pt_pages :: "mem \<Rightarrow> uint \<Rightarrow> uint set" where
  "pt_pages m pgdir = insert pgdir {pgtab (pde m pgdir i) | i. i < 1024 \<and> present (pde m pgdir i)}"

lemma pt_okD:
  assumes "pt_ok kend pgdir s"
  shows "kmem_inv kend s" "page_ok kend pgdir" "pgdir \<notin> free_pages s"
    "\<And>i. i < 1024 \<Longrightarrow> present (pde (kmemory s) pgdir i) \<Longrightarrow> page_ok kend (pgtab (pde (kmemory s) pgdir i))"
    "\<And>i. i < 1024 \<Longrightarrow> present (pde (kmemory s) pgdir i) \<Longrightarrow> pgtab (pde (kmemory s) pgdir i) \<notin> free_pages s"
    "\<And>i. i < 1024 \<Longrightarrow> present (pde (kmemory s) pgdir i) \<Longrightarrow> pgtab (pde (kmemory s) pgdir i) \<noteq> pgdir"
    "\<And>i j. i < 1024 \<Longrightarrow> j < 1024 \<Longrightarrow> present (pde (kmemory s) pgdir i) \<Longrightarrow> present (pde (kmemory s) pgdir j) \<Longrightarrow>
        pgtab (pde (kmemory s) pgdir i) = pgtab (pde (kmemory s) pgdir j) \<Longrightarrow> i = j"
  using assms by (auto simp: pt_ok_def)

lemma and_low_bits: "(x :: uint) AND 0x3FF = of_nat (unat x mod 1024)"
proof -
  have "x AND 0x3FF = take_bit 10 x" by (simp add: take_bit_eq_mask mask_eq_exp_minus_1)
  then have "unat (x AND 0x3FF) = unat x mod 1024" by (simp add: take_bit_eq_mod unat_mod_distrib)
  moreover have "x AND 0x3FF = of_nat (unat (x AND 0x3FF))" by simp
  ultimately show ?thesis by metis
qed

lemma pdi_less: "pdi va < 1024"
  using unsigned_less [of va, where 'a = nat] by (simp add: pdi_def div_less_iff_less_mult)

lemma pti_less: "pti va < 1024"
  by (simp add: pti_def)

lemma vpn_eq: "pdi va = pdi vb \<and> pti va = pti vb \<longleftrightarrow> unat va div 4096 = unat vb div 4096"
proof -
  have e: "pdi v = unat v div 4096 div 1024" for v by (simp add: pdi_def flip: div_mult2_eq)
  show ?thesis unfolding e pti_def by (metis div_mult_mod_eq)
qed

lemma four_PDX: "4 * PDX va = of_nat (4 * pdi va)"
proof -
  have "unat (drop_bit 22 va) = pdi va" by (simp add: pdi_def drop_bit_eq_div unat_div_distrib)
  then show ?thesis using pdi_less [of va] by (simp add: PDX_def and_low_bits)
qed

lemma four_PTX: "4 * PTX va = of_nat (4 * pti va)"
proof -
  have "unat (drop_bit 12 va) = unat va div 4096" by (simp add: drop_bit_eq_div unat_div_distrib)
  then show ?thesis by (simp add: PTX_def and_low_bits pti_def)
qed

lemma walkpgdir_alt:
  "walkpgdir pgdir va alloc s =
     (let e = pde (kmemory s) pgdir (pdi va) in
      if present e then (pgtab e + of_nat (4 * pti va), s)
      else if \<not> alloc then (0, s)
      else
        let (p, s) = kalloc s in
        if p = 0 then (0, s)
        else (p + of_nat (4 * pti va),
              s\<lparr>kmemory := store32 (memset (kmemory s) p 0 PGSZ) (pgdir + of_nat (4 * pdi va)) (V2P p OR 7)\<rparr>))"
proof -
  have "V2P p OR PTE_P OR PTE_W OR PTE_U = V2P p OR 7" for p by (simp add: or.assoc)
  then show ?thesis by (simp add: walkpgdir_def pde_def present_def pgtab_def four_PDX four_PTX Let_def split: prod.split)
qed

lemma V2P_aligned:
  assumes "page_ok kend p"
  shows "V2P p AND - 4096 = V2P p" "P2V (V2P p) = p"
proof -
  have r: "2147483648 \<le> unat p" "unat p mod 4096 = 0" using page_ok_range [OF assms] by simp_all
  have "unat (V2P p) = unat p - 2147483648" using r(1) unat_sub [of KERNBASE p] by (simp add: V2P_def word_le_nat_alt)
  moreover have "(unat p - 2147483648) mod 4096 = 0" using r by (simp add: mod_eq_0_iff_dvd dvd_diff_nat)
  ultimately have m: "unat (V2P p) mod 4096 = 0" by simp
  have "unat (V2P p div 4096 * 4096) = unat (V2P p) div 4096 * 4096"
    using unsigned_less [of "V2P p", where 'a = nat] div_times_less_eq_dividend [of "unat (V2P p)" 4096]
    by (simp add: unat_word_ariths unat_div_distrib)
  also have "\<dots> = unat (V2P p)" using m by (metis add.right_neutral div_mult_mod_eq)
  finally show "V2P p AND - 4096 = V2P p" by (simp add: and_m4096 word_unat_eq_iff)
  show "P2V (V2P p) = p" by (simp add: P2V_def V2P_def)
qed

lemma pte_entry:
  assumes "page_ok kend p" "f AND - 4096 = 0"
  shows "pgtab (V2P p OR f) = p" "PTE_ADDR (V2P p OR f) = V2P p"
proof -
  have "(V2P p OR f) AND - 4096 = V2P p" using V2P_aligned(1) [OF assms(1)] assms(2) by (simp add: bit.conj_disj_distrib2)
  then show "PTE_ADDR (V2P p OR f) = V2P p" by (simp add: PTE_ADDR_def)
  then show "pgtab (V2P p OR f) = p" using V2P_aligned(2) [OF assms(1)] by (simp add: pgtab_def)
qed

lemma present_or: "present (x OR y) \<longleftrightarrow> present x \<or> present y"
  by (auto simp: present_def bit.conj_disj_distrib2 or_eq_0_iff)

lemma present_simps [simp]: "present 1" "present 7" "\<not> present 0"
  by (simp_all add: present_def)

text \<open>What an operation on a page table changes: only pages of the table, its new pages formerly free.\<close>

definition pt_frame :: "uint \<Rightarrow> uint \<Rightarrow> 'a kmem_scheme \<Rightarrow> 'a kmem_scheme \<Rightarrow> bool" where
  "pt_frame kend pgdir s t \<longleftrightarrow> pt_ok kend pgdir t \<and> free_pages t \<subseteq> free_pages s \<and>
     pt_pages (kmemory t) pgdir \<subseteq> pt_pages (kmemory s) pgdir \<union> (free_pages s - free_pages t) \<and>
     pt_pages (kmemory s) pgdir \<subseteq> pt_pages (kmemory t) pgdir \<and>
     (\<forall>a. (\<forall>p \<in> pt_pages (kmemory t) pgdir. \<not> in_page p a) \<longrightarrow> kmemory t a = kmemory s a)"

lemma pt_frame_refl: "pt_ok kend pgdir s \<Longrightarrow> pt_frame kend pgdir s s"
  by (simp add: pt_frame_def)

lemma pt_frameD:
  assumes "pt_frame kend pgdir s t"
  shows "pt_ok kend pgdir t" "free_pages t \<subseteq> free_pages s"
    "pt_pages (kmemory t) pgdir \<subseteq> pt_pages (kmemory s) pgdir \<union> (free_pages s - free_pages t)"
    "pt_pages (kmemory s) pgdir \<subseteq> pt_pages (kmemory t) pgdir"
    "\<And>a. (\<And>p. p \<in> pt_pages (kmemory t) pgdir \<Longrightarrow> \<not> in_page p a) \<Longrightarrow> kmemory t a = kmemory s a"
  using assms by (auto simp: pt_frame_def)

lemma pt_frame_trans:
  assumes "pt_frame kend pgdir s t" "pt_frame kend pgdir t u"
  shows "pt_frame kend pgdir s u"
proof -
  note a = pt_frameD [OF assms(1)] and b = pt_frameD [OF assms(2)]
  have "kmemory u x = kmemory s x" if "\<And>p. p \<in> pt_pages (kmemory u) pgdir \<Longrightarrow> \<not> in_page p x" for x
  proof -
    have "kmemory t x = kmemory s x" using that b(4) by (intro a(5)) blast
    then show ?thesis using b(5) that by simp
  qed
  moreover have "free_pages u \<subseteq> free_pages s" using a(2) b(2) by (rule order_trans [rotated])
  moreover have "pt_pages (kmemory s) pgdir \<subseteq> pt_pages (kmemory u) pgdir" using a(4) b(4) by (rule order_trans)
  moreover have "pt_pages (kmemory u) pgdir \<subseteq> pt_pages (kmemory s) pgdir \<union> (free_pages s - free_pages u)"
    using a(2,3) b(2,3) by blast
  ultimately show ?thesis using b(1) by (simp add: pt_frame_def)
qed

lemma pt_pages_cong:
  assumes "\<And>i. i < 1024 \<Longrightarrow> pde m pgdir i = pde m' pgdir i"
  shows "pt_pages m pgdir = pt_pages m' pgdir"
  unfolding pt_pages_def using assms by (intro arg_cong [where f = "insert pgdir"] Collect_cong) metis

lemma pde_cong:
  assumes "page_ok kend pgdir" "\<And>a. in_page pgdir a \<Longrightarrow> m a = m' a" "i < 1024"
  shows "pde m pgdir i = pde m' pgdir i"
  unfolding pde_def using assms by (intro load32_in_page [OF assms(1)]) auto

lemma store_pte:
  fixes v :: uint
  assumes ok: "pt_ok kend pgdir s" and pr: "present (pde (kmemory s) pgdir (pdi a))"
  defines "u \<equiv> s\<lparr>kmemory := store32 (kmemory s) (pgtab (pde (kmemory s) pgdir (pdi a)) + of_nat (4 * pti a)) v\<rparr>"
  shows "pt_frame kend pgdir s u" "lookup (kmemory u) pgdir va = (if unat va div 4096 = unat a div 4096 then v else lookup (kmemory s) pgdir va)"
    "free_pages u = free_pages s"
proof -
  note d = pt_okD [OF ok]
  let ?tab = "pgtab (pde (kmemory s) pgdir (pdi a))"
  have tab: "page_ok kend ?tab" "?tab \<notin> free_pages s" "?tab \<noteq> pgdir" using d(4-6) pdi_less pr by blast+
  have out: "kmemory u x = kmemory s x" if "\<not> in_page ?tab x" for x
    using store32_outside [OF tab(1), of "4 * pti a" x] that pti_less [of a] by (simp add: u_def del: of_nat_mult)
  have pd: "pde (kmemory u) pgdir i = pde (kmemory s) pgdir i" if "i < 1024" for i
    using that tab d(2) by (intro pde_cong [OF d(2)] out) (auto dest: pages_disjoint)
  have fr: "kmem_inv kend u" "free_pages u = free_pages s"
  proof -
    have "store32 (kmemory s) (?tab + of_nat (4 * pti a)) v x = kmemory s x" if "p \<in> free_pages s" "in_page p x" for p x
    proof -
      have "\<not> in_page ?tab x" using pages_disjoint [OF ka.avail_page [OF d(1) that(1)] tab(1) _ that(2)] tab(2) that(1) by auto
      then show ?thesis using out by (simp add: u_def)
    qed
    then show "kmem_inv kend u" "free_pages u = free_pages s" unfolding u_def using kmem_inv_frame [OF d(1)] by blast+
  qed
  then show "free_pages u = free_pages s" by simp
  have "pt_ok kend pgdir u" using ok fr pd by (simp add: pt_ok_def)
  moreover have pp: "pt_pages (kmemory u) pgdir = pt_pages (kmemory s) pgdir" by (rule pt_pages_cong) (rule pd)
  moreover have "kmemory u x = kmemory s x" if "\<forall>p \<in> pt_pages (kmemory u) pgdir. \<not> in_page p x" for x
    using out that pr pdi_less [of a] unfolding pp by (auto simp: pt_pages_def)
  ultimately show "pt_frame kend pgdir s u" using fr by (simp add: pt_frame_def)
  show "lookup (kmemory u) pgdir va = (if unat va div 4096 = unat a div 4096 then v else lookup (kmemory s) pgdir va)"
  proof (cases "present (pde (kmemory s) pgdir (pdi va))")
    case pv: True
    let ?tv = "pgtab (pde (kmemory s) pgdir (pdi va))"
    have tv: "page_ok kend ?tv" using d(4) pdi_less pv by blast
    show ?thesis
    proof (cases "pdi va = pdi a")
      case True
      have "lookup (kmemory u) pgdir va = (if pti a = pti va then v else lookup (kmemory s) pgdir va)"
        using load32_store32_word [OF tab(1) pti_less pti_less, of "kmemory s" a v va] pv pd [OF pdi_less] True
        by (simp add: lookup_def u_def del: of_nat_mult)
      then show ?thesis using True vpn_eq [of va a] by auto
    next
      case False
      then have "?tab \<noteq> ?tv" using d(7) [OF pdi_less pdi_less pr pv] by auto
      then have "lookup (kmemory u) pgdir va = lookup (kmemory s) pgdir va"
        using load32_store32_page [OF tab(1) tv _ pti_less pti_less, of "kmemory s" a v va] pv pd [OF pdi_less]
        by (simp add: lookup_def u_def del: of_nat_mult)
      then show ?thesis using False vpn_eq [of va a] by auto
    qed
  next
    case False
    then have "pdi va \<noteq> pdi a" using pr by auto
    then show ?thesis using False pd [OF pdi_less] vpn_eq [of va a] by (auto simp: lookup_def)
  qed
qed

lemma walk_new:
  assumes ok: "pt_ok kend pgdir s" and np: "\<not> present (pde (kmemory s) pgdir (pdi va))"
    and k: "p \<in> free_pages s" "page_ok kend p" "kmem_inv kend t" "free_pages t = free_pages s - {p}" "kmemory t = kmemory s"
  defines "u \<equiv> t\<lparr>kmemory := store32 (memset (kmemory t) p 0 PGSZ) (pgdir + of_nat (4 * pdi va)) (V2P p OR 7)\<rparr>"
  shows "pt_frame kend pgdir s u" "lookup (kmemory u) pgdir vb = lookup (kmemory s) pgdir vb"
    "present (pde (kmemory u) pgdir (pdi va))" "pgtab (pde (kmemory u) pgdir (pdi va)) = p" "free_pages u = free_pages s - {p}"
proof -
  note d = pt_okD [OF ok]
  have ne: "p \<noteq> pgdir" using k(1) d(3) by auto
  let ?m = "memset (kmemory s) p 0 PGSZ"
  have out: "kmemory u x = kmemory s x" if "\<not> in_page p x" "\<not> in_page pgdir x" for x
    using store32_outside [OF d(2), of "4 * pdi va" x ?m] that pdi_less [of va] memset0_page(2) [OF k(2)]
    by (simp add: u_def k(5) del: of_nat_mult)
  have zero: "kmemory u x = 0" if "in_page p x" for x
  proof -
    have "\<not> in_page pgdir x" using pages_disjoint [OF k(2) d(2) ne that] .
    then show ?thesis using store32_outside [OF d(2), of "4 * pdi va" x ?m] that pdi_less [of va] memset0_page(1) [OF k(2)]
      by (simp add: u_def k(5) del: of_nat_mult)
  qed
  have pd: "pde (kmemory u) pgdir i = (if i = pdi va then V2P p OR 7 else pde (kmemory s) pgdir i)" if i: "i < 1024" for i
  proof -
    have "pde ?m pgdir i = pde (kmemory s) pgdir i"
      using i ne by (intro pde_cong [OF d(2)] memset0_page(2) [OF k(2)]) (auto dest: pages_disjoint [OF d(2) k(2) ne [symmetric]])
    then show ?thesis using load32_store32_word [OF d(2) pdi_less i] by (auto simp: pde_def u_def k(5) simp del: of_nat_mult)
  qed
  have e: "present (V2P p OR 7)" "pgtab (V2P p OR 7) = p" using pte_entry(1) [OF k(2), of 7] by (simp_all add: present_or)
  show pu: "present (pde (kmemory u) pgdir (pdi va))" "pgtab (pde (kmemory u) pgdir (pdi va)) = p"
    using pd [OF pdi_less] e by simp_all
  have "kmemory u x = kmemory t x" if "q \<in> free_pages t" "in_page q x" for q x
  proof -
    have q: "page_ok kend q" "q \<noteq> p" "q \<noteq> pgdir" using that(1) k(4) d(1,3) ka.avail_page by auto
    show ?thesis using out pages_disjoint [OF q(1) k(2) q(2) that(2)] pages_disjoint [OF q(1) d(2) q(3) that(2)] k(5) by simp
  qed
  then have fr: "kmem_inv kend u" "free_pages u = free_pages t"
    using kmem_inv_frame [OF k(3), of "kmemory u"] by (auto simp: u_def)
  then show fu: "free_pages u = free_pages s - {p}" using k(4) by simp
  have old: "i \<noteq> pdi va \<and> pde (kmemory u) pgdir i = pde (kmemory s) pgdir i \<and> present (pde (kmemory s) pgdir i) \<or> i = pdi va"
    if "i < 1024" "present (pde (kmemory u) pgdir i)" for i using that pd by auto
  have "pt_ok kend pgdir u"
    unfolding pt_ok_def fu
  proof (intro conjI allI impI)
    fix i assume i: "i < 1024" "present (pde (kmemory u) pgdir i)"
    show "page_ok kend (pgtab (pde (kmemory u) pgdir i))" using old [OF i] i d(4) pu(2) k(2) by auto
    show "pgtab (pde (kmemory u) pgdir i) \<notin> free_pages s - {p}" using old [OF i] i d(5) pu(2) by auto
    show "pgtab (pde (kmemory u) pgdir i) \<noteq> pgdir" using old [OF i] i d(6) pu(2) ne by auto
    fix j assume j: "j < 1024" "present (pde (kmemory u) pgdir j)" "pgtab (pde (kmemory u) pgdir i) = pgtab (pde (kmemory u) pgdir j)"
    show "i = j" using old [OF i] old [OF j(1,2)] i j d(5,7) pu(2) k(1) by metis
  qed (use fr d in auto)
  moreover have "pt_pages (kmemory u) pgdir \<subseteq> pt_pages (kmemory s) pgdir \<union> (free_pages s - free_pages u)"
    using old pu(2) k(1) fu by (fastforce simp: pt_pages_def)
  moreover have "pt_pages (kmemory s) pgdir \<subseteq> pt_pages (kmemory u) pgdir"
  proof
    fix q assume "q \<in> pt_pages (kmemory s) pgdir"
    then consider "q = pgdir" | i where "i < 1024" "present (pde (kmemory s) pgdir i)" "q = pgtab (pde (kmemory s) pgdir i)"
      by (auto simp: pt_pages_def)
    then show "q \<in> pt_pages (kmemory u) pgdir"
    proof cases
      case 2
      then have "pde (kmemory u) pgdir i = pde (kmemory s) pgdir i" using pd np by auto
      then show ?thesis using 2 by (metis (mono_tags, lifting) insertCI mem_Collect_eq pt_pages_def)
    qed (simp add: pt_pages_def)
  qed
  moreover have "kmemory u x = kmemory s x" if "\<forall>q \<in> pt_pages (kmemory u) pgdir. \<not> in_page q x" for x
  proof (rule out)
    have "p \<in> pt_pages (kmemory u) pgdir" using pu pdi_less [of va] by (auto simp: pt_pages_def)
    then show "\<not> in_page p x" using that by blast
    show "\<not> in_page pgdir x" using that by (simp add: pt_pages_def)
  qed
  ultimately show "pt_frame kend pgdir s u" using fu by (auto simp: pt_frame_def)
  show "lookup (kmemory u) pgdir vb = lookup (kmemory s) pgdir vb"
  proof (cases "pdi vb = pdi va")
    case True
    have "load32 (kmemory u) (p + of_nat (4 * pti vb)) = 0" using zero pti_less by (intro load32_zero_page [OF k(2)])
    then show ?thesis using True pu np by (simp add: lookup_def)
  next
    case False
    then have pb: "pde (kmemory u) pgdir (pdi vb) = pde (kmemory s) pgdir (pdi vb)" using pd [OF pdi_less] by simp
    show ?thesis
    proof (cases "present (pde (kmemory s) pgdir (pdi vb))")
      case pr: True
      let ?q = "pgtab (pde (kmemory s) pgdir (pdi vb))"
      have q: "page_ok kend ?q" "?q \<noteq> pgdir" "?q \<noteq> p" using d(4-6) [OF pdi_less pr] k(1) by auto
      have "load32 (kmemory u) (?q + of_nat (4 * pti vb)) = load32 (kmemory s) (?q + of_nat (4 * pti vb))"
        using pti_less [of vb] by (intro load32_in_page [OF q(1)] out) (auto dest: pages_disjoint [OF q(1) k(2) q(3)] pages_disjoint [OF q(1) d(2) q(2)])
      then show ?thesis using pr pb by (simp add: lookup_def)
    qed (simp add: lookup_def pb)
  qed
qed

lemma walk_alloc:
  assumes ok: "pt_ok kend pgdir s" and w: "walkpgdir pgdir va True s = (pte, t)"
  shows "(pte = 0 \<and> t = s \<and> free_pages s = {} \<and> \<not> present (pde (kmemory s) pgdir (pdi va))) \<or>
    (pte \<noteq> 0 \<and> pte = pgtab (pde (kmemory t) pgdir (pdi va)) + of_nat (4 * pti va) \<and> present (pde (kmemory t) pgdir (pdi va)) \<and>
     pt_frame kend pgdir s t \<and> (\<forall>vb. lookup (kmemory t) pgdir vb = lookup (kmemory s) pgdir vb))"
proof -
  note d = pt_okD [OF ok]
  have nz: "p + of_nat (4 * pti va) \<noteq> 0" if "page_ok kend p" for p
  proof -
    have "unat (p + of_nat (4 * pti va)) = unat p + 4 * pti va" using pti_less [of va] by (intro page_unat [OF that]) simp
    then have "unat (p + of_nat (4 * pti va)) > 0" using page_ok_range(1) [OF that] by linarith
    then show ?thesis using unat_gt_0 by blast
  qed
  show ?thesis
  proof (cases "present (pde (kmemory s) pgdir (pdi va))")
    case True
    then have "t = s" "pte = pgtab (pde (kmemory s) pgdir (pdi va)) + of_nat (4 * pti va)" using w by (auto simp: walkpgdir_alt Let_def)
    moreover have "pte \<noteq> 0" using nz [OF d(4) [OF pdi_less True]] calculation(2) by (simp only:) simp
    ultimately show ?thesis using True pt_frame_refl [OF ok] by simp
  next
    case False
    show ?thesis
    proof (cases rule: kalloc_cases [OF d(1)])
      case 1
      then show ?thesis using False w by (simp add: walkpgdir_alt Let_def)
    next
      case (2 p u)
      have "p \<noteq> 0" using page_ok_range(4) [OF 2(3)] .
      then have "pte = p + of_nat (4 * pti va)"
        "t = u\<lparr>kmemory := store32 (memset (kmemory u) p 0 PGSZ) (pgdir + of_nat (4 * pdi va)) (V2P p OR 7)\<rparr>"
        using False w 2(1) by (simp_all add: walkpgdir_alt Let_def)
      then show ?thesis using walk_new [OF ok False 2(2-6)] nz [OF 2(3)] by metis
    qed
  qed
qed

section \<open>Mapping pages\<close>

text \<open>
  What \<open>mappages_loop\<close> does with \<open>n\<close> pages from the page of \<open>a\<close> on: the entry of a virtual address inside the
  range, and what is left for one outside.
\<close>

definition mapped :: "uint \<Rightarrow> nat \<Rightarrow> uint \<Rightarrow> bool" where
  "mapped a n va \<longleftrightarrow> unat a \<le> unat va \<and> unat va < unat a + 4096 * n"

definition map_entry :: "uint \<Rightarrow> uint \<Rightarrow> uint \<Rightarrow> uint \<Rightarrow> uint" where
  "map_entry a pa perm va = (pa + of_nat (4096 * ((unat va - unat a) div 4096))) OR perm OR PTE_P"

lemma same_page:
  assumes "unat a mod 4096 = 0"
  shows "unat va div 4096 = unat a div 4096 \<longleftrightarrow> unat a \<le> unat va \<and> unat va < unat a + 4096"
proof -
  obtain k where k: "unat a = 4096 * k" using assms by auto
  have "v div 4096 = k \<longleftrightarrow> 4096 * k \<le> v \<and> v < 4096 * k + 4096" for v :: nat
  proof
    assume "v div 4096 = k"
    then show "4096 * k \<le> v \<and> v < 4096 * k + 4096" using div_times_less_eq_dividend [of v 4096] dividend_less_div_times [of 4096 v] by auto
  next
    assume "4096 * k \<le> v \<and> v < 4096 * k + 4096"
    then show "v div 4096 = k" by (intro div_nat_eqI) auto
  qed
  then show ?thesis by (simp add: k)
qed

lemma mapped_Suc:
  assumes "unat (a + 4096) = unat a + 4096"
  shows "mapped a (Suc n) va \<longleftrightarrow> mapped a 1 va \<or> mapped (a + 4096) n va"
    "mapped (a + 4096) n va \<Longrightarrow> map_entry (a + 4096) (pa + 4096) perm va = map_entry a pa perm va"
    "mapped (a + 4096) n va \<Longrightarrow> \<not> mapped a 1 va"
proof -
  show "mapped a (Suc n) va \<longleftrightarrow> mapped a 1 va \<or> mapped (a + 4096) n va" using assms by (auto simp: mapped_def)
  assume m: "mapped (a + 4096) n va"
  then show "\<not> mapped a 1 va" using assms by (auto simp: mapped_def)
  have "unat va - unat a = (unat va - unat (a + 4096)) + 4096" using m assms by (auto simp: mapped_def)
  then have "(unat va - unat a) div 4096 = Suc ((unat va - unat (a + 4096)) div 4096)" by simp
  then show "map_entry (a + 4096) (pa + 4096) perm va = map_entry a pa perm va" by (simp add: map_entry_def algebra_simps)
qed

lemma mappages_loop_spec:
  assumes "pt_ok kend pgdir s" "unat a mod 4096 = 0" "unat a + 4096 * n \<le> 4294967296"
  shows "case mappages_loop n pgdir a pa perm s of
      Ret (r, t) \<Rightarrow> pt_frame kend pgdir s t \<and>
        (if r = 0 then \<forall>va. lookup (kmemory t) pgdir va = (if mapped a n va then map_entry a pa perm va else lookup (kmemory s) pgdir va)
         else r = - 1 \<and> free_pages t = {} \<and> (\<forall>va. \<not> mapped a n va \<longrightarrow> lookup (kmemory t) pgdir va = lookup (kmemory s) pgdir va))
    | Panic m \<Rightarrow> m = ''remap'' \<and> (\<exists>va. mapped a n va \<and> present (lookup (kmemory s) pgdir va))
    | _ \<Rightarrow> False"
  using assms
proof (induction n arbitrary: a pa s)
  case 0
  then show ?case by (auto simp: mapped_def pt_frame_refl)
next
  case (Suc n)
  obtain pte t where w: "walkpgdir pgdir a True s = (pte, t)" by (cases "walkpgdir pgdir a True s")
  show ?case
  proof (cases "pte = 0")
    case True
    then have "t = s" "free_pages s = {}" using walk_alloc [OF Suc.prems(1) w] by auto
    then show ?thesis using True w Suc.prems(1) by (simp add: pt_frame_refl)
  next
    case False
    then have pte: "pte = pgtab (pde (kmemory t) pgdir (pdi a)) + of_nat (4 * pti a)" "present (pde (kmemory t) pgdir (pdi a))"
      and t: "pt_frame kend pgdir s t" "\<And>vb. lookup (kmemory t) pgdir vb = lookup (kmemory s) pgdir vb"
      using walk_alloc [OF Suc.prems(1) w] by auto
    have la: "load32 (kmemory t) pte = lookup (kmemory s) pgdir a" using pte t(2) [of a] by (simp add: lookup_def del: of_nat_mult)
    show ?thesis
    proof (cases "present (lookup (kmemory s) pgdir a)")
      case True
      moreover have "mapped a (Suc n) a" by (simp add: mapped_def)
      ultimately show ?thesis using False w la by (auto simp: present_def)
    next
      case np: False
      define u where "u = t\<lparr>kmemory := store32 (kmemory t) pte (pa OR perm OR PTE_P)\<rparr>"
      note st = store_pte [OF pt_frameD(1) [OF t(1)] pte(2), folded pte(1), of "pa OR perm OR PTE_P", folded u_def]
      have su: "pt_frame kend pgdir s u" by (rule pt_frame_trans [OF t(1) st(1)])
      have lu: "lookup (kmemory u) pgdir va = (if mapped a 1 va then map_entry a pa perm va else lookup (kmemory s) pgdir va)" for va
      proof -
        have "(unat va - unat a) div 4096 = 0" if "mapped a 1 va" using that by (auto simp: mapped_def)
        then show ?thesis using st(2) [of va] same_page [OF Suc.prems(2), of va] t(2) by (auto simp: mapped_def map_entry_def)
      qed
      have e: "mappages_loop (Suc n) pgdir a pa perm s = mappages_loop n pgdir (a + 4096) (pa + 4096) perm u"
        using False np w la by (simp add: u_def present_def)
      show ?thesis
      proof (cases n)
        case 0
        then show ?thesis using e su lu by simp
      next
        case (Suc k)
        have up: "unat (a + 4096) = unat a + 4096" using Suc.prems(3) Suc by (simp add: unat_word_ariths)
        have "unat (a + 4096) mod 4096 = 0" "unat (a + 4096) + 4096 * n \<le> 4294967296" using Suc.prems(2,3) up by simp_all
        from Suc.IH [OF pt_frameD(1) [OF su] this, of "pa + 4096"] show ?thesis
          unfolding e mapped_Suc(1) [OF up]
          using lu pt_frame_trans [OF su] mapped_Suc(2,3) [OF up] by (auto split: res.splits if_splits)
      qed
    qed
  qed
qed

lemma walk_alloc_card:
  assumes "pt_ok kend pgdir s" "walkpgdir pgdir va True s = (pte, t)"
  shows "card (free_pages s) \<le> card (free_pages t) + 1"
proof (cases "present (pde (kmemory s) pgdir (pdi va))")
  case True
  then show ?thesis using assms(2) by (auto simp: walkpgdir_alt Let_def)
next
  case False
  note d = pt_okD [OF assms(1)]
  show ?thesis
  proof (cases rule: kalloc_cases [OF d(1)])
    case 1
    then show ?thesis using False assms(2) by (auto simp: walkpgdir_alt Let_def)
  next
    case (2 p u)
    have "p \<noteq> 0" using page_ok_range(4) [OF 2(3)] .
    then have "t = u\<lparr>kmemory := store32 (memset (kmemory u) p 0 PGSZ) (pgdir + of_nat (4 * pdi va)) (V2P p OR 7)\<rparr>"
      using False assms(2) 2(1) by (simp add: walkpgdir_alt Let_def)
    then have "free_pages t = free_pages s - {p}" using walk_new(5) [OF assms(1) False 2(2-6)] by metis
    then show ?thesis using 2(2) ka.finite_avail [OF d(1)] by (simp add: card_Diff_singleton)
  qed
qed

lemma page_numbers: "q * 4096 \<le> v \<and> v < (r + 1) * 4096 \<longleftrightarrow> q \<le> v div 4096 \<and> v div 4096 \<le> (r :: nat)"
  using less_eq_div_iff_mult_less_eq [of 4096 q v] div_less_iff_less_mult [of 4096 v "r + 1"] by auto

lemma mappages_count:
  assumes "unat va + unat n \<le> 4294967296" "0 < n"
  defines "a \<equiv> PGROUNDDOWN va" and "k \<equiv> unat (PGROUNDDOWN (va + n - 1) - PGROUNDDOWN va) div PGSIZE + 1"
  shows "mappages pgdir va n pa perm s = mappages_loop k pgdir a pa perm s" "unat a mod 4096 = 0" "unat a + 4096 * k \<le> 4294967296"
    "mapped a k v \<longleftrightarrow> unat va div 4096 \<le> unat v div 4096 \<and> unat v div 4096 \<le> (unat va + unat n - 1) div 4096"
    "unat a = unat va div 4096 * 4096" "k = (unat va + unat n - 1) div 4096 - unat va div 4096 + 1"
proof -
  show "mappages pgdir va n pa perm s = mappages_loop k pgdir a pa perm s" by (simp add: mappages_def a_def k_def Let_def)
  show a: "unat a = unat va div 4096 * 4096" by (simp add: a_def unat_PGROUNDDOWN)
  then show "unat a mod 4096 = 0" by simp
  have n: "0 < unat n" using assms(2) by (simp add: word_less_nat_alt)
  define l where "l = unat va + unat n - 1"
  have w: "unat (n - 1) = unat n - 1" using n by (simp add: unat_minus_one unat_gt_0 [symmetric])
  then have "unat (va + (n - 1)) = l" using assms(1) n by (subst unat_word_ariths(1)) (simp add: l_def)
  moreover have "va + n - 1 = va + (n - 1)" by simp
  ultimately have "unat (va + n - 1) = l" by (simp only:)
  then have last: "unat (PGROUNDDOWN (va + n - 1)) = l div 4096 * 4096" by (simp add: unat_PGROUNDDOWN)
  have le: "unat va div 4096 \<le> l div 4096" using n by (intro div_le_mono) (simp add: l_def)
  have "unat (PGROUNDDOWN (va + n - 1) - PGROUNDDOWN va) = l div 4096 * 4096 - unat va div 4096 * 4096"
    using last le by (simp add: unat_sub word_le_nat_alt unat_PGROUNDDOWN)
  then have k: "k = l div 4096 - unat va div 4096 + 1" by (simp add: k_def flip: diff_mult_distrib)
  then show "k = (unat va + unat n - 1) div 4096 - unat va div 4096 + 1" by (simp add: l_def)
  have "l < 4294967296" using assms(1) n by (simp add: l_def)
  then have "l div 4096 + 1 \<le> 1048576" by (simp add: less_mult_imp_div_less Suc_leI)
  moreover have "unat a + 4096 * k = 4096 * (l div 4096 + 1)" using a k le by (simp add: algebra_simps)
  ultimately show "unat a + 4096 * k \<le> 4294967296" using mult_le_mono2 [of "l div 4096 + 1" 1048576 4096] by simp
  have m: "unat a + 4096 * k = (l div 4096 + 1) * 4096" using a k le by (simp add: algebra_simps)
  show "mapped a k v \<longleftrightarrow> unat va div 4096 \<le> unat v div 4096 \<and> unat v div 4096 \<le> (unat va + unat n - 1) div 4096"
    unfolding mapped_def m unfolding a l_def [symmetric] by (rule page_numbers)
qed

text \<open>
  C35. Mapping memory: on a well-formed page table and a range that does not wrap around, \<open>mappages\<close> either returns
  0 and then the entry of every address in a page of the range is the physical page at the same
  distance with the given permissions and the present bit, and every other address has the entry it
  had; or it returns -1 because the last free page has been used up, with every entry outside the
  range as it was; or it panics because a page of the range was mapped already. The table stays
  well-formed, its new pages come from the free list, and no byte outside the pages of the table
  changes.
\<close>

theorem mappages_correct:
  assumes "pt_ok kend pgdir s" "0 < n" "unat va + unat n \<le> 4294967296"
  shows "case mappages pgdir va n pa perm s of
      Ret (r, t) \<Rightarrow> pt_frame kend pgdir s t \<and>
        (if r = 0 then \<forall>v. lookup (kmemory t) pgdir v =
           (if unat va div 4096 \<le> unat v div 4096 \<and> unat v div 4096 \<le> (unat va + unat n - 1) div 4096
            then map_entry (PGROUNDDOWN va) pa perm v else lookup (kmemory s) pgdir v)
         else r = - 1 \<and> free_pages t = {} \<and>
           (\<forall>v. \<not> (unat va div 4096 \<le> unat v div 4096 \<and> unat v div 4096 \<le> (unat va + unat n - 1) div 4096) \<longrightarrow>
              lookup (kmemory t) pgdir v = lookup (kmemory s) pgdir v))
    | Panic m \<Rightarrow> m = ''remap'' \<and>
        (\<exists>v. unat va div 4096 \<le> unat v div 4096 \<and> unat v div 4096 \<le> (unat va + unat n - 1) div 4096 \<and>
           present (lookup (kmemory s) pgdir v))
    | _ \<Rightarrow> False"
proof -
  note c = mappages_count [OF assms(3,2)]
  from mappages_loop_spec [OF assms(1) c(2,3), of pa perm] show ?thesis unfolding c(1,4) conj_assoc .
qed

lemma map_one:
  assumes ok: "pt_ok kend pgdir s" and a: "unat a mod 4096 = 0" "\<not> present (lookup (kmemory s) pgdir a)" and f: "free_pages s \<noteq> {}"
  shows "\<exists>t. mappages pgdir a PGSZ pa perm s = Ret (0, t) \<and> pt_frame kend pgdir s t \<and> card (free_pages s) \<le> card (free_pages t) + 1 \<and>
    (\<forall>v. lookup (kmemory t) pgdir v = (if mapped a 1 v then pa OR perm OR PTE_P else lookup (kmemory s) pgdir v))"
proof -
  have "unat a < 4294967296" using unsigned_less [of a, where 'a = nat] by simp
  then have le: "unat a + unat PGSZ \<le> 4294967296" using a(1) by (auto elim!: dvdE simp: mod_eq_0_iff_dvd)
  note c = mappages_count [OF le]
  obtain j where j: "unat a = 4096 * j" using a(1) by auto
  have "(4096 * j + 4095) div 4096 = j" by simp
  then have k: "(unat a + 4095) div 4096 - unat a div 4096 + 1 = 1" by (simp add: j)
  have ad: "PGROUNDDOWN a = a" by (simp add: word_unat_eq_iff unat_PGROUNDDOWN j)
  have "unat (PGROUNDDOWN (a + PGSZ - 1) - PGROUNDDOWN a) div PGSIZE + 1 = 1" using c(6) k by simp
  then have e: "mappages pgdir a PGSZ pa perm s = mappages_loop 1 pgdir a pa perm s" by (subst c(1)) (simp_all only: ad, simp)
  obtain pte t where w: "walkpgdir pgdir a True s = (pte, t)" by (cases "walkpgdir pgdir a True s")
  have pte: "pte \<noteq> 0" "pte = pgtab (pde (kmemory t) pgdir (pdi a)) + of_nat (4 * pti a)" "present (pde (kmemory t) pgdir (pdi a))"
    and t: "pt_frame kend pgdir s t" "\<And>vb. lookup (kmemory t) pgdir vb = lookup (kmemory s) pgdir vb"
    using walk_alloc [OF ok w] f by auto
  define u where "u = t\<lparr>kmemory := store32 (kmemory t) pte (pa OR perm OR PTE_P)\<rparr>"
  note st = store_pte [OF pt_frameD(1) [OF t(1)] pte(3), folded pte(2), of "pa OR perm OR PTE_P", folded u_def]
  have "load32 (kmemory t) pte = lookup (kmemory s) pgdir a" using pte t(2) [of a] by (simp add: lookup_def del: of_nat_mult)
  then have "mappages pgdir a PGSZ pa perm s = Ret (0, u)" using e w pte(1) a(2) by (simp add: u_def present_def)
  moreover have "card (free_pages s) \<le> card (free_pages u) + 1" using walk_alloc_card [OF ok w] st(3) by simp
  moreover have "lookup (kmemory u) pgdir v = (if mapped a 1 v then pa OR perm OR PTE_P else lookup (kmemory s) pgdir v)" for v
    using st(2) [of v] same_page [OF a(1), of v] t(2) by (auto simp: mapped_def)
  ultimately show ?thesis using pt_frame_trans [OF t(1) st(1)] by blast
qed

section \<open>Growing a process\<close>

text \<open>A page that is neither free nor part of the page table can be filled without disturbing either.\<close>

lemma fill_page:
  assumes ok: "pt_ok kend pgdir s" and q: "page_ok kend q" "q \<notin> pt_pages (kmemory s) pgdir" "q \<notin> free_pages s"
    and m: "\<And>a. \<not> in_page q a \<Longrightarrow> m a = kmemory s a"
  shows "pt_ok kend pgdir (s\<lparr>kmemory := m\<rparr>)" "free_pages (s\<lparr>kmemory := m\<rparr>) = free_pages s"
    "lookup m pgdir v = lookup (kmemory s) pgdir v" "pt_pages m pgdir = pt_pages (kmemory s) pgdir"
proof -
  note d = pt_okD [OF ok]
  have ne: "q \<noteq> pgdir" using q(2) by (auto simp: pt_pages_def)
  have pd: "pde m pgdir i = pde (kmemory s) pgdir i" if "i < 1024" for i
    using that by (intro pde_cong [OF d(2)] m) (auto dest: pages_disjoint [OF d(2) q(1) ne [symmetric]])
  show "pt_pages m pgdir = pt_pages (kmemory s) pgdir" by (rule pt_pages_cong) (rule pd)
  have "m a = kmemory s a" if "p \<in> free_pages s" "in_page p a" for p a
    using pages_disjoint [OF ka.avail_page [OF d(1) that(1)] q(1) _ that(2)] q(3) that(1) by (intro m) auto
  note f = kmem_inv_frame [OF d(1) this]
  show "free_pages (s\<lparr>kmemory := m\<rparr>) = free_pages s" by (rule f(2))
  show "pt_ok kend pgdir (s\<lparr>kmemory := m\<rparr>)" using ok f pd by (simp add: pt_ok_def)
  show "lookup m pgdir v = lookup (kmemory s) pgdir v"
  proof (cases "present (pde (kmemory s) pgdir (pdi v))")
    case True
    let ?t = "pgtab (pde (kmemory s) pgdir (pdi v))"
    have t: "page_ok kend ?t" "?t \<noteq> q" using d(4) [OF pdi_less True] q(2) True pdi_less [of v] by (auto simp: pt_pages_def)
    have "load32 m (?t + of_nat (4 * pti v)) = load32 (kmemory s) (?t + of_nat (4 * pti v))"
      using pti_less [of v] by (intro load32_in_page [OF t(1)] m) (auto dest: pages_disjoint [OF t(1) q(1) t(2)])
    then show ?thesis using True pd [OF pdi_less] by (simp add: lookup_def)
  qed (simp add: lookup_def pd [OF pdi_less])
qed

lemma pt_pages_not_free:
  assumes "pt_ok kend pgdir s" "p \<in> pt_pages (kmemory s) pgdir"
  shows "p \<notin> free_pages s" "page_ok kend p"
  using assms(2) pt_okD [OF assms(1)] by (auto simp: pt_pages_def)

text \<open>
  The frame of an operation that also fills pages: bytes change only in the pages of the table and in
  pages that were free before and are not free afterwards.
\<close>

definition vm_frame :: "uint \<Rightarrow> uint \<Rightarrow> 'a kmem_scheme \<Rightarrow> 'a kmem_scheme \<Rightarrow> bool" where
  "vm_frame kend pgdir s t \<longleftrightarrow> pt_ok kend pgdir t \<and> free_pages t \<subseteq> free_pages s \<and>
     pt_pages (kmemory t) pgdir \<subseteq> pt_pages (kmemory s) pgdir \<union> (free_pages s - free_pages t) \<and>
     (\<forall>a. (\<forall>p \<in> pt_pages (kmemory s) pgdir \<union> (free_pages s - free_pages t). \<not> in_page p a) \<longrightarrow> kmemory t a = kmemory s a)"

lemma vm_frameD:
  assumes "vm_frame kend pgdir s t"
  shows "pt_ok kend pgdir t" "free_pages t \<subseteq> free_pages s"
    "pt_pages (kmemory t) pgdir \<subseteq> pt_pages (kmemory s) pgdir \<union> (free_pages s - free_pages t)"
    "\<And>a. (\<And>p. p \<in> pt_pages (kmemory s) pgdir \<or> p \<in> free_pages s - free_pages t \<Longrightarrow> \<not> in_page p a) \<Longrightarrow> kmemory t a = kmemory s a"
  using assms by (auto simp: vm_frame_def)

lemma vm_frame_refl: "pt_ok kend pgdir s \<Longrightarrow> vm_frame kend pgdir s s"
  by (simp add: vm_frame_def)

lemma pt_vm_frame: "pt_frame kend pgdir s t \<Longrightarrow> vm_frame kend pgdir s t"
  using pt_frameD [of kend pgdir s t] unfolding vm_frame_def by blast

lemma vm_frame_trans:
  assumes "vm_frame kend pgdir s t" "vm_frame kend pgdir t u"
  shows "vm_frame kend pgdir s u"
proof -
  note a = vm_frameD [OF assms(1)] and b = vm_frameD [OF assms(2)]
  have "kmemory u x = kmemory s x" if "\<And>p. p \<in> pt_pages (kmemory s) pgdir \<or> p \<in> free_pages s - free_pages u \<Longrightarrow> \<not> in_page p x" for x
  proof -
    have "kmemory t x = kmemory s x" using that b(2) by (intro a(4)) blast
    moreover have "kmemory u x = kmemory t x" using that a(2,3) b(2) by (intro b(4)) blast
    ultimately show ?thesis by simp
  qed
  then show ?thesis using a(2,3) b(1,2,3) unfolding vm_frame_def by blast
qed

text \<open>The state after \<open>n\<close> pages from \<open>a\<close> on have been given fresh zeroed memory; \<open>fs\<close> are the pages.\<close>

definition fresh_pages :: "uint \<Rightarrow> uint \<Rightarrow> uint \<Rightarrow> uint list \<Rightarrow> 'a kmem_scheme \<Rightarrow> 'a kmem_scheme \<Rightarrow> bool" where
  "fresh_pages kend pgdir a fs s t \<longleftrightarrow> distinct fs \<and> set fs \<subseteq> free_pages s - free_pages t \<and>
     set fs \<inter> pt_pages (kmemory t) pgdir = {} \<and> (\<forall>f \<in> set fs. \<forall>x. in_page f x \<longrightarrow> kmemory t x = 0) \<and>
     (\<forall>v. lookup (kmemory t) pgdir v =
        (if mapped a (length fs) v then V2P (fs ! ((unat v - unat a) div 4096)) OR 7 else lookup (kmemory s) pgdir v))"

lemma alloc_one:
  assumes ok: "pt_ok kend pgdir s" and a: "unat a mod 4096 = 0" "\<not> present (lookup (kmemory s) pgdir a)" and c: "2 \<le> card (free_pages s)"
  shows "\<exists>f t. allocuvm_loop kend pgdir oldsz newsz (a # as) s = allocuvm_loop kend pgdir oldsz newsz as t \<and>
    vm_frame kend pgdir s t \<and> card (free_pages s) \<le> card (free_pages t) + 2 \<and> fresh_pages kend pgdir a [f] s t"
proof -
  note d = pt_okD [OF ok]
  have fin: "finite (free_pages s)" by (rule ka.finite_avail [OF d(1)])
  show ?thesis
  proof (cases rule: kalloc_cases [OF d(1)])
    case 1
    then show ?thesis using c by simp
  next
    case (2 f u)
    have f0: "f \<noteq> 0" by (rule page_ok_range(4) [OF 2(3)])
    have fp: "f \<notin> pt_pages (kmemory s) pgdir" using pt_pages_not_free [OF ok] 2(2) by blast
    have uok: "pt_ok kend pgdir u" using ok 2(4-6) by (auto simp: pt_ok_def)
    define w where "w = u\<lparr>kmemory := memset (kmemory u) f 0 PGSZ\<rparr>"
    have fu: "f \<notin> pt_pages (kmemory u) pgdir" "f \<notin> free_pages u" using fp 2(5,6) by simp_all
    note fl = fill_page [where m = "memset (kmemory u) f 0 PGSZ", OF uok 2(3) fu memset0_page(2) [OF 2(3)], folded w_def]
    have lw: "lookup (kmemory w) pgdir v = lookup (kmemory s) pgdir v" for v using fl(3) 2(6) by (simp add: w_def)
    have fw: "free_pages w = free_pages s - {f}" using fl(2) 2(5) by simp
    have pw: "pt_pages (kmemory w) pgdir = pt_pages (kmemory s) pgdir" using fl(4) 2(6) by (simp add: w_def)
    have cw: "card (free_pages s) = card (free_pages w) + 1" using card_Suc_Diff1 [OF fin 2(2)] fw by simp
    have "free_pages w \<noteq> {}" using cw c by auto
    from map_one [OF fl(1) a(1) _ this, of "V2P f" "PTE_W OR PTE_U"] a(2) lw obtain t where
      t: "mappages pgdir a PGSZ (V2P f) (PTE_W OR PTE_U) w = Ret (0, t)" "pt_frame kend pgdir w t"
      "card (free_pages w) \<le> card (free_pages t) + 1"
      "\<And>v. lookup (kmemory t) pgdir v = (if mapped a 1 v then V2P f OR 7 else lookup (kmemory s) pgdir v)"
      by (auto simp: or.assoc)
    note tf = pt_frameD [OF t(2)]
    have zero: "kmemory t x = 0" if "in_page f x" for x
    proof -
      have "kmemory t x = kmemory w x"
      proof (rule tf(5))
        fix p assume p: "p \<in> pt_pages (kmemory t) pgdir"
        then have "p \<noteq> f" "page_ok kend p" using tf(3) pw fp fw pt_pages_not_free [OF tf(1) p] by auto
        then show "\<not> in_page p x" using pages_disjoint [OF 2(3) _ _ that] by blast
      qed
      then show ?thesis using memset0_page(1) [OF 2(3) that] by (simp add: w_def)
    qed
    have "vm_frame kend pgdir s t"
      unfolding vm_frame_def
    proof (intro conjI allI impI)
      fix x assume x: "\<forall>p \<in> pt_pages (kmemory s) pgdir \<union> (free_pages s - free_pages t). \<not> in_page p x"
      have "kmemory t x = kmemory w x" using x tf(3) pw fw by (intro tf(5)) blast
      moreover have "\<not> in_page f x" using x 2(2) tf(2) fw by blast
      ultimately show "kmemory t x = kmemory s x" using memset0_page(2) [OF 2(3)] 2(6) by (simp add: w_def)
    qed (use tf fw pw in auto)
    moreover have "fresh_pages kend pgdir a [f] s t"
      using t(4) zero 2(2) tf(2,3) fw pw fp by (auto simp: fresh_pages_def mapped_def)
    moreover have "allocuvm_loop kend pgdir oldsz newsz (a # as) s = allocuvm_loop kend pgdir oldsz newsz as t"
      using 2(1) f0 t(1) by (simp add: w_def)
    moreover have "card (free_pages s) \<le> card (free_pages t) + 2" using cw t(3) by simp
    ultimately show ?thesis by blast
  qed
qed

lemma fresh_pages_Cons:
  assumes "pt_ok kend pgdir s" "fresh_pages kend pgdir a [f] s t" "vm_frame kend pgdir s t" "fresh_pages kend pgdir (a + 4096) fs t u" "vm_frame kend pgdir t u"
    and up: "unat (a + 4096) = unat a + 4096"
  shows "fresh_pages kend pgdir a (f # fs) s u"
proof -
  note x = vm_frameD [OF assms(3)] and y = vm_frameD [OF assms(5)]
  have f: "f \<in> free_pages s" "f \<notin> free_pages t" "f \<notin> pt_pages (kmemory t) pgdir" using assms(2) by (auto simp: fresh_pages_def)
  have fu: "f \<notin> free_pages u" "f \<notin> pt_pages (kmemory u) pgdir" using f y(2,3) by blast+
  have fk: "page_ok kend f" using ka.avail_page [OF pt_okD(1) [OF assms(1)] f(1)] .
  have "kmemory u z = 0" if "in_page f z" for z
  proof -
    have "kmemory u z = kmemory t z"
    proof (rule y(4))
      fix p assume p: "p \<in> pt_pages (kmemory t) pgdir \<or> p \<in> free_pages t - free_pages u"
      then have "page_ok kend p" using pt_pages_not_free(2) [OF x(1)] ka.avail_page [OF pt_okD(1) [OF x(1)]] by blast
      then show "\<not> in_page p z" using pages_disjoint [OF fk _ _ that] p f by blast
    qed
    then show ?thesis using assms(2) that by (simp add: fresh_pages_def)
  qed
  moreover have "lookup (kmemory u) pgdir v =
      (if mapped a (length (f # fs)) v then V2P ((f # fs) ! ((unat v - unat a) div 4096)) OR 7 else lookup (kmemory s) pgdir v)" for v
  proof (cases "mapped (a + 4096) (length fs) v")
    case True
    then have "unat v - unat a = (unat v - unat (a + 4096)) + 4096" using up by (auto simp: mapped_def)
    then have "(unat v - unat a) div 4096 = Suc ((unat v - unat (a + 4096)) div 4096)" by simp
    then show ?thesis using True assms(4) mapped_Suc(1) [OF up, of "length fs" v] by (simp add: fresh_pages_def)
  next
    case False
    then show ?thesis using assms(2,4) mapped_Suc(1) [OF up, of "length fs" v] by (auto simp: fresh_pages_def mapped_def)
  qed
  ultimately show ?thesis using assms(2,4) f fu x(2) y(2) by (auto simp: fresh_pages_def)
qed

lemma page_addrs_range: "page_addrs lo hi = page_range lo ((unat hi - unat lo + 4095) div 4096)"
  by (simp add: page_addrs_def page_range_def)

lemma alloc_many:
  assumes "pt_ok kend pgdir s" "unat a mod 4096 = 0" "unat a + 4096 * n < 4294967296"
    and "\<forall>v. mapped a n v \<longrightarrow> \<not> present (lookup (kmemory s) pgdir v)" "2 * n \<le> card (free_pages s)"
  shows "\<exists>fs t. allocuvm_loop kend pgdir oldsz newsz (page_range a n) s = Ret (newsz, t) \<and> length fs = n \<and>
    vm_frame kend pgdir s t \<and> fresh_pages kend pgdir a fs s t"
  using assms
proof (induction n arbitrary: a s)
  case 0
  then show ?case by (auto simp: page_range_def vm_frame_refl fresh_pages_def mapped_def)
next
  case (Suc n)
  have up: "unat (a + 4096) = unat a + 4096" using Suc.prems(3) by (simp add: unat_word_ariths)
  have "\<not> present (lookup (kmemory s) pgdir a)" using Suc.prems(4) by (simp add: mapped_def)
  with Suc.prems obtain f t where f: "vm_frame kend pgdir s t" "card (free_pages s) \<le> card (free_pages t) + 2" "fresh_pages kend pgdir a [f] s t"
    and e: "allocuvm_loop kend pgdir oldsz newsz (a # page_range (a + 4096) n) s = allocuvm_loop kend pgdir oldsz newsz (page_range (a + 4096) n) t"
    using alloc_one [of kend pgdir s a oldsz newsz "page_range (a + 4096) n"] by auto
  have "\<not> present (lookup (kmemory t) pgdir v)" if v: "mapped (a + 4096) n v" for v
  proof -
    have "lookup (kmemory t) pgdir v = lookup (kmemory s) pgdir v" using f(3) mapped_Suc(3) [OF up v] by (simp add: fresh_pages_def)
    then show ?thesis using Suc.prems(4) v mapped_Suc(1) [OF up, of n v] by simp
  qed
  then have "\<exists>fs u. allocuvm_loop kend pgdir oldsz newsz (page_range (a + 4096) n) t = Ret (newsz, u) \<and> length fs = n \<and>
      vm_frame kend pgdir t u \<and> fresh_pages kend pgdir (a + 4096) fs t u"
    using Suc.prems f(2) up by (intro Suc.IH vm_frameD(1) [OF f(1)]) auto
  then obtain fs u where u: "allocuvm_loop kend pgdir oldsz newsz (page_range (a + 4096) n) t = Ret (newsz, u)" "length fs = n"
    "vm_frame kend pgdir t u" "fresh_pages kend pgdir (a + 4096) fs t u" by blast
  then have "fresh_pages kend pgdir a (f # fs) s u" using fresh_pages_Cons [OF Suc.prems(1) f(3,1) u(4,3) up] by simp
  moreover have "vm_frame kend pgdir s u" using vm_frame_trans [OF f(1) u(3)] .
  ultimately show ?case using e u(1,2) by (metis length_Cons page_range_Suc)
qed

text \<open>
  C36. Growing a process: with two free pages for every new page and no mapping yet in the range, \<open>allocuvm\<close>
  returns the new size and gives every page between the two sizes a page of its own that was free
  before, is filled with zeros and may be written and used by the user program; these pages are
  distinct, none is still free or part of the page table, every other address has the entry it had,
  and no byte changes in a page that belongs to anybody else. A new size that reaches into the
  kernel gives 0, a smaller one the old size, and nothing changes.
\<close>

theorem allocuvm_correct:
  assumes "pt_ok kend pgdir s" "n = (unat newsz - unat (PGROUNDUP oldsz) + 4095) div 4096"
    and "oldsz \<le> newsz \<and> newsz < KERNBASE \<Longrightarrow> \<forall>v. mapped (PGROUNDUP oldsz) n v \<longrightarrow> \<not> present (lookup (kmemory s) pgdir v)"
    and "2 * n \<le> card (free_pages s)"
  shows "if newsz \<ge> KERNBASE then allocuvm kend pgdir oldsz newsz s = Ret (0, s)
    else if newsz < oldsz then allocuvm kend pgdir oldsz newsz s = Ret (oldsz, s)
    else \<exists>fs t. allocuvm kend pgdir oldsz newsz s = Ret (newsz, t) \<and> length fs = n \<and>
      vm_frame kend pgdir s t \<and> fresh_pages kend pgdir (PGROUNDUP oldsz) fs s t"
proof (cases "newsz \<ge> KERNBASE \<or> newsz < oldsz")
  case False
  let ?a = "PGROUNDUP oldsz"
  have l: "unat newsz < 2147483648" "unat oldsz \<le> unat newsz" using False by (simp_all add: word_le_nat_alt word_less_nat_alt)
  then have a: "unat ?a = (unat oldsz + 4095) div 4096 * 4096" by (intro unat_PGROUNDUP) simp
  then have m: "unat ?a mod 4096 = 0" by simp
  have "unat ?a \<le> unat oldsz + 4095" unfolding a by (rule div_times_less_eq_dividend)
  moreover have "4096 * n \<le> unat newsz - unat ?a + 4095" unfolding assms(2) by (rule times_div_less_eq_dividend)
  ultimately have "unat ?a + 4096 * n < 4294967296" using l by linarith
  moreover have "\<forall>v. mapped ?a n v \<longrightarrow> \<not> present (lookup (kmemory s) pgdir v)" using False by (intro assms(3)) auto
  ultimately have "\<exists>fs t. allocuvm_loop kend pgdir oldsz newsz (page_range ?a n) s = Ret (newsz, t) \<and> length fs = n \<and>
      vm_frame kend pgdir s t \<and> fresh_pages kend pgdir ?a fs s t" using alloc_many [OF assms(1) m] assms(4) by blast
  moreover have "allocuvm kend pgdir oldsz newsz s = allocuvm_loop kend pgdir oldsz newsz (page_range ?a n) s"
    using False by (auto simp: allocuvm_def page_addrs_range assms(2))
  ultimately show ?thesis using False by auto
qed (auto simp: allocuvm_def)

text \<open>A memory with two free pages and an empty page directory.\<close>

definition vm0 :: kmem where
  "vm0 = \<lparr>kmemory = store32 (\<lambda>_. 0) 0x80102000 0x80103000, use_lock = False, freelist = 0x80102000\<rparr>"

lemma vm0_free: "kmem_ok 0x80100000 vm0 [0x80102000, 0x80103000]"
  by (simp add: kmem_ok_def vm0_def load32_def store32_def page_ok_def V2P_def)

lemma vm0_ok: "pt_ok 0x80100000 0x80101000 vm0" "free_pages vm0 = {0x80102000, 0x80103000}" "lookup (kmemory vm0) 0x80101000 v = 0"
proof -
  have pg: "page_ok 0x80100000 0x80101000" "page_ok 0x80100000 0x80102000" by (simp_all add: page_ok_def V2P_def)
  have "pde (kmemory vm0) 0x80101000 i = 0" if "i < 1024" for i
  proof -
    have "load32 (store32 (\<lambda>_. 0) (0x80102000 + of_nat (4 * 0)) 0x80103000) (0x80101000 + of_nat (4 * i)) = load32 (\<lambda>_. 0) (0x80101000 + of_nat (4 * i))"
      using that by (intro load32_store32_page [OF pg(2,1)]) simp_all
    then show ?thesis by (simp add: pde_def vm0_def load32_def)
  qed
  note pd = this
  show f: "free_pages vm0 = {0x80102000, 0x80103000}" using free_pages_eq [OF vm0_free] by simp
  show "lookup (kmemory vm0) 0x80101000 v = 0" using pd [OF pdi_less] by (simp add: lookup_def)
  have "kmem_inv 0x80100000 vm0" using vm0_free by (auto simp: kmem_inv_def)
  then show "pt_ok 0x80100000 0x80101000 vm0" using f pg pd by (simp add: pt_ok_def)
qed

theorem mappages_correct_witness:
  "\<exists>t. mappages 0x80101000 0x3000 PGSZ 0x5000 6 vm0 = Ret (0, t) \<and> pt_frame 0x80100000 0x80101000 vm0 t \<and>
     lookup (kmemory t) 0x80101000 0x3004 = 0x5007 \<and> lookup (kmemory t) 0x80101000 0x4000 = 0"
proof -
  obtain t where t: "mappages 0x80101000 0x3000 PGSZ 0x5000 6 vm0 = Ret (0, t)"
    using map_one [OF vm0_ok(1), of "0x3000" "0x5000" 6] vm0_ok(2,3) by auto
  then show ?thesis using mappages_correct [OF vm0_ok(1), of PGSZ "0x3000" "0x5000" 6] vm0_ok(3)
    by (simp add: map_entry_def PGROUNDDOWN_def)
qed

theorem allocuvm_correct_witness:
  "\<exists>f t. allocuvm 0x80100000 0x80101000 0x1000 0x1800 vm0 = Ret (0x1800, t) \<and> f \<in> {0x80102000, 0x80103000} \<and>
     lookup (kmemory t) 0x80101000 0x1004 = V2P f OR 7 \<and> kmemory t (f + 8) = 0"
proof -
  have "\<exists>fs t. allocuvm 0x80100000 0x80101000 0x1000 0x1800 vm0 = Ret (0x1800, t) \<and> length fs = 1 \<and>
      vm_frame 0x80100000 0x80101000 vm0 t \<and> fresh_pages 0x80100000 0x80101000 0x1000 fs vm0 t"
    using allocuvm_correct [OF vm0_ok(1), of 1 "0x1800" "0x1000"] vm0_ok(2,3) by (simp add: PGROUNDUP_def)
  then obtain f t where t: "allocuvm 0x80100000 0x80101000 0x1000 0x1800 vm0 = Ret (0x1800, t)"
    "fresh_pages 0x80100000 0x80101000 0x1000 [f] vm0 t" by (auto simp: length_Suc_conv)
  then have f: "f \<in> {0x80102000, 0x80103000}" "\<forall>x. in_page f x \<longrightarrow> kmemory t x = 0" "lookup (kmemory t) 0x80101000 0x1004 = V2P f OR 7"
    using vm0_ok(2) by (auto simp: fresh_pages_def mapped_def)
  moreover have "in_page f (f + 8)" using f(1) by (auto simp: in_page_def)
  ultimately show ?thesis using t(1) by blast
qed

end
