(* ===== verification/Ptable.thy ===== *)
theory Ptable
  imports Locks
begin

text \<open>
  The process table and what runs under its lock (\<open>xv6/proc.c\<close>): choosing a process, giving up the processor,
  sleeping and waking up, killing, and the parts of \<open>allocproc\<close>, \<open>exit\<close> and \<open>wait\<close> between \<open>acquire\<close> and
  \<open>release\<close> of \<open>ptable.lock\<close>. Each is one atomic step of a machine with any number of processors. A pointer
  to a process is its index in \<open>ptable.proc\<close>.
\<close>

section \<open>State\<close>

datatype procstate = UNUSED | EMBRYO | SLEEPING | RUNNABLE | RUNNING | ZOMBIE

record proc =
  psz :: uint
  ppgdir :: uint
  pkstack :: uint
  pstate :: procstate
  ppid :: int
  pparent :: "nat option"
  ptf :: uint
  pcontext :: uint
  pchan :: "chan option"
  pkilled :: bool
  pofile :: "nat option list"
  pcwd :: "nat option"
  pname :: "byte list"

record ptab =
  procs :: "proc list"
  nextpid :: int
  initproc :: nat

text \<open>The fields of \<open>struct cpu\<close> that \<open>mycpu\<close> and \<open>myproc\<close> read.\<close>

record pcpu = cpu +
  apicid :: byte
  cproc :: "nat option"

definition mycpu :: "byte \<Rightarrow> bool \<Rightarrow> pcpu list \<Rightarrow> nat res" where
  "mycpu lapicid eflags_if cs =
     (if eflags_if then Panic ''mycpu called with interrupts enabled''
      else case find_index (\<lambda>c. apicid c = lapicid) cs of
        Some i \<Rightarrow> Ret i
      | None \<Rightarrow> Panic ''unknown apicid'')"

definition updproc :: "nat \<Rightarrow> proc \<Rightarrow> 'a ptab_scheme \<Rightarrow> 'a ptab_scheme" where
  "updproc i p s = s\<lparr>procs := (procs s)[i := p]\<rparr>"

section \<open>Operations under the lock\<close>

text \<open>The search of \<open>allocproc\<close>; the slot keeps its other fields, \<open>killed\<close> among them.\<close>

definition alloc_slot :: "'a ptab_scheme \<Rightarrow> (nat \<times> 'a ptab_scheme) option" where
  "alloc_slot s =
     (case find_index (\<lambda>p. pstate p = UNUSED) (procs s) of
        None \<Rightarrow> None
      | Some i \<Rightarrow>
          Some (i, updproc i ((procs s ! i)\<lparr>pstate := EMBRYO, ppid := nextpid s\<rparr>) (s\<lparr>nextpid := nextpid s + 1\<rparr>)))"

definition wakeup1 :: "chan option \<Rightarrow> proc list \<Rightarrow> proc list" where
  "wakeup1 ch ps = map (\<lambda>p. if pstate p = SLEEPING \<and> pchan p = ch then p\<lparr>pstate := RUNNABLE\<rparr> else p) ps"

definition wakeup :: "chan \<Rightarrow> 'a ptab_scheme \<Rightarrow> 'a ptab_scheme" where
  "wakeup ch s = s\<lparr>procs := wakeup1 (Some ch) (procs s)\<rparr>"

definition kill :: "int \<Rightarrow> 'a ptab_scheme \<Rightarrow> int \<times> 'a ptab_scheme" where
  "kill pid s =
     (case find_index (\<lambda>p. ppid p = pid) (procs s) of
        None \<Rightarrow> (- 1, s)
      | Some i \<Rightarrow>
          let p = (procs s ! i)\<lparr>pkilled := True\<rparr>;
              p = (if pstate p = SLEEPING then p\<lparr>pstate := RUNNABLE\<rparr> else p)
          in (0, updproc i p s))"

text \<open>The scheduler's choice: the first runnable process from slot \<open>k\<close> of its scan on, and the switch to it.\<close>

definition scheduler_next :: "nat \<Rightarrow> proc list \<Rightarrow> nat option" where
  "scheduler_next k ps = map_option (\<lambda>j. k + j) (find_index (\<lambda>p. pstate p = RUNNABLE) (drop k ps))"

text \<open>A process that comes back from \<open>sched\<close> in \<open>sleep\<close> still holds the lock when it clears \<open>chan\<close>.\<close>

definition run_proc :: "nat \<Rightarrow> 'a ptab_scheme \<Rightarrow> 'a ptab_scheme" where
  "run_proc i s = updproc i ((procs s ! i)\<lparr>pstate := RUNNING, pchan := None\<rparr>) s"

text \<open>The checks of \<open>sched\<close> on processor \<open>me\<close>, whose state is \<open>c\<close>, for the current process in state \<open>st\<close>.\<close>

definition sched :: "spinlock \<Rightarrow> nat \<Rightarrow> procstate \<Rightarrow> cpu \<Rightarrow> cpu res" where
  "sched lk me st c =
     bindR (holding lk me c) (\<lambda>(h, c).
       if \<not> h then Panic ''sched ptable.lock''
       else if ncli c \<noteq> 1 then Panic ''sched locks''
       else if st = RUNNING then Panic ''sched running''
       else if iflag c then Panic ''sched interruptible''
       else Ret c)"

definition yield :: "nat \<Rightarrow> 'a ptab_scheme \<Rightarrow> 'a ptab_scheme" where
  "yield me s = updproc me ((procs s ! me)\<lparr>pstate := RUNNABLE\<rparr>) s"

definition sleep_on :: "chan \<Rightarrow> nat \<Rightarrow> 'a ptab_scheme \<Rightarrow> 'a ptab_scheme" where
  "sleep_on ch me s = updproc me ((procs s ! me)\<lparr>pchan := Some ch, pstate := SLEEPING\<rparr>) s"

definition reparent :: "nat \<Rightarrow> nat \<Rightarrow> proc list \<Rightarrow> nat \<Rightarrow> proc list" where
  "reparent me ini ps i =
     (if pparent (ps ! i) = Some me then
        let ps = ps[i := (ps ! i)\<lparr>pparent := Some ini\<rparr>]
        in if pstate (ps ! i) = ZOMBIE then wakeup1 (Some (ChProc ini)) ps else ps
      else ps)"

text \<open>\<open>exit\<close> from \<open>acquire(&ptable.lock)\<close> on.\<close>

definition exit_table :: "nat \<Rightarrow> 'a ptab_scheme \<Rightarrow> 'a ptab_scheme" where
  "exit_table me s =
     (let ps = wakeup1 (map_option ChProc (pparent (procs s ! me))) (procs s);
          ps = foldl (reparent me (initproc s)) ps [0..<length ps]
      in s\<lparr>procs := ps[me := (ps ! me)\<lparr>pstate := ZOMBIE\<rparr>]\<rparr>)"

datatype wait_result = Reap nat | NoChild | Block

definition wait_scan :: "nat \<Rightarrow> proc list \<Rightarrow> wait_result" where
  "wait_scan me ps =
     (case find_index (\<lambda>p. pparent p = Some me \<and> pstate p = ZOMBIE) ps of
        Some i \<Rightarrow> Reap i
      | None \<Rightarrow>
          if \<not> list_ex (\<lambda>p. pparent p = Some me) ps \<or> pkilled (ps ! me) then NoChild else Block)"

definition reap :: "proc \<Rightarrow> proc" where
  "reap p = p\<lparr>pkstack := 0, ppid := 0, pparent := None, pname := (pname p)[0 := 0], pkilled := False, pstate := UNUSED\<rparr>"

section \<open>All processors\<close>

text \<open>
  \<open>running\<close> is \<open>c->proc\<close> of every processor, \<open>forking\<close> the child that a process has allocated in \<open>fork\<close> and not yet
  made runnable: between the two, the lock is free, and \<open>fork\<close> sets the child's parent (which it does once). A processor can be interrupted at any point
  where it does not hold the lock, so the steps of different processes interleave freely.
\<close>

record pmach = ptab +
  running :: "nat \<Rightarrow> nat option"
  forking :: "nat \<Rightarrow> nat option"

abbreviation stop :: "nat \<Rightarrow> pmach \<Rightarrow> pmach" where
  "stop c s \<equiv> s\<lparr>running := (running s)(c := None)\<rparr>"

inductive pstep :: "pmach \<Rightarrow> pmach \<Rightarrow> bool" where
  pick: "running s c = None \<Longrightarrow> i < length (procs s) \<Longrightarrow> pstate (procs s ! i) = RUNNABLE \<Longrightarrow>
    pstep s ((run_proc i s)\<lparr>running := (running s)(c := Some i)\<rparr>)"
| preempt: "running s c = Some me \<Longrightarrow> pstep s (stop c (yield me s))"
| sleeping: "running s c = Some me \<Longrightarrow> (\<And>q. ch \<noteq> ChProc q) \<Longrightarrow> pstep s (stop c (sleep_on ch me s))"
| waking: "(\<And>q. ch \<noteq> ChProc q) \<Longrightarrow> pstep s (wakeup ch s)"
| killing: "kill pid s = (r, t) \<Longrightarrow> pstep s t"
| fork_alloc: "running s c = Some me \<Longrightarrow> forking s me = None \<Longrightarrow> alloc_slot s = Some (i, t) \<Longrightarrow>
    pstep s (t\<lparr>forking := (forking s)(me := Some i)\<rparr>)"
| fork_fail: "running s c = Some me \<Longrightarrow> forking s me = Some i \<Longrightarrow> pparent (procs s ! i) = None \<Longrightarrow>
    pstep s ((updproc i ((procs s ! i)\<lparr>pstate := UNUSED\<rparr>) s)\<lparr>forking := (forking s)(me := None)\<rparr>)"
| fork_parent: "running s c = Some me \<Longrightarrow> forking s me = Some i \<Longrightarrow> pparent (procs s ! i) = None \<Longrightarrow>
    pstep s (updproc i ((procs s ! i)\<lparr>pparent := Some me\<rparr>) s)"
| fork_done: "running s c = Some me \<Longrightarrow> forking s me = Some i \<Longrightarrow> pparent (procs s ! i) = Some me \<Longrightarrow>
    pstep s ((updproc i ((procs s ! i)\<lparr>pstate := RUNNABLE\<rparr>) s)\<lparr>forking := (forking s)(me := None)\<rparr>)"
| exiting: "running s c = Some me \<Longrightarrow> forking s me = None \<Longrightarrow> me \<noteq> initproc s \<Longrightarrow> pstep s (stop c (exit_table me s))"
| reaping: "running s c = Some me \<Longrightarrow> wait_scan me (procs s) = Reap i \<Longrightarrow> pstep s (updproc i (reap (procs s ! i)) s)"
| blocking: "running s c = Some me \<Longrightarrow> wait_scan me (procs s) = Block \<Longrightarrow> pstep s (stop c (sleep_on (ChProc me) me s))"

text \<open>The machine starts after \<open>userinit\<close>: the first process is runnable, every other slot is unused.\<close>

definition pstart :: "pmach \<Rightarrow> bool" where
  "pstart s \<longleftrightarrow> initproc s < length (procs s) \<and> pstate (procs s ! initproc s) = RUNNABLE \<and> ppid (procs s ! initproc s) = 1 \<and>
     (\<forall>i < length (procs s). pparent (procs s ! i) = None \<and> (i \<noteq> initproc s \<longrightarrow> pstate (procs s ! i) = UNUSED)) \<and>
     nextpid s = 2 \<and> running s = (\<lambda>_. None) \<and> forking s = (\<lambda>_. None)"

section \<open>Invariant\<close>

definition live :: "procstate \<Rightarrow> bool" where
  "live st \<longleftrightarrow> st = SLEEPING \<or> st = RUNNABLE \<or> st = RUNNING"

definition fresh :: "procstate \<Rightarrow> bool" where
  "fresh st \<longleftrightarrow> st = UNUSED \<or> st = EMBRYO"

definition on_cpus :: "pmach \<Rightarrow> bool" where
  "on_cpus s \<longleftrightarrow>
     (\<forall>c i. running s c = Some i \<longrightarrow> i < length (procs s) \<and> pstate (procs s ! i) = RUNNING) \<and>
     (\<forall>c d i. running s c = Some i \<longrightarrow> running s d = Some i \<longrightarrow> c = d) \<and>
     (\<forall>i < length (procs s). pstate (procs s ! i) = RUNNING \<longrightarrow> (\<exists>c. running s c = Some i))"

definition pids_ok :: "pmach \<Rightarrow> bool" where
  "pids_ok s \<longleftrightarrow> 0 < nextpid s \<and>
     (\<forall>i < length (procs s). pstate (procs s ! i) \<noteq> UNUSED \<longrightarrow> 0 < ppid (procs s ! i) \<and> ppid (procs s ! i) < nextpid s) \<and>
     (\<forall>i < length (procs s). \<forall>j < length (procs s). pstate (procs s ! i) \<noteq> UNUSED \<longrightarrow> pstate (procs s ! j) \<noteq> UNUSED \<longrightarrow>
        ppid (procs s ! i) = ppid (procs s ! j) \<longrightarrow> i = j)"

definition forks_ok :: "pmach \<Rightarrow> bool" where
  "forks_ok s \<longleftrightarrow>
     (\<forall>p i. forking s p = Some i \<longrightarrow> i < length (procs s) \<and> pstate (procs s ! i) = EMBRYO \<and>
        p < length (procs s) \<and> live (pstate (procs s ! p))) \<and>
     (\<forall>p q i. forking s p = Some i \<longrightarrow> forking s q = Some i \<longrightarrow> p = q)"

definition parent_ok :: "'a ptab_scheme \<Rightarrow> nat \<Rightarrow> bool" where
  "parent_ok s i \<longleftrightarrow>
     pparent (procs s ! i) = None \<and> (fresh (pstate (procs s ! i)) \<or> i = initproc s) \<or>
     (\<exists>q < length (procs s). q \<noteq> i \<and> pparent (procs s ! i) = Some q \<and> live (pstate (procs s ! q))) \<and>
       pstate (procs s ! i) \<noteq> UNUSED \<and> i \<noteq> initproc s"

definition family_ok :: "pmach \<Rightarrow> bool" where
  "family_ok s \<longleftrightarrow> initproc s < length (procs s) \<and> live (pstate (procs s ! initproc s)) \<and> (\<forall>i < length (procs s). parent_ok s i)"

text \<open>A process asleep in \<open>wait\<close> is not killed, has a child, and none of its children is a zombie.\<close>

definition waits_ok :: "pmach \<Rightarrow> bool" where
  "waits_ok s \<longleftrightarrow>
     (\<forall>q < length (procs s). \<forall>r. pstate (procs s ! q) = SLEEPING \<longrightarrow> pchan (procs s ! q) = Some (ChProc r) \<longrightarrow>
        r = q \<and> \<not> pkilled (procs s ! q) \<and> (\<exists>i < length (procs s). pparent (procs s ! i) = Some q) \<and>
        (\<forall>i < length (procs s). pparent (procs s ! i) = Some q \<longrightarrow> pstate (procs s ! i) \<noteq> ZOMBIE))"

definition pinv :: "pmach \<Rightarrow> bool" where
  "pinv s \<longleftrightarrow> on_cpus s \<and> pids_ok s \<and> forks_ok s \<and> family_ok s \<and> waits_ok s"

section \<open>Preservation\<close>

lemma updproc_simps [simp]:
  "procs (updproc i p s) = (procs s)[i := p]" "nextpid (updproc i p s) = nextpid s" "initproc (updproc i p s) = initproc s"
  by (simp_all add: updproc_def)

lemma updproc_mach [simp]: "running (updproc i p s) = running s" "forking (updproc i p s) = forking s"
  by (simp_all add: updproc_def)

text \<open>What \<open>wakeup1\<close> and the loop of \<open>exit\<close> do to one entry of the table.\<close>

definition awaken :: "bool \<Rightarrow> chan option \<Rightarrow> proc \<Rightarrow> proc" where
  "awaken b ch p = (if b \<and> pstate p = SLEEPING \<and> pchan p = ch then p\<lparr>pstate := RUNNABLE\<rparr> else p)"

definition adopt :: "bool \<Rightarrow> nat \<Rightarrow> proc \<Rightarrow> proc" where
  "adopt b ini p = (if b then p\<lparr>pparent := Some ini\<rparr> else p)"

lemma awaken_fields [simp]:
  "pparent (awaken b ch p) = pparent p" "pchan (awaken b ch p) = pchan p" "pkilled (awaken b ch p) = pkilled p" "ppid (awaken b ch p) = ppid p"
  "pstate (awaken b ch p) = (if b \<and> pstate p = SLEEPING \<and> pchan p = ch then RUNNABLE else pstate p)"
  "awaken True ch (awaken b ch p) = awaken True ch p" "awaken False ch p = p"
  by (auto simp: awaken_def)

lemma adopt_fields [simp]:
  "pparent (adopt b ini p) = (if b then Some ini else pparent p)" "pchan (adopt b ini p) = pchan p" "pkilled (adopt b ini p) = pkilled p"
  "ppid (adopt b ini p) = ppid p" "pstate (adopt b ini p) = pstate p" "adopt False ini p = p"
  by (auto simp: adopt_def)

lemma wakeup1_nth [simp]:
  "length (wakeup1 ch ps) = length ps" "j < length ps \<Longrightarrow> wakeup1 ch ps ! j = awaken True ch (ps ! j)"
  by (simp_all add: wakeup1_def awaken_def)

lemma reparent_alt:
  "reparent me ini ps i =
     (if pparent (ps ! i) = Some me then
        let ps = ps[i := adopt True ini (ps ! i)] in if pstate (ps ! i) = ZOMBIE then wakeup1 (Some (ChProc ini)) ps else ps
      else ps)"
  by (simp add: reparent_def adopt_def)

lemma reparent_length [simp]: "length (foldl (reparent me ini) ps is) = length ps"
  by (induction "is" arbitrary: ps) (simp_all add: reparent_def Let_def)

text \<open>The loop over the table in closed form.\<close>

lemma reparent_fold:
  assumes "n \<le> length ps" "j < length ps"
  shows "foldl (reparent me ini) ps [0..<n] ! j =
    awaken (\<exists>i < n. pparent (ps ! i) = Some me \<and> pstate (ps ! i) = ZOMBIE) (Some (ChProc ini))
      (adopt (j < n \<and> pparent (ps ! j) = Some me) ini (ps ! j))"
  using assms
proof (induction n arbitrary: j)
  case 0
  then show ?case by simp
next
  case (Suc n)
  let ?q = "foldl (reparent me ini) ps [0..<n]"
  define Z where "Z = (\<exists>i < n. pparent (ps ! i) = Some me \<and> pstate (ps ! i) = ZOMBIE)"
  have n: "n < length ps" using Suc.prems(1) by simp
  have q: "?q ! k = awaken Z (Some (ChProc ini)) (adopt (k < n \<and> pparent (ps ! k) = Some me) ini (ps ! k))" if "k < length ps" for k
    using Suc.IH [OF _ that] n by (simp add: Z_def)
  have lt: "(\<exists>i < Suc n. P i) \<longleftrightarrow> (\<exists>i < n. P i) \<or> P n" for P by (auto simp: less_Suc_eq)
  have e: "foldl (reparent me ini) ps [0..<Suc n] = reparent me ini ?q n" by simp
  show ?case
  proof (cases "pparent (ps ! n) = Some me")
    case False
    then have "reparent me ini ?q n = ?q" using q [OF n] by (simp add: reparent_def)
    moreover have "j < Suc n \<and> pparent (ps ! j) = Some me \<longleftrightarrow> j < n \<and> pparent (ps ! j) = Some me" using False by (auto simp: less_Suc_eq)
    ultimately show ?thesis unfolding e lt Z_def [symmetric] using q [OF Suc.prems(2)] False by simp
  next
    case True
    let ?r = "?q[n := adopt True ini (?q ! n)]"
    have r: "reparent me ini ?q n = (if pstate (ps ! n) = ZOMBIE then wakeup1 (Some (ChProc ini)) ?r else ?r)"
      using True q [OF n] n by (simp add: reparent_alt Let_def)
    have rj: "?r ! j = awaken Z (Some (ChProc ini)) (adopt (j < Suc n \<and> pparent (ps ! j) = Some me) ini (ps ! j))"
    proof (cases "j = n")
      case eq: True
      have "adopt True ini (awaken Z ch p) = awaken Z ch (adopt True ini p)" for ch p by (simp add: adopt_def awaken_def)
      then show ?thesis using q [OF n] n True eq by simp
    next
      case False
      then have "j < Suc n \<longleftrightarrow> j < n" by auto
      then show ?thesis using q [OF Suc.prems(2)] False by simp
    qed
    show ?thesis
    proof (cases "pstate (ps ! n) = ZOMBIE")
      case z: True
      have "reparent me ini ?q n ! j = awaken True (Some (ChProc ini)) (?r ! j)" using r z Suc.prems(2) by simp
      then show ?thesis unfolding e lt rj using z True by simp
    next
      case z: False
      then show ?thesis unfolding e lt Z_def [symmetric] using r rj by simp
    qed
  qed
qed

lemma exit_table_simps [simp]:
  "nextpid (exit_table me s) = nextpid s" "initproc (exit_table me s) = initproc s" "length (procs (exit_table me s)) = length (procs s)"
  by (simp_all add: exit_table_def Let_def)

lemma exit_mach [simp]: "running (exit_table me s) = running s" "forking (exit_table me s) = forking s"
  by (simp_all add: exit_table_def Let_def)

lemma exit_fields:
  assumes "j < length (procs s)" "me < length (procs s)"
  shows "pparent (procs (exit_table me s) ! j) = (if pparent (procs s ! j) = Some me then Some (initproc s) else pparent (procs s ! j))"
    "pchan (procs (exit_table me s) ! j) = pchan (procs s ! j)" "pkilled (procs (exit_table me s) ! j) = pkilled (procs s ! j)"
    "ppid (procs (exit_table me s) ! j) = ppid (procs s ! j)"
    "pstate (procs (exit_table me s) ! j) =
      (if j = me then ZOMBIE
       else if pstate (procs s ! j) = SLEEPING \<and>
          (pchan (procs s ! j) = map_option ChProc (pparent (procs s ! me)) \<or>
           pchan (procs s ! j) = Some (ChProc (initproc s)) \<and> (\<exists>i < length (procs s). pparent (procs s ! i) = Some me \<and> pstate (procs s ! i) = ZOMBIE))
       then RUNNABLE else pstate (procs s ! j))"
proof -
  let ?w = "wakeup1 (map_option ChProc (pparent (procs s ! me))) (procs s)"
  define Z where "Z = (\<exists>i < length (procs s). pparent (procs s ! i) = Some me \<and> pstate (procs s ! i) = ZOMBIE)"
  have "(pparent (?w ! i) = Some me \<and> pstate (?w ! i) = ZOMBIE) = (pparent (procs s ! i) = Some me \<and> pstate (procs s ! i) = ZOMBIE)"
    if "i < length (procs s)" for i using that by simp
  then have ex: "(\<exists>i < length (procs s). pparent (?w ! i) = Some me \<and> pstate (?w ! i) = ZOMBIE) = Z" unfolding Z_def by blast
  have f: "foldl (reparent me (initproc s)) ?w [0..<length ?w] ! k =
      awaken Z (Some (ChProc (initproc s))) (adopt (pparent (procs s ! k) = Some me) (initproc s)
        (awaken True (map_option ChProc (pparent (procs s ! me))) (procs s ! k)))" if "k < length (procs s)" for k
    using reparent_fold [of "length ?w" ?w k me "initproc s"] that ex by simp
  define x where "x = awaken Z (Some (ChProc (initproc s))) (adopt (pparent (procs s ! j) = Some me) (initproc s)
        (awaken True (map_option ChProc (pparent (procs s ! me))) (procs s ! j)))"
  have g: "procs (exit_table me s) ! j = (if j = me then x\<lparr>pstate := ZOMBIE\<rparr> else x)"
    using f [OF assms(1)] assms by (cases "j = me") (simp_all add: exit_table_def Let_def x_def)
  show "pparent (procs (exit_table me s) ! j) = (if pparent (procs s ! j) = Some me then Some (initproc s) else pparent (procs s ! j))"
    "pchan (procs (exit_table me s) ! j) = pchan (procs s ! j)" "pkilled (procs (exit_table me s) ! j) = pkilled (procs s ! j)"
    "ppid (procs (exit_table me s) ! j) = ppid (procs s ! j)"
    by (simp_all add: g x_def)
  show "pstate (procs (exit_table me s) ! j) =
      (if j = me then ZOMBIE
       else if pstate (procs s ! j) = SLEEPING \<and>
          (pchan (procs s ! j) = map_option ChProc (pparent (procs s ! me)) \<or>
           pchan (procs s ! j) = Some (ChProc (initproc s)) \<and> (\<exists>i < length (procs s). pparent (procs s ! i) = Some me \<and> pstate (procs s ! i) = ZOMBIE))
       then RUNNABLE else pstate (procs s ! j))"
    unfolding Z_def [symmetric] by (auto simp: g x_def)
qed

lemma nth_slot: "j < length xs \<Longrightarrow> xs[i := x] ! j = (if i = j then x else xs ! j)"
  by auto

subsection \<open>What a step has to keep of each entry\<close>

lemma pinvD: "pinv s \<Longrightarrow> on_cpus s" "pinv s \<Longrightarrow> pids_ok s" "pinv s \<Longrightarrow> forks_ok s" "pinv s \<Longrightarrow> family_ok s" "pinv s \<Longrightarrow> waits_ok s"
  by (simp_all add: pinv_def)

lemma pinvI: "on_cpus s \<Longrightarrow> pids_ok s \<Longrightarrow> forks_ok s \<Longrightarrow> family_ok s \<Longrightarrow> waits_ok s \<Longrightarrow> pinv s"
  by (simp add: pinv_def)

lemma running_slot:
  assumes "pinv s" "running s c = Some me"
  shows "me < length (procs s)" "pstate (procs s ! me) = RUNNING" "\<And>d. running s d = Some me \<Longrightarrow> d = c"
  using pinvD(1) [OF assms(1)] assms(2) by (auto simp: on_cpus_def)

lemma cpus_keep:
  assumes "on_cpus s" "length (procs t) = length (procs s)" "running t = running s"
    "\<And>i. i < length (procs s) \<Longrightarrow> pstate (procs t ! i) = RUNNING \<longleftrightarrow> pstate (procs s ! i) = RUNNING"
  shows "on_cpus t"
  using assms by (auto simp: on_cpus_def)

lemma cpus_stop:
  assumes "on_cpus s" "length (procs t) = length (procs s)" "running s c = Some me" "running t = (running s)(c := None)"
    "\<And>i. i < length (procs s) \<Longrightarrow> pstate (procs t ! i) = RUNNING \<longleftrightarrow> pstate (procs s ! i) = RUNNING \<and> i \<noteq> me"
  shows "on_cpus t"
proof -
  have k: "running t d = Some i \<longleftrightarrow> running s d = Some i \<and> i \<noteq> me" for d i
    using assms(1,3,4) by (cases "d = c") (auto simp: on_cpus_def)
  show ?thesis using assms(1,5) unfolding on_cpus_def assms(2) k by blast
qed

lemma pids_keep:
  assumes "pids_ok s" "length (procs t) = length (procs s)" "nextpid t = nextpid s"
    "\<And>i. i < length (procs s) \<Longrightarrow> pstate (procs t ! i) \<noteq> UNUSED \<Longrightarrow> pstate (procs s ! i) \<noteq> UNUSED \<and> ppid (procs t ! i) = ppid (procs s ! i)"
  shows "pids_ok t"
  using assms by (auto simp: pids_ok_def)

lemma forks_keep:
  assumes "forks_ok s" "length (procs t) = length (procs s)" "forking t = forking s"
    "\<And>i. i < length (procs s) \<Longrightarrow> pstate (procs s ! i) = EMBRYO \<Longrightarrow> pstate (procs t ! i) = EMBRYO"
    "\<And>i. i < length (procs s) \<Longrightarrow> live (pstate (procs s ! i)) \<Longrightarrow> forking s i \<noteq> None \<Longrightarrow> live (pstate (procs t ! i))"
  shows "forks_ok t"
  using assms by (auto simp: forks_ok_def)

lemma family_keep:
  assumes "family_ok s" "length (procs t) = length (procs s)" "initproc t = initproc s"
    "\<And>i. i < length (procs s) \<Longrightarrow> pparent (procs t ! i) = pparent (procs s ! i)"
    "\<And>i. i < length (procs s) \<Longrightarrow> fresh (pstate (procs s ! i)) \<Longrightarrow> fresh (pstate (procs t ! i)) \<or> pparent (procs s ! i) \<noteq> None"
    "\<And>i. i < length (procs s) \<Longrightarrow> pstate (procs t ! i) = UNUSED \<Longrightarrow> pstate (procs s ! i) = UNUSED \<or> pparent (procs s ! i) = None"
    "\<And>i. i < length (procs s) \<Longrightarrow> live (pstate (procs s ! i)) \<Longrightarrow> live (pstate (procs t ! i))"
  shows "family_ok t"
proof -
  have "parent_ok t i" if "i < length (procs s)" for i
  proof -
    have "parent_ok s i" using assms(1) that by (simp add: family_ok_def)
    then show ?thesis using assms(2,3) assms(4-6) [OF that] assms(7) unfolding parent_ok_def by auto
  qed
  then show ?thesis using assms unfolding family_ok_def by simp
qed

definition waiting :: "'a ptab_scheme \<Rightarrow> nat \<Rightarrow> bool" where
  "waiting s q \<longleftrightarrow> q < length (procs s) \<and> pstate (procs s ! q) = SLEEPING \<and> (\<exists>r. pchan (procs s ! q) = Some (ChProc r))"

lemma waits_keep:
  assumes "waits_ok s" "length (procs t) = length (procs s)"
    "\<And>q. waiting t q \<Longrightarrow> waiting s q \<and> pchan (procs t ! q) = pchan (procs s ! q) \<and> pkilled (procs t ! q) = pkilled (procs s ! q)"
    "\<And>q i. waiting s q \<Longrightarrow> i < length (procs s) \<Longrightarrow> pparent (procs t ! i) = Some q \<longleftrightarrow> pparent (procs s ! i) = Some q"
    "\<And>i. i < length (procs s) \<Longrightarrow> pstate (procs t ! i) = ZOMBIE \<Longrightarrow> pstate (procs s ! i) = ZOMBIE"
  shows "waits_ok t"
proof -
  have "r = q \<and> \<not> pkilled (procs t ! q) \<and> (\<exists>i < length (procs t). pparent (procs t ! i) = Some q) \<and>
      (\<forall>i < length (procs t). pparent (procs t ! i) = Some q \<longrightarrow> pstate (procs t ! i) \<noteq> ZOMBIE)"
    if "q < length (procs t)" "pstate (procs t ! q) = SLEEPING" "pchan (procs t ! q) = Some (ChProc r)" for q r
  proof -
    have w: "waiting t q" using that by (simp add: waiting_def)
    note k = assms(3) [OF w] and p = assms(4) [OF conjunct1 [OF assms(3) [OF w]]]
    have "r = q \<and> \<not> pkilled (procs s ! q) \<and> (\<exists>i < length (procs s). pparent (procs s ! i) = Some q) \<and>
      (\<forall>i < length (procs s). pparent (procs s ! i) = Some q \<longrightarrow> pstate (procs s ! i) \<noteq> ZOMBIE)"
      using assms(1) k that(3) unfolding waits_ok_def waiting_def by metis
    then show ?thesis using k p assms(2,5) by metis
  qed
  then show ?thesis unfolding waits_ok_def by blast
qed

lemmas keep_rules = pids_keep forks_keep family_keep waits_keep

lemmas entry_defs = nth_slot live_def fresh_def waiting_def

subsection \<open>Every step keeps the invariant\<close>

lemma inv_pick:
  assumes "pinv s" "running s c = None" "i < length (procs s)" "pstate (procs s ! i) = RUNNABLE"
  shows "pinv ((run_proc i s)\<lparr>running := (running s)(c := Some i)\<rparr>)" (is "pinv ?t")
proof -
  note d = pinvD [OF assms(1)]
  have n: "running s d \<noteq> Some i" for d using d(1) assms(4) by (auto simp: on_cpus_def)
  have k: "running s d = Some j \<Longrightarrow> d \<noteq> c" for d j using assms(2) by auto
  have "on_cpus ?t" using d(1) assms(2-) n unfolding on_cpus_def
    by (auto simp: run_proc_def nth_slot split: if_splits dest: k) (metis k)
  moreover have "pids_ok ?t" by (rule pids_keep [OF d(2)]) (auto simp: run_proc_def nth_slot assms split: if_splits)
  moreover have "forks_ok ?t" by (rule forks_keep [OF d(3)]) (auto simp: run_proc_def entry_defs assms split: if_splits)
  moreover have "family_ok ?t" by (rule family_keep [OF d(4)]) (auto simp: run_proc_def entry_defs assms split: if_splits)
  moreover have "waits_ok ?t" by (rule waits_keep [OF d(5)]) (auto simp: run_proc_def entry_defs assms split: if_splits)
  ultimately show ?thesis by (rule pinvI)
qed

lemma inv_preempt:
  assumes "pinv s" "running s c = Some me"
  shows "pinv (stop c (yield me s))" (is "pinv ?t")
proof -
  note d = pinvD [OF assms(1)] and r = running_slot [OF assms]
  have "on_cpus ?t" by (rule cpus_stop [OF d(1) _ assms(2)]) (auto simp: yield_def nth_slot r split: if_splits)
  moreover have "pids_ok ?t" by (rule pids_keep [OF d(2)]) (auto simp: yield_def nth_slot r split: if_splits)
  moreover have "forks_ok ?t" by (rule forks_keep [OF d(3)]) (auto simp: yield_def entry_defs r split: if_splits)
  moreover have "family_ok ?t" by (rule family_keep [OF d(4)]) (auto simp: yield_def entry_defs r split: if_splits)
  moreover have "waits_ok ?t" by (rule waits_keep [OF d(5)]) (auto simp: yield_def entry_defs r split: if_splits)
  ultimately show ?thesis by (rule pinvI)
qed

lemma sleep_parts:
  assumes "pinv s" "running s c = Some me"
  shows "on_cpus (stop c (sleep_on ch me s))" "pids_ok (stop c (sleep_on ch me s))" "forks_ok (stop c (sleep_on ch me s))"
    "family_ok (stop c (sleep_on ch me s))" (is "family_ok ?t")
proof -
  note d = pinvD [OF assms(1)] and r = running_slot [OF assms]
  show "on_cpus ?t" by (rule cpus_stop [OF d(1) _ assms(2)]) (auto simp: sleep_on_def nth_slot r split: if_splits)
  show "pids_ok ?t" by (rule pids_keep [OF d(2)]) (auto simp: sleep_on_def nth_slot r split: if_splits)
  show "forks_ok ?t" by (rule forks_keep [OF d(3)]) (auto simp: sleep_on_def entry_defs r split: if_splits)
  show "family_ok ?t" by (rule family_keep [OF d(4)]) (auto simp: sleep_on_def entry_defs r split: if_splits)
qed

lemma inv_sleeping:
  assumes "pinv s" "running s c = Some me" "\<And>q. ch \<noteq> ChProc q"
  shows "pinv (stop c (sleep_on ch me s))"
proof (rule pinvI [OF sleep_parts [OF assms(1,2)]])
  show "waits_ok (stop c (sleep_on ch me s))"
    by (rule waits_keep [OF pinvD(5) [OF assms(1)]]) (auto simp: sleep_on_def entry_defs assms running_slot [OF assms(1,2)] split: if_splits)
qed

lemma inv_waking:
  assumes "pinv s"
  shows "pinv (wakeup ch s)" (is "pinv ?t")
proof -
  note d = pinvD [OF assms(1)]
  have "on_cpus ?t" by (rule cpus_keep [OF d(1)]) (auto simp: wakeup_def split: if_splits)
  moreover have "pids_ok ?t" by (rule pids_keep [OF d(2)]) (auto simp: wakeup_def split: if_splits)
  moreover have "forks_ok ?t" by (rule forks_keep [OF d(3)]) (auto simp: wakeup_def live_def split: if_splits)
  moreover have "family_ok ?t" by (rule family_keep [OF d(4)]) (auto simp: wakeup_def entry_defs split: if_splits)
  moreover have "waits_ok ?t" by (rule waits_keep [OF d(5)]) (auto simp: wakeup_def waiting_def split: if_splits)
  ultimately show ?thesis by (rule pinvI)
qed

lemma inv_killing:
  assumes "pinv s" "kill pid s = (r, t)"
  shows "pinv t"
proof (cases "find_index (\<lambda>p. ppid p = pid) (procs s)")
  case None
  then show ?thesis using assms unfolding kill_def None by simp
next
  case (Some i)
  note d = pinvD [OF assms(1)]
  define p where "p = (if pstate (procs s ! i) = SLEEPING then (procs s ! i)\<lparr>pkilled := True, pstate := RUNNABLE\<rparr> else (procs s ! i)\<lparr>pkilled := True\<rparr>)"
  have p: "ppid p = ppid (procs s ! i)" "pparent p = pparent (procs s ! i)" "pchan p = pchan (procs s ! i)"
    "pstate p = (if pstate (procs s ! i) = SLEEPING then RUNNABLE else pstate (procs s ! i))" by (simp_all add: p_def)
  have t: "t = updproc i p s" using assms(2) Some by (simp add: kill_def Let_def p_def split: if_splits)
  have "on_cpus t" unfolding t by (rule cpus_keep [OF d(1)]) (auto simp: p nth_slot split: if_splits)
  moreover have "pids_ok t" unfolding t by (rule pids_keep [OF d(2)]) (auto simp: p nth_slot split: if_splits)
  moreover have "forks_ok t" unfolding t by (rule forks_keep [OF d(3)]) (auto simp: p entry_defs split: if_splits)
  moreover have "family_ok t" unfolding t by (rule family_keep [OF d(4)]) (auto simp: p entry_defs split: if_splits)
  moreover have "waits_ok t" unfolding t by (rule waits_keep [OF d(5)]) (auto simp: p entry_defs split: if_splits)
  ultimately show ?thesis by (rule pinvI)
qed

lemma not_forking: "pinv s \<Longrightarrow> \<not> live (pstate (procs s ! i)) \<Longrightarrow> forking s i = None"
  using pinvD(3) [of s] by (cases "forking s i") (auto simp: forks_ok_def)

lemma inv_fork_alloc:
  assumes "pinv s" "running s c = Some me" "forking s me = None" "alloc_slot s = Some (i, t)"
  shows "pinv (t\<lparr>forking := (forking s)(me := Some i)\<rparr>)" (is "pinv ?t")
proof -
  note d = pinvD [OF assms(1)] and r = running_slot [OF assms(1,2)]
  obtain f: "find_index (\<lambda>p. pstate p = UNUSED) (procs s) = Some i"
    and t: "t = updproc i ((procs s ! i)\<lparr>pstate := EMBRYO, ppid := nextpid s\<rparr>) (s\<lparr>nextpid := nextpid s + 1\<rparr>)"
    using assms(4) unfolding alloc_slot_def by (auto split: option.splits)
  have i: "i < length (procs s)" "pstate (procs s ! i) = UNUSED" using find_index_SomeD [OF f] by auto
  have u: "forking s p \<noteq> Some i" for p using d(3) i(2) by (auto simp: forks_ok_def)
  have "on_cpus ?t" unfolding t by (rule cpus_keep [OF d(1)]) (auto simp: nth_slot i split: if_splits)
  moreover have "pids_ok ?t"
  proof -
    have old: "0 < ppid (procs s ! j)" "ppid (procs s ! j) < nextpid s" if "j < length (procs s)" "pstate (procs s ! j) \<noteq> UNUSED" for j
      using d(2) that by (auto simp: pids_ok_def)
    have inj: "j = k" if "j < length (procs s)" "k < length (procs s)" "pstate (procs s ! j) \<noteq> UNUSED" "pstate (procs s ! k) \<noteq> UNUSED"
      "ppid (procs s ! j) = ppid (procs s ! k)" for j k using d(2) that unfolding pids_ok_def by blast
    have "0 < nextpid s" using d(2) by (simp add: pids_ok_def)
    then show ?thesis unfolding t pids_ok_def using i(1) by (auto simp: nth_slot dest: old inj)
  qed
  moreover have "forks_ok ?t" using d(3) i r u not_forking [OF assms(1), of i] unfolding t forks_ok_def by (auto simp: nth_slot live_def)
  moreover have "family_ok ?t" unfolding t by (rule family_keep [OF d(4)]) (auto simp: entry_defs i split: if_splits)
  moreover have "waits_ok ?t" unfolding t by (rule waits_keep [OF d(5)]) (auto simp: entry_defs i split: if_splits)
  ultimately show ?thesis by (rule pinvI)
qed

lemma forking_slot:
  assumes "pinv s" "forking s me = Some i"
  shows "i < length (procs s)" "pstate (procs s ! i) = EMBRYO" "i \<noteq> initproc s"
    "\<And>q. forking s q = Some i \<Longrightarrow> q = me"
proof -
  note d = pinvD [OF assms(1)]
  show i: "i < length (procs s)" "pstate (procs s ! i) = EMBRYO" and "\<And>q. forking s q = Some i \<Longrightarrow> q = me"
    using d(3) assms(2) unfolding forks_ok_def by blast+
  show "i \<noteq> initproc s" using d(4) i by (auto simp: family_ok_def live_def)
qed

lemma inv_fork_fail:
  assumes "pinv s" "running s c = Some me" "forking s me = Some i" "pparent (procs s ! i) = None"
  shows "pinv ((updproc i ((procs s ! i)\<lparr>pstate := UNUSED\<rparr>) s)\<lparr>forking := (forking s)(me := None)\<rparr>)" (is "pinv ?t")
proof -
  note d = pinvD [OF assms(1)] and r = running_slot [OF assms(1,2)] and f = forking_slot [OF assms(1,3)]
  have "on_cpus ?t" by (rule cpus_keep [OF d(1)]) (auto simp: nth_slot f split: if_splits)
  moreover have "pids_ok ?t" by (rule pids_keep [OF d(2)]) (auto simp: nth_slot f split: if_splits)
  moreover have "forks_ok ?t" using d(3) f(1,2,4) r(1,2) not_forking [OF assms(1), of i] unfolding forks_ok_def by (auto simp: nth_slot live_def)
  moreover have "family_ok ?t" by (rule family_keep [OF d(4)]) (auto simp: entry_defs f assms(4) split: if_splits)
  moreover have "waits_ok ?t" by (rule waits_keep [OF d(5)]) (auto simp: entry_defs f split: if_splits)
  ultimately show ?thesis by (rule pinvI)
qed

lemma inv_fork_parent:
  assumes "pinv s" "running s c = Some me" "forking s me = Some i" "pparent (procs s ! i) = None"
  shows "pinv (updproc i ((procs s ! i)\<lparr>pparent := Some me\<rparr>) s)" (is "pinv ?t")
proof -
  note d = pinvD [OF assms(1)] and r = running_slot [OF assms(1,2)] and f = forking_slot [OF assms(1,3)]
  have "on_cpus ?t" by (rule cpus_keep [OF d(1)]) (auto simp: nth_slot f split: if_splits)
  moreover have "pids_ok ?t" by (rule pids_keep [OF d(2)]) (auto simp: nth_slot f split: if_splits)
  moreover have "forks_ok ?t" by (rule forks_keep [OF d(3)]) (auto simp: entry_defs f split: if_splits)
  moreover have "family_ok ?t"
  proof -
    have "parent_ok ?t j" if j: "j < length (procs s)" for j
    proof (cases "j = i")
      case True
      then show ?thesis using f r by (auto simp: parent_ok_def nth_slot live_def)
    next
      case False
      have "parent_ok s j" using d(4) j by (simp add: family_ok_def)
      then show ?thesis using False j f by (auto simp: parent_ok_def entry_defs split: if_splits)
    qed
    then show ?thesis using d(4) f by (simp add: family_ok_def)
  qed
  moreover have "waits_ok ?t" by (rule waits_keep [OF d(5)]) (auto simp: entry_defs f r assms(4) split: if_splits)
  ultimately show ?thesis by (rule pinvI)
qed

lemma inv_fork_done:
  assumes "pinv s" "running s c = Some me" "forking s me = Some i" "pparent (procs s ! i) = Some me"
  shows "pinv ((updproc i ((procs s ! i)\<lparr>pstate := RUNNABLE\<rparr>) s)\<lparr>forking := (forking s)(me := None)\<rparr>)" (is "pinv ?t")
proof -
  note d = pinvD [OF assms(1)] and r = running_slot [OF assms(1,2)] and f = forking_slot [OF assms(1,3)]
  have "on_cpus ?t" by (rule cpus_keep [OF d(1)]) (auto simp: nth_slot f split: if_splits)
  moreover have "pids_ok ?t" by (rule pids_keep [OF d(2)]) (auto simp: nth_slot f split: if_splits)
  moreover have "forks_ok ?t" using d(3) f(1,2,4) r(1,2) not_forking [OF assms(1), of i] unfolding forks_ok_def by (auto simp: nth_slot live_def)
  moreover have "family_ok ?t" by (rule family_keep [OF d(4)]) (auto simp: entry_defs f assms(4) split: if_splits)
  moreover have "waits_ok ?t" by (rule waits_keep [OF d(5)]) (auto simp: entry_defs f r split: if_splits)
  ultimately show ?thesis by (rule pinvI)
qed

lemma inv_reaping:
  assumes "pinv s" "running s c = Some me" "wait_scan me (procs s) = Reap i"
  shows "pinv (updproc i (reap (procs s ! i)) s)" (is "pinv ?t")
proof -
  note d = pinvD [OF assms(1)] and r = running_slot [OF assms(1,2)]
  have "find_index (\<lambda>p. pparent p = Some me \<and> pstate p = ZOMBIE) (procs s) = Some i"
    using assms(3) by (auto simp: wait_scan_def split: option.splits if_splits)
  then have i: "i < length (procs s)" "pparent (procs s ! i) = Some me" "pstate (procs s ! i) = ZOMBIE"
    using find_index_SomeD by fastforce+
  have n: "i \<noteq> initproc s" using d(4) i(3) by (auto simp: family_ok_def live_def)
  have "on_cpus ?t" by (rule cpus_keep [OF d(1)]) (auto simp: nth_slot i reap_def split: if_splits)
  moreover have "pids_ok ?t" by (rule pids_keep [OF d(2)]) (auto simp: nth_slot i reap_def split: if_splits)
  moreover have "forks_ok ?t" by (rule forks_keep [OF d(3)]) (auto simp: entry_defs i reap_def split: if_splits)
  moreover have "family_ok ?t"
  proof -
    have "parent_ok ?t j" if j: "j < length (procs s)" for j
    proof (cases "j = i")
      case True
      then show ?thesis using i by (simp add: parent_ok_def reap_def fresh_def)
    next
      case False
      have "parent_ok s j" using d(4) j by (simp add: family_ok_def)
      then show ?thesis using False j i by (auto simp: parent_ok_def entry_defs split: if_splits)
    qed
    then show ?thesis using d(4) n by (simp add: family_ok_def)
  qed
  moreover have "waits_ok ?t" by (rule waits_keep [OF d(5)]) (auto simp: entry_defs i r reap_def split: if_splits)
  ultimately show ?thesis by (rule pinvI)
qed

lemma inv_blocking:
  assumes "pinv s" "running s c = Some me" "wait_scan me (procs s) = Block"
  shows "pinv (stop c (sleep_on (ChProc me) me s))" (is "pinv ?t")
proof (rule pinvI [OF sleep_parts [OF assms(1,2)]])
  note r = running_slot [OF assms(1,2)]
  have "find_index (\<lambda>p. pparent p = Some me \<and> pstate p = ZOMBIE) (procs s) = None"
    and k: "\<exists>p \<in> set (procs s). pparent p = Some me" "\<not> pkilled (procs s ! me)"
    using assms(3) by (auto simp: wait_scan_def list_ex_iff split: option.splits if_splits)
  then have z: "\<forall>i < length (procs s). pparent (procs s ! i) = Some me \<longrightarrow> pstate (procs s ! i) \<noteq> ZOMBIE" by simp
  obtain i where i: "i < length (procs s)" "pparent (procs s ! i) = Some me" using k(1) by (auto simp: in_set_conv_nth)
  have w: "waits_ok s" by (rule pinvD(5) [OF assms(1)])
  show "waits_ok ?t" unfolding waits_ok_def
  proof (intro allI impI)
    fix q r
    assume q: "q < length (procs ?t)" "pstate (procs ?t ! q) = SLEEPING" "pchan (procs ?t ! q) = Some (ChProc r)"
    have eq: "pparent (procs ?t ! j) = pparent (procs s ! j)" "pstate (procs ?t ! j) = ZOMBIE \<Longrightarrow> pstate (procs s ! j) = ZOMBIE"
      if "j < length (procs s)" for j using that by (auto simp: sleep_on_def nth_slot split: if_splits)
    have l: "length (procs ?t) = length (procs s)" by (simp add: sleep_on_def)
    show "r = q \<and> \<not> pkilled (procs ?t ! q) \<and> (\<exists>i < length (procs ?t). pparent (procs ?t ! i) = Some q) \<and>
        (\<forall>i < length (procs ?t). pparent (procs ?t ! i) = Some q \<longrightarrow> pstate (procs ?t ! i) \<noteq> ZOMBIE)"
    proof (cases "q = me")
      case True
      then have "r = q" "\<not> pkilled (procs ?t ! q)" using q(3) k(2) r(1) by (auto simp: sleep_on_def)
      then show ?thesis using True i z eq l by auto
    next
      case False
      then have same: "procs ?t ! q = procs s ! q" by (simp add: sleep_on_def)
      have "r = q \<and> \<not> pkilled (procs s ! q) \<and> (\<exists>i < length (procs s). pparent (procs s ! i) = Some q) \<and>
          (\<forall>i < length (procs s). pparent (procs s ! i) = Some q \<longrightarrow> pstate (procs s ! i) \<noteq> ZOMBIE)"
        using w q l unfolding waits_ok_def same by metis
      then show ?thesis using eq l same by metis
    qed
  qed
qed

lemma exit_waits:
  assumes "pinv s" "running s c = Some me" "forking s me = None" "me \<noteq> initproc s"
  shows "waits_ok (exit_table me s)"
proof -
  note d = pinvD [OF assms(1)] and r = running_slot [OF assms(1,2)]
  note e = exit_fields [OF _ r(1)]
  have self: "pparent (procs s ! me) \<noteq> Some me" using d(4) r(1) by (auto simp: family_ok_def parent_ok_def)
  show ?thesis unfolding waits_ok_def exit_table_simps
  proof (intro allI impI)
    fix q p
    assume q: "q < length (procs s)" "pstate (procs (exit_table me s) ! q) = SLEEPING" "pchan (procs (exit_table me s) ! q) = Some (ChProc p)"
    have s: "q \<noteq> me" "pstate (procs s ! q) = SLEEPING" "pchan (procs s ! q) = Some (ChProc p)" using q by (auto simp: e split: if_splits)
    have w: "p = q" "\<not> pkilled (procs s ! q)" "\<exists>i < length (procs s). pparent (procs s ! i) = Some q"
      "\<And>i. i < length (procs s) \<Longrightarrow> pparent (procs s ! i) = Some q \<Longrightarrow> pstate (procs s ! i) \<noteq> ZOMBIE"
      using d(5) q(1) s(2,3) unfolding waits_ok_def by metis+
    have nw: "pparent (procs s ! me) \<noteq> Some q"
      "q = initproc s \<Longrightarrow> i < length (procs s) \<Longrightarrow> pparent (procs s ! i) = Some me \<Longrightarrow> pstate (procs s ! i) \<noteq> ZOMBIE" for i
      using q(1,2) s w(1) by (auto simp: e split: if_splits)
    have "\<exists>i < length (procs s). pparent (procs (exit_table me s) ! i) = Some q" using w(3) s(1) by (auto simp: e)
    moreover have "pstate (procs (exit_table me s) ! i) \<noteq> ZOMBIE"
      if "i < length (procs s)" "pparent (procs (exit_table me s) ! i) = Some q" for i
      using that w(4) [of i] nw self by (auto simp: e split: if_splits)
    ultimately show "p = q \<and> \<not> pkilled (procs (exit_table me s) ! q) \<and>
        (\<exists>i < length (procs s). pparent (procs (exit_table me s) ! i) = Some q) \<and>
        (\<forall>i < length (procs s). pparent (procs (exit_table me s) ! i) = Some q \<longrightarrow> pstate (procs (exit_table me s) ! i) \<noteq> ZOMBIE)"
      using w q(1) by (simp add: e)
  qed
qed

lemma inv_exiting:
  assumes "pinv s" "running s c = Some me" "forking s me = None" "me \<noteq> initproc s"
  shows "pinv (stop c (exit_table me s))" (is "pinv ?t")
proof -
  note d = pinvD [OF assms(1)] and r = running_slot [OF assms(1,2)]
  note e = exit_fields [OF _ r(1)]
  have "on_cpus ?t" by (rule cpus_stop [OF d(1) _ assms(2)]) (auto simp: e)
  moreover have "pids_ok ?t" by (rule pids_keep [OF d(2)]) (auto simp: e r split: if_splits)
  moreover have "forks_ok ?t" by (rule forks_keep [OF d(3)]) (auto simp: e r live_def assms(3) split: if_splits)
  moreover have "family_ok ?t"
  proof -
    have live: "live (pstate (procs (exit_table me s) ! q))" if "live (pstate (procs s ! q))" "q < length (procs s)" "q \<noteq> me" for q
      using that by (auto simp: e live_def)
    have "parent_ok ?t j" if j: "j < length (procs s)" for j
    proof (cases "j = me")
      case True
      show ?thesis using d(4) j live assms(4) r(2) unfolding True family_ok_def
        by (auto simp: parent_ok_def e fresh_def)
    next
      case False
      then show ?thesis using d(4) j live assms(4) unfolding family_ok_def
        by (auto simp: parent_ok_def e fresh_def)
    qed
    then show ?thesis using d(4) live assms(4) by (simp add: family_ok_def)
  qed
  moreover have "waits_ok ?t" using exit_waits [OF assms] by (simp add: waits_ok_def)
  ultimately show ?thesis by (rule pinvI)
qed

interpretation pm: inductive_invariant pstart pstep pinv
proof
  show "pinv s" if "pstart s" for s
    using that unfolding pstart_def pinv_def on_cpus_def pids_ok_def forks_ok_def family_ok_def waits_ok_def
    by (auto simp: parent_ok_def fresh_def live_def)
  show "pinv t" if "pinv s" "pstep s t" for s t
    using that(2,1)
    by cases (auto intro: inv_pick inv_preempt inv_sleeping inv_waking inv_killing inv_fork_alloc inv_fork_fail
        inv_fork_parent inv_fork_done inv_exiting [unfolded exit_mach] inv_reaping inv_blocking)
qed

section \<open>Properties\<close>


definition slot0 :: "procstate \<Rightarrow> int \<Rightarrow> nat option \<Rightarrow> proc" where
  "slot0 st pid par = \<lparr>psz = 0, ppgdir = 0, pkstack = 0, pstate = st, ppid = pid, pparent = par, ptf = 0, pcontext = 0, pchan = None,
     pkilled = False, pofile = [], pcwd = None, pname = []\<rparr>"

lemma slot0_simps [simp]:
  "pstate (slot0 st pid par) = st" "ppid (slot0 st pid par) = pid" "pparent (slot0 st pid par) = par" "pkilled (slot0 st pid par) = False"
  "pchan (slot0 st pid par) = None" "(slot0 st pid par)\<lparr>pstate := st'\<rparr> = slot0 st' pid par" "(slot0 st pid par)\<lparr>ppid := pid'\<rparr> = slot0 st pid' par"
  "(slot0 st pid par)\<lparr>pparent := par'\<rparr> = slot0 st pid par'" "(slot0 st pid par)\<lparr>pchan := None\<rparr> = slot0 st pid par"
  by (simp_all add: slot0_def)

text \<open>The first process, alone; running on processor 0 while it forks; and with a child that has exited on processor 1.\<close>

definition boot_mach :: pmach where
  "boot_mach = \<lparr>procs = [slot0 RUNNABLE 1 None, slot0 UNUSED 0 None], nextpid = 2, initproc = 0, running = \<lambda>_. None, forking = \<lambda>_. None\<rparr>"

definition init_mach :: "proc \<Rightarrow> int \<Rightarrow> nat option \<Rightarrow> nat option \<Rightarrow> pmach" where
  "init_mach p n r f = \<lparr>procs = [slot0 RUNNING 1 None, p], nextpid = n, initproc = 0,
     running = (\<lambda>_. None)(0 := Some 0, 1 := r), forking = (\<lambda>_. None)(0 := f)\<rparr>"

lemma init_mach_simps [simp]:
  "procs (init_mach p n r f) = [slot0 RUNNING 1 None, p]" "nextpid (init_mach p n r f) = n" "initproc (init_mach p n r f) = 0"
  "running (init_mach p n r f) 0 = Some 0" "running (init_mach p n r f) (Suc 0) = r" "forking (init_mach p n r f) 0 = f" "forking (init_mach p n r f) (Suc 0) = None"
  by (simp_all add: init_mach_def)

lemma init_mach_reachable: "reachable pstart pstep (init_mach (slot0 RUNNABLE 2 (Some 0)) 3 None None)"
proof -
  have "reachable pstart pstep boot_mach"
    by (rule reachable_init) (auto simp: boot_mach_def pstart_def less_Suc_eq)
  then have 1: "reachable pstart pstep (init_mach (slot0 UNUSED 0 None) 2 None None)"
    by (rule reachable_step)
      (use pstep.pick [of boot_mach 0 0] in \<open>simp add: boot_mach_def init_mach_def run_proc_def updproc_def fun_upd_idem\<close>)
  have "alloc_slot (init_mach (slot0 UNUSED 0 None) 2 None None) = Some (1, init_mach (slot0 EMBRYO 2 None) 3 None None)"
    by (simp add: alloc_slot_def updproc_def init_mach_def)
  from pstep.fork_alloc [OF _ _ this, of 0 0]
  have 2: "reachable pstart pstep (init_mach (slot0 EMBRYO 2 None) 3 None (Some 1))"
    by (intro reachable_step [OF 1]) (simp add: init_mach_def)
  have 3: "reachable pstart pstep (init_mach (slot0 EMBRYO 2 (Some 0)) 3 None (Some 1))"
    by (rule reachable_step [OF 2])
      (use pstep.fork_parent [of "init_mach (slot0 EMBRYO 2 None) 3 None (Some 1)" 0 0 1] in \<open>simp add: init_mach_def updproc_def\<close>)
  show ?thesis
    by (rule reachable_step [OF 3])
      (use pstep.fork_done [of "init_mach (slot0 EMBRYO 2 (Some 0)) 3 None (Some 1)" 0 0 1] in \<open>simp add: init_mach_def updproc_def\<close>)
qed

lemma child_runs: "reachable pstart pstep (init_mach (slot0 RUNNING 2 (Some 0)) 3 (Some 1) None)"
  by (rule reachable_step [OF init_mach_reachable])
    (use pstep.pick [of "init_mach (slot0 RUNNABLE 2 (Some 0)) 3 None None" 1 1] in \<open>simp add: init_mach_def run_proc_def updproc_def\<close>)

lemma child_exits: "reachable pstart pstep (init_mach (slot0 ZOMBIE 2 (Some 0)) 3 None None)"
  by (rule reachable_step [OF child_runs])
    (use pstep.exiting [of "init_mach (slot0 RUNNING 2 (Some 0)) 3 (Some 1) None" 1 1] in
      \<open>simp add: init_mach_def exit_table_def wakeup1_def reparent_def Let_def\<close>)


text \<open>
  C8. No wakeup is lost between \<open>exit\<close>, \<open>kill\<close> and \<open>wait\<close>: in every reachable state a process that sleeps in \<open>wait\<close>
  has not been killed, still has a child and has no child to collect; and every exited process has a living parent
  that is not asleep in \<open>wait\<close>, and finds a child to collect when it next scans the table.
\<close>

theorem wait_no_lost_wakeup:
  assumes "reachable pstart pstep s"
  shows "waits_ok s \<and>
    (\<forall>i < length (procs s). pstate (procs s ! i) = ZOMBIE \<longrightarrow>
       (\<exists>q < length (procs s). pparent (procs s ! i) = Some q \<and> live (pstate (procs s ! q)) \<and> \<not> waiting s q \<and>
          (\<exists>j. wait_scan q (procs s) = Reap j)))"
proof -
  note d = pinvD [OF pm.inv_reachable [OF assms]]
  have "\<exists>q < length (procs s). pparent (procs s ! i) = Some q \<and> live (pstate (procs s ! q)) \<and> \<not> waiting s q \<and>
      (\<exists>j. wait_scan q (procs s) = Reap j)" if i: "i < length (procs s)" "pstate (procs s ! i) = ZOMBIE" for i
  proof -
    have "parent_ok s i" "i \<noteq> initproc s" using d(4) i by (auto simp: family_ok_def live_def)
    then obtain q where q: "q < length (procs s)" "pparent (procs s ! i) = Some q" "live (pstate (procs s ! q))"
      using i by (auto simp: parent_ok_def fresh_def)
    have "\<not> waiting s q" using d(5) q i unfolding waits_ok_def waiting_def by blast
    moreover obtain j where "find_index (\<lambda>p. pparent p = Some q \<and> pstate p = ZOMBIE) (procs s) = Some j"
      using i q(2) find_index_None nth_mem by (metis (mono_tags, lifting) option.exhaust)
    ultimately show ?thesis using q by (auto simp: wait_scan_def)
  qed
  then show ?thesis using d(5) by blast
qed

theorem wait_no_lost_wakeup_witness:
  "reachable pstart pstep (init_mach (slot0 ZOMBIE 2 (Some 0)) 3 None None) \<and>
   (\<exists>j. wait_scan 0 (procs (init_mach (slot0 ZOMBIE 2 (Some 0)) 3 None None)) = Reap j)"
  using wait_no_lost_wakeup [OF child_exits, THEN conjunct2, rule_format, of 1] child_exits by auto

text \<open>
  C40. \<open>kill\<close> does not check that the slot it finds is in use, and \<open>allocproc\<close> does not reset \<open>killed\<close>: where an unused
  slot comes before any other slot with process identifier 0, \<open>kill(0)\<close> reports success, and the next process that gets this
  slot is born killed.
\<close>

theorem kill_unused_slot:
  assumes "find_index (\<lambda>p. ppid p = 0) (procs s) = Some i" "find_index (\<lambda>p. pstate p = UNUSED) (procs s) = Some i"
  shows "\<exists>t u. kill 0 s = (0, t) \<and> alloc_slot t = Some (i, u) \<and> pkilled (procs u ! i) \<and>
    pstate (procs u ! i) = EMBRYO \<and> ppid (procs u ! i) = nextpid s"
proof -
  have i: "i < length (procs s)" "pstate (procs s ! i) = UNUSED" "\<And>j. j < i \<Longrightarrow> pstate (procs s ! j) \<noteq> UNUSED"
    using assms(2) by (auto simp: find_index_Some)
  let ?t = "updproc i ((procs s ! i)\<lparr>pkilled := True\<rparr>) s"
  have k: "kill 0 s = (0, ?t)" using assms(1) i by (simp add: kill_def)
  have "find_index (\<lambda>p. pstate p = UNUSED) (procs ?t) = Some i" using i by (simp add: find_index_Some nth_slot)
  then show ?thesis using k i by (simp add: alloc_slot_def)
qed

theorem kill_unused_slot_witness:
  "\<exists>t u. kill 0 (init_mach (slot0 UNUSED 0 None) 2 None None) = (0, t) \<and> alloc_slot t = Some (1, u) \<and> pkilled (procs u ! 1)"
  using kill_unused_slot [of "init_mach (slot0 UNUSED 0 None) 2 None None" 1] by auto

end
