(* ===== verification/FsFrame.thy ===== *)
theory FsFrame
  imports Dir
begin

text \<open>
  The file system works on its own part of the kernel's state: no operation of \<open>Bio\<close>, \<open>Log\<close>, \<open>Fs\<close> or \<open>Dir\<close> that
  returns changes a field that a larger state adds. Reading and writing a device runs the device's function; \<open>dev_frame\<close>
  says that the devices keep these fields, too.
\<close>

named_theorems frame

section \<open>Levels of the state\<close>

lemma more_log: "kbio.more t = kbio.more s \<Longrightarrow> klog.more (t :: 'a klog_scheme) = klog.more s"
  by (cases s; cases t) simp

lemma more_fs: "klog.more t = klog.more s \<Longrightarrow> kfs.more (t :: 'a kfs_scheme) = kfs.more s"
  by (cases s; cases t) simp

lemma more_upd [simp]:
  "kbio.more (updbuf i b s) = kbio.more s" "kbio.more (setdata i d s) = kbio.more s"
  by (simp_all add: updbuf_def setdata_def)

section \<open>Buffer cache\<close>

lemma bget_more [frame]: "bget dev bn s = Ret (i, t) \<Longrightarrow> kbio.more t = kbio.more s"
  by (auto simp: bget_def Let_def split: option.splits if_splits)

lemma iderw_more [frame]: "iderw i s = Ret t \<Longrightarrow> kbio.more t = kbio.more s"
  by (auto simp: iderw_def Let_def split: if_splits)

lemma bread_more [frame]: "bread dev bn s = Ret (i, t) \<Longrightarrow> kbio.more t = kbio.more s"
  by (auto simp: bread_def Let_def split: if_splits prod.splits dest!: bget_more iderw_more)

lemma bwrite_more [frame]: "bwrite i s = Ret t \<Longrightarrow> kbio.more t = kbio.more s"
  by (auto simp: bwrite_def Let_def split: if_splits dest!: iderw_more)

lemma brelse_more [frame]: "brelse i s = Ret t \<Longrightarrow> kbio.more t = kbio.more s"
  by (auto simp: brelse_def Let_def split: if_splits)

lemma readsb_more [frame]: "readsb dev s = Ret (b, t) \<Longrightarrow> kbio.more t = kbio.more s"
  by (auto simp: readsb_def Let_def split: if_splits prod.splits dest!: bread_more brelse_more)

section \<open>Log\<close>

lemmas bio_log = bread_more [THEN more_log] bwrite_more [THEN more_log] brelse_more [THEN more_log] readsb_more [THEN more_log]

lemma more_setdata [simp]: "klog.more (setdata i d s) = klog.more s" "klog.more (updbuf i b s) = klog.more s"
  by (simp_all add: updbuf_def setdata_def)

lemma foldR_more:
  assumes "foldR f xs s = Ret t" "\<And>x s t. f x s = Ret t \<Longrightarrow> m t = m s"
  shows "m t = m s"
  using foldR_rel [OF assms(1), of "\<lambda>s t. m t = m s"] assms(2) by simp

lemma install_trans_more: "install_trans s = Ret t \<Longrightarrow> klog.more t = klog.more s"
  unfolding install_trans_def
  by (erule foldR_more) (auto simp: install_step_def Let_def split: prod.splits dest!: bio_log)

lemma read_head_more: "read_head s = Ret t \<Longrightarrow> klog.more t = klog.more s"
  by (auto simp: read_head_def Let_def split: prod.splits if_splits dest!: bio_log)

lemma write_head_more: "write_head s = Ret t \<Longrightarrow> klog.more t = klog.more s"
  by (auto simp: write_head_def Let_def split: prod.splits if_splits dest!: bio_log)

lemma write_log_more: "write_log s = Ret t \<Longrightarrow> klog.more t = klog.more s"
  unfolding write_log_def
  by (erule foldR_more) (auto simp: write_log_step_def Let_def split: prod.splits dest!: bio_log)

lemma recover_more: "recover_from_log s = Ret t \<Longrightarrow> klog.more t = klog.more s"
  by (auto simp: recover_from_log_def Let_def split: prod.splits if_splits
      dest!: read_head_more install_trans_more write_head_more)

lemma initlog_more [frame]: "initlog dev s = Ret t \<Longrightarrow> klog.more t = klog.more s"
  by (auto simp: initlog_def Let_def split: prod.splits if_splits dest!: bio_log recover_more)

lemma commit_more: "commit s = Ret t \<Longrightarrow> klog.more t = klog.more s"
  by (auto simp: commit_def Let_def split: prod.splits if_splits dest!: write_log_more install_trans_more write_head_more)

lemma begin_op_more [frame]: "begin_op s = Ret t \<Longrightarrow> klog.more t = klog.more s"
  by (auto simp: begin_op_def split: if_splits)

lemma end_op_more [frame]: "end_op s = Ret t \<Longrightarrow> klog.more t = klog.more s"
  by (auto simp: end_op_def end_op_enter_def Let_def split: prod.splits if_splits dest!: commit_more)

lemma log_write_more [frame]: "log_write b s = Ret t \<Longrightarrow> klog.more t = klog.more s"
  by (auto simp: log_write_def Let_def updbuf_def split: option.splits prod.splits if_splits)

section \<open>Blocks and inodes\<close>

lemmas log_fs = bio_log [THEN more_fs] begin_op_more [THEN more_fs] end_op_more [THEN more_fs] log_write_more [THEN more_fs]
  initlog_more [THEN more_fs]

lemma more_updinode [simp]: "kfs.more (updinode i ip s) = kfs.more s" "kfs.more (setdata b d s) = kfs.more s" "kfs.more (set_addr i k a s) = kfs.more s"
  by (simp_all add: updinode_def setdata_def updbuf_def set_addr_def)

lemma bzero_more: "bzero dev bn s = Ret t \<Longrightarrow> kfs.more t = kfs.more s"
  by (auto simp: bzero_def Let_def split: prod.splits if_splits dest!: log_fs)

lemma balloc_loop_more: "balloc_loop dev ns s = Ret (b, t) \<Longrightarrow> kfs.more t = kfs.more s"
proof (induction ns arbitrary: s)
  case (Cons n ns)
  then show ?case
    by (auto simp: Let_def split: option.splits if_splits dest!: log_fs bzero_more)
qed simp

lemma balloc_more: "balloc dev s = Ret (b, t) \<Longrightarrow> kfs.more t = kfs.more s"
  unfolding balloc_def by (rule balloc_loop_more)

lemma bfree_more: "bfree dev b s = Ret t \<Longrightarrow> kfs.more t = kfs.more s"
  by (auto simp: bfree_def Let_def split: prod.splits if_splits dest!: log_fs)

lemma iinit_more [frame]: "iinit dev s = Ret t \<Longrightarrow> kfs.more t = kfs.more s"
  by (auto simp: iinit_def Let_def split: prod.splits if_splits dest!: log_fs)

lemma iget_more [frame]: "iget dev n s = Ret (i, t) \<Longrightarrow> kfs.more t = kfs.more s"
  by (auto simp: iget_def Let_def split: option.splits if_splits)

lemma ialloc_loop_more: "ialloc_loop dev ty ns s = Ret (i, t) \<Longrightarrow> kfs.more t = kfs.more s"
proof (induction ns arbitrary: s)
  case (Cons n ns)
  from Cons.prems obtain bp s1 where b: "bread dev (IBLOCK (of_nat n) (sb s)) s = Ret (bp, s1)" by auto
  have m: "kfs.more s1 = kfs.more s" using b by (rule log_fs)
  show ?case
  proof (cases "rd16 (bdata (bufs s1 ! bp)) (ioff (of_nat n)) = 0")
    case True
    then show ?thesis using Cons.prems b m by (auto simp: Let_def dest!: log_fs iget_more)
  next
    case False
    then obtain s2 where "brelse bp s1 = Ret s2" "ialloc_loop dev ty ns s2 = Ret (i, t)" using Cons.prems b by (auto simp: Let_def)
    then show ?thesis using Cons.IH m by (auto dest!: log_fs)
  qed
qed simp

lemma ialloc_more [frame]: "ialloc dev ty s = Ret (i, t) \<Longrightarrow> kfs.more t = kfs.more s"
  unfolding ialloc_def by (rule ialloc_loop_more)

lemma iupdate_more [frame]: "iupdate i s = Ret t \<Longrightarrow> kfs.more t = kfs.more s"
  by (auto simp: iupdate_def Let_def split: prod.splits if_splits dest!: log_fs)

lemma idup_more [simp]: "kfs.more (idup i s) = kfs.more s"
  by (simp add: idup_def)

lemma ilock_more [frame]: "ilock i s = Ret t \<Longrightarrow> kfs.more t = kfs.more s"
  by (cases "valid (icache s ! i)") (auto simp: ilock_def Let_def split: if_splits dest!: log_fs)

lemma iunlock_more [frame]: "iunlock i s = Ret t \<Longrightarrow> kfs.more t = kfs.more s"
  by (auto simp: iunlock_def Let_def split: if_splits)

lemma bmap_more: "bmap i bn s = Ret (b, t) \<Longrightarrow> kfs.more t = kfs.more s"
  by (auto simp: bmap_def Let_def split: prod.splits if_splits dest!: log_fs balloc_more)

lemma itrunc_more: "itrunc i s = Ret t \<Longrightarrow> kfs.more t = kfs.more s"
proof -
  have d: "foldR (itrunc_direct i) ks s = Ret t \<Longrightarrow> kfs.more t = kfs.more s" for ks and s t :: "'a kfs_scheme"
    by (erule foldR_more) (auto simp: itrunc_direct_def Let_def split: if_splits dest!: bfree_more)
  have j: "foldR (\<lambda>j s. let a = rd32 (bdata (bufs s ! bp)) (4 * j) in if a \<noteq> 0 then bfree dev a s else Ret s) ks s = Ret t \<Longrightarrow>
      kfs.more t = kfs.more s" for ks bp dev and s t :: "'a kfs_scheme"
    by (erule foldR_more) (auto simp: Let_def split: if_splits dest!: bfree_more)
  show "itrunc i s = Ret t \<Longrightarrow> kfs.more t = kfs.more s"
    by (auto simp: itrunc_def Let_def [of "icache _ ! _"] Let_def [of "addrs _ ! _"] split: prod.splits if_splits
        dest!: d j log_fs bfree_more iupdate_more)
qed

lemma iput_more [frame]: "iput i s = Ret t \<Longrightarrow> kfs.more t = kfs.more s"
  by (auto simp: iput_def Let_def split: if_splits dest!: itrunc_more iupdate_more)

lemma iunlockput_more [frame]: "iunlockput i s = Ret t \<Longrightarrow> kfs.more t = kfs.more s"
  by (auto simp: iunlockput_def dest!: iunlock_more iput_more)

section \<open>Files and directories\<close>

definition dev_frame :: "('a kfs_scheme \<Rightarrow> 'k) \<Rightarrow> 'a kfs_scheme devsw \<Rightarrow> bool" where
  "dev_frame m devsw \<longleftrightarrow>
     (\<forall>s t. kfs.more t = kfs.more s \<longrightarrow> m t = m s) \<and>
     (\<forall>k rd i n s r d t. fst (devsw k) = Some rd \<longrightarrow> rd i n s = Ret (r, d, t) \<longrightarrow> m t = m s) \<and>
     (\<forall>k wr i src s r t. snd (devsw k) = Some wr \<longrightarrow> wr i src s = Ret (r, t) \<longrightarrow> m t = m s)"

lemma dev_frameD:
  "dev_frame m devsw \<Longrightarrow> kfs.more t = kfs.more s \<Longrightarrow> m t = m s"
  "dev_frame m devsw \<Longrightarrow> fst (devsw k) = Some rd \<Longrightarrow> rd i n s = Ret (r, d, t) \<Longrightarrow> m t = m s"
  "dev_frame m devsw \<Longrightarrow> snd (devsw k) = Some wr \<Longrightarrow> wr i src s = Ret (r', t) \<Longrightarrow> m t = m s"
  unfolding dev_frame_def by blast+

lemma readi_loop_more: "readi_loop i off rest s = Ret (d, t) \<Longrightarrow> kfs.more t = kfs.more s"
proof (induction i off rest s arbitrary: d t rule: readi_loop.induct)
  case (1 i off rest s)
  show ?case
  proof (cases "rest = 0")
    case False
    from 1(2) False obtain a s1 bp s2 s3 ds where x: "bmap i (off div BSIZE) s = Ret (a, s1)" "bread (idev (icache s1 ! i)) a s1 = Ret (bp, s2)"
      "brelse bp s2 = Ret s3" "readi_loop i (off + chunk off rest) (rest - chunk off rest) s3 = Ret (ds, t)"
      by (subst (asm) readi_loop.simps) (auto simp: Let_def split: prod.splits)
    have "kfs.more t = kfs.more s3" using 1(1) [OF False refl x(1) refl x(2) refl refl x(3)] x(4) by simp
    then show ?thesis using x(1-3) by (auto dest!: bmap_more log_fs)
  qed (use 1(2) in \<open>simp add: readi_loop.simps\<close>)
qed

lemma writei_loop_more: "writei_loop i off src s = Ret t \<Longrightarrow> kfs.more t = kfs.more s"
proof (induction i off src s rule: writei_loop.induct)
  case (1 i off src s)
  show ?case
  proof (cases "src = []")
    case False
    from 1(2) False obtain a s1 bp s2 s3 s4 where x: "bmap i (off div BSIZE) s = Ret (a, s1)" "bread (idev (icache s1 ! i)) a s1 = Ret (bp, s2)"
      "log_write bp (setdata bp (put_bytes (off mod BSIZE) (take (chunk off (length src)) src) (bdata (bufs s2 ! bp))) s2) = Ret s3"
      "brelse bp s3 = Ret s4" "writei_loop i (off + chunk off (length src)) (drop (chunk off (length src)) src) s4 = Ret t"
      by (subst (asm) writei_loop.simps) (auto simp: Let_def split: prod.splits)
    have "kfs.more t = kfs.more s4" using 1(1) [OF False refl x(1) refl x(2) refl x(3) x(4)] x(5) by simp
    then show ?thesis using x(1-4) by (auto dest!: bmap_more log_fs)
  qed (use 1(2) in \<open>simp add: writei_loop.simps\<close>)
qed

lemma readi_frame:
  assumes "readi devsw i off n s = Ret (r, d, t)" "dev_frame m devsw"
  shows "m t = m s"
proof (cases "itype (icache s ! i) = T_DEV")
  case True
  then show ?thesis using assms by (auto simp: readi_def Let_def split: if_splits option.splits dest!: dev_frameD(2,3) [OF assms(2)])
next
  case False
  then show ?thesis using assms(1)
    by (auto simp: readi_def Let_def simp del: readi_loop.simps split: if_splits dest!: readi_loop_more [THEN dev_frameD(1) [OF assms(2)]])
qed

lemma writei_frame:
  assumes "writei devsw i src off s = Ret (r, t)" "dev_frame m devsw"
  shows "m t = m s"
proof (cases "itype (icache s ! i) = T_DEV")
  case True
  then show ?thesis using assms by (auto simp: writei_def Let_def split: if_splits option.splits dest!: dev_frameD(2,3) [OF assms(2)])
next
  case False
  then have "kfs.more t = kfs.more s" using assms(1)
    by (auto simp: writei_def Let_def simp del: writei_loop.simps split: if_splits dest!: writei_loop_more iupdate_more)
  then show ?thesis by (rule dev_frameD(1) [OF assms(2)])
qed

lemma dirlookup_frame:
  assumes "dirlookup devsw dp name s = Ret (r, t)" "dev_frame m devsw"
  shows "m t = m s"
proof -
  have "dirlookup_loop devsw dp name offs s = Ret (r, t) \<Longrightarrow> m t = m s" for offs s
  proof (induction offs arbitrary: s)
    case (Cons off offs)
    from Cons.prems obtain k de s1 where x: "readi devsw dp (of_nat off) (of_nat DESIZE) s = Ret (k, de, s1)" by auto
    have "m t = m s1" using Cons.prems x Cons.IH [of s1]
      by (auto split: if_splits dest!: iget_more [THEN dev_frameD(1) [OF assms(2)]])
    then show ?case using readi_frame [OF x assms(2)] by simp
  qed simp
  then show ?thesis using assms(1) by (auto simp: dirlookup_def split: if_splits)
qed

lemma dirlink_frame:
  assumes "dirlink devsw dp name n s = Ret (r, t)" "dev_frame m devsw"
  shows "m t = m s"
proof -
  note f = dev_frameD(1) [OF assms(2)]
  have slot: "dirlink_slot devsw dp offs s = Ret (off, t) \<Longrightarrow> m t = m s" for offs off s t
  proof (induction offs arbitrary: s)
    case (Cons o1 offs)
    from Cons.prems obtain k de s1 where x: "readi devsw dp (of_nat o1) (of_nat DESIZE) s = Ret (k, de, s1)" by auto
    have "m t = m s1" using Cons.prems x Cons.IH [of s1] by (auto split: if_splits)
    then show ?case using readi_frame [OF x assms(2)] by simp
  qed simp
  from assms(1) obtain x s1 where x: "dirlookup devsw dp name s = Ret (x, s1)" by (auto simp: dirlink_def)
  have "m t = m s1" using assms(1) x
    by (auto simp: dirlink_def split: option.splits if_splits dest!: slot writei_frame [OF _ assms(2)] iput_more [THEN f])
  then show ?thesis using dirlookup_frame [OF x assms(2)] by simp
qed

lemma namex_loop_frame:
  assumes "namex_loop devsw path parent name ip s = Ret (r, t)" "dev_frame m devsw"
  shows "m t = m s"
  using assms
proof (induction devsw path parent name ip s rule: namex_loop.induct)
  case (1 dw path parent name ip s)
  note f = dev_frameD(1) [OF 1(3)]
  show ?case
  proof (cases "skipelem path name")
    case None
    then show ?thesis using 1(2) by (subst (asm) namex_loop.simps) (auto split: if_splits dest!: iput_more [THEN f])
  next
    case (Some pn)
    obtain path' name' where pn: "pn = (path', name')" by (cases pn)
    from 1(2) Some pn obtain s1 where s1: "ilock ip s = Ret s1" by (subst (asm) namex_loop.simps) auto
    have m1: "m s1 = m s" using s1 by (rule ilock_more [THEN f])
    consider "itype (icache s1 ! ip) \<noteq> T_DIR \<or> parent \<and> path' = []" | "itype (icache s1 ! ip) = T_DIR" "\<not> (parent \<and> path' = [])" by blast
    then show ?thesis
    proof cases
      case 1
      have "m t = m s1" using \<open>namex_loop dw path parent name ip s = Ret (r, t)\<close> Some pn s1 1
        by (subst (asm) namex_loop.simps) (auto split: if_splits dest!: iunlock_more [THEN f] iunlockput_more [THEN f])
      then show ?thesis using m1 by simp
    next
      case 2
      from \<open>namex_loop dw path parent name ip s = Ret (r, t)\<close> Some pn s1 2 obtain nx s2 where
        x: "dirlookup dw ip name' s1 = Ret (nx, s2)" by (subst (asm) namex_loop.simps) (auto split: if_splits)
      have m2: "m s2 = m s1" by (rule dirlookup_frame [OF x 1(3)])
      have "m t = m s2"
      proof (cases nx)
        case None
        then show ?thesis using \<open>namex_loop dw path parent name ip s = Ret (r, t)\<close> Some pn s1 2 x
          by (subst (asm) namex_loop.simps) (auto split: if_splits dest!: iunlockput_more [THEN f])
      next
        case nx: (Some q)
        obtain o1 nip where q: "q = (o1, nip)" by (cases q)
        obtain s3 where y: "iunlockput ip s2 = Ret s3" "namex_loop dw path' parent name' nip s3 = Ret (r, t)"
          using \<open>namex_loop dw path parent name ip s = Ret (r, t)\<close> Some pn s1 2 x nx q
          by (subst (asm) (2) namex_loop.simps) (auto split: if_splits)
        have "m t = m s3" using 1(1) Some pn s1 2 x nx q y 1(3) by auto
        then show ?thesis using iunlockput_more [THEN f, OF y(1)] by simp
      qed
      then show ?thesis using m1 m2 by simp
    qed
  qed
qed

lemma namex_frame:
  assumes "namex devsw path parent name s = Ret (r, t)" "dev_frame m devsw"
  shows "m t = m s"
proof -
  note f = dev_frameD(1) [OF assms(2)]
  from assms(1) obtain ip s1 where "namex_loop devsw path parent name ip s1 = Ret (r, t)" "kfs.more s1 = kfs.more s"
    by (auto simp: namex_def split: if_splits dest!: iget_more)
  then show ?thesis using namex_loop_frame [OF _ assms(2)] f by metis
qed

lemma namei_frame: "namei devsw name path s = Ret (r, t) \<Longrightarrow> dev_frame m devsw \<Longrightarrow> m t = m s"
  by (auto simp: namei_def dest: namex_frame)

lemma nameiparent_frame: "nameiparent devsw path name s = Ret (r, t) \<Longrightarrow> dev_frame m devsw \<Longrightarrow> m t = m s"
  by (auto simp: nameiparent_def dest: namex_frame)

end
