(* ===== verification/File.thy ===== *)
theory File
  imports Dir Vm Pipe Ptable
begin

text \<open>
  The file table (\<open>xv6/file.c\<close>, \<open>xv6/file.h\<close>) and \<open>pipealloc\<close> of \<open>xv6/pipe.c\<close>, on the state of the whole kernel: the
  file system, memory, the process table, the file table and the pipes. A pointer to an open file is its index in \<open>ftable\<close>; a
  pipe is known by the address of its page, and its contents are kept apart from that page's bytes. \<open>kend\<close> is the
  linker symbol \<open>end\<close>, \<open>devsw\<close> the table of device functions.
\<close>

section \<open>State\<close>

datatype filetype = FD_NONE | FD_PIPE | FD_INODE

record ofile =
  ftype :: filetype
  fref :: int
  freadable :: bool
  fwritable :: bool
  fpipe :: uint
  fip :: nat
  foff :: uint

text \<open>
  \<open>cur\<close> is \<open>myproc()\<close>; its process identifier and its working directory are also in the fields \<open>curpid\<close> and \<open>cwd\<close>
  of the file system's state.
\<close>

record kern = kfs +
  kvm :: vm
  ftable :: "ofile list"
  pipes :: "uint \<Rightarrow> pipe"
  ptable :: ptab
  cur :: nat
  ticks :: uint
  first_ret :: bool

definition updfile :: "nat \<Rightarrow> ofile \<Rightarrow> 'a kern_scheme \<Rightarrow> 'a kern_scheme" where
  "updfile i f s = s\<lparr>ftable := (ftable s)[i := f]\<rparr>"

abbreviation myproc :: "'a kern_scheme \<Rightarrow> proc" where
  "myproc s \<equiv> procs (ptable s) ! cur s"

text \<open>An operation on memory, and one on the process table, on the whole state.\<close>

definition in_vm :: "(vm \<Rightarrow> ('r \<times> vm) res) \<Rightarrow> 'a kern_scheme \<Rightarrow> ('r \<times> 'a kern_scheme) res" where
  "in_vm f s = bindR (f (kvm s)) (\<lambda>(r, v). Ret (r, s\<lparr>kvm := v\<rparr>))"

definition wake_pipe :: "uint \<Rightarrow> pchan list \<Rightarrow> 'a kern_scheme \<Rightarrow> 'a kern_scheme" where
  "wake_pipe p chs s =
     s\<lparr>ptable := foldl (\<lambda>t ch. wakeup (case ch of ChNread \<Rightarrow> ChPipeRead (unat p) | ChNwrite \<Rightarrow> ChPipeWrite (unat p)) t) (ptable s) chs\<rparr>"

section \<open>Opening and closing\<close>

definition filealloc :: "'a kern_scheme \<Rightarrow> (nat option \<times> 'a kern_scheme)" where
  "filealloc s =
     (case find_index (\<lambda>f. fref f = 0) (ftable s) of
        None \<Rightarrow> (None, s)
      | Some i \<Rightarrow> (Some i, updfile i ((ftable s ! i)\<lparr>fref := 1\<rparr>) s))"

definition filedup :: "nat \<Rightarrow> 'a kern_scheme \<Rightarrow> 'a kern_scheme res" where
  "filedup i s =
     (let f = ftable s ! i in
      if fref f < 1 then Panic ''filedup'' else Ret (updfile i (f\<lparr>fref := fref f + 1\<rparr>) s))"

definition pipe_close :: "uint \<Rightarrow> uint \<Rightarrow> bool \<Rightarrow> 'a kern_scheme \<Rightarrow> 'a kern_scheme res" where
  "pipe_close kend p writable s =
     (let (gone, chs, q) = pipeclose writable (pipes s p);
          s = wake_pipe p chs (s\<lparr>pipes := (pipes s)(p := q)\<rparr>)
      in if gone then bindR (kfree kend p (kvm s)) (\<lambda>v. Ret (s\<lparr>kvm := v\<rparr>)) else Ret s)"

definition fileclose :: "uint \<Rightarrow> nat \<Rightarrow> 'a kern_scheme \<Rightarrow> 'a kern_scheme res" where
  "fileclose kend i s =
     (let ff = ftable s ! i in
      if fref ff < 1 then Panic ''fileclose''
      else if fref ff - 1 > 0 then Ret (updfile i (ff\<lparr>fref := fref ff - 1\<rparr>) s)
      else
        let s = updfile i (ff\<lparr>fref := 0, ftype := FD_NONE\<rparr>) s in
        case ftype ff of
          FD_PIPE \<Rightarrow> pipe_close kend (fpipe ff) (fwritable ff) s
        | FD_INODE \<Rightarrow> bindR (begin_op s) (\<lambda>s. bindR (iput (fip ff) s) end_op)
        | FD_NONE \<Rightarrow> Ret s)"

text \<open>The label \<open>bad\<close>: the files are closed with the type they got when they were allocated.\<close>

definition pipealloc_bad :: "uint \<Rightarrow> nat option \<Rightarrow> nat option \<Rightarrow> 'a kern_scheme \<Rightarrow> ((nat \<times> nat) option \<times> 'a kern_scheme) res" where
  "pipealloc_bad kend f0 f1 s =
     bindR (case f0 of None \<Rightarrow> Ret s | Some f \<Rightarrow> fileclose kend f s) (\<lambda>s.
     bindR (case f1 of None \<Rightarrow> Ret s | Some f \<Rightarrow> fileclose kend f s) (\<lambda>s.
     Ret (None, s)))"

definition pipealloc :: "uint \<Rightarrow> 'a kern_scheme \<Rightarrow> ((nat \<times> nat) option \<times> 'a kern_scheme) res" where
  "pipealloc kend s =
     (let (f0, s) = filealloc s in
      case f0 of
        None \<Rightarrow> pipealloc_bad kend None None s
      | Some f0 \<Rightarrow>
          let (f1, s) = filealloc s in
          case f1 of
            None \<Rightarrow> pipealloc_bad kend (Some f0) None s
          | Some f1 \<Rightarrow>
              let (p, v) = kalloc (kvm s);
                  s = s\<lparr>kvm := v\<rparr>
              in if p = 0 then pipealloc_bad kend (Some f0) (Some f1) s
                 else
                   let s = s\<lparr>pipes := (pipes s)(p := pipe_init (map (\<lambda>k. kmemory v (p + of_nat (52 + k))) [0..<PIPESIZE]))\<rparr>;
                       s = updfile f0 ((ftable s ! f0)\<lparr>ftype := FD_PIPE, freadable := True, fwritable := False, fpipe := p\<rparr>) s;
                       s = updfile f1 ((ftable s ! f1)\<lparr>ftype := FD_PIPE, freadable := False, fwritable := True, fpipe := p\<rparr>) s
                   in Ret (Some (f0, f1), s))"

section \<open>Reading and writing\<close>

definition filestat :: "nat \<Rightarrow> 'a kern_scheme \<Rightarrow> (stat option \<times> 'a kern_scheme) res" where
  "filestat i s =
     (let f = ftable s ! i in
      if ftype f = FD_INODE then
        bindR (ilock (fip f) s) (\<lambda>s.
        let st = stati (icache s ! fip f) in
        bindR (iunlock (fip f) s) (\<lambda>s. Ret (Some st, s)))
      else Ret (None, s))"

text \<open>
  The result of a call that may have to wait: it returns, or it sleeps on a channel. A reader of a pipe begins again when
  it is woken up; a writer goes on with the bytes that it has not stored yet.
\<close>

datatype 'r io = Done 'r | Wait chan "byte list"

definition advance :: "nat \<Rightarrow> int \<Rightarrow> 'a kern_scheme \<Rightarrow> 'a kern_scheme" where
  "advance i r s = updfile i ((ftable s ! i)\<lparr>foff := foff (ftable s ! i) + of_int r\<rparr>) s"

definition fileread :: "'a kern_scheme devsw \<Rightarrow> nat \<Rightarrow> nat \<Rightarrow> 'a kern_scheme \<Rightarrow> ((int \<times> byte list) io \<times> 'a kern_scheme) res" where
  "fileread devsw i n s =
     (let f = ftable s ! i in
      if \<not> freadable f then Ret (Done (- 1, []), s)
      else case ftype f of
        FD_PIPE \<Rightarrow>
          let (r, chs, q) = piperead (pkilled (myproc s)) n (pipes s (fpipe f));
              s = wake_pipe (fpipe f) chs (s\<lparr>pipes := (pipes s)(fpipe f := q)\<rparr>)
          in Ret (case r of
               RDone d \<Rightarrow> Done (int (length d), d)
             | RFail \<Rightarrow> Done (- 1, [])
             | RSleep \<Rightarrow> Wait (ChPipeRead (unat (fpipe f))) [], s)
      | FD_INODE \<Rightarrow>
          bindR (ilock (fip f) s) (\<lambda>s.
          bindR (readi devsw (fip f) (foff f) (of_nat n) s) (\<lambda>(r, d, s).
          let s = (if r > 0 then advance i r s else s) in
          bindR (iunlock (fip f) s) (\<lambda>s. Ret (Done (r, d), s))))
      | FD_NONE \<Rightarrow> Panic ''fileread'')"

text \<open>\<open>((MAXOPBLOCKS-1-1-2) / 2) * 512\<close>; the loop has \<open>i\<close> bytes written and \<open>src\<close> left.\<close>

abbreviation "MAXWRITE \<equiv> (1536 :: nat)"

function filewrite_loop :: "'a kern_scheme devsw \<Rightarrow> nat \<Rightarrow> byte list \<Rightarrow> 'a kern_scheme \<Rightarrow> (byte list \<times> 'a kern_scheme) res" where
  "filewrite_loop devsw i src s =
     (if src = [] then Ret ([], s)
      else
        let f = ftable s ! i;
            n1 = min (length src) MAXWRITE
        in bindR (begin_op s) (\<lambda>s.
           bindR (ilock (fip f) s) (\<lambda>s.
           bindR (writei devsw (fip f) (take n1 src) (foff f) s) (\<lambda>(r, s).
           let s = (if r > 0 then advance i r s else s) in
           bindR (iunlock (fip f) s) (\<lambda>s.
           bindR (end_op s) (\<lambda>s.
           if r < 0 then Ret (src, s)
           else if r \<noteq> int n1 then Panic ''short filewrite''
           else filewrite_loop devsw i (drop n1 src) s))))))"
  by pat_completeness auto
termination
  by (relation "measure (\<lambda>(devsw, i, src, s). length src)") auto

declare filewrite_loop.simps [simp del]

definition filewrite :: "'a kern_scheme devsw \<Rightarrow> nat \<Rightarrow> nat \<Rightarrow> byte list \<Rightarrow> 'a kern_scheme \<Rightarrow> (int io \<times> 'a kern_scheme) res" where
  "filewrite devsw i n src s =
     (let f = ftable s ! i in
      if \<not> fwritable f then Ret (Done (- 1), s)
      else case ftype f of
        FD_PIPE \<Rightarrow>
          let (r, chs, q) = pipewrite (pkilled (myproc s)) src (pipes s (fpipe f));
              s = wake_pipe (fpipe f) chs (s\<lparr>pipes := (pipes s)(fpipe f := q)\<rparr>)
          in Ret (case r of
               WDone \<Rightarrow> Done (int n)
             | WFail \<Rightarrow> Done (- 1)
             | WSleep rest \<Rightarrow> Wait (ChPipeWrite (unat (fpipe f))) rest, s)
      | FD_INODE \<Rightarrow>
          bindR (filewrite_loop devsw i src s) (\<lambda>(rest, s). Ret (Done (if rest = [] then int n else - 1), s))
      | FD_NONE \<Rightarrow> Panic ''filewrite'')"

end
