(* ===== verification/Proc.thy ===== *)
theory Proc
  imports File Printf
begin

text \<open>
  Creating, growing and ending processes: the parts of \<open>xv6/proc.c\<close> that work on memory, files and the
  process table together. The steps that the code does with \<open>ptable.lock\<close> held are those of \<open>Ptable\<close>.
\<close>

section \<open>Addresses and layouts\<close>

text \<open>The addresses that the linker gives to the kernel: its end, the start of its data, the two entry points that a new process returns through, and the code of the first process.\<close>

record ksyms =
  kend :: uint
  kdata :: uint
  trapret_addr :: uint
  forkret_addr :: uint
  initcode_start :: uint
  initcode_size :: uint

text \<open>Offsets in \<open>struct trapframe\<close> and \<open>struct context\<close>.\<close>

abbreviation "TF_SIZE \<equiv> (76 :: uint)"
abbreviation "TF_EAX \<equiv> (28 :: uint)"
abbreviation "TF_ES \<equiv> (40 :: uint)"
abbreviation "TF_DS \<equiv> (44 :: uint)"
abbreviation "TF_EIP \<equiv> (56 :: uint)"
abbreviation "TF_CS \<equiv> (60 :: uint)"
abbreviation "TF_EFLAGS \<equiv> (64 :: uint)"
abbreviation "TF_ESP \<equiv> (68 :: uint)"
abbreviation "TF_SS \<equiv> (72 :: uint)"
abbreviation "CTX_SIZE \<equiv> (20 :: uint)"
abbreviation "CTX_EBP \<equiv> (12 :: uint)"
abbreviation "CTX_EIP \<equiv> (16 :: uint)"

definition store16 :: "mem \<Rightarrow> uint \<Rightarrow> ushort \<Rightarrow> mem" where
  "store16 m a w = m(a := le16 w ! 0, a + 1 := le16 w ! 1)"

definition setmem :: "mem \<Rightarrow> 'a kern_scheme \<Rightarrow> 'a kern_scheme" where
  "setmem m s = s\<lparr>kvm := (kvm s)\<lparr>kmemory := m\<rparr>\<rparr>"

abbreviation getmem :: "'a kern_scheme \<Rightarrow> mem" where
  "getmem s \<equiv> kmemory (kvm s)"

definition setproc :: "nat \<Rightarrow> proc \<Rightarrow> 'a kern_scheme \<Rightarrow> 'a kern_scheme" where
  "setproc i p s = s\<lparr>ptable := updproc i p (ptable s)\<rparr>"

abbreviation getproc :: "'a kern_scheme \<Rightarrow> nat \<Rightarrow> proc" where
  "getproc s i \<equiv> procs (ptable s) ! i"

text \<open>\<open>safestrcpy(name, s, 16)\<close> on the bytes of \<open>name\<close>; a copied NUL is followed by the final one.\<close>

definition setname :: "byte list \<Rightarrow> byte list \<Rightarrow> byte list" where
  "setname name s = put_bytes 0 (if length (cname s) < 15 then cname s @ [0, 0] else take 15 (cname s) @ [0]) name"

section \<open>Creating a process\<close>

definition allocproc :: "ksyms \<Rightarrow> 'a kern_scheme \<Rightarrow> nat option \<times> 'a kern_scheme" where
  "allocproc ks s =
     (case alloc_slot (ptable s) of
        None \<Rightarrow> (None, s)
      | Some (i, t) \<Rightarrow>
          let s = s\<lparr>ptable := t\<rparr>;
              (k, v) = kalloc (kvm s);
              s = setproc i ((getproc s i)\<lparr>pkstack := k\<rparr>) (s\<lparr>kvm := v\<rparr>)
          in if k = 0 then (None, setproc i ((getproc s i)\<lparr>pstate := UNUSED\<rparr>) s)
             else
               let sp = k + PGSZ;
                   sp = sp - TF_SIZE;
                   s = setproc i ((getproc s i)\<lparr>ptf := sp\<rparr>) s;
                   sp = sp - 4;
                   m = store32 (getmem s) sp (trapret_addr ks);
                   sp = sp - CTX_SIZE;
                   m = memset m sp 0 CTX_SIZE;
                   m = store32 m (sp + CTX_EIP) (forkret_addr ks)
               in (Some i, setmem m (setproc i ((getproc s i)\<lparr>pcontext := sp\<rparr>) s)))"

text \<open>The trap frame that lets the first process start at address 0 in user mode with interrupts on.\<close>

definition init_tf :: "uint \<Rightarrow> mem \<Rightarrow> mem" where
  "init_tf tf m =
     (let m = memset m tf 0 TF_SIZE;
          m = store16 m (tf + TF_CS) 0x1B;
          m = store16 m (tf + TF_DS) 0x23;
          m = store16 m (tf + TF_ES) 0x23;
          m = store16 m (tf + TF_SS) 0x23;
          m = store32 m (tf + TF_EFLAGS) 0x200;
          m = store32 m (tf + TF_ESP) PGSZ
      in store32 m (tf + TF_EIP) 0)"

definition userinit :: "ksyms \<Rightarrow> 'a kern_scheme devsw \<Rightarrow> 'a kern_scheme \<Rightarrow> 'a kern_scheme res" where
  "userinit ks devsw s =
     (let (p, s) = allocproc ks s in
      case p of
        None \<Rightarrow> Undef ''userinit: null process''
      | Some i \<Rightarrow>
          let s = s\<lparr>ptable := (ptable s)\<lparr>initproc := i\<rparr>\<rparr> in
          bindR (in_vm (setupkvm (kend ks) (kdata ks)) s) (\<lambda>(d, s).
          let s = setproc i ((getproc s i)\<lparr>ppgdir := d\<rparr>) s in
          if d = 0 then Panic ''userinit: out of memory?''
          else
            bindR (inituvm d (initcode_start ks) (initcode_size ks) (kvm s)) (\<lambda>v.
            let s = setproc i ((getproc s i)\<lparr>psz := PGSZ\<rparr>) (s\<lparr>kvm := v\<rparr>);
                s = setmem (init_tf (ptf (getproc s i)) (getmem s)) s;
                s = setproc i ((getproc s i)\<lparr>pname := setname (pname (getproc s i)) (map (of_nat \<circ> of_char) ''initcode'')\<rparr>) s
            in bindR (namei devsw (replicate DIRSIZ 0) [SLASH] s) (\<lambda>(ip, s).
               let s = setproc i ((getproc s i)\<lparr>pcwd := ip\<rparr>) s
               in Ret (setproc i ((getproc s i)\<lparr>pstate := RUNNABLE\<rparr>) s)))))"

definition growproc :: "ksyms \<Rightarrow> int \<Rightarrow> 'a kern_scheme \<Rightarrow> (int \<times> 'a kern_scheme) res" where
  "growproc ks n s =
     (let p = myproc s; sz = psz p in
      bindR (if n > 0 then in_vm (allocuvm (kend ks) (ppgdir p) sz (sz + of_int n)) s
             else if n < 0 then in_vm (deallocuvm (kend ks) (ppgdir p) sz (sz + of_int n)) s
             else Ret (sz, s)) (\<lambda>(sz, s).
      if n \<noteq> 0 \<and> sz = 0 then Ret (- 1, s)
      else
        let s = setproc (cur s) ((myproc s)\<lparr>psz := sz\<rparr>) s
        in Ret (0, s\<lparr>kvm := (kvm s)\<lparr>cr3 := V2P (ppgdir (myproc s))\<rparr>\<rparr>)))"

definition fork_file :: "nat \<Rightarrow> nat \<Rightarrow> 'a kern_scheme \<Rightarrow> 'a kern_scheme res" where
  "fork_file np fd s =
     (case pofile (myproc s) ! fd of
        None \<Rightarrow> Ret s
      | Some f \<Rightarrow>
          bindR (filedup f s) (\<lambda>s.
          Ret (setproc np ((getproc s np)\<lparr>pofile := (pofile (getproc s np))[fd := Some f]\<rparr>) s)))"

definition fork :: "ksyms \<Rightarrow> 'a kern_scheme \<Rightarrow> (int \<times> 'a kern_scheme) res" where
  "fork ks s =
     (let (np, s) = allocproc ks s in
      case np of
        None \<Rightarrow> Ret (- 1, s)
      | Some np \<Rightarrow>
          bindR (in_vm (copyuvm (kend ks) (kdata ks) (ppgdir (myproc s)) (psz (myproc s))) s) (\<lambda>(d, s).
          let s = setproc np ((getproc s np)\<lparr>ppgdir := d\<rparr>) s in
          if d = 0 then
            bindR (kfree (kend ks) (pkstack (getproc s np)) (kvm s)) (\<lambda>v.
            Ret (- 1, setproc np ((getproc s np)\<lparr>pkstack := 0, pstate := UNUSED\<rparr>) (s\<lparr>kvm := v\<rparr>)))
          else
            let s = setproc np ((getproc s np)\<lparr>psz := psz (myproc s), pparent := Some (cur s)\<rparr>) s;
                m = memmove (getmem s) (ptf (getproc s np)) (ptf (myproc s)) TF_SIZE;
                s = setmem (store32 m (ptf (getproc s np) + TF_EAX) 0) s
            in bindR (foldR (fork_file np) [0..<NOFILE] s) (\<lambda>s.
               let s = idup (cwd s) s;
                   s = setproc np ((getproc s np)\<lparr>pcwd := Some (cwd s), pname := setname (pname (getproc s np)) (pname (myproc s))\<rparr>) s;
                   pid = ppid (getproc s np)
               in Ret (pid, setproc np ((getproc s np)\<lparr>pstate := RUNNABLE\<rparr>) s))))"

section \<open>Ending a process\<close>

definition exit_file :: "ksyms \<Rightarrow> nat \<Rightarrow> 'a kern_scheme \<Rightarrow> 'a kern_scheme res" where
  "exit_file ks fd s =
     (case pofile (myproc s) ! fd of
        None \<Rightarrow> Ret s
      | Some f \<Rightarrow>
          bindR (fileclose (kend ks) f s) (\<lambda>s.
          Ret (setproc (cur s) ((myproc s)\<lparr>pofile := (pofile (myproc s))[fd := None]\<rparr>) s)))"

text \<open>\<open>exit\<close> up to the switch to the scheduler, which does not come back.\<close>

definition exit :: "ksyms \<Rightarrow> 'a kern_scheme \<Rightarrow> 'a kern_scheme res" where
  "exit ks s =
     (if cur s = initproc (ptable s) then Panic ''init exiting''
      else
        bindR (foldR (exit_file ks) [0..<NOFILE] s) (\<lambda>s.
        bindR (begin_op s) (\<lambda>s.
        bindR (iput (cwd s) s) (\<lambda>s.
        bindR (end_op s) (\<lambda>s.
        let s = setproc (cur s) ((myproc s)\<lparr>pcwd := None\<rparr>) s
        in Ret (s\<lparr>ptable := exit_table (cur s) (ptable s)\<rparr>))))))"

text \<open>One turn of the outer loop of \<open>wait\<close>.\<close>

definition wait :: "ksyms \<Rightarrow> 'a kern_scheme \<Rightarrow> (int io \<times> 'a kern_scheme) res" where
  "wait ks s =
     (case wait_scan (cur s) (procs (ptable s)) of
        Reap i \<Rightarrow>
          let p = getproc s i in
          bindR (kfree (kend ks) (pkstack p) (kvm s)) (\<lambda>v.
          bindR (freevm (kend ks) (ppgdir p) v) (\<lambda>v.
          Ret (Done (ppid p), setproc i (reap p) (s\<lparr>kvm := v\<rparr>))))
      | NoChild \<Rightarrow> Ret (Done (- 1), s)
      | Block \<Rightarrow> Ret (Wait (ChProc (cur s)) [], s))"

text \<open>The first process to return from the scheduler sets up the file system and recovers it.\<close>

definition forkret :: "'a kern_scheme \<Rightarrow> 'a kern_scheme res" where
  "forkret s =
     (if first_ret s then bindR (iinit ROOTDEV (s\<lparr>first_ret := False\<rparr>)) (initlog ROOTDEV) else Ret s)"

section \<open>Listing the processes\<close>

definition state_name :: "procstate \<Rightarrow> string" where
  "state_name st =
     (case st of UNUSED \<Rightarrow> ''unused'' | EMBRYO \<Rightarrow> ''embryo'' | SLEEPING \<Rightarrow> ''sleep '' | RUNNABLE \<Rightarrow> ''runble''
      | RUNNING \<Rightarrow> ''run   '' | ZOMBIE \<Rightarrow> ''zombie'')"

definition procdump_line :: "mem \<Rightarrow> proc \<Rightarrow> string res" where
  "procdump_line m p =
     (if pstate p = UNUSED then Ret []
      else
        bindR (cprintf (\<lambda>a. if a = 1 then state_name (pstate p) else map (char_of \<circ> unat) (cname (pname p))) ''%d %s %s'' [of_int (ppid p), 1, 2]) (\<lambda>l.
        bindR (if pstate p = SLEEPING then
                 foldR (\<lambda>pc out. bindR (cprintf (\<lambda>_. []) '' %p'' [pc]) (\<lambda>x. Ret (out @ x)))
                   (takeWhile (\<lambda>pc. pc \<noteq> 0) (getcallerpcs (load32 m) (load32 m (pcontext p + CTX_EBP) + 8))) []
               else Ret []) (\<lambda>pcs.
        Ret (l @ pcs @ [CHR 0x0A]))))"

definition procdump :: "'a kern_scheme \<Rightarrow> string res" where
  "procdump s = foldR (\<lambda>p out. bindR (procdump_line (getmem s) p) (\<lambda>l. Ret (out @ l))) (procs (ptable s)) []"

end
