(* ===== verification/Args.thy ===== *)
theory Args
  imports Proc
begin

text \<open>
  How the kernel reads and writes the memory of the process that made a system call, and fetches the call's arguments from the
  user stack (\<open>xv6/syscall.c\<close>). The addresses go through the page table that the processor uses; an access to a
  page that is not there is a trap in kernel mode, which panics.
\<close>

section \<open>User memory\<close>

text \<open>The translation the processor makes for an access of the kernel.\<close>

definition mmu :: "bool \<Rightarrow> uint \<Rightarrow> 'a vm_scheme \<Rightarrow> uint res" where
  "mmu wr va v =
     (if va \<ge> KERNBASE then Ret va
      else
        let e = load32 (kmemory v) (P2V (cr3 v) + 4 * PDX va) in
        if e AND PTE_P = 0 then Panic ''trap''
        else
          let e = load32 (kmemory v) (P2V (PTE_ADDR e) + 4 * PTX va) in
          if e AND PTE_P = 0 \<or> wr \<and> e AND PTE_W = 0 then Panic ''trap''
          else Ret (P2V (PTE_ADDR e) + (va AND 0xFFF)))"

primrec uread :: "nat \<Rightarrow> uint \<Rightarrow> 'a kern_scheme \<Rightarrow> byte list res" where
  "uread 0 va s = Ret []"
| "uread (Suc n) va s =
     bindR (mmu False va (kvm s)) (\<lambda>a.
     bindR (uread n (va + 1) s) (\<lambda>bs. Ret (getmem s a # bs)))"

fun uwrite :: "uint \<Rightarrow> byte list \<Rightarrow> 'a kern_scheme \<Rightarrow> 'a kern_scheme res" where
  "uwrite va [] s = Ret s"
| "uwrite va (b # bs) s = bindR (mmu True va (kvm s)) (\<lambda>a. uwrite (va + 1) bs (setmem ((getmem s)(a := b)) s))"

section \<open>Arguments\<close>

text \<open>The result \<open>None\<close> stands for \<open>-1\<close>.\<close>

definition fetchint :: "uint \<Rightarrow> 'a kern_scheme \<Rightarrow> uint option res" where
  "fetchint addr s =
     (if addr \<ge> psz (myproc s) \<or> addr + 4 > psz (myproc s) then Ret None
      else bindR (uread 4 addr s) (\<lambda>bs. Ret (Some (of_le32 bs))))"

text \<open>The loop of \<open>fetchstr\<close> with \<open>n\<close> bytes left to the end of the process; the result is the string.\<close>

primrec fetchstr_loop :: "nat \<Rightarrow> uint \<Rightarrow> 'a kern_scheme \<Rightarrow> byte list option res" where
  "fetchstr_loop 0 a s = Ret None"
| "fetchstr_loop (Suc n) a s =
     bindR (mmu False a (kvm s)) (\<lambda>k.
     if getmem s k = 0 then Ret (Some [])
     else bindR (fetchstr_loop n (a + 1) s) (\<lambda>r. Ret (map_option (Cons (getmem s k)) r)))"

definition fetchstr :: "uint \<Rightarrow> 'a kern_scheme \<Rightarrow> byte list option res" where
  "fetchstr addr s =
     (if addr \<ge> psz (myproc s) then Ret None else fetchstr_loop (unat (psz (myproc s)) - unat addr) addr s)"

definition argint :: "uint \<Rightarrow> 'a kern_scheme \<Rightarrow> uint option res" where
  "argint n s = fetchint (load32 (getmem s) (ptf (myproc s) + TF_ESP) + 4 + 4 * n) s"

definition argptr :: "uint \<Rightarrow> int \<Rightarrow> 'a kern_scheme \<Rightarrow> uint option res" where
  "argptr n k s =
     bindR (argint n s) (\<lambda>i.
     case i of
       None \<Rightarrow> Ret None
     | Some i \<Rightarrow>
         if k < 0 \<or> i \<ge> psz (myproc s) \<or> i + of_int k > psz (myproc s) then Ret None else Ret (Some i))"

definition argstr :: "uint \<Rightarrow> 'a kern_scheme \<Rightarrow> byte list option res" where
  "argstr n s = bindR (argint n s) (\<lambda>a. case a of None \<Rightarrow> Ret None | Some a \<Rightarrow> fetchstr a s)"

section \<open>Arguments stay inside the process\<close>

lemma fetchstr_loop_Some:
  "fetchstr_loop n a s = Ret (Some str) \<Longrightarrow> length str < n \<and> 0 \<notin> set str \<and> uread (length str + 1) a s = Ret (str @ [0])"
proof (induction n arbitrary: a str)
  case (Suc n)
  from Suc.prems obtain k where k: "mmu False a (kvm s) = Ret k" by auto
  show ?case
  proof (cases "getmem s k = 0")
    case True
    then show ?thesis using Suc.prems k by auto
  next
    case False
    then obtain r where r: "fetchstr_loop n (a + 1) s = Ret (Some r)" "str = getmem s k # r" using Suc.prems k by auto
    then show ?thesis using Suc.IH [OF r(1)] False k by auto
  qed
qed simp

lemma argstr_Some:
  assumes "argstr n s = Ret (Some str)"
  obtains a where "argint n s = Ret (Some a)" "unat a + length str < unat (psz (myproc s))" "0 \<notin> set str" "uread (length str + 1) a s = Ret (str @ [0])"
proof -
  obtain x where x: "argint n s = Ret x" using assms by (auto simp: argstr_def)
  obtain a where a: "x = Some a" "fetchstr a s = Ret (Some str)" using assms x by (cases x) (auto simp: argstr_def)
  have lt: "unat a < unat (psz (myproc s))" using a(2) by (auto simp: fetchstr_def word_less_nat_alt word_le_nat_alt split: if_splits)
  have "fetchstr_loop (unat (psz (myproc s)) - unat a) a s = Ret (Some str)" using a(2) by (auto simp: fetchstr_def split: if_splits)
  from fetchstr_loop_Some [OF this] show ?thesis using that [of a] x a(1) lt by auto
qed

text \<open>
  C39. A system call only gets arguments that lie in the memory of its process: a block that \<open>argptr\<close> accepts has a nonnegative size and
  ends at or before the end of the process, with no wrap-around of the address, and a string that \<open>argstr\<close> accepts is
  terminated inside the process and has no NUL before its end. Process sizes are at most \<open>KERNBASE\<close>.
\<close>

theorem args_in_process:
  assumes "psz (myproc s) \<le> KERNBASE"
  shows "(argptr n k s = Ret (Some p) \<longrightarrow> k < 2 ^ 31 \<longrightarrow> 0 \<le> k \<and> unat p + nat k \<le> unat (psz (myproc s))) \<and>
    (argstr n s = Ret (Some str) \<longrightarrow>
       (\<exists>a. argint n s = Ret (Some a) \<and> unat a + length str < unat (psz (myproc s)) \<and> 0 \<notin> set str \<and> uread (length str + 1) a s = Ret (str @ [0])))"
proof (intro conjI impI)
  assume p: "argptr n k s = Ret (Some p)" and k: "k < 2 ^ 31"
  obtain x where x: "argint n s = Ret x" using p by (auto simp: argptr_def)
  have "x = Some p \<and> \<not> k < 0 \<and> \<not> p \<ge> psz (myproc s) \<and> \<not> p + of_int k > psz (myproc s)"
    using p x by (cases x) (auto simp: argptr_def split: if_splits)
  then have c: "0 \<le> k" "unat p < unat (psz (myproc s))" "unat (p + of_int k) \<le> unat (psz (myproc s))" by (auto simp: word_less_nat_alt word_le_nat_alt)
  have m: "unat (psz (myproc s)) \<le> 2147483648" using assms by (simp add: word_le_nat_alt)
  have "of_int k = (of_nat (nat k) :: uint)" using c(1) by simp
  moreover have "nat k < 2147483648" using k by simp
  ultimately have "unat (p + of_int k) = unat p + nat k" using c(2) m by (simp add: unat_word_ariths unat_of_nat)
  then show "0 \<le> k" "unat p + nat k \<le> unat (psz (myproc s))" using c by simp_all
next
  assume "argstr n s = Ret (Some str)"
  then show "\<exists>a. argint n s = Ret (Some a) \<and> unat a + length str < unat (psz (myproc s)) \<and> 0 \<notin> set str \<and> uread (length str + 1) a s = Ret (str @ [0])"
    by (rule argstr_Some) blast
qed

text \<open>A kernel with one process of one page, whose trap frame asks for system call 10, \<open>dup\<close>, and whose memory is zero.\<close>

definition mem1 :: mem where
  "mem1 = store32 (store32 (store32 (store32 (\<lambda>_. 0) 0x80400000 0x401007) 0x80401000 0x402007) 0x8040301C 10) 0x80403044 0xFE0"

definition proc1 :: proc where
  "proc1 = (slot0 RUNNING 1 None)\<lparr>psz := 4096, ppgdir := 0x80400000, ptf := 0x80403000, pofile := Some 0 # replicate 15 None\<rparr>"

definition kern1 :: kern where
  "kern1 = kfs.extend fs0 (kern.fields
     \<lparr>kmemory = mem1, use_lock = True, freelist = 0, kpgdir = 0, cr3 = 0x400000\<rparr>
     [\<lparr>ftype = FD_INODE, fref = 1, freadable = True, fwritable = True, fpipe = 0, fip = 0, foff = 0\<rparr>]
     (\<lambda>_. pipe_init []) \<lparr>procs = [proc1, (slot0 UNUSED 0 None)\<lparr>pofile := replicate 16 None\<rparr>], nextpid = 2, initproc = 0\<rparr> 0 0 False)"

lemma kern1_simps:
  "kvm kern1 = \<lparr>kmemory = mem1, use_lock = True, freelist = 0, kpgdir = 0, cr3 = 0x400000\<rparr>"
  "ptable kern1 = \<lparr>procs = [proc1, (slot0 UNUSED 0 None)\<lparr>pofile := replicate 16 None\<rparr>], nextpid = 2, initproc = 0\<rparr>"
  "cur kern1 = 0"
  "ftable kern1 = [\<lparr>ftype = FD_INODE, fref = 1, freadable = True, fwritable = True, fpipe = 0, fip = 0, foff = 0\<rparr>]"
  by (simp_all add: kern1_def kfs.defs kern.defs)

lemma mem1_loads:
  "load32 mem1 0x80400000 = 0x401007" "load32 mem1 0x80401000 = 0x402007" "load32 mem1 0x8040301C = 10" "load32 mem1 0x80403044 = 0xFE0"
  "load32 mem1 0x80402FE4 = 0"
  by (simp_all add: mem1_def load32_def store32_def)

lemma mmu_kern1:
  "mmu False 0 (kvm kern1) = Ret 0x80402000" "mmu False 0xFE4 (kvm kern1) = Ret 0x80402FE4" "mmu False 0xFE5 (kvm kern1) = Ret 0x80402FE5"
  "mmu False 0xFE6 (kvm kern1) = Ret 0x80402FE6" "mmu False 0xFE7 (kvm kern1) = Ret 0x80402FE7"
  by (simp_all add: mmu_def kern1_simps P2V_def PTE_ADDR_def PDX_def PTX_def mem1_loads)

lemma mem1_page: "mem1 0x80402000 = 0" "mem1 0x80402FE4 = 0" "mem1 0x80402FE5 = 0" "mem1 0x80402FE6 = 0" "mem1 0x80402FE7 = 0"
  by (simp_all add: mem1_def store32_def)

lemma argint_kern1: "argint 0 kern1 = Ret (Some 0)"
proof -
  have "uread (Suc (Suc (Suc (Suc 0)))) 0xFE4 kern1 = Ret [0, 0, 0, 0]" by (simp add: mmu_kern1 mem1_page) (simp add: kern1_simps mem1_page)
  then have "uread 4 0xFE4 kern1 = Ret [0, 0, 0, 0]" by (simp add: numeral_eq_Suc)
  then show ?thesis by (simp add: argint_def fetchint_def kern1_simps proc1_def mem1_loads)
qed

theorem args_in_process_witness:
  "psz (myproc kern1) = 4096 \<and> argptr 0 16 kern1 = Ret (Some 0) \<and> unat (0 :: uint) + nat 16 \<le> unat (psz (myproc kern1)) \<and>
   argstr 0 kern1 = Ret (Some [])"
proof -
  have p: "psz (myproc kern1) = 4096" by (simp add: kern1_simps proc1_def)
  have a: "argptr 0 16 kern1 = Ret (Some 0)" by (simp add: argptr_def argint_kern1 p)
  have "argstr 0 kern1 = Ret (Some [])"
    using fetchstr_loop.simps(2) [of 4095 0 kern1] mmu_kern1(1) mem1_page(1) kern1_simps(1)
    by (simp add: argstr_def argint_kern1 fetchstr_def p)
  then show ?thesis using args_in_process [of kern1 0 16 0 "[]"] p a by simp
qed

end
