(* ===== verification/Sysfile.thy ===== *)
theory Sysfile
  imports Args
begin

text \<open>
  The system calls on files and directories (\<open>xv6/sysfile.c\<close>). Path names are strings in user memory and are read when the
  argument is checked; the name buffers of the calls are uninitialised, and \<open>buf\<close> stands for what they hold.
\<close>

section \<open>Results\<close>

text \<open>
  A system call returns a number, ends the process, or sleeps on a channel. A call that sleeps goes on, when it is woken up, at the
  point where it slept: from its beginning, with the rest of a write to a pipe, or with the clock of \<open>sleep\<close>.
\<close>

datatype resume = Again | Write_rest nat nat "byte list" | Sleep_until int uint

datatype sysres = SRet int | SBlock chan resume | SExit

definition arg_or :: "'b option res \<Rightarrow> (sysres \<times> 's) \<Rightarrow> ('b \<Rightarrow> (sysres \<times> 's) res) \<Rightarrow> (sysres \<times> 's) res" where
  "arg_or x e f = bindR x (\<lambda>r. case r of None \<Rightarrow> Ret e | Some a \<Rightarrow> f a)"

abbreviation fail :: "'s \<Rightarrow> sysres \<times> 's" where
  "fail s \<equiv> (SRet (- 1), s)"

section \<open>Descriptors\<close>

definition argfd :: "uint \<Rightarrow> 'a kern_scheme \<Rightarrow> (nat \<times> nat) option res" where
  "argfd n s =
     bindR (argint n s) (\<lambda>fd.
     case fd of
       None \<Rightarrow> Ret None
     | Some fd \<Rightarrow>
         if sint fd < 0 \<or> sint fd \<ge> int NOFILE then Ret None
         else case pofile (myproc s) ! nat (sint fd) of
           None \<Rightarrow> Ret None
         | Some f \<Rightarrow> Ret (Some (nat (sint fd), f)))"

definition set_fd :: "nat \<Rightarrow> nat option \<Rightarrow> 'a kern_scheme \<Rightarrow> 'a kern_scheme" where
  "set_fd fd f s = setproc (cur s) ((myproc s)\<lparr>pofile := (pofile (myproc s))[fd := f]\<rparr>) s"

definition fdalloc :: "nat \<Rightarrow> 'a kern_scheme \<Rightarrow> nat option \<times> 'a kern_scheme" where
  "fdalloc f s =
     (case find_index (\<lambda>x. x = None) (take NOFILE (pofile (myproc s))) of
        None \<Rightarrow> (None, s)
      | Some fd \<Rightarrow> (Some fd, set_fd fd (Some f) s))"

definition sys_dup :: "'a kern_scheme \<Rightarrow> (sysres \<times> 'a kern_scheme) res" where
  "sys_dup s =
     arg_or (argfd 0 s) (fail s) (\<lambda>(_, f).
     case fdalloc f s of
       (None, s) \<Rightarrow> Ret (fail s)
     | (Some fd, s) \<Rightarrow> bindR (filedup f s) (\<lambda>s. Ret (SRet (int fd), s)))"

definition sys_read :: "'a kern_scheme devsw \<Rightarrow> 'a kern_scheme \<Rightarrow> (sysres \<times> 'a kern_scheme) res" where
  "sys_read devsw s =
     arg_or (argfd 0 s) (fail s) (\<lambda>(_, f).
     arg_or (argint 2 s) (fail s) (\<lambda>n.
     arg_or (argptr 1 (sint n) s) (fail s) (\<lambda>p.
     bindR (fileread devsw f (nat (sint n)) s) (\<lambda>(r, s).
     case r of
       Done (k, d) \<Rightarrow> bindR (uwrite p d s) (\<lambda>s. Ret (SRet k, s))
     | Wait ch _ \<Rightarrow> Ret (SBlock ch Again, s)))))"

definition write_sysres :: "nat \<Rightarrow> nat \<Rightarrow> int io \<Rightarrow> sysres" where
  "write_sysres f n r = (case r of Done k \<Rightarrow> SRet k | Wait ch rest \<Rightarrow> SBlock ch (Write_rest f n rest))"

definition sys_write :: "'a kern_scheme devsw \<Rightarrow> 'a kern_scheme \<Rightarrow> (sysres \<times> 'a kern_scheme) res" where
  "sys_write devsw s =
     arg_or (argfd 0 s) (fail s) (\<lambda>(_, f).
     arg_or (argint 2 s) (fail s) (\<lambda>n.
     arg_or (argptr 1 (sint n) s) (fail s) (\<lambda>p.
     bindR (uread (nat (sint n)) p s) (\<lambda>src.
     bindR (filewrite devsw f (nat (sint n)) src s) (\<lambda>(r, s).
     Ret (write_sysres f (nat (sint n)) r, s))))))"

definition sys_close :: "ksyms \<Rightarrow> 'a kern_scheme \<Rightarrow> (sysres \<times> 'a kern_scheme) res" where
  "sys_close ks s =
     arg_or (argfd 0 s) (fail s) (\<lambda>(fd, f).
     bindR (fileclose (kend ks) f (set_fd fd None s)) (\<lambda>s. Ret (SRet 0, s)))"

text \<open>\<open>struct stat\<close> has its fields at offsets 0, 4, 8, 12 and 16 and 20 bytes.\<close>

definition put_stat :: "uint \<Rightarrow> stat \<Rightarrow> 'a kern_scheme \<Rightarrow> 'a kern_scheme res" where
  "put_stat p st s =
     bindR (uwrite p (le16 (st_type st)) s) (\<lambda>s.
     bindR (uwrite (p + 4) (le32 (of_int (st_dev st))) s) (\<lambda>s.
     bindR (uwrite (p + 8) (le32 (st_ino st)) s) (\<lambda>s.
     bindR (uwrite (p + 12) (le16 (st_nlink st)) s) (\<lambda>s.
     uwrite (p + 16) (le32 (st_size st)) s))))"

definition sys_fstat :: "'a kern_scheme \<Rightarrow> (sysres \<times> 'a kern_scheme) res" where
  "sys_fstat s =
     arg_or (argfd 0 s) (fail s) (\<lambda>(_, f).
     arg_or (argptr 1 20 s) (fail s) (\<lambda>p.
     bindR (filestat f s) (\<lambda>(st, s).
     case st of
       None \<Rightarrow> Ret (fail s)
     | Some st \<Rightarrow> bindR (put_stat p st s) (\<lambda>s. Ret (SRet 0, s)))))"

section \<open>Links\<close>

text \<open>\<open>end_op(); return -1;\<close>\<close>

definition fail_op :: "'a kern_scheme \<Rightarrow> (sysres \<times> 'a kern_scheme) res" where
  "fail_op s = bindR (end_op s) (\<lambda>s. Ret (fail s))"

definition add_nlink :: "nat \<Rightarrow> ushort \<Rightarrow> 'a kern_scheme \<Rightarrow> 'a kern_scheme res" where
  "add_nlink i d s = iupdate i (updinode i ((icache s ! i)\<lparr>nlink := nlink (icache s ! i) + d\<rparr>) s)"

definition link_bad :: "nat \<Rightarrow> 'a kern_scheme \<Rightarrow> (sysres \<times> 'a kern_scheme) res" where
  "link_bad ip s =
     bindR (ilock ip s) (\<lambda>s.
     bindR (add_nlink ip (- 1) s) (\<lambda>s.
     bindR (iunlockput ip s) fail_op))"

definition sys_link :: "'a kern_scheme devsw \<Rightarrow> byte list \<Rightarrow> 'a kern_scheme \<Rightarrow> (sysres \<times> 'a kern_scheme) res" where
  "sys_link devsw buf s =
     arg_or (argstr 0 s) (fail s) (\<lambda>old.
     arg_or (argstr 1 s) (fail s) (\<lambda>new.
     bindR (begin_op s) (\<lambda>s.
     bindR (namei devsw buf old s) (\<lambda>(ip, s).
     case ip of
       None \<Rightarrow> fail_op s
     | Some ip \<Rightarrow>
         bindR (ilock ip s) (\<lambda>s.
         if itype (icache s ! ip) = T_DIR then bindR (iunlockput ip s) fail_op
         else
           bindR (add_nlink ip 1 s) (\<lambda>s.
           bindR (iunlock ip s) (\<lambda>s.
           bindR (nameiparent devsw new buf s) (\<lambda>(dp, s).
           case dp of
             None \<Rightarrow> link_bad ip s
           | Some (dp, name) \<Rightarrow>
               bindR (ilock dp s) (\<lambda>s.
               bindR (if idev (icache s ! dp) \<noteq> idev (icache s ! ip) then Ret (- 1, s)
                      else dirlink devsw dp name (inum (icache s ! ip)) s) (\<lambda>(r, s).
               if r < 0 then bindR (iunlockput dp s) (link_bad ip)
               else
                 bindR (iunlockput dp s) (\<lambda>s.
                 bindR (iput ip s) (\<lambda>s.
                 bindR (end_op s) (\<lambda>s. Ret (SRet 0, s))))))))))))))"

fun isdirempty_loop :: "'a kern_scheme devsw \<Rightarrow> nat \<Rightarrow> nat list \<Rightarrow> 'a kern_scheme \<Rightarrow> (bool \<times> 'a kern_scheme) res" where
  "isdirempty_loop devsw dp [] s = Ret (True, s)"
| "isdirempty_loop devsw dp (off # offs) s =
     bindR (readi devsw dp (of_nat off) (of_nat DESIZE) s) (\<lambda>(r, de, s).
     if r \<noteq> int DESIZE then Panic ''isdirempty: readi''
     else if rd16 de 0 \<noteq> 0 then Ret (False, s)
     else isdirempty_loop devsw dp offs s)"

definition isdirempty :: "'a kern_scheme devsw \<Rightarrow> nat \<Rightarrow> 'a kern_scheme \<Rightarrow> (bool \<times> 'a kern_scheme) res" where
  "isdirempty devsw dp s = isdirempty_loop devsw dp (drop 2 (de_offs (isize (icache s ! dp)))) s"

abbreviation dot :: "byte list" where
  "dot \<equiv> pad0 DIRSIZ [46]"

abbreviation dotdot :: "byte list" where
  "dotdot \<equiv> pad0 DIRSIZ [46, 46]"

definition unlink_bad :: "nat \<Rightarrow> 'a kern_scheme \<Rightarrow> (sysres \<times> 'a kern_scheme) res" where
  "unlink_bad dp s = bindR (iunlockput dp s) fail_op"

text \<open>\<open>sys_unlink\<close> from \<open>ilock(ip)\<close> on; \<open>off\<close> is the offset of the directory entry.\<close>

definition unlink_entry :: "'a kern_scheme devsw \<Rightarrow> nat \<Rightarrow> nat \<Rightarrow> nat \<Rightarrow> 'a kern_scheme \<Rightarrow> (sysres \<times> 'a kern_scheme) res" where
  "unlink_entry devsw dp ip off s =
     bindR (ilock ip s) (\<lambda>s.
     if sint (nlink (icache s ! ip)) < 1 then Panic ''unlink: nlink < 1''
     else
       bindR (if itype (icache s ! ip) = T_DIR then isdirempty devsw ip s else Ret (True, s)) (\<lambda>(e, s).
       if \<not> e then bindR (iunlockput ip s) (unlink_bad dp)
       else
         bindR (writei devsw dp (replicate DESIZE 0) (of_nat off) s) (\<lambda>(r, s).
         if r \<noteq> int DESIZE then Panic ''unlink: writei''
         else
           bindR (if itype (icache s ! ip) = T_DIR then add_nlink dp (- 1) s else Ret s) (\<lambda>s.
           bindR (iunlockput dp s) (\<lambda>s.
           bindR (add_nlink ip (- 1) s) (\<lambda>s.
           bindR (iunlockput ip s) (\<lambda>s.
           bindR (end_op s) (\<lambda>s. Ret (SRet 0, s)))))))))"

definition sys_unlink :: "'a kern_scheme devsw \<Rightarrow> byte list \<Rightarrow> 'a kern_scheme \<Rightarrow> (sysres \<times> 'a kern_scheme) res" where
  "sys_unlink devsw buf s =
     arg_or (argstr 0 s) (fail s) (\<lambda>path.
     bindR (begin_op s) (\<lambda>s.
     bindR (nameiparent devsw path buf s) (\<lambda>(dp, s).
     case dp of
       None \<Rightarrow> fail_op s
     | Some (dp, name) \<Rightarrow>
         bindR (ilock dp s) (\<lambda>s.
         if namecmp name dot = 0 \<or> namecmp name dotdot = 0 then unlink_bad dp s
         else
           bindR (dirlookup devsw dp name s) (\<lambda>(r, s).
           case r of
             None \<Rightarrow> unlink_bad dp s
           | Some (off, ip) \<Rightarrow> unlink_entry devsw dp ip off s)))))"

section \<open>Creating and opening\<close>

text \<open>\<open>create\<close> from \<open>ialloc\<close> on.\<close>

definition create_new :: "'a kern_scheme devsw \<Rightarrow> nat \<Rightarrow> byte list \<Rightarrow> ushort \<Rightarrow> ushort \<Rightarrow> ushort \<Rightarrow> 'a kern_scheme \<Rightarrow> (nat option \<times> 'a kern_scheme) res" where
  "create_new devsw dp name ty maj mnr s =
     bindR (ialloc (idev (icache s ! dp)) ty s) (\<lambda>(ip, s).
     bindR (ilock ip s) (\<lambda>s.
     bindR (iupdate ip (updinode ip ((icache s ! ip)\<lparr>major := maj, minor := mnr, nlink := 1\<rparr>) s)) (\<lambda>s.
     bindR (if ty = T_DIR then
              bindR (add_nlink dp 1 s) (\<lambda>s.
              bindR (dirlink devsw ip dot (inum (icache s ! ip)) s) (\<lambda>(r, s).
              if r < 0 then Panic ''create dots''
              else
                bindR (dirlink devsw ip dotdot (inum (icache s ! dp)) s) (\<lambda>(r, s).
                if r < 0 then Panic ''create dots'' else Ret s)))
            else Ret s) (\<lambda>s.
     bindR (dirlink devsw dp name (inum (icache s ! ip)) s) (\<lambda>(r, s).
     if r < 0 then Panic ''create: dirlink''
     else bindR (iunlockput dp s) (\<lambda>s. Ret (Some ip, s)))))))"

definition create :: "'a kern_scheme devsw \<Rightarrow> byte list \<Rightarrow> byte list \<Rightarrow> ushort \<Rightarrow> ushort \<Rightarrow> ushort \<Rightarrow> 'a kern_scheme \<Rightarrow> (nat option \<times> 'a kern_scheme) res" where
  "create devsw buf path ty maj mnr s =
     bindR (nameiparent devsw path buf s) (\<lambda>(dp, s).
     case dp of
       None \<Rightarrow> Ret (None, s)
     | Some (dp, name) \<Rightarrow>
         bindR (ilock dp s) (\<lambda>s.
         bindR (dirlookup devsw dp name s) (\<lambda>(r, s).
         case r of
           Some (_, ip) \<Rightarrow>
             bindR (iunlockput dp s) (\<lambda>s.
             bindR (ilock ip s) (\<lambda>s.
             if ty = T_FILE \<and> itype (icache s ! ip) = T_FILE then Ret (Some ip, s)
             else bindR (iunlockput ip s) (\<lambda>s. Ret (None, s))))
         | None \<Rightarrow> create_new devsw dp name ty maj mnr s)))"

abbreviation "O_WRONLY \<equiv> (1 :: uint)"
abbreviation "O_RDWR \<equiv> (2 :: uint)"
abbreviation "O_CREATE \<equiv> (0x200 :: uint)"

text \<open>\<open>sys_open\<close> with the inode \<open>ip\<close> locked.\<close>

definition open_inode :: "ksyms \<Rightarrow> uint \<Rightarrow> nat \<Rightarrow> 'a kern_scheme \<Rightarrow> (sysres \<times> 'a kern_scheme) res" where
  "open_inode ks omode ip s =
     (case filealloc s of
        (None, s) \<Rightarrow> bindR (iunlockput ip s) fail_op
      | (Some f, s) \<Rightarrow>
          case fdalloc f s of
            (None, s) \<Rightarrow> bindR (fileclose (kend ks) f s) (\<lambda>s. bindR (iunlockput ip s) fail_op)
          | (Some fd, s) \<Rightarrow>
              bindR (iunlock ip s) (\<lambda>s.
              bindR (end_op s) (\<lambda>s.
              Ret (SRet (int fd),
                updfile f ((ftable s ! f)\<lparr>ftype := FD_INODE, fip := ip, foff := 0, freadable := omode AND O_WRONLY = 0,
                  fwritable := omode AND O_WRONLY \<noteq> 0 \<or> omode AND O_RDWR \<noteq> 0\<rparr>) s))))"

definition sys_open :: "ksyms \<Rightarrow> 'a kern_scheme devsw \<Rightarrow> byte list \<Rightarrow> 'a kern_scheme \<Rightarrow> (sysres \<times> 'a kern_scheme) res" where
  "sys_open ks devsw buf s =
     arg_or (argstr 0 s) (fail s) (\<lambda>path.
     arg_or (argint 1 s) (fail s) (\<lambda>omode.
     bindR (begin_op s) (\<lambda>s.
     if omode AND O_CREATE \<noteq> 0 then
       bindR (create devsw buf path T_FILE 0 0 s) (\<lambda>(ip, s).
       case ip of
         None \<Rightarrow> fail_op s
       | Some ip \<Rightarrow> open_inode ks omode ip s)
     else
       bindR (namei devsw buf path s) (\<lambda>(ip, s).
       case ip of
         None \<Rightarrow> fail_op s
       | Some ip \<Rightarrow>
           bindR (ilock ip s) (\<lambda>s.
           if itype (icache s ! ip) = T_DIR \<and> omode \<noteq> 0 then bindR (iunlockput ip s) fail_op
           else open_inode ks omode ip s)))))"

definition close_new :: "nat \<Rightarrow> 'a kern_scheme \<Rightarrow> (sysres \<times> 'a kern_scheme) res" where
  "close_new ip s = bindR (iunlockput ip s) (\<lambda>s. bindR (end_op s) (\<lambda>s. Ret (SRet 0, s)))"

definition sys_mkdir :: "'a kern_scheme devsw \<Rightarrow> byte list \<Rightarrow> 'a kern_scheme \<Rightarrow> (sysres \<times> 'a kern_scheme) res" where
  "sys_mkdir devsw buf s =
     bindR (begin_op s) (\<lambda>s.
     bindR (argstr 0 s) (\<lambda>path.
     case path of
       None \<Rightarrow> fail_op s
     | Some path \<Rightarrow>
         bindR (create devsw buf path T_DIR 0 0 s) (\<lambda>(ip, s).
         case ip of None \<Rightarrow> fail_op s | Some ip \<Rightarrow> close_new ip s)))"

definition sys_mknod :: "'a kern_scheme devsw \<Rightarrow> byte list \<Rightarrow> 'a kern_scheme \<Rightarrow> (sysres \<times> 'a kern_scheme) res" where
  "sys_mknod devsw buf s =
     bindR (begin_op s) (\<lambda>s.
     bindR (argstr 0 s) (\<lambda>path.
     case path of
       None \<Rightarrow> fail_op s
     | Some path \<Rightarrow>
         bindR (argint 1 s) (\<lambda>maj.
         case maj of
           None \<Rightarrow> fail_op s
         | Some maj \<Rightarrow>
             bindR (argint 2 s) (\<lambda>mnr.
             case mnr of
               None \<Rightarrow> fail_op s
             | Some mnr \<Rightarrow>
                 bindR (create devsw buf path T_DEV (ucast maj) (ucast mnr) s) (\<lambda>(ip, s).
                 case ip of None \<Rightarrow> fail_op s | Some ip \<Rightarrow> close_new ip s)))))"

definition sys_chdir :: "'a kern_scheme devsw \<Rightarrow> byte list \<Rightarrow> 'a kern_scheme \<Rightarrow> (sysres \<times> 'a kern_scheme) res" where
  "sys_chdir devsw buf s =
     bindR (begin_op s) (\<lambda>s.
     bindR (argstr 0 s) (\<lambda>path.
     case path of
       None \<Rightarrow> fail_op s
     | Some path \<Rightarrow>
         bindR (namei devsw buf path s) (\<lambda>(ip, s).
         case ip of
           None \<Rightarrow> fail_op s
         | Some ip \<Rightarrow>
             bindR (ilock ip s) (\<lambda>s.
             if itype (icache s ! ip) \<noteq> T_DIR then bindR (iunlockput ip s) fail_op
             else
               bindR (iunlock ip s) (\<lambda>s.
               bindR (iput (cwd s) s) (\<lambda>s.
               bindR (end_op s) (\<lambda>s.
               let s = s\<lparr>cwd := ip\<rparr>
               in Ret (SRet 0, setproc (cur s) ((myproc s)\<lparr>pcwd := Some ip\<rparr>) s))))))))"

section \<open>Pipes\<close>

definition sys_pipe_bad :: "ksyms \<Rightarrow> nat \<Rightarrow> nat \<Rightarrow> 'a kern_scheme \<Rightarrow> (sysres \<times> 'a kern_scheme) res" where
  "sys_pipe_bad ks rf wfl s =
     bindR (fileclose (kend ks) rf s) (\<lambda>s. bindR (fileclose (kend ks) wfl s) (\<lambda>s. Ret (fail s)))"

definition sys_pipe :: "ksyms \<Rightarrow> 'a kern_scheme \<Rightarrow> (sysres \<times> 'a kern_scheme) res" where
  "sys_pipe ks s =
     arg_or (argptr 0 8 s) (fail s) (\<lambda>fd.
     bindR (pipealloc (kend ks) s) (\<lambda>(r, s).
     case r of
       None \<Rightarrow> Ret (fail s)
     | Some (rf, wfl) \<Rightarrow>
         (case fdalloc rf s of
            (None, s) \<Rightarrow> sys_pipe_bad ks rf wfl s
          | (Some fd0, s) \<Rightarrow>
              (case fdalloc wfl s of
                 (None, s) \<Rightarrow> sys_pipe_bad ks rf wfl (set_fd fd0 None s)
               | (Some fd1, s) \<Rightarrow>
                   bindR (uwrite fd (le32 (of_nat fd0)) s) (\<lambda>s.
                   bindR (uwrite (fd + 4) (le32 (of_nat fd1)) s) (\<lambda>s. Ret (SRet 0, s)))))))"

end
