(* ===== verification/Exec.thy ===== *)
theory Exec
  imports Sysfile
begin

text \<open>
  Replacing the program of a process (\<open>xv6/exec.c\<close>, with \<open>loaduvm\<close> and \<open>switchuvm\<close> of \<open>xv6/vm.c\<close>). The headers of the
  file are read as bytes at their offsets in \<open>struct elfhdr\<close> and \<open>struct proghdr\<close> of \<open>xv6/elf.h\<close>.
\<close>

section \<open>Loading\<close>

abbreviation "MAXARG \<equiv> (32 :: nat)"
abbreviation "ELF_MAGIC \<equiv> (0x464C457F :: uint)"

definition store_bytes :: "mem \<Rightarrow> uint \<Rightarrow> byte list \<Rightarrow> mem" where
  "store_bytes m a bs = foldl (\<lambda>m k. m(a + of_nat k := bs ! k)) m [0..<length bs]"

text \<open>The loop of \<open>loaduvm\<close> over the multiples of the page size below \<open>sz\<close>.\<close>

fun loaduvm_loop :: "'a kern_scheme devsw \<Rightarrow> uint \<Rightarrow> uint \<Rightarrow> nat \<Rightarrow> uint \<Rightarrow> uint \<Rightarrow> uint list \<Rightarrow> 'a kern_scheme \<Rightarrow> (int \<times> 'a kern_scheme) res" where
  "loaduvm_loop devsw pgdir addr ip offset sz [] s = Ret (0, s)"
| "loaduvm_loop devsw pgdir addr ip offset sz (i # is) s =
     (let (pte, _) = walkpgdir pgdir (addr + i) False (kvm s) in
      if pte = 0 then Panic ''loaduvm: address should exist''
      else
        let pa = PTE_ADDR (load32 (getmem s) pte);
            n = (if sz - i < PGSZ then sz - i else PGSZ)
        in bindR (readi devsw ip (offset + i) n s) (\<lambda>(r, d, s).
           let s = setmem (store_bytes (getmem s) (P2V pa) d) s in
           if of_int r \<noteq> n then Ret (- 1, s) else loaduvm_loop devsw pgdir addr ip offset sz is s))"

definition loaduvm :: "'a kern_scheme devsw \<Rightarrow> uint \<Rightarrow> uint \<Rightarrow> nat \<Rightarrow> uint \<Rightarrow> uint \<Rightarrow> 'a kern_scheme \<Rightarrow> (int \<times> 'a kern_scheme) res" where
  "loaduvm devsw pgdir addr ip offset sz s =
     (if addr mod PGSZ \<noteq> 0 then Panic ''loaduvm: addr must be page aligned''
      else loaduvm_loop devsw pgdir addr ip offset sz (page_addrs 0 sz) s)"

text \<open>The loop of \<open>exec\<close> over the remaining \<open>n\<close> program headers; \<open>None\<close> is the jump to \<open>bad\<close>.\<close>

fun exec_load :: "ksyms \<Rightarrow> 'a kern_scheme devsw \<Rightarrow> uint \<Rightarrow> nat \<Rightarrow> nat \<Rightarrow> uint \<Rightarrow> uint \<Rightarrow> 'a kern_scheme \<Rightarrow> (uint option \<times> 'a kern_scheme) res" where
  "exec_load ks devsw pgdir ip 0 off sz s = Ret (Some sz, s)"
| "exec_load ks devsw pgdir ip (Suc n) off sz s =
     bindR (readi devsw ip off 32 s) (\<lambda>(r, ph, s).
     if r \<noteq> 32 then Ret (None, s)
     else
       let ty = rd32 ph 0; poff = rd32 ph 4; vaddr = rd32 ph 8; filesz = rd32 ph 16; memsz = rd32 ph 20 in
       if ty \<noteq> 1 \<or> memsz = 0 then exec_load ks devsw pgdir ip n (off + 32) sz s
       else if memsz < filesz then Ret (None, s)
       else if vaddr + memsz < vaddr then Ret (None, s)
       else
         bindR (in_vm (allocuvm (kend ks) pgdir sz (vaddr + memsz)) s) (\<lambda>(sz, s).
         if sz = 0 then Ret (None, s)
         else if vaddr mod PGSZ \<noteq> 0 then Ret (None, s)
         else
           bindR (loaduvm devsw pgdir vaddr ip poff filesz s) (\<lambda>(r, s).
           if r < 0 then Ret (None, s) else exec_load ks devsw pgdir ip n (off + 32) sz s)))"

section \<open>The user stack\<close>

text \<open>\<open>copyout\<close> with a source that is given by its bytes: a string of the old program, or an array on the kernel stack.\<close>

function copyout_bytes :: "uint \<Rightarrow> uint \<Rightarrow> byte list \<Rightarrow> 'a kmem_scheme \<Rightarrow> (int \<times> 'a kmem_scheme) res" where
  "copyout_bytes pgdir va bs s =
     (if bs = [] then Ret (0, s)
      else
        let va0 = PGROUNDDOWN va in
        bindR (uva2ka pgdir va0 s) (\<lambda>pa0.
        if pa0 = 0 then Ret (- 1, s)
        else
          let n = min (length bs) (PGSIZE - unat (va - va0))
          in copyout_bytes pgdir (va0 + PGSZ) (drop n bs)
               (s\<lparr>kmemory := store_bytes (kmemory s) (pa0 + (va - va0)) (take n bs)\<rparr>)))"
  by pat_completeness auto
termination
  by (relation "measure (\<lambda>(pgdir, va, bs, s). length bs)") (auto simp: unat_minus_PGROUNDDOWN)

declare copyout_bytes.simps [simp del]

fun exec_args :: "uint \<Rightarrow> uint \<Rightarrow> uint list \<Rightarrow> byte list list \<Rightarrow> 'a kern_scheme \<Rightarrow> ((uint \<times> uint list) option \<times> 'a kern_scheme) res" where
  "exec_args pgdir sp ust [] s = Ret (Some (sp, ust), s)"
| "exec_args pgdir sp ust (a # as) s =
     (if length ust \<ge> MAXARG then Ret (None, s)
      else
        let sp = (sp - of_nat (length a + 1)) AND NOT 3 in
        bindR (in_vm (copyout_bytes pgdir sp (a @ [0])) s) (\<lambda>(r, s).
        if r < 0 then Ret (None, s) else exec_args pgdir sp (ust @ [sp]) as s))"

text \<open>The loop that finds the last element of the path.\<close>

fun last_elem :: "byte list \<Rightarrow> byte list \<Rightarrow> byte list" where
  "last_elem [] l = l"
| "last_elem (c # cs) l = last_elem cs (if c = SLASH then cs else l)"

section \<open>\<open>exec\<close>\<close>

text \<open>\<open>switchuvm\<close>: its checks and the load of the page table register; the segment descriptors of the processor are left out.\<close>

definition switchuvm :: "proc \<Rightarrow> 'a vm_scheme \<Rightarrow> 'a vm_scheme res" where
  "switchuvm p v =
     (if pkstack p = 0 then Panic ''switchuvm: no kstack''
      else if ppgdir p = 0 then Panic ''switchuvm: no pgdir''
      else Ret (v\<lparr>cr3 := V2P (ppgdir p)\<rparr>))"

definition exec_bad :: "ksyms \<Rightarrow> uint \<Rightarrow> nat option \<Rightarrow> 'a kern_scheme \<Rightarrow> (int \<times> 'a kern_scheme) res" where
  "exec_bad ks pgdir ip s =
     bindR (if pgdir \<noteq> 0 then bindR (freevm (kend ks) pgdir (kvm s)) (\<lambda>v. Ret (s\<lparr>kvm := v\<rparr>)) else Ret s) (\<lambda>s.
     case ip of
       None \<Rightarrow> Ret (- 1, s)
     | Some ip \<Rightarrow> bindR (iunlockput ip s) (\<lambda>s. bindR (end_op s) (\<lambda>s. Ret (- 1, s))))"

definition exec_commit :: "ksyms \<Rightarrow> byte list \<Rightarrow> uint \<Rightarrow> uint \<Rightarrow> uint \<Rightarrow> uint \<Rightarrow> 'a kern_scheme \<Rightarrow> (int \<times> 'a kern_scheme) res" where
  "exec_commit ks path pgdir sz entry sp s =
     (let s = setproc (cur s) ((myproc s)\<lparr>pname := setname (pname (myproc s)) (last_elem path path)\<rparr>) s;
          oldpgdir = ppgdir (myproc s);
          s = setproc (cur s) ((myproc s)\<lparr>ppgdir := pgdir, psz := sz\<rparr>) s;
          m = store32 (getmem s) (ptf (myproc s) + TF_EIP) entry;
          s = setmem (store32 m (ptf (myproc s) + TF_ESP) sp) s
      in bindR (switchuvm (myproc s) (kvm s)) (\<lambda>v.
         bindR (freevm (kend ks) oldpgdir v) (\<lambda>v.
         Ret (0, s\<lparr>kvm := v\<rparr>))))"

text \<open>\<open>exec\<close> after the program has been loaded.\<close>

definition exec_stack :: "ksyms \<Rightarrow> byte list \<Rightarrow> byte list list \<Rightarrow> uint \<Rightarrow> uint \<Rightarrow> uint \<Rightarrow> 'a kern_scheme \<Rightarrow> (int \<times> 'a kern_scheme) res" where
  "exec_stack ks path argv pgdir sz entry s =
     (let sz = PGROUNDUP sz in
      bindR (in_vm (allocuvm (kend ks) pgdir sz (sz + 2 * PGSZ)) s) (\<lambda>(sz, s).
      if sz = 0 then exec_bad ks pgdir None s
      else
        bindR (clearpteu pgdir (sz - 2 * PGSZ) (kvm s)) (\<lambda>v.
        bindR (exec_args pgdir sz [] argv (s\<lparr>kvm := v\<rparr>)) (\<lambda>(r, s).
        case r of
          None \<Rightarrow> exec_bad ks pgdir None s
        | Some (sp, ust) \<Rightarrow>
            let argc = of_nat (length ust);
                ustack = [0xFFFFFFFF, argc, sp - (argc + 1) * 4] @ ust @ [0];
                sp = sp - (3 + argc + 1) * 4
            in bindR (in_vm (copyout_bytes pgdir sp (concat (map le32 ustack))) s) (\<lambda>(r, s).
               if r < 0 then exec_bad ks pgdir None s else exec_commit ks path pgdir sz entry sp s)))))"

text \<open>The message that a failure of \<open>namei\<close> prints is left out.\<close>

definition exec :: "ksyms \<Rightarrow> 'a kern_scheme devsw \<Rightarrow> byte list \<Rightarrow> byte list \<Rightarrow> byte list list \<Rightarrow> 'a kern_scheme \<Rightarrow> (int \<times> 'a kern_scheme) res" where
  "exec ks devsw buf path argv s =
     bindR (begin_op s) (\<lambda>s.
     bindR (namei devsw buf path s) (\<lambda>(ip, s).
     case ip of
       None \<Rightarrow> bindR (end_op s) (\<lambda>s. Ret (- 1, s))
     | Some ip \<Rightarrow>
         bindR (ilock ip s) (\<lambda>s.
         bindR (readi devsw ip 0 52 s) (\<lambda>(r, elf, s).
         if r \<noteq> 52 then exec_bad ks 0 (Some ip) s
         else if rd32 elf 0 \<noteq> ELF_MAGIC then exec_bad ks 0 (Some ip) s
         else
           bindR (in_vm (setupkvm (kend ks) (kdata ks)) s) (\<lambda>(pgdir, s).
           if pgdir = 0 then exec_bad ks 0 (Some ip) s
           else
             bindR (exec_load ks devsw pgdir ip (unat (rd16 elf 44)) (rd32 elf 28) 0 s) (\<lambda>(sz, s).
             case sz of
               None \<Rightarrow> exec_bad ks pgdir (Some ip) s
             | Some sz \<Rightarrow>
                 bindR (iunlockput ip s) (\<lambda>s.
                 bindR (end_op s) (\<lambda>s.
                 exec_stack ks path argv pgdir sz (rd32 elf 24) s))))))))"

text \<open>The loop of \<open>sys_exec\<close>, with room for \<open>n\<close> more arguments.\<close>

primrec exec_argv :: "nat \<Rightarrow> uint \<Rightarrow> 'a kern_scheme \<Rightarrow> byte list list option res" where
  "exec_argv 0 uargv s = Ret None"
| "exec_argv (Suc n) uargv s =
     bindR (fetchint uargv s) (\<lambda>uarg.
     case uarg of
       None \<Rightarrow> Ret None
     | Some uarg \<Rightarrow>
         if uarg = 0 then Ret (Some [])
         else
           bindR (fetchstr uarg s) (\<lambda>a.
           case a of
             None \<Rightarrow> Ret None
           | Some a \<Rightarrow> bindR (exec_argv n (uargv + 4) s) (\<lambda>r. Ret (map_option (Cons a) r))))"

definition sys_exec :: "ksyms \<Rightarrow> 'a kern_scheme devsw \<Rightarrow> byte list \<Rightarrow> 'a kern_scheme \<Rightarrow> (sysres \<times> 'a kern_scheme) res" where
  "sys_exec ks devsw buf s =
     arg_or (argstr 0 s) (fail s) (\<lambda>path.
     arg_or (argint 1 s) (fail s) (\<lambda>uargv.
     arg_or (exec_argv MAXARG uargv s) (fail s) (\<lambda>argv.
     bindR (exec ks devsw buf path argv s) (\<lambda>(r, s). Ret (SRet r, s)))))"

end
