(* ===== verification/Syscall.thy ===== *)
theory Syscall
  imports Exec
begin

text \<open>
  The system calls on processes (\<open>xv6/sysproc.c\<close>), the dispatcher (\<open>xv6/syscall.c\<close>) and the trap handler (\<open>xv6/trap.c\<close>) on a
  processor that runs a process. \<open>buf\<close> is the initial contents of the name buffers.
\<close>

section \<open>System calls on processes\<close>

definition sys_fork :: "ksyms \<Rightarrow> 'a kern_scheme \<Rightarrow> (sysres \<times> 'a kern_scheme) res" where
  "sys_fork ks s = bindR (fork ks s) (\<lambda>(r, s). Ret (SRet r, s))"

definition sys_exit :: "ksyms \<Rightarrow> 'a kern_scheme \<Rightarrow> (sysres \<times> 'a kern_scheme) res" where
  "sys_exit ks s = bindR (exit ks s) (\<lambda>s. Ret (SExit, s))"

definition sys_wait :: "ksyms \<Rightarrow> 'a kern_scheme \<Rightarrow> (sysres \<times> 'a kern_scheme) res" where
  "sys_wait ks s =
     bindR (wait ks s) (\<lambda>(r, s). Ret (case r of Done pid \<Rightarrow> SRet pid | Wait ch _ \<Rightarrow> SBlock ch Again, s))"

definition sys_kill :: "'a kern_scheme \<Rightarrow> (sysres \<times> 'a kern_scheme) res" where
  "sys_kill s =
     arg_or (argint 0 s) (fail s) (\<lambda>pid.
     let (r, t) = kill (sint pid) (ptable s) in Ret (SRet r, s\<lparr>ptable := t\<rparr>))"

definition sys_getpid :: "'a kern_scheme \<Rightarrow> (sysres \<times> 'a kern_scheme) res" where
  "sys_getpid s = Ret (SRet (ppid (myproc s)), s)"

definition sys_sbrk :: "ksyms \<Rightarrow> 'a kern_scheme \<Rightarrow> (sysres \<times> 'a kern_scheme) res" where
  "sys_sbrk ks s =
     arg_or (argint 0 s) (fail s) (\<lambda>n.
     let addr = sint (psz (myproc s)) in
     bindR (growproc ks (sint n) s) (\<lambda>(r, s). if r < 0 then Ret (fail s) else Ret (SRet addr, s)))"

text \<open>The loop of \<open>sys_sleep\<close>; the comparison of \<open>uint\<close> with \<open>int\<close> is one of \<open>uint\<close>.\<close>

definition sleep_until :: "int \<Rightarrow> uint \<Rightarrow> 'a kern_scheme \<Rightarrow> sysres" where
  "sleep_until n ticks0 s =
     (if ticks s - ticks0 < of_int n then
        if pkilled (myproc s) then SRet (- 1) else SBlock ChTicks (Sleep_until n ticks0)
      else SRet 0)"

definition sys_sleep :: "'a kern_scheme \<Rightarrow> (sysres \<times> 'a kern_scheme) res" where
  "sys_sleep s = arg_or (argint 0 s) (fail s) (\<lambda>n. Ret (sleep_until (sint n) (ticks s) s, s))"

definition sys_uptime :: "'a kern_scheme \<Rightarrow> (sysres \<times> 'a kern_scheme) res" where
  "sys_uptime s = Ret (SRet (sint (ticks s)), s)"

section \<open>The dispatcher\<close>

definition syscalls :: "ksyms \<Rightarrow> 'a kern_scheme devsw \<Rightarrow> byte list \<Rightarrow> ('a kern_scheme \<Rightarrow> (sysres \<times> 'a kern_scheme) res) list" where
  "syscalls ks devsw buf =
     [sys_fork ks, sys_exit ks, sys_wait ks, sys_pipe ks, sys_read devsw, sys_kill, sys_exec ks devsw buf, sys_fstat,
      sys_chdir devsw buf, sys_dup, sys_getpid, sys_sbrk ks, sys_sleep, sys_uptime, sys_open ks devsw buf, sys_write devsw,
      sys_mknod devsw buf, sys_unlink devsw buf, sys_link devsw buf, sys_mkdir devsw buf, sys_close ks]"

definition set_eax :: "int \<Rightarrow> 'a kern_scheme \<Rightarrow> 'a kern_scheme" where
  "set_eax r s = setmem (store32 (getmem s) (ptf (myproc s) + TF_EAX) (of_int r)) s"

text \<open>The end of a call: its result goes to \<open>eax\<close>, or the process sleeps.\<close>

definition finish :: "sysres \<times> 'a kern_scheme \<Rightarrow> sysres \<times> 'a kern_scheme" where
  "finish x =
     (case x of
        (SRet r, s) \<Rightarrow> (SRet r, set_eax r s)
      | (SBlock ch k, s) \<Rightarrow> (SBlock ch k, s\<lparr>ptable := sleep_on ch (cur s) (ptable s)\<rparr>)
      | (SExit, s) \<Rightarrow> (SExit, s))"

text \<open>The message for an unknown number is left out.\<close>

definition syscall :: "ksyms \<Rightarrow> 'a kern_scheme devsw \<Rightarrow> byte list \<Rightarrow> 'a kern_scheme \<Rightarrow> (sysres \<times> 'a kern_scheme) res" where
  "syscall ks devsw buf s =
     (let num = sint (load32 (getmem s) (ptf (myproc s) + TF_EAX)) in
      if num > 0 \<and> num < 22 then bindR ((syscalls ks devsw buf ! nat (num - 1)) s) (\<lambda>x. Ret (finish x))
      else Ret (SRet (- 1), set_eax (- 1) s))"

text \<open>A call that has been woken up goes on.\<close>

definition syscall_resume :: "ksyms \<Rightarrow> 'a kern_scheme devsw \<Rightarrow> byte list \<Rightarrow> resume \<Rightarrow> 'a kern_scheme \<Rightarrow> (sysres \<times> 'a kern_scheme) res" where
  "syscall_resume ks devsw buf k s =
     (case k of
        Again \<Rightarrow> syscall ks devsw buf s
      | Write_rest f n rest \<Rightarrow> bindR (filewrite devsw f n rest s) (\<lambda>(r, s). Ret (finish (write_sysres f n r, s)))
      | Sleep_until n t0 \<Rightarrow> Ret (finish (sleep_until n t0 s, s)))"

section \<open>Traps\<close>

text \<open>
  How a trap ends: back to the process, with the process ended, asleep in a system call, or off the processor after a clock
  tick (the last check of \<open>trap\<close> follows when it runs again).
\<close>

datatype trapres = TReturn | TExited | TBlocked chan resume | TYielded

definition exit_killed :: "ksyms \<Rightarrow> trapres \<times> 'a kern_scheme \<Rightarrow> (trapres \<times> 'a kern_scheme) res" where
  "exit_killed ks x =
     (case x of
        (TReturn, s) \<Rightarrow> if pkilled (myproc s) then bindR (exit ks s) (\<lambda>s. Ret (TExited, s)) else Ret (TReturn, s)
      | _ \<Rightarrow> Ret x)"

definition trap_syscall :: "ksyms \<Rightarrow> 'a kern_scheme devsw \<Rightarrow> byte list \<Rightarrow> uint \<Rightarrow> 'a kern_scheme \<Rightarrow> (trapres \<times> 'a kern_scheme) res" where
  "trap_syscall ks devsw buf tf s =
     bindR (exit_killed ks (TReturn, s)) (\<lambda>(r, s).
     if r \<noteq> TReturn then Ret (r, s)
     else
       bindR (syscall ks devsw buf (setproc (cur s) ((myproc s)\<lparr>ptf := tf\<rparr>) s)) (\<lambda>(r, s).
       exit_killed ks (case r of SRet _ \<Rightarrow> TReturn | SExit \<Rightarrow> TExited | SBlock ch k \<Rightarrow> TBlocked ch k, s)))"

text \<open>
  The interrupts: \<open>cpu\<close> is \<open>cpuid()\<close>, \<open>devintr\<close> is what the handlers of the console do to the state when the
  interrupt comes from the keyboard or the serial line. Messages are left out.
\<close>

definition trap_irq :: "('a kern_scheme \<Rightarrow> 'a kern_scheme) \<Rightarrow> nat \<Rightarrow> uint \<Rightarrow> uint \<Rightarrow> 'a kern_scheme \<Rightarrow> 'a kern_scheme res" where
  "trap_irq devintr cpu trapno cs s =
     (if trapno = 32 then
        Ret (if cpu = 0 then s\<lparr>ticks := ticks s + 1, ptable := wakeup ChTicks (ptable s)\<rparr> else s)
      else if trapno = 46 \<or> trapno = 47 then Ret s
      else if trapno = 33 \<or> trapno = 36 then Ret (devintr s)
      else if trapno = 39 \<or> trapno = 63 then Ret s
      else if cs AND 3 = 0 then Panic ''trap''
      else Ret (setproc (cur s) ((myproc s)\<lparr>pkilled := True\<rparr>) s))"

definition trap :: "ksyms \<Rightarrow> 'a kern_scheme devsw \<Rightarrow> byte list \<Rightarrow> ('a kern_scheme \<Rightarrow> 'a kern_scheme) \<Rightarrow> nat \<Rightarrow> uint \<Rightarrow> 'a kern_scheme \<Rightarrow>
    (trapres \<times> 'a kern_scheme) res" where
  "trap ks devsw buf devintr cpu tf s =
     (let trapno = load32 (getmem s) (tf + 48);
          cs = load32 (getmem s) (tf + TF_CS) AND 0xFFFF;
          check = (\<lambda>s. if cs AND 3 = 3 then exit_killed ks (TReturn, s) else Ret (TReturn, s))
      in if trapno = 64 then trap_syscall ks devsw buf tf s
         else
           bindR (trap_irq devintr cpu trapno cs s) (\<lambda>s.
           bindR (check s) (\<lambda>(r, s).
           if r \<noteq> TReturn then Ret (r, s)
           else if pstate (myproc s) = RUNNING \<and> trapno = 32 then Ret (TYielded, s\<lparr>ptable := yield (cur s) (ptable s)\<rparr>)
           else check s)))"

end
