(* ===== verification/Refs.thy ===== *)
theory Refs
  imports Syscall FsFrame
begin

text \<open>
  Reference counts of open files. The count of a file in the table is the number of descriptors, of all processes, that refer to
  it. The invariant is stated on a view of the state: the counts, the descriptors of every process with a mark for
  slots that hold no process, and the current process. Operations that keep the view keep the invariant.
\<close>

section \<open>The view\<close>

definition idle :: "procstate \<Rightarrow> bool" where
  "idle st \<longleftrightarrow> st = UNUSED \<or> st = ZOMBIE"

definition fcounts :: "'a kern_scheme \<Rightarrow> int list" where
  "fcounts s = map fref (ftable s)"

definition pview :: "proc list \<Rightarrow> (nat option list \<times> bool) list" where
  "pview ps = map (\<lambda>p. (pofile p, idle (pstate p))) ps"

definition fview :: "'a kern_scheme \<Rightarrow> int list \<times> (nat option list \<times> bool) list \<times> nat" where
  "fview s = (fcounts s, pview (procs (ptable s)), cur s)"

lemma fview_more: "kfs.more t = kfs.more s \<Longrightarrow> fview t = fview s"
  by (cases s; cases t) (simp add: fview_def fcounts_def)

lemma fview_upd [simp]:
  "fview (s\<lparr>kvm := v\<rparr>) = fview s" "fview (s\<lparr>pipes := q\<rparr>) = fview s" "fview (s\<lparr>ticks := n\<rparr>) = fview s" "fview (s\<lparr>cwd := d\<rparr>) = fview s"
  "fview (s\<lparr>first_ret := b\<rparr>) = fview s" "fview (setmem m s) = fview s" "fview (updinode i ip s) = fview s" "fview (idup i s) = fview s"
  by (simp_all add: fview_def fcounts_def setmem_def updinode_def idup_def)

lemma pview_wakeup1 [simp]: "pview (wakeup1 ch ps) = pview ps"
  by (auto simp: pview_def wakeup1_def idle_def)

lemma pview_update: "pview (ps[i := p]) = (pview ps)[i := (pofile p, idle (pstate p))]"
  by (simp add: pview_def map_update)

lemma length_pview [simp]: "length (pview ps) = length ps"
  by (simp add: pview_def)

lemma pview_nth: "i < length ps \<Longrightarrow> pview ps ! i = (pofile (ps ! i), idle (pstate (ps ! i)))"
  by (simp add: pview_def)

lemma pview_same:
  assumes "pofile p = pofile (ps ! i)" "idle (pstate p) = idle (pstate (ps ! i))"
  shows "pview (ps[i := p]) = pview ps"
proof (cases "i < length ps")
  case True
  then have "pview ps ! i = (pofile p, idle (pstate p))" using assms by (simp add: pview_def)
  then show ?thesis unfolding pview_update by (metis list_update_id)
qed (simp add: list_update_beyond)

lemma fview_setproc: "pofile p = pofile (getproc s i) \<Longrightarrow> idle (pstate p) = idle (pstate (getproc s i)) \<Longrightarrow> fview (setproc i p s) = fview s"
  by (simp add: fview_def fcounts_def setproc_def pview_same)

lemma fview_wake_pipe [simp]: "fview (wake_pipe p chs s) = fview s"
proof -
  have "pview (procs (foldl (\<lambda>t ch. wakeup (f ch) t) u chs)) = pview (procs u)" for f and u :: "'b ptab_scheme"
    by (induction chs arbitrary: u) (simp_all add: wakeup_def)
  then show ?thesis by (simp add: wake_pipe_def fview_def fcounts_def)
qed

lemma fview_updfile: "fref f = fref (ftable s ! i) \<Longrightarrow> fview (updfile i f s) = fview s"
  by (simp add: fview_def fcounts_def updfile_def map_update) (metis list_update_beyond list_update_id map_update not_le_imp_less nth_map)

lemma fview_advance [simp]: "fview (advance i r s) = fview s"
  by (simp add: advance_def fview_updfile)

lemma fview_in_vm: "in_vm f s = Ret (r, t) \<Longrightarrow> fview t = fview s"
  by (auto simp: in_vm_def)

section \<open>The invariant\<close>

definition refs :: "nat \<Rightarrow> (nat option list \<times> bool) list \<Rightarrow> int" where
  "refs f os = (\<Sum>x\<leftarrow>concat (map fst os). of_bool (x = Some f))"

definition refs_ok :: "int list \<Rightarrow> (nat option list \<times> bool) list \<Rightarrow> bool" where
  "refs_ok cs os \<longleftrightarrow>
     (\<forall>f < length cs. cs ! f = refs f os) \<and>
     (\<forall>p \<in> set os. length (fst p) = NOFILE \<and> (\<forall>f. Some f \<in> set (fst p) \<longrightarrow> f < length cs) \<and>
        (snd p \<longrightarrow> fst p = replicate NOFILE None))"

definition files_ok :: "'a kern_scheme \<Rightarrow> bool" where
  "files_ok s \<longleftrightarrow> refs_ok (fcounts s) (pview (procs (ptable s)))"

lemma files_ok_fview: "fview t = fview s \<Longrightarrow> files_ok t = files_ok s"
  by (simp add: files_ok_def fview_def)

definition occ :: "nat \<Rightarrow> nat option list \<Rightarrow> int" where
  "occ f xs = (\<Sum>x\<leftarrow>xs. of_bool (x = Some f))"

lemma occ_Cons [simp]: "occ f (x # xs) = of_bool (x = Some f) + occ f xs"
  by (simp add: occ_def)

lemma occ_update: "j < length xs \<Longrightarrow> occ f (xs[j := x]) = occ f xs - of_bool (xs ! j = Some f) + of_bool (x = Some f)"
  by (induction xs arbitrary: j) (auto split: nat.split)

lemma refs_Cons: "refs f (p # os) = occ f (fst p) + refs f os"
  by (simp add: refs_def occ_def)

lemma refs_update: "i < length os \<Longrightarrow> refs f (os[i := p]) = refs f os - occ f (fst (os ! i)) + occ f (fst p)"
  by (induction os arbitrary: i) (auto simp: refs_Cons split: nat.split)

lemma refs_okD:
  assumes "refs_ok cs os" "i < length os"
  shows "length (fst (os ! i)) = NOFILE" "Some f \<in> set (fst (os ! i)) \<Longrightarrow> f < length cs" "snd (os ! i) \<Longrightarrow> fst (os ! i) = replicate NOFILE None"
  using assms by (auto simp: refs_ok_def)

lemma refs_ok_put:
  assumes "refs_ok cs os" "i < length os" "length cs' = length cs" "length xs = NOFILE" "\<And>f. Some f \<in> set xs \<Longrightarrow> f < length cs"
    "b \<Longrightarrow> xs = replicate NOFILE None" "\<And>f. f < length cs \<Longrightarrow> cs' ! f = cs ! f - occ f (fst (os ! i)) + occ f xs"
  shows "refs_ok cs' (os[i := (xs, b)])"
  unfolding refs_ok_def
proof (intro conjI allI impI ballI)
  fix f
  assume f: "f < length cs'"
  then show "cs' ! f = refs f (os[i := (xs, b)])" using assms(1-3,7) by (simp add: refs_update refs_ok_def)
next
  fix p
  assume "p \<in> set (os[i := (xs, b)])"
  then have p: "p \<in> set os \<or> p = (xs, b)" using set_update_subset_insert by fast
  then show "length (fst p) = NOFILE" using assms(1,4) by (auto simp: refs_ok_def)
  show "f < length cs'" if "Some f \<in> set (fst p)" for f using p that assms(1,3,5) by (auto simp: refs_ok_def)
  show "fst p = replicate NOFILE None" if "snd p" using p that assms(1,6) by (auto simp: refs_ok_def)
qed

text \<open>A descriptor goes away, comes up, and a slot changes between used and unused.\<close>

lemma refs_drop:
  assumes "refs_ok cs os" "i < length os" "fd < NOFILE" "fst (os ! i) ! fd = Some f"
  shows "f < length cs" "refs_ok (cs[f := cs ! f - 1]) (os[i := ((fst (os ! i))[fd := None], snd (os ! i))])"
proof -
  note d = refs_okD [OF assms(1,2)]
  show f: "f < length cs" using d(1,2) assms(3,4) by (metis nth_mem)
  show "refs_ok (cs[f := cs ! f - 1]) (os[i := ((fst (os ! i))[fd := None], snd (os ! i))])"
  proof (rule refs_ok_put [OF assms(1,2)])
    show "g < length cs" if "Some g \<in> set ((fst (os ! i))[fd := None])" for g
      using that d(2) set_update_subset_insert [of "fst (os ! i)" fd None] by blast
    show "(fst (os ! i))[fd := None] = replicate NOFILE None" if "snd (os ! i)"
      using d(3) [OF that] assms(3,4) by simp
  qed (use d(1) f assms(3,4) in \<open>auto simp: occ_update nth_list_update\<close>)
qed

lemma refs_add:
  assumes "refs_ok cs os" "i < length os" "fd < NOFILE" "fst (os ! i) ! fd = None" "f < length cs"
  shows "refs_ok (cs[f := cs ! f + 1]) (os[i := ((fst (os ! i))[fd := Some f], False)])"
proof (rule refs_ok_put [OF assms(1,2)])
  note d = refs_okD [OF assms(1,2)]
  show "g < length cs" if "Some g \<in> set ((fst (os ! i))[fd := Some f])" for g
    using that d(2) assms(5) set_update_subset_insert [of "fst (os ! i)" fd "Some f"] by blast
qed (use refs_okD(1) [OF assms(1,2)] assms(3-5) in \<open>auto simp: occ_update nth_list_update\<close>)

lemma refs_flag:
  assumes "refs_ok cs os" "i < length os" "b \<Longrightarrow> fst (os ! i) = replicate NOFILE None"
  shows "refs_ok cs (os[i := (fst (os ! i), b)])"
  by (rule refs_ok_put [OF assms(1,2)]) (use refs_okD [OF assms(1,2)] assms(3) in auto)

section \<open>Operations on the table\<close>

lemma fcounts_updfile: "fcounts (updfile i f s) = (fcounts s)[i := fref f]"
  by (simp add: fcounts_def updfile_def map_update)

lemma fview_filedup: "filedup i s = Ret t \<Longrightarrow> i < length (fcounts s) \<Longrightarrow>
    fview t = ((fcounts s)[i := fcounts s ! i + 1], pview (procs (ptable s)), cur s)"
  by (auto simp: filedup_def Let_def fview_def fcounts_updfile split: if_splits) (auto simp: updfile_def fcounts_def)

lemma fview_filealloc:
  assumes "filealloc s = (r, t)"
  shows "r = None \<Longrightarrow> t = s"
    "r = Some i \<Longrightarrow> i < length (fcounts s) \<and> fcounts s ! i = 0 \<and> fview t = ((fcounts s)[i := 1], pview (procs (ptable s)), cur s)"
proof -
  show "t = s" if "r = None" using that assms by (auto simp: filealloc_def split: option.splits)
  show "i < length (fcounts s) \<and> fcounts s ! i = 0 \<and> fview t = ((fcounts s)[i := 1], pview (procs (ptable s)), cur s)" if "r = Some i"
  proof -
    have f: "find_index (\<lambda>f. fref f = 0) (ftable s) = Some i" and t: "t = updfile i ((ftable s ! i)\<lparr>fref := 1\<rparr>) s"
      using that assms by (auto simp: filealloc_def split: option.splits)
    show ?thesis using find_index_SomeD [OF f] by (simp add: t fview_def fcounts_updfile) (simp add: fcounts_def updfile_def)
  qed
qed

lemma fview_fileclose:
  assumes "fileclose ke i s = Ret t" "i < length (fcounts s)"
  shows "fview t = ((fcounts s)[i := fcounts s ! i - 1], pview (procs (ptable s)), cur s)"
proof -
  have one: "fref (ftable s ! i) - 1 = 0" if "\<not> fref (ftable s ! i) < 1" "\<not> fref (ftable s ! i) - 1 > 0" using that by simp
  define u where "u = updfile i ((ftable s ! i)\<lparr>fref := 0, ftype := FD_NONE\<rparr>) s"
  have u: "fview u = ((fcounts s)[i := 0], pview (procs (ptable s)), cur s)"
    by (simp add: fview_def u_def fcounts_updfile) (simp add: updfile_def)
  have c: "fcounts s ! i = fref (ftable s ! i)" using assms(2) by (simp add: fcounts_def)
  have pc: "pipe_close ke p w u = Ret t \<Longrightarrow> fview t = fview u" for p w
    by (auto simp: pipe_close_def Let_def split: prod.splits if_splits)
  have io: "begin_op u = Ret v \<Longrightarrow> iput k v = Ret w \<Longrightarrow> end_op w = Ret t \<Longrightarrow> fview t = fview u" for k v w
    by (drule begin_op_more [THEN more_fs, THEN fview_more], drule iput_more [THEN fview_more], drule end_op_more [THEN more_fs, THEN fview_more]) simp
  show ?thesis
  proof (cases "fref (ftable s ! i) - 1 > 0")
    case True
    then show ?thesis using assms(1) c
      by (auto simp: fileclose_def Let_def fview_def fcounts_updfile split: if_splits) (auto simp: updfile_def)
  next
    case False
    then have "fview t = fview u" and "\<not> fref (ftable s ! i) < 1" using assms(1)
      by (auto simp: fileclose_def Let_def u_def [symmetric] split: if_splits filetype.splits dest!: pc intro: io)
    then show ?thesis using False c u by simp
  qed
qed

abbreviation ofiles :: "'a kern_scheme \<Rightarrow> (nat option list \<times> bool) list" where
  "ofiles s \<equiv> pview (procs (ptable s))"

lemma fviewE: "fview t = (cs, os, c) \<Longrightarrow> fcounts t = cs \<and> ofiles t = os \<and> cur t = c"
  by (simp add: fview_def)

lemma fview_pipealloc:
  assumes "pipealloc ke s = Ret (r, t)"
  shows "r = None \<Longrightarrow> fview t = fview s"
    "r = Some (f0, f1) \<Longrightarrow> f0 < length (fcounts s) \<and> f1 < length (fcounts s) \<and> f0 \<noteq> f1 \<and> fcounts s ! f0 = 0 \<and> fcounts s ! f1 = 0 \<and>
       fview t = ((fcounts s)[f0 := 1, f1 := 1], ofiles s, cur s)"
proof -
  let ?Q = "(r = None \<longrightarrow> fview t = fview s) \<and>
    (r = Some (f0, f1) \<longrightarrow> f0 < length (fcounts s) \<and> f1 < length (fcounts s) \<and> f0 \<noteq> f1 \<and> fcounts s ! f0 = 0 \<and> fcounts s ! f1 = 0 \<and>
       fview t = ((fcounts s)[f0 := 1, f1 := 1], ofiles s, cur s))"
  obtain a s1 where a: "filealloc s = (a, s1)" by (cases "filealloc s")
  have ?Q
  proof (cases a)
    case None
    then show ?thesis using assms a fview_filealloc(1) [OF a] by (auto simp: pipealloc_def pipealloc_bad_def)
  next
    case (Some g0)
    note v1 = fview_filealloc(2) [OF a Some]
    then have w1: "fcounts s1 = (fcounts s)[g0 := 1]" "ofiles s1 = ofiles s" "cur s1 = cur s" by (auto dest: fviewE)
    obtain b s2 where b: "filealloc s1 = (b, s2)" by (cases "filealloc s1")
    show ?thesis
    proof (cases b)
      case None
      then have "s2 = s1" using fview_filealloc(1) [OF b] by simp
      then have "r = None" "fileclose ke g0 s1 = Ret t" using assms a b None Some by (auto simp: pipealloc_def pipealloc_bad_def)
      then have "fview t = fview s" using fview_fileclose [of ke g0 s1 t] v1 w1 by (simp add: fview_def) (metis list_update_id)
      then show ?thesis using \<open>r = None\<close> by simp
    next
      case b1: (Some g1)
      note v2 = fview_filealloc(2) [OF b b1]
      then have w2: "fcounts s2 = (fcounts s)[g0 := 1, g1 := 1]" "ofiles s2 = ofiles s" "cur s2 = cur s" using w1 by (auto dest: fviewE)
      have ne: "g0 \<noteq> g1" "fcounts s ! g1 = 0" "g1 < length (fcounts s)" using v1 v2 w1 by (auto simp: nth_list_update split: if_splits)
      obtain p v where k: "kalloc (kvm s2) = (p, v)" by (cases "kalloc (kvm s2)")
      show ?thesis
      proof (cases "p = 0")
        case True
        then obtain u where u: "r = None" "fileclose ke g0 (s2\<lparr>kvm := v\<rparr>) = Ret u" "fileclose ke g1 u = Ret t"
          using assms a b b1 Some k by (auto simp: pipealloc_def pipealloc_bad_def)
        have "fview (s2\<lparr>kvm := v\<rparr>) = fview s2" by simp
        then have x: "fcounts (s2\<lparr>kvm := v\<rparr>) = fcounts s2" "ofiles (s2\<lparr>kvm := v\<rparr>) = ofiles s2" "cur (s2\<lparr>kvm := v\<rparr>) = cur s2" by (simp_all add: fcounts_def)
        have "fview u = ((fcounts s)[g1 := 1], ofiles s, cur s)"
          using fview_fileclose [OF u(2)] x w2 ne v1 by (simp add: list_update_swap) (metis list_update_id list_update_swap)
        then have y: "fcounts u = (fcounts s)[g1 := 1]" "ofiles u = ofiles s" "cur u = cur s" by (auto dest: fviewE)
        have "fview t = fview s" using fview_fileclose [OF u(3)] y ne by (simp add: fview_def) (metis list_update_id)
        then show ?thesis using u(1) by simp
      next
        case False
        have "r = Some (g0, g1)" "fview t = fview s2"
          using assms a b b1 Some k False
          by (auto simp: pipealloc_def Let_def fview_updfile)
        then show ?thesis using w2 ne v1 by (auto simp: fview_def)
      qed
    qed
  qed
  then show "r = None \<Longrightarrow> fview t = fview s"
    "r = Some (f0, f1) \<Longrightarrow> f0 < length (fcounts s) \<and> f1 < length (fcounts s) \<and> f0 \<noteq> f1 \<and> fcounts s ! f0 = 0 \<and> fcounts s ! f1 = 0 \<and>
       fview t = ((fcounts s)[f0 := 1, f1 := 1], ofiles s, cur s)" by blast+
qed

lemma ofiles_cur:
  assumes "cur s < length (procs (ptable s))"
  shows "cur s < length (ofiles s)" "ofiles s ! cur s = (pofile (myproc s), idle (pstate (myproc s)))"
  using assms by (simp_all add: pview_def)

lemma fview_set_fd:
  assumes "cur s < length (procs (ptable s))"
  shows "fview (set_fd fd f s) = (fcounts s, (ofiles s)[cur s := ((fst (ofiles s ! cur s))[fd := f], snd (ofiles s ! cur s))], cur s)"
  using ofiles_cur [OF assms] by (simp add: fview_def set_fd_def setproc_def pview_update fcounts_def)

lemma ofiles_len: "ofiles t = ofiles s \<Longrightarrow> length (procs (ptable t)) = length (procs (ptable s))"
  by (metis length_pview)

lemma ofiles_len2: "ofiles t = (ofiles s)[i := x] \<Longrightarrow> length (procs (ptable t)) = length (procs (ptable s))"
  by (metis length_pview length_list_update)

lemma fdalloc_Some:
  assumes "fdalloc f s = (Some fd, t)"
  shows "fd < NOFILE" "pofile (myproc s) ! fd = None" "t = set_fd fd (Some f) s"
  using assms by (auto simp: fdalloc_def find_index_Some split: option.splits)

lemma fdalloc_None: "fdalloc f s = (None, t) \<Longrightarrow> t = s"
  by (auto simp: fdalloc_def split: option.splits)

lemma argfd_Some:
  assumes "argfd n s = Ret (Some (fd, f))"
  shows "fd < NOFILE" "pofile (myproc s) ! fd = Some f"
proof -
  obtain x where x: "argint n s = Ret x" using assms by (auto simp: argfd_def)
  show "fd < NOFILE" "pofile (myproc s) ! fd = Some f" using assms x
    by (cases x; auto simp: argfd_def split: if_splits option.splits)+
qed

section \<open>System calls that change descriptors\<close>

text \<open>The current process is one that runs: its slot is in use.\<close>

definition active :: "'a kern_scheme \<Rightarrow> bool" where
  "active s \<longleftrightarrow> cur s < length (procs (ptable s)) \<and> \<not> idle (pstate (myproc s))"

lemma arg_or_Ret: "arg_or x e f = Ret y \<longleftrightarrow> x = Ret None \<and> y = e \<or> (\<exists>a. x = Ret (Some a) \<and> f a = Ret y)"
  by (auto simp: arg_or_def split: option.splits)

lemma refs_sys_dup:
  assumes "files_ok s" "active s" "sys_dup s = Ret (r, t)"
  shows "files_ok t"
proof (cases "t = s")
  case False
  then obtain fd0 f where x1: "argfd 0 s = Ret (Some (fd0, f))"
    and y: "(case fdalloc f s of (None, s) \<Rightarrow> Ret (fail s) | (Some fd, s) \<Rightarrow> bindR (filedup f s) (\<lambda>s. Ret (SRet (int fd), s))) = Ret (r, t)"
    using assms(3) by (auto simp: sys_dup_def arg_or_Ret)
  obtain v u where z: "fdalloc f s = (v, u)" by (cases "fdalloc f s")
  then obtain fd where v: "v = Some fd" using y False fdalloc_None [of f s u] by (cases v) auto
  have x: "argfd 0 s = Ret (Some (fd0, f))" "fdalloc f s = (Some fd, u)" "filedup f u = Ret t" using x1 y z v by auto
  have c: "cur s < length (procs (ptable s))" "snd (ofiles s ! cur s) = False" using assms(2) ofiles_cur(2) [of s] by (auto simp: active_def)
  note o = ofiles_cur [OF c(1)] and a = argfd_Some [OF x(1)] and d = fdalloc_Some [OF x(2)]
  note ok = assms(1) [unfolded files_ok_def]
  have f: "f < length (fcounts s)" using refs_drop(1) [OF ok o(1) a(1)] a(2) o(2) by simp
  have u: "fcounts u = fcounts s" "ofiles u = (ofiles s)[cur s := ((fst (ofiles s ! cur s))[fd := Some f], False)]"
    using fview_set_fd [OF c(1), of fd "Some f"] d(3) c(2) by (auto simp: fview_def)
  have "fcounts t = (fcounts s)[f := fcounts s ! f + 1]" "ofiles t = ofiles u" using fview_filedup [OF x(3)] f u by (auto dest: fviewE)
  then show ?thesis using refs_add [OF ok o(1) d(1) _ f] d(2) o(2) u by (simp add: files_ok_def)
qed (use assms(1) in simp)

lemma refs_sys_close:
  assumes "files_ok s" "active s" "sys_close ks s = Ret (r, t)"
  shows "files_ok t"
proof (cases "t = s")
  case False
  then obtain fd f where x: "argfd 0 s = Ret (Some (fd, f))" "fileclose (kend ks) f (set_fd fd None s) = Ret t"
    using assms(3) by (auto simp: sys_close_def arg_or_Ret)
  have c: "cur s < length (procs (ptable s))" using assms(2) by (simp add: active_def)
  note o = ofiles_cur [OF c] and a = argfd_Some [OF x(1)]
  note ok = assms(1) [unfolded files_ok_def]
  have f: "fst (ofiles s ! cur s) ! fd = Some f" using a(2) o(2) by simp
  note dr = refs_drop [OF ok o(1) a(1) f]
  have u: "fcounts (set_fd fd None s) = fcounts s" "ofiles (set_fd fd None s) = (ofiles s)[cur s := ((fst (ofiles s ! cur s))[fd := None], snd (ofiles s ! cur s))]"
    using fview_set_fd [OF c, of fd None] by (auto simp: fview_def)
  show ?thesis using fview_fileclose [OF x(2)] dr u by (auto simp: files_ok_def dest: fviewE)
qed (use assms(1) in simp)

lemmas fs_view = begin_op_more [THEN more_fs, THEN fview_more] end_op_more [THEN more_fs, THEN fview_more] iput_more [THEN fview_more]
  iunlockput_more [THEN fview_more] iunlock_more [THEN fview_more] ilock_more [THEN fview_more] iupdate_more [THEN fview_more]
  ialloc_more [THEN fview_more] iinit_more [THEN fview_more] initlog_more [THEN more_fs, THEN fview_more]

lemma fview_uwrite: "uwrite va bs s = Ret t \<Longrightarrow> fview t = fview s"
  by (induction bs arbitrary: va s) auto

lemma fview_fail_op: "fail_op s = Ret (r, t) \<Longrightarrow> fview t = fview s"
  by (auto simp: fail_op_def dest: fs_view)

lemma fview_cong: "fview t = fview s \<Longrightarrow> fcounts t = fcounts s \<and> ofiles t = ofiles s \<and> cur t = cur s"
  by (simp add: fview_def)

lemma active_alt: "active s \<longleftrightarrow> cur s < length (ofiles s) \<and> \<not> snd (ofiles s ! cur s)"
  by (auto simp: active_def pview_def)

lemma active_cong: "fview t = fview s \<Longrightarrow> active t = active s"
  using fview_cong [of t s] by (simp add: active_alt)

lemma fileclose_back:
  assumes "fileclose ke f s = Ret t" "f < length cs" "cs ! f = 0" "fcounts s = cs[f := 1]"
  shows "fview t = (cs, ofiles s, cur s)"
proof -
  have "cs[f := 0] = cs" using assms(3) by (metis list_update_id)
  then show ?thesis using fview_fileclose [OF assms(1)] assms(2,4) by simp
qed

lemma refs_open_inode:
  assumes "files_ok s" "active s" "open_inode ks omode ip s = Ret (r, t)"
  shows "files_ok t"
proof -
  have c: "cur s < length (procs (ptable s))" "snd (ofiles s ! cur s) = False" using assms(2) ofiles_cur(2) [of s] by (auto simp: active_def)
  note ok = assms(1) [unfolded files_ok_def] and o = ofiles_cur [OF c(1)]
  obtain a s1 where a: "filealloc s = (a, s1)" by (cases "filealloc s")
  show ?thesis
  proof (cases a)
    case None
    then have "filealloc s = (None, s)" using a fview_filealloc(1) [OF a] by simp
    then have "\<exists>x. iunlockput ip s = Ret x \<and> fail_op x = Ret (r, t)" using assms(3) by (simp add: open_inode_def)
    then have "fview t = fview s" by (auto dest!: fs_view fview_fail_op)
    then show ?thesis using assms(1) files_ok_fview [of t s] by simp
  next
    case (Some f)
    note v1 = fview_filealloc(2) [OF a Some]
    then have w: "fcounts s1 = (fcounts s)[f := 1]" "ofiles s1 = ofiles s" "cur s1 = cur s" by (auto dest: fviewE)
    have c1: "cur s1 < length (procs (ptable s1))" using w c(1) ofiles_len [OF w(2)] by simp
    note o1 = ofiles_cur [OF c1]
    obtain b s2 where b: "fdalloc f s1 = (b, s2)" by (cases "fdalloc f s1")
    show ?thesis
    proof (cases b)
      case None
      then have "fdalloc f s1 = (None, s1)" using b fdalloc_None [of f s1 s2] by simp
      then obtain u x where u: "fileclose (kend ks) f s1 = Ret u" and x: "iunlockput ip u = Ret x" "fail_op x = Ret (r, t)"
        using assms(3) a Some by (auto simp: open_inode_def)
      have tu: "fview t = fview u" using x by (auto dest!: fs_view fview_fail_op)
      have "fview t = fview s" using fileclose_back [OF u _ _ w(1)] v1 tu w by (simp add: fview_def)
      then show ?thesis using assms(1) files_ok_fview [of t s] by simp
    next
      case b1: (Some fd)
      note d = fdalloc_Some [OF b [unfolded b1]]
      have "fview s2 = ((fcounts s)[f := 1], (ofiles s)[cur s := ((fst (ofiles s ! cur s))[fd := Some f], False)], cur s)"
        using fview_set_fd [OF c1, of fd "Some f"] d(3) w c(2) by simp
      moreover have "fst (ofiles s ! cur s) ! fd = None" using d(2) o1(2) w by simp
      moreover have "fview t = fview s2"
      proof -
        obtain x y where x: "iunlock ip s2 = Ret x" "end_op x = Ret y" "fview t = fview y"
          using assms(3) a b Some b1 by (auto simp: open_inode_def fview_updfile)
        then show ?thesis by (auto dest!: fs_view)
      qed
      ultimately show ?thesis using refs_add [OF ok o(1) d(1) _ conjunct1 [OF v1]] v1 unfolding files_ok_def by (auto dest!: fviewE)
    qed
  qed
qed

lemma refs_sys_pipe:
  assumes "files_ok s" "active s" "sys_pipe ks s = Ret (r, t)"
  shows "files_ok t"
proof (cases "t = s")
  case False
  have c: "cur s < length (procs (ptable s))" "snd (ofiles s ! cur s) = False" using assms(2) ofiles_cur(2) [of s] by (auto simp: active_def)
  note ok = assms(1) [unfolded files_ok_def] and o = ofiles_cur [OF c(1)]
  obtain fd pr s1 where p: "pipealloc (kend ks) s = Ret (pr, s1)" and fd: "argptr 0 8 s = Ret (Some fd)"
    using assms(3) False by (auto simp: sys_pipe_def arg_or_Ret)
  show ?thesis
  proof (cases pr)
    case None
    then have "fview t = fview s" using assms(3) p fd fview_pipealloc(1) [OF p] by (auto simp: sys_pipe_def arg_or_Ret)
    then show ?thesis using assms(1) files_ok_fview [of t s] by simp
  next
    case (Some q)
    obtain rf wfl where q: "q = (rf, wfl)" by (cases q)
    note v = fview_pipealloc(2) [OF p Some [unfolded q]]
    have w: "fcounts s1 = (fcounts s)[rf := 1, wfl := 1]" "ofiles s1 = ofiles s" "cur s1 = cur s" using v by (auto dest: fviewE)
    have c1: "cur s1 < length (procs (ptable s1))" using w c(1) ofiles_len [OF w(2)] by simp
    have undo: "fview u = ((fcounts s), ofiles x, cur x)" if h: "sys_pipe_bad ks rf wfl x = Ret (k, u)" and hc: "fcounts x = (fcounts s)[rf := 1, wfl := 1]" for x u k
    proof -
      obtain y where y: "fileclose (kend ks) rf x = Ret y" "fileclose (kend ks) wfl y = Ret u" using h by (auto simp: sys_pipe_bad_def)
      have "fview y = ((fcounts s)[wfl := 1], ofiles x, cur x)"
        using fileclose_back [OF y(1), of "(fcounts s)[wfl := 1]"] v hc by (simp add: list_update_swap)
      then show ?thesis using fileclose_back [OF y(2), of "fcounts s"] v by (auto dest!: fviewE)
    qed
    obtain a s2 where a: "fdalloc rf s1 = (a, s2)" by (cases "fdalloc rf s1")
    show ?thesis
    proof (cases a)
      case None
      then have "fview t = fview s" using assms(3) p fd Some q a fdalloc_None [of rf s1 s2] undo [of s1 _ t] w
        by (auto simp: sys_pipe_def arg_or_Ret fview_def)
      then show ?thesis using assms(1) files_ok_fview [of t s] by simp
    next
      case a1: (Some fd0)
      note d = fdalloc_Some [OF a [unfolded a1]]
      let ?xs = "fst (ofiles s ! cur s)"
      have n0: "?xs ! fd0 = None" using d(2) ofiles_cur(2) [OF c1] w by simp
      have v2: "fview s2 = (fcounts s1, (ofiles s)[cur s := (?xs[fd0 := Some rf], False)], cur s)"
        using fview_set_fd [OF c1, of fd0 "Some rf"] d(3) w c(2) by simp
      have w2: "fcounts s2 = fcounts s1" "ofiles s2 = (ofiles s)[cur s := (?xs[fd0 := Some rf], False)]" "cur s2 = cur s" using v2 by (auto dest: fviewE)
      have c2: "cur s2 < length (procs (ptable s2))" using w2(3) c(1) ofiles_len2 [OF w2(2)] by simp
      have at: "ofiles s2 ! cur s = (?xs[fd0 := Some rf], False)" using w2 o(1) by simp
      obtain b s3 where b: "fdalloc wfl s2 = (b, s3)" by (cases "fdalloc wfl s2")
      have ok1: "refs_ok ((fcounts s)[rf := 1]) ((ofiles s)[cur s := (?xs[fd0 := Some rf], False)])"
        using refs_add [OF ok o(1) d(1) n0, of rf] v by simp
      show ?thesis
      proof (cases b)
        case None
        have "ofiles (set_fd fd0 None s2) = ofiles s"
        proof -
          have "ofiles (set_fd fd0 None s2) = (ofiles s)[cur s := (?xs[fd0 := None], False)]"
            using fview_set_fd [OF c2, of fd0 None] w2 at by (simp add: fview_def)
          moreover have "(?xs[fd0 := None], False) = ofiles s ! cur s" using n0 c(2) by (metis list_update_id prod.collapse)
          ultimately show ?thesis by (metis list_update_id)
        qed
        moreover have "fcounts (set_fd fd0 None s2) = (fcounts s)[rf := 1, wfl := 1]" "cur (set_fd fd0 None s2) = cur s"
          using fview_set_fd [OF c2, of fd0 None] w2 w by (simp_all add: fview_def)
        moreover have "\<exists>k. sys_pipe_bad ks rf wfl (set_fd fd0 None s2) = Ret (k, t)"
          using assms(3) p fd Some q a a1 b None fdalloc_None [of wfl s2 s3] by (auto simp: sys_pipe_def arg_or_Ret)
        ultimately have "fview t = fview s" using undo by (auto simp: fview_def)
        then show ?thesis using assms(1) files_ok_fview [of t s] by simp
      next
        case b1: (Some fd1)
        note e = fdalloc_Some [OF b [unfolded b1]]
        have n1: "fst (ofiles s2 ! cur s2) ! fd1 = None" using e(2) ofiles_cur(2) [OF c2] by simp
        have "fview s3 = ((fcounts s)[rf := 1, wfl := 1], (ofiles s2)[cur s2 := ((fst (ofiles s2 ! cur s2))[fd1 := Some wfl], False)], cur s)"
          using fview_set_fd [OF c2, of fd1 "Some wfl"] e(3) w w2 at by simp
        moreover have "fview t = fview s3"
          using assms(3) p fd Some q a a1 b b1 by (auto simp: sys_pipe_def arg_or_Ret dest!: fview_uwrite)
        moreover have "refs_ok (((fcounts s)[rf := 1])[wfl := 1]) ((ofiles s2)[cur s2 := ((fst (ofiles s2 ! cur s2))[fd1 := Some wfl], False)])"
          using refs_add [OF ok1 _ e(1), of "cur s" wfl] n1 w2 v o(1) by simp
        ultimately show ?thesis by (auto simp: files_ok_def dest: fviewE)
      qed
    qed
  qed
qed (use assms(1) in simp)

section \<open>System calls that keep the view\<close>

text \<open>The device functions may change anything but the open files, the descriptors and the current process.\<close>

abbreviation dev_view :: "'a kern_scheme devsw \<Rightarrow> bool" where
  "dev_view devsw \<equiv> dev_frame fview devsw"

lemmas dir_view = readi_frame [where m = fview] writei_frame [where m = fview] dirlookup_frame [where m = fview] dirlink_frame [where m = fview]
  namei_frame [where m = fview] nameiparent_frame [where m = fview]

lemma add_nlink_view: "add_nlink i d s = Ret t \<Longrightarrow> fview t = fview s"
  by (auto simp: add_nlink_def dest!: fs_view)

lemma fileread_view: "fileread devsw i n s = Ret (r, t) \<Longrightarrow> dev_view devsw \<Longrightarrow> fview t = fview s"
  by (auto simp: fileread_def Let_def split: if_splits filetype.splits prod.splits dest!: fs_view dir_view)

lemma filewrite_loop_view: "filewrite_loop devsw i src s = Ret (r, t) \<Longrightarrow> dev_view devsw \<Longrightarrow> fview t = fview s"
proof (induction devsw i src s rule: filewrite_loop.induct)
  case (1 devsw i src s)
  show ?case
  proof (cases "src = []")
    case True
    then show ?thesis using 1(2) by (simp add: filewrite_loop.simps)
  next
    case False
    define n1 where "n1 = min (length src) MAXWRITE"
    from 1(2) False obtain s1 s2 k s3 where x: "begin_op s = Ret s1" "ilock (fip (ftable s ! i)) s1 = Ret s2"
      "writei devsw (fip (ftable s ! i)) (take n1 src) (foff (ftable s ! i)) s2 = Ret (k, s3)"
      by (subst (asm) filewrite_loop.simps) (auto simp: Let_def n1_def)
    define s4 where "s4 = (if k > 0 then advance i k s3 else s3)"
    from 1(2) False x obtain s5 s6 where y: "iunlock (fip (ftable s ! i)) s4 = Ret s5" "end_op s5 = Ret s6"
      by (subst (asm) filewrite_loop.simps) (auto simp: Let_def n1_def s4_def)
    have "fview s6 = fview s" using x y 1(3) by (auto simp: s4_def split: if_splits dest!: fs_view dir_view)
    moreover have h: "(if k < 0 then Ret (src, s6) else if k \<noteq> int n1 then Panic ''short filewrite''
        else filewrite_loop devsw i (drop n1 src) s6) = Ret (r, t)"
      using 1(2) False x y by (subst (asm) filewrite_loop.simps) (auto simp: Let_def n1_def s4_def split: if_splits)
    moreover have "fview t = fview s6"
    proof (cases "k < 0")
      case True
      then show ?thesis using h by simp
    next
      case k: False
      then have "filewrite_loop devsw i (drop n1 src) s6 = Ret (r, t)" "k = int n1" using h by (auto split: if_splits)
      then show ?thesis using 1(1) [OF False refl refl x(1,2) x(3) [unfolded n1_def] refl refl y [unfolded s4_def] k] 1(3) by (auto simp: n1_def)
    qed
    ultimately show ?thesis by simp
  qed
qed

lemma filewrite_view: "filewrite devsw i n src s = Ret (r, t) \<Longrightarrow> dev_view devsw \<Longrightarrow> fview t = fview s"
  by (auto simp: filewrite_def Let_def split: if_splits filetype.splits prod.splits dest!: filewrite_loop_view)

lemma sys_read_view:
  assumes "sys_read devsw s = Ret (r, t)" "dev_view devsw"
  shows "fview t = fview s"
proof (cases "t = s")
  case False
  then obtain f n p k u where x: "fileread devsw f n s = Ret (k, u)"
    and y: "(case k of Done (k, d) \<Rightarrow> bindR (uwrite p d u) (\<lambda>s. Ret (SRet k, s)) | Wait ch _ \<Rightarrow> Ret (SBlock ch Again, u)) = Ret (r, t)"
    using assms(1) by (auto simp: sys_read_def arg_or_Ret)
  have "fview t = fview u" using y by (cases k) (auto dest!: fview_uwrite)
  then show ?thesis using fileread_view [OF x assms(2)] by simp
qed simp

lemma sys_write_view: "sys_write devsw s = Ret (r, t) \<Longrightarrow> dev_view devsw \<Longrightarrow> fview t = fview s"
  by (auto simp: sys_write_def arg_or_Ret dest!: filewrite_view)

lemma sys_fstat_view: "sys_fstat s = Ret (r, t) \<Longrightarrow> fview t = fview s"
  by (auto simp: sys_fstat_def arg_or_Ret filestat_def put_stat_def Let_def split: option.splits if_splits dest!: fs_view fview_uwrite)

lemma link_bad_view: "link_bad ip s = Ret (r, t) \<Longrightarrow> fview t = fview s"
  by (auto simp: link_bad_def dest!: fs_view add_nlink_view fview_fail_op)

lemma sys_link_view:
  assumes "sys_link devsw buf s = Ret (r, t)" "dev_view devsw"
  shows "fview t = fview s"
proof (cases "t = s")
  case False
  note dv = dir_view [OF _ assms(2)]
  from False obtain old new s1 ipo s2 where x: "begin_op s = Ret s1" "namei devsw buf old s1 = Ret (ipo, s2)" and a: "argstr 0 s = Ret (Some old)" "argstr 1 s = Ret (Some new)"
    using assms(1) by (auto simp: sys_link_def arg_or_Ret)
  have v2: "fview s2 = fview s" using x by (auto dest!: fs_view dv)
  show ?thesis
  proof (cases ipo)
    case None
    then have "fail_op s2 = Ret (r, t)" using assms(1) x a by (simp add: sys_link_def arg_or_def)
    then show ?thesis using v2 by (auto dest!: fview_fail_op)
  next
    case (Some ip)
    obtain s3 where y: "ilock ip s2 = Ret s3" using assms(1) x a Some by (auto simp: sys_link_def arg_or_def)
    have v3: "fview s3 = fview s" using y v2 by (auto dest!: fs_view)
    show ?thesis
    proof (cases "itype (icache s3 ! ip) = T_DIR")
      case True
      then show ?thesis using assms(1) x a Some y v3 by (auto simp: sys_link_def arg_or_def dest!: fs_view fview_fail_op)
    next
      case nd: False
      obtain s4 s5 dpo s6 where z: "add_nlink ip 1 s3 = Ret s4" "iunlock ip s4 = Ret s5" "nameiparent devsw new buf s5 = Ret (dpo, s6)"
        using assms(1) x a Some y nd by (auto simp: sys_link_def arg_or_def)
      have v6: "fview s6 = fview s" using z v3 by (auto dest!: fs_view dv add_nlink_view)
      show ?thesis
      proof (cases dpo)
        case None
        then have "link_bad ip s6 = Ret (r, t)" using assms(1) x a Some y nd z by (simp add: sys_link_def arg_or_def)
        then show ?thesis using v6 by (auto dest!: link_bad_view)
      next
        case dp: (Some q)
        obtain dp name where q: "q = (dp, name)" by (cases q)
        obtain s7 k s8 where u: "ilock dp s6 = Ret s7" "(if idev (icache s7 ! dp) \<noteq> idev (icache s7 ! ip) then Ret (- 1, s7)
            else dirlink devsw dp name (inum (icache s7 ! ip)) s7) = Ret (k, s8)"
          using assms(1) x a Some y nd z dp q by (auto simp: sys_link_def arg_or_def)
        have v8: "fview s8 = fview s" using u v6 by (auto split: if_splits dest!: fs_view dv)
        have "(if k < 0 then bindR (iunlockput dp s8) (link_bad ip)
           else bindR (iunlockput dp s8) (\<lambda>s. bindR (iput ip s) (\<lambda>s. bindR (end_op s) (\<lambda>s. Ret (SRet 0, s))))) = Ret (r, t)"
          using assms(1) x a Some y nd z dp q u by (simp add: sys_link_def arg_or_def)
        then have "fview t = fview s8" by (auto split: if_splits dest!: fs_view link_bad_view)
        then show ?thesis using v8 by simp
      qed
    qed
  qed
qed simp

lemma isdirempty_view:
  assumes "isdirempty devsw dp s = Ret (r, t)" "dev_view devsw"
  shows "fview t = fview s"
proof -
  have "isdirempty_loop devsw dp offs s = Ret (r, t) \<Longrightarrow> fview t = fview s" for offs s
  proof (induction offs arbitrary: s)
    case (Cons off offs)
    from Cons.prems obtain k de s1 where x: "readi devsw dp (of_nat off) (of_nat DESIZE) s = Ret (k, de, s1)" by auto
    have "fview t = fview s1" using Cons.prems x Cons.IH [of s1] by (auto split: if_splits)
    then show ?case using dir_view(1) [OF x assms(2)] by simp
  qed simp
  then show ?thesis using assms(1) by (simp add: isdirempty_def)
qed

lemma unlink_bad_view: "unlink_bad dp s = Ret (r, t) \<Longrightarrow> fview t = fview s"
  by (auto simp: unlink_bad_def dest!: fs_view fview_fail_op)

lemma unlink_entry_view:
  assumes "unlink_entry devsw dp ip off s = Ret (r, t)" "dev_view devsw"
  shows "fview t = fview s"
proof -
  note dv = dir_view [OF _ assms(2)]
  obtain s1 where x: "ilock ip s = Ret s1" using assms(1) by (auto simp: unlink_entry_def)
  have l: "\<not> sint (nlink (icache s1 ! ip)) < 1" using assms(1) x by (auto simp: unlink_entry_def split: if_splits)
  obtain e s2 where y: "(if itype (icache s1 ! ip) = T_DIR then isdirempty devsw ip s1 else Ret (True, s1)) = Ret (e, s2)"
    using assms(1) x l by (auto simp: unlink_entry_def)
  have v2: "fview s2 = fview s" using x y by (auto split: if_splits dest!: fs_view isdirempty_view [OF _ assms(2)])
  show ?thesis
  proof (cases e)
    case False
    then have "bindR (iunlockput ip s2) (unlink_bad dp) = Ret (r, t)" using assms(1) x l y by (simp add: unlink_entry_def)
    then show ?thesis using v2 by (auto dest!: fs_view unlink_bad_view)
  next
    case True
    then obtain k s3 where z: "writei devsw dp (replicate DESIZE 0) (of_nat off) s2 = Ret (k, s3)" using assms(1) x l y by (auto simp: unlink_entry_def)
    have k: "k = int DESIZE" using assms(1) x l y z True by (auto simp: unlink_entry_def split: if_splits)
    obtain s4 where w: "(if itype (icache s3 ! ip) = T_DIR then add_nlink dp (- 1) s3 else Ret s3) = Ret s4"
      using assms(1) x l y z True k by (auto simp: unlink_entry_def)
    have v4: "fview s4 = fview s" using w z v2 by (auto split: if_splits dest!: dv add_nlink_view)
    have "bindR (iunlockput dp s4) (\<lambda>s. bindR (add_nlink ip (- 1) s) (\<lambda>s. bindR (iunlockput ip s) (\<lambda>s. bindR (end_op s) (\<lambda>s. Ret (SRet 0, s))))) = Ret (r, t)"
      using assms(1) x l y z True k w by (simp add: unlink_entry_def)
    then show ?thesis using v4 by (auto dest!: fs_view add_nlink_view)
  qed
qed

lemma sys_unlink_view:
  assumes "sys_unlink devsw buf s = Ret (r, t)" "dev_view devsw"
  shows "fview t = fview s"
proof (cases "t = s")
  case False
  note dv = dir_view [OF _ assms(2)]
  from False obtain path s1 dpo s2 where x: "argstr 0 s = Ret (Some path)" "begin_op s = Ret s1" "nameiparent devsw path buf s1 = Ret (dpo, s2)"
    using assms(1) by (auto simp: sys_unlink_def arg_or_Ret)
  have v2: "fview s2 = fview s" using x by (auto dest!: fs_view dv)
  show ?thesis
  proof (cases dpo)
    case None
    then have "fail_op s2 = Ret (r, t)" using assms(1) x by (simp add: sys_unlink_def arg_or_def)
    then show ?thesis using v2 by (auto dest!: fview_fail_op)
  next
    case (Some q)
    obtain dp name where q: "q = (dp, name)" by (cases q)
    obtain s3 where y: "ilock dp s2 = Ret s3" using assms(1) x Some q by (auto simp: sys_unlink_def arg_or_def)
    have v3: "fview s3 = fview s" using y v2 by (auto dest!: fs_view)
    show ?thesis
    proof (cases "namecmp name dot = 0 \<or> namecmp name dotdot = 0")
      case True
      then have "unlink_bad dp s3 = Ret (r, t)" using assms(1) x Some q y by (auto simp: sys_unlink_def arg_or_def)
      then show ?thesis using v3 by (auto dest!: unlink_bad_view)
    next
      case nd: False
      then obtain k s4 where z: "dirlookup devsw dp name s3 = Ret (k, s4)" using assms(1) x Some q y by (auto simp: sys_unlink_def arg_or_def)
      have "(case k of None \<Rightarrow> unlink_bad dp s4 | Some (off, ip) \<Rightarrow> unlink_entry devsw dp ip off s4) = Ret (r, t)"
        using assms(1) x Some q y z nd by (auto simp: sys_unlink_def arg_or_def)
      then have "fview t = fview s4" by (cases k) (auto dest!: unlink_bad_view unlink_entry_view [OF _ assms(2)])
      then show ?thesis using v3 z by (auto dest!: dv)
    qed
  qed
qed simp

lemma create_new_view:
  assumes "create_new devsw dp name ty maj mnr s = Ret (r, t)" "dev_view devsw"
  shows "fview t = fview s"
proof -
  note dv = dir_view [OF _ assms(2)]
  obtain ip s1 s2 s3 where x: "ialloc (idev (icache s ! dp)) ty s = Ret (ip, s1)" "ilock ip s1 = Ret s2"
    "iupdate ip (updinode ip ((icache s2 ! ip)\<lparr>major := maj, minor := mnr, nlink := 1\<rparr>) s2) = Ret s3"
    using assms(1) by (auto simp: create_new_def)
  have v3: "fview s3 = fview s" using x by (auto dest!: fs_view)
  let ?d = "if ty = T_DIR then
              bindR (add_nlink dp 1 s3) (\<lambda>s.
              bindR (dirlink devsw ip dot (inum (icache s ! ip)) s) (\<lambda>(r, s).
              if r < 0 then Panic ''create dots''
              else
                bindR (dirlink devsw ip dotdot (inum (icache s ! dp)) s) (\<lambda>(r, s).
                if r < 0 then Panic ''create dots'' else Ret s)))
            else Ret s3"
  obtain s4 where y: "?d = Ret s4" using assms(1) x by (auto simp: create_new_def)
  have v4: "fview s4 = fview s" using y v3 by (auto split: if_splits dest!: dv add_nlink_view)
  have "bindR (dirlink devsw dp name (inum (icache s4 ! ip)) s4) (\<lambda>(r, s).
     if r < 0 then Panic ''create: dirlink'' else bindR (iunlockput dp s) (\<lambda>s. Ret (Some ip, s))) = Ret (r, t)"
    using assms(1) x y by (simp add: create_new_def)
  then have "fview t = fview s4" by (auto split: if_splits dest!: dv fs_view)
  then show ?thesis using v4 by simp
qed

lemma create_view:
  assumes "create devsw buf path ty maj mnr s = Ret (r, t)" "dev_view devsw"
  shows "fview t = fview s"
proof -
  note dv = dir_view [OF _ assms(2)]
  obtain dpo s1 where x: "nameiparent devsw path buf s = Ret (dpo, s1)" using assms(1) by (auto simp: create_def)
  have v1: "fview s1 = fview s" using x by (auto dest!: dv)
  show ?thesis
  proof (cases dpo)
    case None
    then show ?thesis using assms(1) x v1 by (simp add: create_def)
  next
    case (Some q)
    obtain dp name where q: "q = (dp, name)" by (cases q)
    obtain s2 k s3 where y: "ilock dp s1 = Ret s2" "dirlookup devsw dp name s2 = Ret (k, s3)" using assms(1) x Some q by (auto simp: create_def)
    have v3: "fview s3 = fview s" using y v1 by (auto dest!: fs_view dv)
    show ?thesis
    proof (cases k)
      case None
      then have "create_new devsw dp name ty maj mnr s3 = Ret (r, t)" using assms(1) x Some q y by (simp add: create_def)
      then show ?thesis using v3 by (auto dest!: create_new_view [OF _ assms(2)])
    next
      case k: (Some p)
      obtain off ip where p: "p = (off, ip)" by (cases p)
      have "bindR (iunlockput dp s3) (\<lambda>s. bindR (ilock ip s) (\<lambda>s.
             if ty = T_FILE \<and> itype (icache s ! ip) = T_FILE then Ret (Some ip, s) else bindR (iunlockput ip s) (\<lambda>s. Ret (None, s)))) = Ret (r, t)"
        using assms(1) x Some q y k p by (simp add: create_def)
      then have "fview t = fview s3" by (auto split: if_splits dest!: fs_view)
      then show ?thesis using v3 by simp
    qed
  qed
qed

lemma close_new_view: "close_new ip s = Ret (r, t) \<Longrightarrow> fview t = fview s"
  by (auto simp: close_new_def dest!: fs_view)

text \<open>The end of the calls that create a file: the result of \<open>create\<close> is closed again or is the null pointer.\<close>

lemma created_view:
  assumes "bindR (create devsw buf path ty maj mnr s) (\<lambda>(ip, s). case ip of None \<Rightarrow> fail_op s | Some ip \<Rightarrow> close_new ip s) = Ret (r, t)" "dev_view devsw"
  shows "fview t = fview s"
proof -
  obtain ip s1 where x: "create devsw buf path ty maj mnr s = Ret (ip, s1)" "(case ip of None \<Rightarrow> fail_op s1 | Some ip \<Rightarrow> close_new ip s1) = Ret (r, t)"
    using assms(1) by auto
  then have "fview t = fview s1" by (cases ip) (auto dest!: fview_fail_op close_new_view)
  then show ?thesis using create_view [OF x(1) assms(2)] by simp
qed

lemma sys_mkdir_view:
  assumes "sys_mkdir devsw buf s = Ret (r, t)" "dev_view devsw"
  shows "fview t = fview s"
proof -
  obtain s1 p where x: "begin_op s = Ret s1" "argstr 0 s1 = Ret p" using assms(1) by (auto simp: sys_mkdir_def)
  have "fview t = fview s1" using assms x
    by (cases p) (auto simp: sys_mkdir_def simp del: bindR_eq_Ret dest!: fview_fail_op created_view)
  then show ?thesis using x by (auto dest!: fs_view)
qed

lemma sys_mknod_view:
  assumes "sys_mknod devsw buf s = Ret (r, t)" "dev_view devsw"
  shows "fview t = fview s"
proof -
  obtain s1 p where x: "begin_op s = Ret s1" "argstr 0 s1 = Ret p" using assms(1) by (auto simp: sys_mknod_def)
  have "fview t = fview s1"
  proof (cases p)
    case None
    then show ?thesis using assms(1) x by (auto simp: sys_mknod_def dest!: fview_fail_op)
  next
    case p: (Some path)
    obtain a where a: "argint 1 s1 = Ret a" using assms(1) x p by (auto simp: sys_mknod_def)
    show ?thesis
    proof (cases a)
      case None
      then show ?thesis using assms(1) x p a by (auto simp: sys_mknod_def dest!: fview_fail_op)
    next
      case a': (Some maj)
      obtain b where b: "argint 2 s1 = Ret b" using assms(1) x p a a' by (auto simp: sys_mknod_def)
      show ?thesis using assms x p a a' b
        by (cases b) (auto simp: sys_mknod_def simp del: bindR_eq_Ret dest!: fview_fail_op created_view)
    qed
  qed
  then show ?thesis using x by (auto dest!: fs_view)
qed

lemma sys_chdir_view:
  assumes "sys_chdir devsw buf s = Ret (r, t)" "dev_view devsw"
  shows "fview t = fview s"
proof -
  note dv = dir_view [OF _ assms(2)]
  obtain s1 p where x: "begin_op s = Ret s1" "argstr 0 s1 = Ret p" using assms(1) by (auto simp: sys_chdir_def)
  have v1: "fview s1 = fview s" using x(1) by (auto dest!: fs_view)
  show ?thesis
  proof (cases p)
    case None
    then show ?thesis using assms(1) x v1 by (auto simp: sys_chdir_def dest!: fview_fail_op)
  next
    case p: (Some path)
    obtain ipo s2 where y: "namei devsw buf path s1 = Ret (ipo, s2)" using assms(1) x p by (auto simp: sys_chdir_def)
    have v2: "fview s2 = fview s" using y v1 by (auto dest!: dv)
    show ?thesis
    proof (cases ipo)
      case None
      then show ?thesis using assms(1) x v2 p y by (auto simp: sys_chdir_def dest!: fview_fail_op)
    next
      case (Some ip)
      obtain s3 where z: "ilock ip s2 = Ret s3" using assms(1) x p y Some by (auto simp: sys_chdir_def)
      have v3: "fview s3 = fview s" using z v2 by (auto dest!: fs_view)
      show ?thesis
      proof (cases "itype (icache s3 ! ip) = T_DIR")
        case False
        then show ?thesis using assms(1) x p y Some z v3 by (auto simp: sys_chdir_def dest!: fs_view fview_fail_op)
      next
        case True
        then show ?thesis using assms(1) x p y Some z v3
          by (auto simp: sys_chdir_def Let_def fview_setproc dest!: fs_view)
      qed
    qed
  qed
qed

lemma refs_sys_open:
  assumes "files_ok s" "active s" "sys_open ks devsw buf s = Ret (r, t)" "dev_view devsw"
  shows "files_ok t"
proof (cases "t = s")
  case False
  note dv = dir_view [OF _ assms(4)]
  from False obtain path omode s1 where x: "argstr 0 s = Ret (Some path)" "argint 1 s = Ret (Some omode)" "begin_op s = Ret s1"
    using assms(3) by (auto simp: sys_open_def arg_or_Ret)
  have fin: "files_ok t" if "open_inode ks omode ip u = Ret (r, t) \<or> fview t = fview u" "fview u = fview s" for ip u
    using that refs_open_inode [of u ks omode ip r t] files_ok_fview [of u s] files_ok_fview [of t u] active_cong [of u s] assms(1,2) by auto
  have v1: "fview s1 = fview s" using x(3) by (auto dest!: fs_view)
  show ?thesis
  proof (cases "omode AND O_CREATE \<noteq> 0")
    case True
    then obtain ipo s2 where y: "create devsw buf path T_FILE 0 0 s1 = Ret (ipo, s2)" using assms(3) x by (auto simp: sys_open_def arg_or_def)
    have v2: "fview s2 = fview s" using create_view [OF y assms(4)] v1 by simp
    have "(case ipo of None \<Rightarrow> fail_op s2 | Some ip \<Rightarrow> open_inode ks omode ip s2) = Ret (r, t)" using assms(3) x y True by (simp add: sys_open_def arg_or_def)
    then show ?thesis using fin [OF _ v2] by (cases ipo) (auto dest!: fview_fail_op)
  next
    case nc: False
    then obtain ipo s2 where y: "namei devsw buf path s1 = Ret (ipo, s2)" using assms(3) x by (auto simp: sys_open_def arg_or_def)
    have v2: "fview s2 = fview s" using y v1 by (auto dest!: dv)
    show ?thesis
    proof (cases ipo)
      case None
      then have "fail_op s2 = Ret (r, t)" using assms(3) x y nc by (simp add: sys_open_def arg_or_def)
      then show ?thesis using fin [OF _ v2] by (auto dest!: fview_fail_op)
    next
      case (Some ip)
      obtain s3 where z: "ilock ip s2 = Ret s3" using assms(3) x y nc Some by (auto simp: sys_open_def arg_or_def)
      have v3: "fview s3 = fview s" using z v2 by (auto dest!: fs_view)
      have "(if itype (icache s3 ! ip) = T_DIR \<and> omode \<noteq> 0 then bindR (iunlockput ip s3) fail_op else open_inode ks omode ip s3) = Ret (r, t)"
        using assms(3) x y nc Some z by (simp add: sys_open_def arg_or_def)
      then show ?thesis using fin [OF _ v3] by (auto split: if_splits dest!: fs_view fview_fail_op)
    qed
  qed
qed (use assms(1) in simp)

lemma loaduvm_view:
  assumes "loaduvm devsw pgdir addr ip off sz s = Ret (r, t)" "dev_view devsw"
  shows "fview t = fview s"
proof -
  have "loaduvm_loop devsw pgdir addr ip off sz is s = Ret (r, t) \<Longrightarrow> fview t = fview s" for "is" s
  proof (induction "is" arbitrary: s)
    case (Cons i "is")
    let ?n = "if sz - i < PGSZ then sz - i else PGSZ"
    from Cons.prems obtain k d s1 where x: "readi devsw ip (off + i) ?n s = Ret (k, d, s1)" by (auto simp: Let_def split: prod.splits if_splits)
    have "fview t = fview s1" using Cons.prems x Cons.IH by (auto simp: Let_def split: prod.splits if_splits)
    then show ?case using dir_view(1) [OF x assms(2)] by simp
  qed simp
  then show ?thesis using assms(1) by (auto simp: loaduvm_def split: if_splits)
qed

lemma exec_load_view:
  assumes "dev_view devsw"
  shows "exec_load ks devsw pgdir ip n off sz s = Ret (r, t) \<Longrightarrow> fview t = fview s"
proof (induction n arbitrary: off sz s)
  case (Suc n)
  from Suc.prems obtain k ph s1 where x: "readi devsw ip off 32 s = Ret (k, ph, s1)" by auto
  have v1: "fview s1 = fview s" by (rule dir_view(1) [OF x assms])
  let ?vaddr = "rd32 ph 8" and ?memsz = "rd32 ph 20" and ?filesz = "rd32 ph 16"
  have "fview t = fview s1"
  proof (cases "k \<noteq> 32 \<or> rd32 ph 0 \<noteq> 1 \<or> ?memsz = 0 \<or> ?memsz < ?filesz \<or> ?vaddr + ?memsz < ?vaddr")
    case True
    then show ?thesis using Suc.prems x Suc.IH by (auto simp: Let_def split: if_splits)
  next
    case False
    then obtain sz1 s2 where y: "in_vm (allocuvm (kend ks) pgdir sz (?vaddr + ?memsz)) s1 = Ret (sz1, s2)"
      using Suc.prems x by (auto simp: Let_def)
    have v2: "fview s2 = fview s1" by (rule fview_in_vm [OF y])
    show ?thesis
    proof (cases "sz1 = 0 \<or> ?vaddr mod PGSZ \<noteq> 0")
      case True
      then show ?thesis using Suc.prems x False y v2 by (auto simp: Let_def split: if_splits)
    next
      case ok: False
      then obtain j s3 where z: "loaduvm devsw pgdir ?vaddr ip (rd32 ph 4) ?filesz s2 = Ret (j, s3)"
        using Suc.prems x False y by (auto simp: Let_def)
      have "(if j < 0 then Ret (None, s3) else exec_load ks devsw pgdir ip n (off + 32) sz1 s3) = Ret (r, t)"
        using Suc.prems x False y ok z by (auto simp: Let_def)
      then have "fview t = fview s3" using Suc.IH by (auto split: if_splits)
      then show ?thesis using v2 loaduvm_view [OF z assms] by simp
    qed
  qed
  then show ?case using v1 by simp
qed simp

lemma exec_args_view: "exec_args pgdir sp ust as s = Ret (r, t) \<Longrightarrow> fview t = fview s"
proof (induction "as" arbitrary: sp ust s)
  case (Cons a "as")
  show ?case
  proof (cases "length ust \<ge> MAXARG")
    case False
    let ?sp = "(sp - of_nat (length a + 1)) AND NOT 3"
    obtain k s1 where x: "in_vm (copyout_bytes pgdir ?sp (a @ [0])) s = Ret (k, s1)" using Cons.prems False by (auto simp: Let_def)
    have "(if k < 0 then Ret (None, s1) else exec_args pgdir ?sp (ust @ [?sp]) as s1) = Ret (r, t)"
      using Cons.prems False x by (auto simp: Let_def)
    then have "fview t = fview s1" using Cons.IH by (auto split: if_splits)
    then show ?thesis using fview_in_vm [OF x] by simp
  qed (use Cons.prems in simp)
qed simp

lemma exec_bad_view: "exec_bad ks pgdir ip s = Ret (r, t) \<Longrightarrow> fview t = fview s"
  by (cases ip) (auto simp: exec_bad_def split: if_splits dest!: fs_view)

lemma exec_commit_view: "exec_commit ks path pgdir sz entry sp s = Ret (r, t) \<Longrightarrow> fview t = fview s"
proof -
  have p: "fview (setproc (cur u) ((myproc u)\<lparr>pname := nm\<rparr>) u) = fview u" "fview (setproc (cur u) ((myproc u)\<lparr>ppgdir := d, psz := z\<rparr>) u) = fview u"
    for u :: "'a kern_scheme" and nm d z by (simp_all add: fview_setproc)
  assume "exec_commit ks path pgdir sz entry sp s = Ret (r, t)"
  then show ?thesis by (auto simp: exec_commit_def Let_def p)
qed

lemma exec_stack_view:
  assumes "exec_stack ks path argv pgdir sz entry s = Ret (r, t)"
  shows "fview t = fview s"
proof -
  let ?sz = "PGROUNDUP sz"
  obtain sz1 s1 where x: "in_vm (allocuvm (kend ks) pgdir ?sz (?sz + 2 * PGSZ)) s = Ret (sz1, s1)" using assms by (auto simp: exec_stack_def Let_def)
  have v1: "fview s1 = fview s" by (rule fview_in_vm [OF x])
  show ?thesis
  proof (cases "sz1 = 0")
    case True
    then show ?thesis using assms x v1 by (auto simp: exec_stack_def Let_def dest!: exec_bad_view)
  next
    case False
    then obtain v k s2 where y: "clearpteu pgdir (sz1 - 2 * PGSZ) (kvm s1) = Ret v" "exec_args pgdir sz1 [] argv (s1\<lparr>kvm := v\<rparr>) = Ret (k, s2)"
      using assms x by (auto simp: exec_stack_def Let_def)
    have v2: "fview s2 = fview s" using exec_args_view [OF y(2)] v1 by simp
    show ?thesis
    proof (cases k)
      case None
      then show ?thesis using assms x False y v2 by (auto simp: exec_stack_def Let_def dest!: exec_bad_view)
    next
      case (Some q)
      obtain sp ust where q: "q = (sp, ust)" by (cases q)
      let ?argc = "of_nat (length ust) :: uint"
      let ?bs = "concat (map le32 ([0xFFFFFFFF, ?argc, sp - (?argc + 1) * 4] @ ust @ [0]))" and ?sp = "sp - (3 + ?argc + 1) * 4"
      obtain j s3 where z: "in_vm (copyout_bytes pgdir ?sp ?bs) s2 = Ret (j, s3)"
        using assms x False y Some q unfolding exec_stack_def Let_def by auto
      have "(if j < 0 then exec_bad ks pgdir None s3 else exec_commit ks path pgdir sz1 entry ?sp s3) = Ret (r, t)"
        using assms x False y Some q z unfolding exec_stack_def Let_def by auto
      then have "fview t = fview s3" by (auto split: if_splits dest!: exec_bad_view exec_commit_view)
      then show ?thesis using fview_in_vm [OF z] v2 by simp
    qed
  qed
qed

lemma exec_view:
  assumes "exec ks devsw buf path argv s = Ret (r, t)" "dev_view devsw"
  shows "fview t = fview s"
proof -
  note dv = dir_view [OF _ assms(2)]
  obtain s1 ipo s2 where x: "begin_op s = Ret s1" "namei devsw buf path s1 = Ret (ipo, s2)" using assms(1) by (auto simp: exec_def)
  have v2: "fview s2 = fview s" using x by (auto dest!: fs_view dv)
  show ?thesis
  proof (cases ipo)
    case None
    then show ?thesis using assms(1) x v2 by (auto simp: exec_def dest!: fs_view)
  next
    case (Some ip)
    obtain s3 k elf s4 where y: "ilock ip s2 = Ret s3" "readi devsw ip 0 52 s3 = Ret (k, elf, s4)" using assms(1) x Some by (auto simp: exec_def)
    have v4: "fview s4 = fview s" using y v2 by (auto dest!: fs_view dv)
    show ?thesis
    proof (cases "k \<noteq> 52 \<or> rd32 elf 0 \<noteq> ELF_MAGIC")
      case True
      then have "exec_bad ks 0 (Some ip) s4 = Ret (r, t)" using assms(1) x Some y by (auto simp: exec_def split: if_splits)
      then show ?thesis using v4 by (auto dest!: exec_bad_view)
    next
      case ok: False
      obtain d s5 where z: "in_vm (setupkvm (kend ks) (kdata ks)) s4 = Ret (d, s5)" using assms(1) x Some y ok by (auto simp: exec_def)
      have v5: "fview s5 = fview s" using fview_in_vm [OF z] v4 by simp
      show ?thesis
      proof (cases "d = 0")
        case True
        then have "exec_bad ks 0 (Some ip) s5 = Ret (r, t)" using assms(1) x Some y ok z by (auto simp: exec_def)
        then show ?thesis using v5 by (auto dest!: exec_bad_view)
      next
        case d: False
        obtain szo s6 where w: "exec_load ks devsw d ip (unat (rd16 elf 44)) (rd32 elf 28) 0 s5 = Ret (szo, s6)"
          using assms(1) x Some y ok z d by (auto simp: exec_def)
        have v6: "fview s6 = fview s" using exec_load_view [OF assms(2) w] v5 by simp
        have "(case szo of None \<Rightarrow> exec_bad ks d (Some ip) s6
           | Some sz \<Rightarrow> bindR (iunlockput ip s6) (\<lambda>s. bindR (end_op s) (\<lambda>s. exec_stack ks path argv d sz (rd32 elf 24) s))) = Ret (r, t)"
          using assms(1) x Some y ok z d w by (simp add: exec_def)
        then have "fview t = fview s6" by (cases szo) (auto dest!: fs_view exec_bad_view exec_stack_view)
        then show ?thesis using v6 by simp
      qed
    qed
  qed
qed

lemma sys_exec_view: "sys_exec ks devsw buf s = Ret (r, t) \<Longrightarrow> dev_view devsw \<Longrightarrow> fview t = fview s"
  by (auto simp: sys_exec_def arg_or_Ret dest!: exec_view)

lemma growproc_view:
  assumes "growproc ks n s = Ret (r, t)"
  shows "fview t = fview s"
proof -
  let ?p = "myproc s"
  obtain sz u where x: "(if n > 0 then in_vm (allocuvm (kend ks) (ppgdir ?p) (psz ?p) (psz ?p + of_int n)) s
     else if n < 0 then in_vm (deallocuvm (kend ks) (ppgdir ?p) (psz ?p) (psz ?p + of_int n)) s else Ret (psz ?p, s)) = Ret (sz, u)"
    using assms by (auto simp: growproc_def Let_def)
  have u: "fview u = fview s" using x by (auto split: if_splits dest!: fview_in_vm)
  have "(if n \<noteq> 0 \<and> sz = 0 then Ret (- 1, u) else
      let s = setproc (cur u) ((myproc u)\<lparr>psz := sz\<rparr>) u in Ret (0, s\<lparr>kvm := (kvm s)\<lparr>cr3 := V2P (ppgdir (myproc s))\<rparr>\<rparr>)) = Ret (r, t)"
    using assms x by (simp add: growproc_def Let_def)
  then show ?thesis using u by (auto simp: Let_def fview_setproc split: if_splits)
qed

lemma sys_sbrk_view: "sys_sbrk ks s = Ret (r, t) \<Longrightarrow> fview t = fview s"
  by (auto simp: sys_sbrk_def arg_or_Ret Let_def split: if_splits dest!: growproc_view)

lemma sys_wait_view:
  assumes "sys_wait ks s = Ret (r, t)"
  shows "fview t = fview s"
proof (cases "wait_scan (cur s) (procs (ptable s))")
  case (Reap i)
  have "find_index (\<lambda>p. pparent p = Some (cur s) \<and> pstate p = ZOMBIE) (procs (ptable s)) = Some i"
    using Reap by (auto simp: wait_scan_def split: option.splits if_splits)
  then have "pstate (getproc s i) = ZOMBIE" using find_index_SomeD(2) by fastforce
  then have "fview (setproc i (reap (getproc s i)) u) = fview u" if "ptable u = ptable s" for u :: "'a kern_scheme"
    using that by (intro fview_setproc) (simp_all add: reap_def idle_def)
  then show ?thesis using assms Reap by (auto simp: sys_wait_def wait_def Let_def)
qed (use assms in \<open>auto simp: sys_wait_def wait_def\<close>)

lemma pview_kill: "kill pid u = (r, v) \<Longrightarrow> pview (procs v) = pview (procs u)"
  by (auto simp: kill_def Let_def pview_same idle_def split: option.splits if_splits)

lemma sys_kill_view:
  assumes "sys_kill s = Ret (r, t)"
  shows "fview t = fview s"
proof (cases "t = s")
  case False
  then obtain pid where pid: "argint 0 s = Ret (Some pid)" using assms by (auto simp: sys_kill_def arg_or_Ret)
  obtain k v where k: "kill (sint pid) (ptable s) = (k, v)" by (cases "kill (sint pid) (ptable s)")
  show ?thesis using assms pid k pview_kill [OF k] by (auto simp: sys_kill_def arg_or_def fview_def fcounts_def)
qed simp

section \<open>Processes\<close>

lemma foldR_upt:
  assumes "foldR f [a..<b] s = Ret t" "a \<le> b" "P a s" "\<And>k s t. a \<le> k \<Longrightarrow> k < b \<Longrightarrow> P k s \<Longrightarrow> f k s = Ret t \<Longrightarrow> P (Suc k) t"
  shows "P b t"
  using assms(2,1,3,4)
proof (induction a arbitrary: s rule: inc_induct)
  case (step a)
  from step.prems(1) step.hyps obtain u where u: "f a s = Ret u" "foldR f [Suc a..<b] u = Ret t" by (auto simp: upt_conv_Cons)
  then show ?case using step.IH [OF u(2)] step.prems(2,3) step.hyps by (metis Suc_leD le_refl)
qed simp

lemma fview_setproc_ofile:
  assumes "i < length (procs (ptable s))"
  shows "fview (setproc i p s) = (fcounts s, (ofiles s)[i := (pofile p, idle (pstate p))], cur s)"
  by (simp add: fview_def fcounts_def setproc_def pview_update)

lemma alloc_slot_Some:
  assumes "alloc_slot u = Some (i, v)"
  shows "i < length (procs u)" "pstate (procs u ! i) = UNUSED" "procs v = (procs u)[i := (procs u ! i)\<lparr>pstate := EMBRYO, ppid := nextpid u\<rparr>]"
proof -
  obtain f: "find_index (\<lambda>p. pstate p = UNUSED) (procs u) = Some i"
    and v: "v = updproc i ((procs u ! i)\<lparr>pstate := EMBRYO, ppid := nextpid u\<rparr>) (u\<lparr>nextpid := nextpid u + 1\<rparr>)"
    using assms unfolding alloc_slot_def by (auto split: option.splits)
  show "i < length (procs u)" "pstate (procs u ! i) = UNUSED" using find_index_SomeD [OF f] by auto
  show "procs v = (procs u)[i := (procs u ! i)\<lparr>pstate := EMBRYO, ppid := nextpid u\<rparr>]" using v by simp
qed

lemma fview_allocproc:
  assumes "allocproc ks s = (r, t)"
  shows "r = None \<Longrightarrow> fview t = fview s"
    "r = Some i \<Longrightarrow> i < length (ofiles s) \<and> snd (ofiles s ! i) \<and> fview t = (fcounts s, (ofiles s)[i := (fst (ofiles s ! i), False)], cur s)"
proof -
  let ?Q = "(r = None \<longrightarrow> fview t = fview s) \<and>
    (r = Some i \<longrightarrow> i < length (ofiles s) \<and> snd (ofiles s ! i) \<and> fview t = (fcounts s, (ofiles s)[i := (fst (ofiles s ! i), False)], cur s))"
  have ?Q
  proof (cases "alloc_slot (ptable s)")
    case None
    then show ?thesis using assms by (simp add: allocproc_def)
  next
    case (Some jv)
    obtain j v where jv: "jv = (j, v)" by (cases jv)
    note a = alloc_slot_Some [OF Some [unfolded jv]]
    obtain k w where k: "kalloc (kvm s) = (k, w)" by (cases "kalloc (kvm s)")
    define s1 where "s1 = s\<lparr>ptable := v\<rparr>"
    have o: "ofiles s ! j = (pofile (getproc s j), True)" using a(1,2) by (simp add: pview_def idle_def)
    have v1: "fview s1 = (fcounts s, (ofiles s)[j := (pofile (getproc s j), False)], cur s)"
      using a(3) by (simp add: fview_def s1_def fcounts_def pview_update idle_def)
    have j1: "j < length (procs (ptable s1))" using a(1,3) by (simp add: s1_def)
    define s2 where "s2 = setproc j ((getproc s1 j)\<lparr>pkstack := k\<rparr>) (s1\<lparr>kvm := w\<rparr>)"
    have v2: "fview s2 = fview s1" unfolding s2_def by (simp add: fview_setproc)
    show ?thesis
    proof (cases "k = 0")
      case True
      then have r: "r = None" "t = setproc j ((getproc s2 j)\<lparr>pstate := UNUSED\<rparr>) s2"
        using assms Some jv k by (auto simp: allocproc_def Let_def s1_def s2_def)
      have j2: "j < length (procs (ptable s2))" "pofile (getproc s2 j) = pofile (getproc s j)"
        using a(1,3) j1 by (simp_all add: s2_def setproc_def s1_def)
      have "fview t = fview s"
        using fview_setproc_ofile [OF j2(1), of "(getproc s2 j)\<lparr>pstate := UNUSED\<rparr>"] v1 v2 j2(2) o r(2)
        by (simp add: fview_def idle_def) (metis list_update_id)
      then show ?thesis using r(1) by simp
    next
      case False
      then have "r = Some j" "fview t = fview s2"
        using assms Some jv k by (auto simp: allocproc_def Let_def s1_def s2_def fview_setproc)
      then show ?thesis using v1 v2 o a(1) by auto
    qed
  qed
  then show "r = None \<Longrightarrow> fview t = fview s"
    "r = Some i \<Longrightarrow> i < length (ofiles s) \<and> snd (ofiles s ! i) \<and> fview t = (fcounts s, (ofiles s)[i := (fst (ofiles s ! i), False)], cur s)" by blast+
qed

text \<open>The loop of \<open>fork\<close>: descriptors below \<open>k\<close> have been copied.\<close>

definition copied :: "nat \<Rightarrow> nat \<Rightarrow> nat \<Rightarrow> 'a kern_scheme \<Rightarrow> bool" where
  "copied np c k u \<longleftrightarrow> refs_ok (fcounts u) (ofiles u) \<and> cur u = c \<and> c < length (ofiles u) \<and> np < length (ofiles u) \<and> np \<noteq> c \<and>
     \<not> snd (ofiles u ! np) \<and> (\<forall>fd. k \<le> fd \<and> fd < NOFILE \<longrightarrow> fst (ofiles u ! np) ! fd = None)"

lemma copied_step:
  assumes "copied np c k u" "k < NOFILE" "fork_file np k u = Ret v"
  shows "copied np c (Suc k) v"
proof (cases "pofile (myproc u) ! k")
  case None
  then have "v = u" using assms(3) by (simp add: fork_file_def)
  then show ?thesis using assms(1) by (simp add: copied_def)
next
  case (Some f)
  note a = assms(1) [unfolded copied_def]
  then have ok: "refs_ok (fcounts u) (ofiles u)" and c: "cur u = c" "c < length (ofiles u)" and np: "np < length (ofiles u)" by auto
  obtain w where w: "filedup f u = Ret w" "v = setproc np ((getproc w np)\<lparr>pofile := (pofile (getproc w np))[k := Some f]\<rparr>) w"
    using assms(3) Some by (auto simp: fork_file_def)
  have "ofiles u ! c = (pofile (myproc u), idle (pstate (myproc u)))" using c by (simp add: pview_def)
  then have f: "f < length (fcounts u)" using refs_drop(1) [OF ok c(2) assms(2)] Some by simp
  have vw: "fcounts w = (fcounts u)[f := fcounts u ! f + 1]" "ofiles w = ofiles u" "cur w = c" using fview_filedup [OF w(1) f] c by (auto dest: fviewE)
  have n: "np < length (procs (ptable w))" using np ofiles_len [OF vw(2)] by simp
  have pn: "ofiles u ! np = (pofile (getproc w np), idle (pstate (getproc w np)))" using pview_nth [OF n] vw(2) by simp
  then have idl: "\<not> idle (pstate (getproc w np))" using a by simp
  have v: "fcounts v = (fcounts u)[f := fcounts u ! f + 1]" "ofiles v = (ofiles u)[np := ((fst (ofiles u ! np))[k := Some f], False)]" "cur v = c"
    using fview_setproc_ofile [OF n, of "(getproc w np)\<lparr>pofile := (pofile (getproc w np))[k := Some f]\<rparr>"] w(2) vw pn idl by (auto simp: fview_def)
  have "refs_ok (fcounts v) (ofiles v)" unfolding v using refs_add [OF ok np assms(2) _ f] a assms(2) by simp
  then show ?thesis using a v by (simp add: copied_def)
qed

lemma refs_fork:
  assumes "files_ok s" "active s" "fork ks s = Ret (r, t)"
  shows "files_ok t"
proof -
  note ok = assms(1) [unfolded files_ok_def]
  have c: "cur s < length (ofiles s)" "\<not> snd (ofiles s ! cur s)" using assms(2) by (auto simp: active_alt)
  obtain npo s1 where a: "allocproc ks s = (npo, s1)" by (cases "allocproc ks s")
  show ?thesis
  proof (cases npo)
    case None
    then have "fview t = fview s" using assms(3) a fview_allocproc(1) [OF a] by (simp add: fork_def)
    then show ?thesis using assms(1) files_ok_fview [of t s] by simp
  next
    case (Some np)
    note v1 = fview_allocproc(2) [OF a Some]
    have np: "np \<noteq> cur s" "fst (ofiles s ! np) = replicate NOFILE None" using v1 c refs_okD(3) [OF ok, of np] by auto
    have ok1: "refs_ok (fcounts s) ((ofiles s)[np := (fst (ofiles s ! np), False)])" using v1 by (intro refs_flag [OF ok]) auto
    obtain d s2 where d: "in_vm (copyuvm (kend ks) (kdata ks) (ppgdir (myproc s1)) (psz (myproc s1))) s1 = Ret (d, s2)"
      using assms(3) a Some by (auto simp: fork_def)
    define s3 where "s3 = setproc np ((getproc s2 np)\<lparr>ppgdir := d\<rparr>) s2"
    have v3: "fview s3 = fview s1" using fview_in_vm [OF d] by (simp add: s3_def fview_setproc)
    have l3: "length (procs (ptable s3)) = length (procs (ptable s))" "ofiles s3 ! np = (replicate NOFILE None, False)"
      using v3 v1 np by (auto simp: fview_def intro: ofiles_len2)
    have o3: "(pofile (getproc s3 np), idle (pstate (getproc s3 np))) = (replicate NOFILE None, False)"
      using pview_nth [of np "procs (ptable s3)"] l3 v1 by simp
    show ?thesis
    proof (cases "d = 0")
      case True
      then obtain v where v: "t = setproc np ((getproc s3 np)\<lparr>pkstack := 0, pstate := UNUSED\<rparr>) (s3\<lparr>kvm := v\<rparr>)"
        using assms(3) a Some d by (auto simp: fork_def Let_def s3_def)
      have n: "np < length (procs (ptable (s3\<lparr>kvm := v\<rparr>)))" using v1 l3(1) by simp
      have e: "fcounts (s3\<lparr>kvm := v\<rparr>) = fcounts s3" "cur (s3\<lparr>kvm := v\<rparr>) = cur s3" by (simp_all add: fcounts_def)
      have f3: "fcounts s3 = fcounts s" "ofiles s3 = (ofiles s)[np := (fst (ofiles s ! np), False)]" "cur s3 = cur s" using v1 v3 by (auto simp: fview_def)
      have same: "(ofiles s)[np := (replicate NOFILE None, True)] = ofiles s" using np(2) v1 by (metis list_update_id prod.collapse)
      have "fview t = (fcounts s, (ofiles s)[np := (replicate NOFILE None, True)], cur s)"
        unfolding v using fview_setproc_ofile [OF n, of "(getproc s3 np)\<lparr>pkstack := 0, pstate := UNUSED\<rparr>"] e f3 o3
        by (simp add: idle_def)
      then have "fview t = fview s" unfolding same by (simp add: fview_def)
      then show ?thesis using assms(1) files_ok_fview [of t s] by simp
    next
      case False
      define s4 where "s4 = setproc np ((getproc s3 np)\<lparr>psz := psz (myproc s3), pparent := Some (cur s3)\<rparr>) s3"
      define s5 where "s5 = setmem (store32 (memmove (getmem s4) (ptf (getproc s4 np)) (ptf (myproc s4)) TF_SIZE) (ptf (getproc s4 np) + TF_EAX) 0) s4"
      have v5: "fview s5 = fview s1" using v3 by (simp add: s5_def s4_def fview_setproc)
      obtain s6 where s6: "foldR (fork_file np) [0..<NOFILE] s5 = Ret s6"
        and t: "t = (let s = idup (cwd s6) s6; s = setproc np ((getproc s np)\<lparr>pcwd := Some (cwd s), pname := setname (pname (getproc s np)) (pname (myproc s))\<rparr>) s
           in setproc np ((getproc s np)\<lparr>pstate := RUNNABLE\<rparr>) s)"
        using assms(3) a Some d False unfolding fork_def s5_def s4_def s3_def Let_def by auto
      have "copied np (cur s) 0 s5" using v5 v1 ok1 np c(1) unfolding copied_def by (auto simp: fview_def)
      then have c6: "copied np (cur s) NOFILE s6" by (rule foldR_upt [OF s6, rotated]) (auto intro: copied_step)
      define s7 where "s7 = idup (cwd s6) s6"
      define s8 where "s8 = setproc np ((getproc s7 np)\<lparr>pcwd := Some (cwd s7), pname := setname (pname (getproc s7 np)) (pname (myproc s7))\<rparr>) s7"
      have v8: "fview s8 = fview s6" by (simp add: s8_def s7_def fview_setproc)
      then have "\<not> idle (pstate (getproc s8 np))"
        using c6 pview_nth [of np "procs (ptable s8)"] ofiles_len [of s8 s6] unfolding copied_def fview_def by auto
      then have "fview (setproc np ((getproc s8 np)\<lparr>pstate := RUNNABLE\<rparr>) s8) = fview s8" by (intro fview_setproc) (simp_all add: idle_def)
      then have "fview t = fview s6" unfolding t Let_def s7_def [symmetric] s8_def [symmetric] using v8 by simp
      then show ?thesis using c6 by (auto simp: files_ok_def copied_def fview_def)
    qed
  qed
qed

text \<open>The loop of \<open>exit\<close>: descriptors below \<open>k\<close> have been closed.\<close>

definition fds_closed :: "nat \<Rightarrow> nat \<Rightarrow> 'a kern_scheme \<Rightarrow> bool" where
  "fds_closed c k u \<longleftrightarrow> refs_ok (fcounts u) (ofiles u) \<and> cur u = c \<and> c < length (ofiles u) \<and> (\<forall>fd < k. fst (ofiles u ! c) ! fd = None)"

lemma fds_closed_step:
  assumes "fds_closed c k u" "k < NOFILE" "exit_file ks k u = Ret v"
  shows "fds_closed c (Suc k) v"
proof -
  note a = assms(1) [unfolded fds_closed_def]
  then have ok: "refs_ok (fcounts u) (ofiles u)" and c: "cur u = c" "c < length (ofiles u)" by auto
  have o: "ofiles u ! c = (pofile (myproc u), idle (pstate (myproc u)))" using pview_nth [of c "procs (ptable u)"] c by simp
  show ?thesis
  proof (cases "pofile (myproc u) ! k")
    case None
    then have "v = u" using assms(3) by (simp add: exit_file_def)
    then show ?thesis using a o None by (auto simp: fds_closed_def less_Suc_eq)
  next
    case (Some f)
    obtain w where w: "fileclose (kend ks) f u = Ret w" "v = setproc (cur w) ((myproc w)\<lparr>pofile := (pofile (myproc w))[k := None]\<rparr>) w"
      using assms(3) Some by (auto simp: exit_file_def)
    have fd: "fst (ofiles u ! c) ! k = Some f" using o Some by simp
    note dr = refs_drop [OF ok c(2) assms(2) fd]
    have vw: "fcounts w = (fcounts u)[f := fcounts u ! f - 1]" "ofiles w = ofiles u" "cur w = c" using fview_fileclose [OF w(1) dr(1)] c by (auto dest: fviewE)
    have n: "cur w < length (procs (ptable w))" using c(2) vw(3) ofiles_len [OF vw(2)] by simp
    have pn: "ofiles u ! c = (pofile (myproc w), idle (pstate (myproc w)))" using pview_nth [OF n] vw by simp
    have v: "fcounts v = (fcounts u)[f := fcounts u ! f - 1]" "ofiles v = (ofiles u)[c := ((fst (ofiles u ! c))[k := None], snd (ofiles u ! c))]" "cur v = c"
      using fview_setproc_ofile [OF n, of "(myproc w)\<lparr>pofile := (pofile (myproc w))[k := None]\<rparr>"] w(2) vw pn by (auto simp: fview_def)
    have "length (fst (ofiles u ! c)) = NOFILE" using refs_okD(1) [OF ok c(2)] .
    then show ?thesis using a dr(2) v assms(2) by (auto simp: fds_closed_def less_Suc_eq nth_list_update)
  qed
qed

lemma pview_exit_table:
  assumes "me < length (procs u)"
  shows "pview (procs (exit_table me u)) = (pview (procs u))[me := (pofile (procs u ! me), True)]"
proof -
  have r: "pview (reparent me ini ps i) = pview ps" for ini ps i
    by (auto simp: reparent_def Let_def pview_same)
  have f: "pview (foldl (reparent me ini) ps is) = pview ps" for ini ps "is"
    by (induction "is" arbitrary: ps) (simp_all add: r)
  let ?w = "wakeup1 (map_option ChProc (pparent (procs u ! me))) (procs u)"
  let ?ps = "foldl (reparent me (initproc u)) ?w [0..<length ?w]"
  have v: "pview ?ps = pview (procs u)" by (simp add: f)
  then have "length ?ps = length (procs u)" by (metis length_pview)
  then have "pofile (?ps ! me) = pofile (procs u ! me)" using v assms pview_nth [of me ?ps] pview_nth [of me "procs u"] by simp
  then show ?thesis using v by (simp add: exit_table_def Let_def pview_update idle_def)
qed

lemma refs_exit:
  assumes "files_ok s" "active s" "exit ks s = Ret t"
  shows "files_ok t"
proof -
  have c: "cur s < length (ofiles s)" using assms(2) by (simp add: active_alt)
  have ni: "cur s \<noteq> initproc (ptable s)" using assms(3) by (auto simp: exit_def)
  obtain s1 s2 s3 s4 where x: "foldR (exit_file ks) [0..<NOFILE] s = Ret s1" "begin_op s1 = Ret s2" "iput (cwd s2) s2 = Ret s3" "end_op s3 = Ret s4"
    using assms(3) ni by (auto simp: exit_def)
  define s5 where "s5 = setproc (cur s4) ((myproc s4)\<lparr>pcwd := None\<rparr>) s4"
  have t: "t = s5\<lparr>ptable := exit_table (cur s5) (ptable s5)\<rparr>" using assms(3) ni x by (simp add: exit_def s5_def Let_def)
  have "fds_closed (cur s) 0 s" using assms(1) c by (simp add: fds_closed_def files_ok_def)
  then have c1: "fds_closed (cur s) NOFILE s1" by (rule foldR_upt [OF x(1), rotated]) (auto intro: fds_closed_step)
  have "fview s5 = fview s4" by (simp add: s5_def fview_setproc)
  then have v5: "fview s5 = fview s1" using x(2-4) by (auto dest!: fs_view)
  then have f5: "fcounts s5 = fcounts s1" "ofiles s5 = ofiles s1" "cur s5 = cur s" using c1 by (auto simp: fview_def fds_closed_def)
  have n: "cur s5 < length (procs (ptable s5))" using c1 f5 ofiles_len [OF f5(2)] by (simp add: fds_closed_def)
  have ok1: "refs_ok (fcounts s1) (ofiles s1)" and l1: "cur s < length (ofiles s1)" using c1 by (auto simp: fds_closed_def)
  have "fst (ofiles s1 ! cur s) = replicate NOFILE None"
    using c1 refs_okD(1) [OF ok1 l1] by (intro nth_equalityI) (auto simp: fds_closed_def)
  moreover have "fst (ofiles s1 ! cur s) = pofile (myproc s5)" using pview_nth [OF n] f5 by simp
  ultimately have "refs_ok (fcounts s1) ((ofiles s1)[cur s := (pofile (myproc s5), True)])"
    using refs_flag [OF ok1 l1, of True] by simp
  moreover have "fcounts t = fcounts s1" using f5(1) by (simp add: t fcounts_def)
  ultimately show ?thesis using pview_exit_table [OF n] f5 by (simp add: files_ok_def t)
qed

section \<open>Every system call\<close>

lemma refs_finish:
  assumes "files_ok t" "finish (x, t) = (r, u)"
  shows "files_ok u"
proof (cases x)
  case (SRet k)
  then have "fview u = fview t" using assms(2) by (auto simp: finish_def set_eax_def)
  then show ?thesis using assms(1) files_ok_fview [of u t] by simp
next
  case (SBlock ch k)
  then have u: "u = t\<lparr>ptable := sleep_on ch (cur t) (ptable t)\<rparr>" using assms(2) by (auto simp: finish_def)
  note ok = assms(1) [unfolded files_ok_def]
  show ?thesis
  proof (cases "cur t < length (ofiles t)")
    case True
    have "ofiles u = (ofiles t)[cur t := (fst (ofiles t ! cur t), False)]" using pview_nth [of "cur t" "procs (ptable t)"] True
      by (simp add: u sleep_on_def pview_update idle_def)
    then show ?thesis using refs_flag [OF ok True, of False] by (simp add: files_ok_def u fcounts_def)
  next
    case False
    then have "procs (ptable u) = procs (ptable t)" by (simp add: u sleep_on_def list_update_beyond)
    then show ?thesis using ok by (simp add: files_ok_def u fcounts_def)
  qed
qed (use assms in \<open>auto simp: finish_def\<close>)

lemma refs_syscalls:
  assumes "files_ok s" "active s" "dev_view devsw" "k < 21" "(syscalls ks devsw buf ! k) s = Ret (x, t)"
  shows "files_ok t"
proof -
  have keep: "files_ok t" if "fview t = fview s" using that assms(1) files_ok_fview [of t s] by simp
  have "k \<in> set [0..<21]" using assms(4) by simp
  then consider "k = 0" | "k = 1" | "k = 2" | "k = 3" | "k = 4" | "k = 5" | "k = 6" | "k = 7" | "k = 8" | "k = 9" | "k = 10" | "k = 11"
    | "k = 12" | "k = 13" | "k = 14" | "k = 15" | "k = 16" | "k = 17" | "k = 18" | "k = 19" | "k = 20"
    by (auto simp: upt_rec)
  then show ?thesis
  proof cases
    case 1
    then show ?thesis using assms(5) refs_fork [OF assms(1,2)] by (auto simp: syscalls_def sys_fork_def)
  next
    case 2
    then show ?thesis using assms(5) refs_exit [OF assms(1,2)] by (auto simp: syscalls_def sys_exit_def)
  next
    case 3
    then show ?thesis using assms(5) keep sys_wait_view by (auto simp: syscalls_def)
  next
    case 4
    then show ?thesis using assms(5) refs_sys_pipe [OF assms(1,2)] by (auto simp: syscalls_def)
  next
    case 5
    then show ?thesis using assms(5) keep sys_read_view [OF _ assms(3)] by (auto simp: syscalls_def)
  next
    case 6
    then show ?thesis using assms(5) keep sys_kill_view by (auto simp: syscalls_def)
  next
    case 7
    then show ?thesis using assms(5) keep sys_exec_view [OF _ assms(3)] by (auto simp: syscalls_def)
  next
    case 8
    then show ?thesis using assms(5) keep sys_fstat_view by (auto simp: syscalls_def)
  next
    case 9
    then show ?thesis using assms(5) keep sys_chdir_view [OF _ assms(3)] by (auto simp: syscalls_def)
  next
    case 10
    then show ?thesis using assms(5) refs_sys_dup [OF assms(1,2)] by (auto simp: syscalls_def)
  next
    case 11
    then show ?thesis using assms(5,1) by (auto simp: syscalls_def sys_getpid_def)
  next
    case 12
    then show ?thesis using assms(5) keep sys_sbrk_view by (auto simp: syscalls_def)
  next
    case 13
    then show ?thesis using assms(5,1) by (auto simp: syscalls_def sys_sleep_def arg_or_Ret)
  next
    case 14
    then show ?thesis using assms(5,1) by (auto simp: syscalls_def sys_uptime_def)
  next
    case 15
    then show ?thesis using assms(5) refs_sys_open [OF assms(1,2) _ assms(3)] by (auto simp: syscalls_def)
  next
    case 16
    then show ?thesis using assms(5) keep sys_write_view [OF _ assms(3)] by (auto simp: syscalls_def)
  next
    case 17
    then show ?thesis using assms(5) keep sys_mknod_view [OF _ assms(3)] by (auto simp: syscalls_def)
  next
    case 18
    then show ?thesis using assms(5) keep sys_unlink_view [OF _ assms(3)] by (auto simp: syscalls_def)
  next
    case 19
    then show ?thesis using assms(5) keep sys_link_view [OF _ assms(3)] by (auto simp: syscalls_def)
  next
    case 20
    then show ?thesis using assms(5) keep sys_mkdir_view [OF _ assms(3)] by (auto simp: syscalls_def)
  next
    case 21
    then show ?thesis using assms(5) refs_sys_close [OF assms(1,2)] by (auto simp: syscalls_def)
  qed
qed

section \<open>Properties\<close>

text \<open>
  C6. Every system call keeps the reference counts of open files right: if the count of every entry of the file table is the
  number of descriptors, in all processes, that refer to it, and slots without a process have no open descriptors,
  then the same holds after any system call that returns, sleeps or ends the process, errors included. The devices are
  assumed not to touch files and descriptors.
\<close>

theorem syscall_keeps_references:
  assumes "files_ok s" "active s" "dev_frame fview devsw" "syscall ks devsw buf s = Ret (r, t)"
  shows "files_ok t"
proof -
  define num where "num = sint (load32 (getmem s) (ptf (myproc s) + TF_EAX))"
  show ?thesis
  proof (cases "num > 0 \<and> num < 22")
    case True
    then obtain x u where x: "(syscalls ks devsw buf ! nat (num - 1)) s = Ret (x, u)" "finish (x, u) = (r, t)"
      using assms(4) by (auto simp: syscall_def num_def [symmetric])
    have "files_ok u" using True by (intro refs_syscalls [OF assms(1-3) _ x(1)]) auto
    then show ?thesis using x(2) by (rule refs_finish)
  next
    case False
    then have "fview t = fview s" using assms(4) by (auto simp: syscall_def num_def [symmetric] set_eax_def)
    then show ?thesis using assms(1) files_ok_fview [of t s] by simp
  qed
qed

definition ksyms1 :: ksyms where
  "ksyms1 = \<lparr>kend = 0x80300000, kdata = 0x80200000, trapret_addr = 0x80100000, forkret_addr = 0x80100010, initcode_start = 0x80200100, initcode_size = 44\<rparr>"

lemma files_ok_kern1: "files_ok kern1" "active kern1"
  by (auto simp: files_ok_def refs_ok_def refs_def active_def fcounts_def pview_def kern1_simps proc1_def idle_def slot0_def sum_list_replicate)

lemma dup_kern1: "\<exists>t. syscall ksyms1 (\<lambda>_. (None, None)) [] kern1 = Ret (SRet 1, t)"
proof -
  have "load32 (getmem kern1) (ptf (myproc kern1) + TF_EAX) = 10" by (simp add: kern1_simps proc1_def mem1_loads)
  moreover have "argfd 0 kern1 = Ret (Some (0, 0))" by (simp add: argfd_def argint_kern1 kern1_simps proc1_def)
  moreover have "fdalloc 0 kern1 = (Some 1, set_fd 1 (Some 0) kern1)" by (simp add: fdalloc_def kern1_simps proc1_def numeral_eq_Suc)
  moreover have "\<exists>t. filedup 0 (set_fd 1 (Some 0) kern1) = Ret t" by (simp add: filedup_def set_fd_def setproc_def kern1_simps)
  ultimately show ?thesis by (auto simp: syscall_def syscalls_def sys_dup_def arg_or_def finish_def)
qed

theorem syscall_keeps_references_witness:
  "files_ok kern1 \<and> active kern1 \<and> (\<exists>t. syscall ksyms1 (\<lambda>_. (None, None)) [] kern1 = Ret (SRet 1, t) \<and> files_ok t)"
proof -
  obtain t where t: "syscall ksyms1 (\<lambda>_. (None, None)) [] kern1 = Ret (SRet 1, t)" using dup_kern1 by blast
  have "dev_frame fview (\<lambda>_. (None, None))" unfolding dev_frame_def by (auto intro: fview_more)
  then show ?thesis using syscall_keeps_references [OF files_ok_kern1 _ t] t files_ok_kern1 by blast
qed

end
