(* ===== verification/Mkfs.thy ===== *)
theory Mkfs
  imports Dir
begin

text \<open>
  \<open>xv6/mkfs.c\<close>, the program that builds the file system image, and what the kernel finds on the image.
  The image is the list of its blocks. Leaving with \<open>exit(1)\<close> or a failed \<open>assert\<close> is \<^const>\<open>Panic\<close>. The
  host is little-endian, so \<open>xint\<close> and \<open>xshort\<close> return their argument (\<open>of_le32_le32\<close>, \<open>of_le16_le16\<close>).
\<close>

section \<open>The program\<close>

definition xshort :: "ushort \<Rightarrow> ushort" where
  "xshort x = of_le16 (le16 x)"

definition xint :: "uint \<Rightarrow> uint" where
  "xint x = of_le32 (le32 x)"

definition NINODES :: nat where "NINODES = 200"
definition nbitmap :: nat where "nbitmap = FSSIZE div (BSIZE * 8) + 1"
definition ninodeblocks :: nat where "ninodeblocks = NINODES div IPB + 1"
definition nlog :: nat where "nlog = LOGSIZE"

record mkfs =
  img :: "blk list"
  msb :: superblock
  freeinode :: uint
  freeblock :: uint

definition sector :: "uint \<Rightarrow> nat" where
  "sector sec = unat (sec * 512) div BSIZE"

text \<open>Writing behind the end of the image file makes it longer; reading there is an error.\<close>

definition wsect :: "uint \<Rightarrow> blk \<Rightarrow> mkfs \<Rightarrow> mkfs" where
  "wsect sec buf s = s\<lparr>img := (img s @ replicate (Suc (sector sec) - length (img s)) (replicate BSIZE 0))[sector sec := buf]\<rparr>"

definition rsect :: "uint \<Rightarrow> mkfs \<Rightarrow> blk res" where
  "rsect sec s = (if sector sec < length (img s) then Ret (img s ! sector sec) else Panic ''read'')"

definition winode :: "uint \<Rightarrow> inode \<Rightarrow> mkfs \<Rightarrow> mkfs res" where
  "winode n ip s =
     (let bn = IBLOCK n (msb s) in
      bindR (rsect bn s) (\<lambda>buf. Ret (wsect bn (put_dinode (ioff n) ip buf) s)))"

definition rinode :: "uint \<Rightarrow> mkfs \<Rightarrow> inode res" where
  "rinode n s = bindR (rsect (IBLOCK n (msb s)) s) (\<lambda>buf. Ret (get_dinode (ioff n) buf zeroinode))"

definition mkfs_ialloc :: "ushort \<Rightarrow> mkfs \<Rightarrow> (uint \<times> mkfs) res" where
  "mkfs_ialloc type s =
     (let n = freeinode s; s = s\<lparr>freeinode := freeinode s + 1\<rparr> in
      bindR (winode n (zeroinode\<lparr>itype := xshort type, nlink := xshort 1, isize := xint 0\<rparr>) s) (\<lambda>s. Ret (n, s)))"

definition mkfs_balloc :: "uint \<Rightarrow> mkfs \<Rightarrow> mkfs res" where
  "mkfs_balloc n s =
     (if \<not> unat n < BSIZE * 8 then Panic ''assert(used < BSIZE*8)''
      else Ret (wsect (sb_bmapstart (msb s)) (foldl bit_mark (replicate BSIZE 0) [0..<unat n]) s))"

text \<open>The block that holds the part number \<open>fbn\<close> of the file: it and the indirect block are allocated as needed.\<close>

definition new_block :: "nat \<Rightarrow> inode \<Rightarrow> mkfs \<Rightarrow> inode \<times> mkfs" where
  "new_block k din s =
     (if xint (addrs din ! k) = 0
      then (din\<lparr>addrs := (addrs din)[k := xint (freeblock s)]\<rparr>, s\<lparr>freeblock := freeblock s + 1\<rparr>)
      else (din, s))"

definition iappend_block :: "nat \<Rightarrow> inode \<Rightarrow> mkfs \<Rightarrow> (uint \<times> inode \<times> mkfs) res" where
  "iappend_block fbn din s =
     (if fbn < NDIRECT then
        case new_block fbn din s of (din, s) \<Rightarrow> Ret (xint (addrs din ! fbn), din, s)
      else
        case new_block NDIRECT din s of (din, s) \<Rightarrow>
        bindR (rsect (xint (addrs din ! NDIRECT)) s) (\<lambda>ind.
          if rd32 ind (4 * (fbn - NDIRECT)) = 0 then
            let x = freeblock s; s = s\<lparr>freeblock := freeblock s + 1\<rparr>;
                ind = wr32 ind (4 * (fbn - NDIRECT)) (xint x)
            in Ret (xint (rd32 ind (4 * (fbn - NDIRECT))), din, wsect (xint (addrs din ! NDIRECT)) ind s)
          else Ret (xint (rd32 ind (4 * (fbn - NDIRECT))), din, s)))"

function iappend_loop :: "nat \<Rightarrow> byte list \<Rightarrow> inode \<Rightarrow> mkfs \<Rightarrow> (nat \<times> inode \<times> mkfs) res" where
  "iappend_loop off p din s =
     (if p = [] then Ret (off, din, s)
      else let fbn = off div BSIZE in
        if \<not> fbn < MAXFILE then Panic ''assert(fbn < MAXFILE)''
        else bindR (iappend_block fbn din s) (\<lambda>(x, din, s).
             let n1 = min (length p) ((fbn + 1) * BSIZE - off) in
             bindR (rsect x s) (\<lambda>buf.
               iappend_loop (off + n1) (drop n1 p) din (wsect x (put_bytes (off - fbn * BSIZE) (take n1 p) buf) s))))"
  by pat_completeness auto
termination
proof (relation "measure (\<lambda>(off, p, din, s). length p)", goal_cases)
  case (2 off p din s fbn x y z w n1 buf)
  have "off < (off div BSIZE + 1) * BSIZE" using block_end [of off] mod_BSIZE [of off] by linarith
  then show ?case using 2 by (cases p) auto
qed simp

declare iappend_loop.simps [simp del]

definition iappend :: "uint \<Rightarrow> byte list \<Rightarrow> mkfs \<Rightarrow> mkfs res" where
  "iappend n p s =
     bindR (rinode n s) (\<lambda>din.
     bindR (iappend_loop (unat (xint (isize din))) p din s) (\<lambda>(off, din, s).
     winode n (din\<lparr>isize := xint (of_nat off)\<rparr>) s))"

text \<open>
  A file of the host on the command line: its name, and what the calls of \<open>read\<close> deliver until the
  end of the file, or \<^const>\<open>None\<close> if it cannot be opened.
\<close>

type_synonym hostfile = "byte list \<times> byte list list option"

definition mkfs_name :: "byte list \<Rightarrow> byte list" where
  "mkfs_name a = (if a \<noteq> [] \<and> hd a = 95 then tl a else a)"

definition mkfs_dirent :: "uint \<Rightarrow> byte list \<Rightarrow> byte list" where
  "mkfs_dirent n name = mk_dirent (xshort (ucast n)) (pad0 DIRSIZ (take DIRSIZ name))"

definition mkfs_file :: "uint \<Rightarrow> hostfile \<Rightarrow> mkfs \<Rightarrow> mkfs res" where
  "mkfs_file rootino f s =
     (case f of (a, content) \<Rightarrow>
        if SLASH \<in> set a then Panic ''assert(index(argv[i], '/') == 0)''
        else case content of
          None \<Rightarrow> Panic ''open''
        | Some cs \<Rightarrow>
            bindR (mkfs_ialloc T_FILE s) (\<lambda>(n, s).
            bindR (iappend rootino (mkfs_dirent n (mkfs_name a)) s) (\<lambda>s.
            foldR (iappend n) cs s)))"

definition mkfs_start :: mkfs where
  "mkfs_start =
     (let nmeta = 2 + nlog + ninodeblocks + nbitmap;
          b = \<lparr>sb_size = xint (of_nat FSSIZE), sb_nblocks = xint (of_nat (FSSIZE - nmeta)),
               sb_ninodes = xint (of_nat NINODES), sb_nlog = xint (of_nat nlog), sb_logstart = xint 2,
               sb_inodestart = xint (of_nat (2 + nlog)), sb_bmapstart = xint (of_nat (2 + nlog + ninodeblocks))\<rparr>;
          s = foldl (\<lambda>s i. wsect (of_nat i) (replicate BSIZE 0) s)
                \<lparr>img = [], msb = b, freeinode = 1, freeblock = of_nat nmeta\<rparr> [0..<FSSIZE]
      in wsect 1 (put_words 0 [sb_size b, sb_nblocks b, sb_ninodes b, sb_nlog b, sb_logstart b,
                    sb_inodestart b, sb_bmapstart b] (replicate BSIZE 0)) s)"

definition mkfs_finish :: "uint \<Rightarrow> mkfs \<Rightarrow> mkfs res" where
  "mkfs_finish rootino s =
     bindR (rinode rootino s) (\<lambda>din.
       let off = (unat (xint (isize din)) div BSIZE + 1) * BSIZE in
       bindR (winode rootino (din\<lparr>isize := xint (of_nat off)\<rparr>) s) (\<lambda>s.
       mkfs_balloc (freeblock s) s))"

definition mkfs_main :: "hostfile list \<Rightarrow> mkfs res" where
  "mkfs_main files =
     bindR (mkfs_ialloc T_DIR mkfs_start) (\<lambda>(rootino, s).
       if rootino \<noteq> ROOTINO then Panic ''assert(rootino == ROOTINO)''
       else
         bindR (iappend rootino (mkfs_dirent rootino [46]) s) (\<lambda>s.
         bindR (iappend rootino (mkfs_dirent rootino [46, 46]) s) (\<lambda>s.
         bindR (foldR (mkfs_file rootino) files s) (mkfs_finish rootino))))"

section \<open>Sectors\<close>

lemma xint_id [simp]: "xint x = x" "xshort y = y"
  by (simp_all add: xint_def xshort_def)

definition mview :: "mkfs \<Rightarrow> uint \<Rightarrow> blk" where
  "mview s a = (if unat a < length (img s) then img s ! unat a else [])"

definition img_ok :: "mkfs \<Rightarrow> bool" where
  "img_ok s \<longleftrightarrow> length (img s) = FSSIZE \<and> (\<forall>d \<in> set (img s). length d = BSIZE)"

lemma sector_small: "unat a < FSSIZE \<Longrightarrow> sector a = unat a"
proof -
  assume "unat a < FSSIZE"
  then have "unat (a * 512) = unat a * 512" by (subst unat_mult_lem [THEN iffD1]) simp_all
  then show ?thesis by (simp add: sector_def)
qed

lemma rsect_Ret: "img_ok s \<Longrightarrow> unat a < FSSIZE \<Longrightarrow> rsect a s = Ret (mview s a)"
  by (simp add: rsect_def sector_small mview_def img_ok_def)

lemma length_mview: "img_ok s \<Longrightarrow> unat a < FSSIZE \<Longrightarrow> length (mview s a) = BSIZE"
  by (simp add: mview_def img_ok_def)

lemma wsect_simps [simp]:
  "msb (wsect a d s) = msb s" "freeinode (wsect a d s) = freeinode s" "freeblock (wsect a d s) = freeblock s"
  by (simp_all add: wsect_def)

lemma wsect_ok:
  assumes "img_ok s" "unat a < FSSIZE" "length d = BSIZE"
  shows "img_ok (wsect a d s)" "mview (wsect a d s) = (mview s)(a := d)"
  using assms by (auto simp: img_ok_def wsect_def sector_small mview_def nth_list_update fun_eq_iff word_unat_eq_iff
      dest!: in_set_list_update)

lemma mview_upd [simp]: "mview (s\<lparr>freeblock := b\<rparr>) = mview s" "img_ok (s\<lparr>freeblock := b\<rparr>) = img_ok s"
  "mview (s\<lparr>freeinode := c\<rparr>) = mview s" "img_ok (s\<lparr>freeinode := c\<rparr>) = img_ok s"
  by (simp_all add: mview_def fun_eq_iff img_ok_def)

section \<open>The blocks of a file that has no holes\<close>

abbreviation "NMETA \<equiv> (59 :: nat)"

text \<open>The file has the blocks 0 to \<open>nb - 1\<close>, all different and in the range of the allocated ones.\<close>

definition mowned :: "(uint \<Rightarrow> blk) \<Rightarrow> nat \<Rightarrow> inode \<Rightarrow> nat \<Rightarrow> bool" where
  "mowned v fb ip nb \<longleftrightarrow>
     length (addrs ip) = NDIRECT + 1 \<and> nb \<le> MAXFILE \<and>
     (\<forall>k < MAXFILE. faddr v ip k \<noteq> 0 \<longleftrightarrow> k < nb) \<and> (addrs ip ! NDIRECT \<noteq> 0 \<longleftrightarrow> NDIRECT < nb) \<and>
     (\<forall>a \<in> fblocks v ip. NMETA \<le> unat a \<and> unat a < fb) \<and>
     (\<forall>k < nb. \<forall>l < nb. faddr v ip k = faddr v ip l \<longrightarrow> k = l) \<and>
     (\<forall>k < nb. faddr v ip k \<noteq> addrs ip ! NDIRECT)"

definition fresh :: "mkfs \<Rightarrow> bool" where
  "fresh s \<longleftrightarrow> NMETA \<le> unat (freeblock s) \<and> unat (freeblock s) \<le> FSSIZE \<and>
     (\<forall>a. unat (freeblock s) \<le> unat a \<and> unat a < FSSIZE \<longrightarrow> mview s a = replicate BSIZE 0)"

lemma mownedD:
  assumes "mowned v fb ip nb"
  shows "length (addrs ip) = NDIRECT + 1" "nb \<le> MAXFILE" "k < MAXFILE \<Longrightarrow> faddr v ip k \<noteq> 0 \<longleftrightarrow> k < nb"
    "addrs ip ! NDIRECT \<noteq> 0 \<longleftrightarrow> NDIRECT < nb" "a \<in> fblocks v ip \<Longrightarrow> NMETA \<le> unat a \<and> unat a < fb"
    "k < nb \<Longrightarrow> l < nb \<Longrightarrow> faddr v ip k = faddr v ip l \<Longrightarrow> k = l" "k < nb \<Longrightarrow> faddr v ip k \<noteq> addrs ip ! NDIRECT"
  using assms unfolding mowned_def by blast+

lemma mowned_range:
  assumes "mowned v fb ip nb" "k < nb"
  shows "NMETA \<le> unat (faddr v ip k) \<and> unat (faddr v ip k) < fb" "faddr v ip k \<in> fblocks v ip"
proof -
  have "k < MAXFILE" using mownedD(2) [OF assms(1)] assms(2) by simp
  then show "faddr v ip k \<in> fblocks v ip" using mownedD(3) [OF assms(1)] assms(2) by (auto simp: fblocks_def)
  then show "NMETA \<le> unat (faddr v ip k) \<and> unat (faddr v ip k) < fb" by (rule mownedD(5) [OF assms(1)])
qed

lemma mowned_indirect:
  assumes "mowned v fb ip nb" "NDIRECT < nb"
  shows "NMETA \<le> unat (addrs ip ! NDIRECT) \<and> unat (addrs ip ! NDIRECT) < fb" "addrs ip ! NDIRECT \<in> fblocks v ip"
proof -
  show "addrs ip ! NDIRECT \<in> fblocks v ip" using mownedD(4) [OF assms(1)] assms(2) by (simp add: fblocks_def)
  then show "NMETA \<le> unat (addrs ip ! NDIRECT) \<and> unat (addrs ip ! NDIRECT) < fb" by (rule mownedD(5) [OF assms(1)])
qed

text \<open>One more block, number \<open>nb\<close> at address \<open>x\<close>, and perhaps a new indirect block.\<close>

lemma mowned_extend:
  assumes o: "mowned v fb ip nb" and nb: "nb < MAXFILE" and l: "length (addrs ip') = NDIRECT + 1"
    and f: "\<And>k. k < MAXFILE \<Longrightarrow> faddr v' ip' k = (if k = nb then x else faddr v ip k)"
    and x: "NMETA \<le> fb" "fb \<le> unat x" "unat x < fb'" "fb \<le> fb'"
    and y: "addrs ip' ! NDIRECT = (if nb = NDIRECT then y else addrs ip ! NDIRECT)"
    and yr: "nb = NDIRECT \<Longrightarrow> fb \<le> unat y \<and> unat y < fb' \<and> y \<noteq> x"
  shows "mowned v' fb' ip' (Suc nb)" "fblocks v' ip' \<subseteq> fblocks v ip \<union> {a. fb \<le> unat a \<and> unat a < fb'}"
proof -
  note d = mownedD [OF o]
  have x0: "x \<noteq> 0" "nb = NDIRECT \<Longrightarrow> y \<noteq> 0" using x(1,2) yr by auto
  have fx: "faddr v ip k \<noteq> x" if "k < nb" for k using mowned_range(1) [OF o that] x(2) by auto
  have ind: "addrs ip' ! NDIRECT \<noteq> 0 \<longleftrightarrow> NDIRECT < Suc nb" using y x0(2) d(4) by auto
  show sub: "fblocks v' ip' \<subseteq> fblocks v ip \<union> {a. fb \<le> unat a \<and> unat a < fb'}"
    using f x(2,3) y yr by (auto simp: fblocks_def split: if_splits)
  have ne: "faddr v' ip' k \<noteq> addrs ip' ! NDIRECT" if k: "k < Suc nb" for k
  proof (cases "k = nb")
    case True
    show ?thesis
    proof (cases "NDIRECT < nb")
      case ind: True
      then show ?thesis using True f [OF nb] y mowned_indirect(1) [OF o ind] x(2) by auto
    next
      case ind: False
      then show ?thesis using True f [OF nb] y yr d(4) x0(1) by auto
    qed
  next
    case False
    then have "k < nb" "k < MAXFILE" using k nb by simp_all
    then show ?thesis using f [of k] d(7) [of k] mowned_range(1) [OF o, of k] y yr False by auto
  qed
  have inj: "k = l" if "k < Suc nb" "l < Suc nb" "faddr v' ip' k = faddr v' ip' l" for k l
  proof -
    have "faddr v' ip' k = (if k = nb then x else faddr v ip k)" "faddr v' ip' l = (if l = nb then x else faddr v ip l)"
      using f [of k] f [of l] that(1,2) nb by simp_all
    then show ?thesis using that fx [of k] fx [of l] d(6) [of k l] by (cases "k = nb"; cases "l = nb") auto
  qed
  have nz: "faddr v' ip' k \<noteq> 0 \<longleftrightarrow> k < Suc nb" if "k < MAXFILE" for k
    using f [OF that] d(3) [OF that] x0(1) by (auto simp: less_Suc_eq)
  have rng: "NMETA \<le> unat a \<and> unat a < fb'" if "a \<in> fblocks v' ip'" for a
    using that sub d(5) [of a] x(1,4) by auto
  show "mowned v' fb' ip' (Suc nb)"
    unfolding mowned_def using l nb nz ind rng inj ne by simp
qed

lemma rd32_zero: "off + 4 \<le> BSIZE \<Longrightarrow> rd32 (replicate BSIZE 0) off = 0"
proof -
  assume "off + 4 \<le> BSIZE"
  then have "get_bytes off 4 (replicate BSIZE (0 :: byte)) = replicate 4 0" by (simp add: get_bytes_def)
  moreover have "replicate 4 (0 :: byte) = [0, 0, 0, 0]" by (simp add: numeral_eq_Suc)
  ultimately show ?thesis by (simp add: rd32_def)
qed

lemma rd32_zero_word: "j < NINDIRECT \<Longrightarrow> rd32 (replicate BSIZE 0) (4 * j) = 0"
  by (rule rd32_zero) simp

text \<open>Asking for a block that the file has changes nothing.\<close>

lemma iappend_block_old:
  assumes "img_ok s" "mowned (mview s) fb din nb" "fbn < nb" "fb \<le> FSSIZE"
  shows "iappend_block fbn din s = Ret (faddr (mview s) din fbn, din, s)"
proof (cases "fbn < NDIRECT")
  case True
  moreover have "faddr (mview s) din fbn \<noteq> 0" using mownedD(2,3) [OF assms(2)] assms(3) by auto
  ultimately show ?thesis by (simp add: iappend_block_def new_block_def faddr_def)
next
  case False
  then have ind: "NDIRECT < nb" using assms(3) by simp
  have "addrs din ! NDIRECT \<noteq> 0" using mownedD(4) [OF assms(2)] ind by simp
  moreover have "rsect (addrs din ! NDIRECT) s = Ret (mview s (addrs din ! NDIRECT))"
    using rsect_Ret [OF assms(1)] mowned_indirect(1) [OF assms(2) ind] assms(4) by simp
  moreover have "faddr (mview s) din fbn \<noteq> 0" using mownedD(2,3) [OF assms(2)] assms(3) by auto
  ultimately show ?thesis using False by (simp add: iappend_block_def new_block_def faddr_def)
qed

text \<open>
  Asking for the next block: its address is fresh, the other block numbers stay, and only the indirect
  block of the file changes.
\<close>

definition next_block :: "nat \<Rightarrow> inode \<Rightarrow> mkfs \<Rightarrow> uint \<Rightarrow> inode \<Rightarrow> mkfs \<Rightarrow> bool" where
  "next_block nb din s x din' s' \<longleftrightarrow>
     img_ok s' \<and> fresh s' \<and> msb s' = msb s \<and> freeinode s' = freeinode s \<and> din' = din\<lparr>addrs := addrs din'\<rparr> \<and>
     unat (freeblock s') = unat (freeblock s) + (if nb = NDIRECT then 2 else 1) \<and>
     mowned (mview s') (unat (freeblock s')) din' (Suc nb) \<and>
     (\<forall>k < MAXFILE. faddr (mview s') din' k = (if k = nb then x else faddr (mview s) din k)) \<and>
     unat (freeblock s) \<le> unat x \<and> mview s' x = replicate BSIZE 0 \<and>
     fblocks (mview s') din' \<subseteq> fblocks (mview s) din \<union> {a. unat (freeblock s) \<le> unat a \<and> unat a < unat (freeblock s')} \<and>
     (\<forall>b. b \<noteq> addrs din' ! NDIRECT \<longrightarrow> mview s' b = mview s b) \<and>
     (addrs din' ! NDIRECT = 0 \<longrightarrow> mview s' = mview s) \<and>
     (nb \<noteq> NDIRECT \<longrightarrow> addrs din' ! NDIRECT = addrs din ! NDIRECT)"

lemma freeblock_Suc: "unat (freeblock s) < FSSIZE \<Longrightarrow> unat (freeblock s + 1) = Suc (unat (freeblock s))"
  by (subst unat_add_lem [THEN iffD1]) simp_all

lemma next_block_direct:
  assumes "img_ok s" "fresh s" "mowned (mview s) (unat (freeblock s)) din nb" "nb < NDIRECT" "unat (freeblock s) < FSSIZE"
  shows "\<exists>x din' s'. iappend_block nb din s = Ret (x, din', s') \<and> next_block nb din s x din' s'"
proof -
  let ?x = "freeblock s" and ?ip = "din\<lparr>addrs := (addrs din)[nb := freeblock s]\<rparr>" and ?s = "s\<lparr>freeblock := freeblock s + 1\<rparr>"
  note d = mownedD [OF assms(3)]
  have z: "addrs din ! nb = 0" "addrs din ! NDIRECT = 0" using d(3) [of nb] d(4) assms(4) by (auto simp: faddr_def)
  have l: "nb < length (addrs din)" using d(1) assms(4) by simp
  have f: "faddr (mview ?s) ?ip k = (if k = nb then ?x else faddr (mview s) din k)" if "k < MAXFILE" for k
    using z(2) l assms(4) by (auto simp: faddr_def nth_list_update)
  note ext = mowned_extend [OF assms(3) _ _ f, of "Suc (unat (freeblock s))" "freeblock s + 1"]
  have "mowned (mview ?s) (Suc (unat ?x)) ?ip (Suc nb)"
    "fblocks (mview ?s) ?ip \<subseteq> fblocks (mview s) din \<union> {a. unat ?x \<le> unat a \<and> unat a < Suc (unat ?x)}"
    using ext assms(2,4) d(1) by (auto simp: fresh_def)
  moreover have "fresh ?s" using assms(2,5) by (auto simp: fresh_def freeblock_Suc)
  moreover have "mview s ?x = replicate BSIZE 0" using assms(2,5) by (simp add: fresh_def)
  moreover have "iappend_block nb din s = Ret (?x, ?ip, ?s)"
    using z(1) l assms(4) by (simp add: iappend_block_def new_block_def)
  ultimately show ?thesis using assms(1,4,5) f z(2) freeblock_Suc [OF assms(5)]
    by (auto simp: next_block_def intro!: exI [of _ ?x] exI [of _ ?ip] exI [of _ ?s])
qed

text \<open>The indirect block of a file that needs one: its entries from \<open>nb\<close> on are 0.\<close>

definition ind_ready :: "nat \<Rightarrow> inode \<Rightarrow> mkfs \<Rightarrow> inode \<Rightarrow> mkfs \<Rightarrow> bool" where
  "ind_ready nb din s din1 s1 \<longleftrightarrow>
     img_ok s1 \<and> fresh s1 \<and> mview s1 = mview s \<and> (\<exists>y. din1 = din\<lparr>addrs := (addrs din)[NDIRECT := y]\<rparr>) \<and>
     addrs din1 ! NDIRECT \<noteq> 0 \<and> addrs din1 ! NDIRECT = (if nb = NDIRECT then freeblock s else addrs din ! NDIRECT) \<and>
     unat (freeblock s1) = unat (freeblock s) + (if nb = NDIRECT then 1 else 0) \<and> msb s1 = msb s \<and> freeinode s1 = freeinode s \<and>
     (\<forall>k. NDIRECT \<le> k \<and> k < MAXFILE \<longrightarrow> rd32 (mview s (addrs din1 ! NDIRECT)) (4 * (k - NDIRECT)) = faddr (mview s) din k) \<and>
     unat (addrs din1 ! NDIRECT) < unat (freeblock s1) \<and> NMETA \<le> unat (addrs din1 ! NDIRECT) \<and> length (addrs din1) = NDIRECT + 1"

lemma new_indirect:
  assumes "img_ok s" "fresh s" "mowned (mview s) (unat (freeblock s)) din nb" "NDIRECT \<le> nb" "nb < MAXFILE"
    and "unat (freeblock s) < FSSIZE"
  shows "case new_block NDIRECT din s of (din1, s1) \<Rightarrow> ind_ready nb din s din1 s1"
proof (cases "nb = NDIRECT")
  case False
  then have lt: "NDIRECT < nb" using assms(4) by simp
  then have z: "addrs din ! NDIRECT \<noteq> 0" using mownedD(4) [OF assms(3)] by simp
  then have "ind_ready nb din s din s"
    using assms(1,2) False lt mownedD(1) [OF assms(3)] mowned_indirect(1) [OF assms(3) lt]
    by (auto simp: ind_ready_def faddr_def intro: exI [of _ "addrs din ! NDIRECT"])
  then show ?thesis using z by (simp add: new_block_def)
next
  case True
  let ?din = "din\<lparr>addrs := (addrs din)[NDIRECT := freeblock s]\<rparr>" and ?s = "s\<lparr>freeblock := freeblock s + 1\<rparr>"
  have z: "addrs din ! NDIRECT = 0" "length (addrs din) = NDIRECT + 1" using mownedD(1,4) [OF assms(3)] True by auto
  have "mview s (freeblock s) = replicate BSIZE 0" using assms(2,6) by (simp add: fresh_def)
  moreover have "fresh ?s" using assms(2,6) by (auto simp: fresh_def freeblock_Suc)
  moreover have "freeblock s \<noteq> 0" "NMETA \<le> unat (freeblock s)" using assms(2) by (auto simp: fresh_def)
  ultimately have "ind_ready nb din s ?din ?s"
    using True z assms(1,6) freeblock_Suc [OF assms(6)]
    by (auto simp: ind_ready_def faddr_def rd32_zero_word)
  then show ?thesis using z by (simp add: new_block_def)
qed

lemma ind_readyD:
  assumes "ind_ready nb din s din1 s1"
  shows "img_ok s1" "fresh s1" "mview s1 = mview s" "\<exists>y. din1 = din\<lparr>addrs := (addrs din)[NDIRECT := y]\<rparr>"
    "addrs din1 ! NDIRECT \<noteq> 0" "addrs din1 ! NDIRECT = (if nb = NDIRECT then freeblock s else addrs din ! NDIRECT)"
    "unat (freeblock s1) = unat (freeblock s) + (if nb = NDIRECT then 1 else 0)" "msb s1 = msb s" "freeinode s1 = freeinode s"
    "NDIRECT \<le> k \<Longrightarrow> k < MAXFILE \<Longrightarrow> rd32 (mview s (addrs din1 ! NDIRECT)) (4 * (k - NDIRECT)) = faddr (mview s) din k"
    "unat (addrs din1 ! NDIRECT) < unat (freeblock s1)" "NMETA \<le> unat (addrs din1 ! NDIRECT)" "length (addrs din1) = NDIRECT + 1"
  using assms unfolding ind_ready_def by blast+

lemma next_block_indirect:
  assumes "img_ok s" "fresh s" "mowned (mview s) (unat (freeblock s)) din nb" "NDIRECT \<le> nb" "nb < MAXFILE"
    and "unat (freeblock s) + (if nb = NDIRECT then 1 else 0) < FSSIZE"
  shows "\<exists>x din' s'. iappend_block nb din s = Ret (x, din', s') \<and> next_block nb din s x din' s'"
proof -
  have lt: "unat (freeblock s) < FSSIZE" using assms(6) by simp
  obtain din1 s1 where n0: "new_block NDIRECT din s = (din1, s1)" by fastforce
  then have "ind_ready nb din s din1 s1" using new_indirect [OF assms(1-5) lt] by simp
  note n = ind_readyD [OF this]
  obtain y0 where y0: "din1 = din\<lparr>addrs := (addrs din)[NDIRECT := y0]\<rparr>" using n(4) by blast
  let ?y = "addrs din1 ! NDIRECT" and ?x = "freeblock s1"
  let ?ind = "wr32 (mview s ?y) (4 * (nb - NDIRECT)) ?x"
  let ?s = "wsect ?y ?ind (s1\<lparr>freeblock := freeblock s1 + 1\<rparr>)"
  have x: "unat ?x < FSSIZE" using n(7) assms(6) by simp
  have y: "unat ?y < FSSIZE" using n(11) x by simp
  have yx: "?y \<noteq> ?x" using n(11) by auto
  have len: "length (mview s ?y) = BSIZE" using length_mview [OF assms(1) y] .
  have ilen: "length ?ind = BSIZE" using len assms(5) by simp
  have w: "img_ok ?s" "mview ?s = (mview s)(?y := ?ind)"
    using wsect_ok [of "s1\<lparr>freeblock := freeblock s1 + 1\<rparr>", OF _ y ilen] n(1,3) by simp_all
  have "rd32 (mview s ?y) (4 * (nb - NDIRECT)) = 0"
    using n(10) [of nb] assms(4,5) mownedD(3) [OF assms(3), of nb] by simp
  moreover have "rsect ?y s1 = Ret (mview s ?y)" using rsect_Ret [OF n(1) y] n(3) by simp
  ultimately have run: "iappend_block nb din s = Ret (?x, din1, ?s)"
    using n0 assms(4,5) len by (simp add: iappend_block_def Let_def rd32_wr32_word)
  have f: "faddr (mview ?s) din1 k = (if k = nb then ?x else faddr (mview s) din k)" if k: "k < MAXFILE" for k
  proof (cases "k < NDIRECT")
    case True
    then have "addrs din1 ! k = addrs din ! k" by (simp add: y0)
    then show ?thesis using True assms(4) by (simp add: faddr_def)
  next
    case False
    then have "faddr (mview ?s) din1 k = rd32 ?ind (4 * (k - NDIRECT))" using n(5) w(2) by (simp add: faddr_def)
    also have "\<dots> = (if k - NDIRECT = nb - NDIRECT then ?x else rd32 (mview s ?y) (4 * (k - NDIRECT)))"
      using len k assms(5) by (simp add: rd32_wr32_word)
    finally show ?thesis using False assms(4) n(10) [of k] k by auto
  qed
  have fs: "unat (freeblock ?s) = Suc (unat ?x)" using freeblock_Suc [OF x] by simp
  have "NMETA \<le> unat (freeblock s)" using assms(2) by (simp add: fresh_def)
  then have o: "mowned (mview ?s) (unat (freeblock ?s)) din1 (Suc nb)"
    "fblocks (mview ?s) din1 \<subseteq> fblocks (mview s) din \<union> {a. unat (freeblock s) \<le> unat a \<and> unat a < unat (freeblock ?s)}"
    using mowned_extend [OF assms(3,5) n(13) f, of "unat (freeblock ?s)" ?y] fs n(6,7) yx by auto
  have "fresh ?s" using n(2,3,7,11) fs x w(2) by (auto simp: fresh_def)
  moreover have "mview ?s ?x = replicate BSIZE 0" using w(2) n(2,3) yx x by (auto simp: fresh_def)
  moreover have "unat (freeblock ?s) = unat (freeblock s) + (if nb = NDIRECT then 2 else 1)" using fs n(7) by simp
  moreover have "din1 = din\<lparr>addrs := addrs din1\<rparr>" by (simp add: y0)
  moreover have "unat (freeblock s) \<le> unat ?x" using n(7) by simp
  moreover have "\<forall>b. b \<noteq> ?y \<longrightarrow> mview ?s b = mview s b" using w(2) by simp
  ultimately have "next_block nb din s ?x din1 ?s"
    unfolding next_block_def using w(1) f o n(5,6,8,9) by simp
  then show ?thesis using run by blast
qed

section \<open>Appending to a file\<close>

definition nblk :: "nat \<Rightarrow> nat" where
  "nblk n = (if n mod BSIZE = 0 then n div BSIZE else Suc (n div BSIZE))"

text \<open>The blocks that a file of \<open>n\<close> bytes needs, the indirect block included.\<close>

definition cost :: "nat \<Rightarrow> nat" where
  "cost nb = nb + (if NDIRECT < nb then 1 else 0)"

text \<open>The file holds the bytes \<open>xs\<close>, and zeros behind them.\<close>

definition mfile :: "(uint \<Rightarrow> blk) \<Rightarrow> nat \<Rightarrow> inode \<Rightarrow> byte list \<Rightarrow> bool" where
  "mfile v fb ip xs \<longleftrightarrow> mowned v fb ip (nblk (length xs)) \<and>
     (\<forall>p < MAXFILE * BSIZE. fbyte v ip p = (if p < length xs then xs ! p else 0))"

text \<open>What a change to the file with inode \<open>din\<close> may do to the rest of the image.\<close>

definition mgrow :: "inode \<Rightarrow> mkfs \<Rightarrow> inode \<Rightarrow> mkfs \<Rightarrow> bool" where
  "mgrow din s din' s' \<longleftrightarrow>
     img_ok s' \<and> fresh s' \<and> msb s' = msb s \<and> freeinode s' = freeinode s \<and> din' = din\<lparr>addrs := addrs din'\<rparr> \<and>
     unat (freeblock s) \<le> unat (freeblock s') \<and>
     fblocks (mview s') din' \<subseteq> fblocks (mview s) din \<union> {a. unat (freeblock s) \<le> unat a \<and> unat a < unat (freeblock s')} \<and>
     (\<forall>b. b \<notin> fblocks (mview s') din' \<longrightarrow> mview s' b = mview s b) \<and>
     fblocks (mview s) din \<subseteq> fblocks (mview s') din'"

lemma mgrow_refl: "img_ok s \<Longrightarrow> fresh s \<Longrightarrow> mgrow din s din s"
  by (simp add: mgrow_def)

lemma mgrow_trans:
  assumes "mgrow din s din1 s1" "mgrow din1 s1 din2 s2"
  shows "mgrow din s din2 s2"
proof -
  have "mview s2 b = mview s b" if "b \<notin> fblocks (mview s2) din2" for b
    using assms that unfolding mgrow_def by (metis subsetD)
  moreover have "din2 = din\<lparr>addrs := addrs din2\<rparr>"
  proof -
    obtain A B where "din1 = din\<lparr>addrs := A\<rparr>" "din2 = din1\<lparr>addrs := B\<rparr>" using assms unfolding mgrow_def by blast
    then show ?thesis by simp
  qed
  moreover have "fblocks (mview s2) din2 \<subseteq> fblocks (mview s) din \<union> {a. unat (freeblock s) \<le> unat a \<and> unat a < unat (freeblock s2)}"
    using assms unfolding mgrow_def by fastforce
  ultimately show ?thesis using assms unfolding mgrow_def by auto
qed

lemma next_block_grow:
  assumes "next_block nb din s x din' s'" "mowned (mview s) (unat (freeblock s)) din nb" "nb < MAXFILE"
  shows "mgrow din s din' s'" "unat (freeblock s') + cost nb = unat (freeblock s) + cost (Suc nb)"
    "\<And>j. j < MAXFILE \<Longrightarrow> fblk (mview s') din' j = fblk (mview s) din j" "x = faddr (mview s') din' nb"
proof -
  note n = assms(1) [unfolded next_block_def] and d = mownedD [OF assms(2)]
  have o: "mowned (mview s') (unat (freeblock s')) din' (Suc nb)" using n by blast
  have f: "faddr (mview s') din' k = (if k = nb then x else faddr (mview s) din k)" if "k < MAXFILE" for k
    using n that by blast
  show "x = faddr (mview s') din' nb" using f [OF assms(3)] by simp
  show "unat (freeblock s') + cost nb = unat (freeblock s) + cost (Suc nb)"
    using n by (auto simp: cost_def)
  have same: "mview s' b = mview s b" if "b \<noteq> addrs din' ! NDIRECT" for b using n that by blast
  show "fblk (mview s') din' j = fblk (mview s) din j" if j: "j < MAXFILE" for j
  proof (cases "j = nb")
    case True
    moreover have "x \<noteq> 0" using mownedD(3) [OF o assms(3)] f [OF assms(3)] by simp
    ultimately show ?thesis using f [OF j] d(3) [OF j] n by (simp add: fblk_def)
  next
    case False
    have "mview s' (faddr (mview s) din j) = mview s (faddr (mview s) din j)" if "faddr (mview s) din j \<noteq> 0"
      using mownedD(7) [OF o, of j] f [OF j] False d(3) [OF j] that by (intro same) auto
    then show ?thesis using f [OF j] False by (simp add: fblk_def)
  qed
  have sub: "fblocks (mview s) din \<subseteq> fblocks (mview s') din'"
  proof
    fix a
    assume a: "a \<in> fblocks (mview s) din"
    then consider k where "k < MAXFILE" "a = faddr (mview s) din k" "a \<noteq> 0" | "a = addrs din ! NDIRECT" "a \<noteq> 0"
      by (auto simp: fblocks_def)
    then show "a \<in> fblocks (mview s') din'"
    proof cases
      case 1
      then have "k \<noteq> nb" using d(3) [of k] by auto
      then show ?thesis using 1 f [of k] by (auto simp: fblocks_def)
    next
      case 2
      then have lt: "NDIRECT < nb" using d(4) by simp
      then have "addrs din' ! NDIRECT = addrs din ! NDIRECT" using n by simp
      then show ?thesis using 2 by (simp add: fblocks_def)
    qed
  qed
  have "mview s' b = mview s b" if "b \<notin> fblocks (mview s') din'" for b
  proof (cases "addrs din' ! NDIRECT = 0")
    case True
    then show ?thesis using n by simp
  next
    case False
    then show ?thesis using that by (intro same) (auto simp: fblocks_def)
  qed
  moreover have "unat (freeblock s) \<le> unat (freeblock s')" using n by simp
  ultimately show "mgrow din s din' s'" unfolding mgrow_def using n sub by blast
qed

lemma nblk_div: "nblk n = (if n mod BSIZE = 0 then n div BSIZE else Suc (n div BSIZE))"
  by (simp add: nblk_def)

lemma cost_mono: "a \<le> b \<Longrightarrow> cost a \<le> cost b"
  by (auto simp: cost_def)

text \<open>The block at the end of the file, which \<open>iappend\<close> asks for.\<close>

lemma iappend_block_spec:
  assumes ok: "img_ok s" "fresh s" and m: "mowned (mview s) (unat (freeblock s)) din (nblk off)"
    and b: "off div BSIZE < MAXFILE" "unat (freeblock s) + cost (Suc (off div BSIZE)) \<le> FSSIZE + cost (nblk off)"
  shows "\<exists>din' s'. iappend_block (off div BSIZE) din s = Ret (faddr (mview s') din' (off div BSIZE), din', s') \<and>
    mgrow din s din' s' \<and> mowned (mview s') (unat (freeblock s')) din' (Suc (off div BSIZE)) \<and>
    unat (freeblock s') + cost (nblk off) = unat (freeblock s) + cost (Suc (off div BSIZE)) \<and>
    (\<forall>j < MAXFILE. fblk (mview s') din' j = fblk (mview s) din j)"
proof (cases "off mod BSIZE = 0")
  case True
  let ?nb = "off div BSIZE"
  have nb: "nblk off = ?nb" using True by (simp add: nblk_def)
  have "\<exists>x din' s'. iappend_block ?nb din s = Ret (x, din', s') \<and> next_block ?nb din s x din' s'"
  proof (cases "?nb < NDIRECT")
    case lt: True
    then show ?thesis using next_block_direct [OF ok m [unfolded nb] lt] b(2) by (simp add: nb cost_def)
  next
    case False
    then show ?thesis using next_block_indirect [OF ok m [unfolded nb] _ b(1)] b(2) by (auto simp: nb cost_def split: if_splits)
  qed
  then obtain x din' s' where r: "iappend_block ?nb din s = Ret (x, din', s')" "next_block ?nb din s x din' s'" by blast
  note g = next_block_grow [OF r(2) m [unfolded nb] b(1)]
  have "mowned (mview s') (unat (freeblock s')) din' (Suc ?nb)" using r(2) unfolding next_block_def by blast
  then show ?thesis using r(1) g unfolding nb by blast
next
  case False
  then have nb: "nblk off = Suc (off div BSIZE)" by (simp add: nblk_def)
  have "unat (freeblock s) \<le> FSSIZE" using ok(2) by (simp add: fresh_def)
  then have "iappend_block (off div BSIZE) din s = Ret (faddr (mview s) din (off div BSIZE), din, s)"
    using iappend_block_old [OF ok(1) m] nb by simp
  then show ?thesis using m mgrow_refl [OF ok] unfolding nb by blast
qed

text \<open>Storing bytes into a block of the file.\<close>

lemma mowned_put:
  assumes ok: "img_ok s" "fresh s" and m: "mowned (mview s) (unat (freeblock s)) din nb" and k: "k < nb" and d: "length d = BSIZE"
  defines "t \<equiv> wsect (faddr (mview s) din k) d s"
  shows "mgrow din s din t" "mowned (mview t) (unat (freeblock t)) din nb"
    "j < MAXFILE \<Longrightarrow> fblk (mview t) din j = (if j = k then d else fblk (mview s) din j)"
proof -
  let ?x = "faddr (mview s) din k"
  have fb: "unat (freeblock s) \<le> FSSIZE" using ok(2) by (simp add: fresh_def)
  note r = mowned_range [OF m k]
  have x: "unat ?x < FSSIZE" using r(1) fb by simp
  have w: "img_ok t" "mview t = (mview s)(?x := d)" "freeblock t = freeblock s" "msb t = msb s" "freeinode t = freeinode s"
    using wsect_ok [OF ok(1) x d] by (simp_all add: t_def)
  have mt: "mview t a = (if a = ?x then d else mview s a)" for a using w(2) by simp
  have "mview t (addrs din ! NDIRECT) = mview s (addrs din ! NDIRECT)" using mt mownedD(7) [OF m k] by simp
  then have f: "faddr (mview t) din = faddr (mview s) din" by (simp add: faddr_def fun_eq_iff)
  have b: "fblocks (mview t) din = fblocks (mview s) din" by (simp add: fblocks_def f)
  show "mowned (mview t) (unat (freeblock t)) din nb" using m by (simp add: mowned_def f b w(3))
  have "fresh t" using ok(2) r(1) by (auto simp: fresh_def w(2,3))
  moreover have "mview t a = mview s a" if "a \<notin> fblocks (mview s) din" for a using that r(2) w(2) by auto
  ultimately show "mgrow din s din t" unfolding mgrow_def b using w(1,3-5) by simp
  have kM: "k < MAXFILE" using k mownedD(2) [OF m] by simp
  show "fblk (mview t) din j = (if j = k then d else fblk (mview s) din j)" if j: "j < MAXFILE"
    using mownedD(3) [OF m j] mownedD(3) [OF m kM] mownedD(6) [OF m _ k, of j] k by (auto simp: fblk_def f mt)
qed

lemma nblk_chunk:
  assumes "0 < n" "n \<le> BSIZE - off mod BSIZE"
  shows "nblk (off + n) = Suc (off div BSIZE)"
proof (cases "n = BSIZE - off mod BSIZE")
  case True
  then have "off + n = (off div BSIZE + 1) * BSIZE" using block_end [of off] by simp
  then show ?thesis by (simp only: nblk_def mod_mult_self2_is_0 if_True nonzero_mult_div_cancel_right) simp
next
  case False
  then have lt: "off mod BSIZE + n < BSIZE" using assms(2) mod_BSIZE [of off] by linarith
  have "off + n = (off mod BSIZE + n) + off div BSIZE * BSIZE" by simp
  then have "(off + n) div BSIZE = off div BSIZE" "(off + n) mod BSIZE = off mod BSIZE + n"
    using div_mult_self1 [of BSIZE "off mod BSIZE + n" "off div BSIZE"] mod_mult_self1 [of "off mod BSIZE + n" "off div BSIZE" BSIZE] lt
    by simp_all
  then show ?thesis using assms(1) by (simp add: nblk_def)
qed

lemma nblk_mono: "a \<le> b \<Longrightarrow> nblk a \<le> nblk b"
proof -
  have "nblk n = (n + (BSIZE - 1)) div BSIZE" for n
  proof (cases "n mod BSIZE = 0")
    case True
    then obtain k where "n = k * BSIZE" by (metis mod_0_imp_dvd dvd_def mult.commute)
    then show ?thesis by (simp add: nblk_def)
  next
    case False
    have gen: "m + (BSIZE - 1) = (r - 1) + (q + 1) * BSIZE" if "q * BSIZE + r = m" "r \<noteq> 0" for m q r using that by simp
    have "(n mod BSIZE - 1) div BSIZE = 0" using mod_BSIZE [of n] by (intro div_less) linarith
    then have "(n + (BSIZE - 1)) div BSIZE = n div BSIZE + 1"
      unfolding gen [OF div_mult_mod_eq False] by (subst div_mult_self1) simp_all
    then show ?thesis using False by (simp add: nblk_def)
  qed
  then show "a \<le> b \<Longrightarrow> nblk a \<le> nblk b" by (metis add_le_mono1 div_le_mono)
qed

lemma iappend_chunk:
  assumes ok: "img_ok s" "fresh s" and m: "mfile (mview s) (unat (freeblock s)) din xs"
    and d: "d \<noteq> []" "length d \<le> BSIZE - length xs mod BSIZE"
    and b: "length xs div BSIZE < MAXFILE" "unat (freeblock s) + cost (nblk (length (xs @ d))) \<le> FSSIZE + cost (nblk (length xs))"
  shows "\<exists>x din' s' buf. iappend_block (length xs div BSIZE) din s = Ret (x, din', s') \<and> rsect x s' = Ret buf \<and>
    (let t = wsect x (put_bytes (length xs mod BSIZE) d buf) s' in
      mgrow din s din' t \<and> mfile (mview t) (unat (freeblock t)) din' (xs @ d) \<and>
      unat (freeblock t) + cost (nblk (length xs)) = unat (freeblock s) + cost (nblk (length (xs @ d))))"
proof -
  let ?k = "length xs div BSIZE"
  have nb: "nblk (length (xs @ d)) = Suc ?k" using nblk_chunk [OF _ d(2)] d(1) by simp
  have o: "mowned (mview s) (unat (freeblock s)) din (nblk (length xs))" using m by (simp add: mfile_def)
  obtain din' s' where r: "iappend_block ?k din s = Ret (faddr (mview s') din' ?k, din', s')" "mgrow din s din' s'"
    "mowned (mview s') (unat (freeblock s')) din' (Suc ?k)"
    "unat (freeblock s') + cost (nblk (length xs)) = unat (freeblock s) + cost (Suc ?k)"
    "\<forall>j < MAXFILE. fblk (mview s') din' j = fblk (mview s) din j"
    using iappend_block_spec [OF ok o b(1)] b(2) nb by auto
  let ?x = "faddr (mview s') din' ?k"
  let ?buf = "mview s' ?x"
  let ?t = "wsect ?x (put_bytes (length xs mod BSIZE) d ?buf) s'"
  have ok': "img_ok s'" "fresh s'" using r(2) by (simp_all add: mgrow_def)
  have x: "unat ?x < FSSIZE" using mowned_range(1) [OF r(3), of ?k] ok'(2) by (simp add: fresh_def)
  have lb: "length ?buf = BSIZE" by (rule length_mview [OF ok'(1) x])
  have x0: "?x \<noteq> 0" using mownedD(3) [OF r(3) b(1)] by simp
  then have blk: "fblk (mview s) din ?k = ?buf" using r(5) b(1) by (metis fblk_def)
  have lp: "length (put_bytes (length xs mod BSIZE) d ?buf) = BSIZE"
    using lb d(2) mod_BSIZE [of "length xs"] by (subst length_put_bytes) linarith+
  note put = mowned_put [OF ok' r(3) _ lp, of ?k]
  have fb: "fblk (mview ?t) din' j = (if j = ?k then put_bytes (length xs mod BSIZE) d (fblk (mview s) din j) else fblk (mview s) din j)"
    if "j < MAXFILE" for j using put(3) [OF _ that] r(5) that blk by simp
  have "fbyte (mview ?t) din' p = (if p < length (xs @ d) then (xs @ d) ! p else 0)" if p: "p < MAXFILE * BSIZE" for p
    using fbyte_put [OF _ d(2) p fb] blk lb m p by (auto simp: mfile_def nth_append)
  then have "mfile (mview ?t) (unat (freeblock ?t)) din' (xs @ d)" using put(2) nb by (simp add: mfile_def)
  moreover have "mgrow din s din' ?t" using mgrow_trans [OF r(2) put(1)] by simp
  moreover have "rsect ?x s' = Ret ?buf" by (rule rsect_Ret [OF ok'(1) x])
  ultimately show ?thesis using r(1,4) nb by (auto simp: Let_def)
qed

lemma iappend_loop_spec:
  assumes "img_ok s" "fresh s" "mfile (mview s) (unat (freeblock s)) din xs" "length xs + length p \<le> MAXFILE * BSIZE"
    and "unat (freeblock s) + cost (nblk (length xs + length p)) \<le> FSSIZE + cost (nblk (length xs))"
  shows "\<exists>din' t. iappend_loop (length xs) p din s = Ret (length xs + length p, din', t) \<and> mgrow din s din' t \<and>
    mfile (mview t) (unat (freeblock t)) din' (xs @ p) \<and>
    unat (freeblock t) + cost (nblk (length xs)) = unat (freeblock s) + cost (nblk (length xs + length p))"
  using assms
proof (induction "length p" arbitrary: p xs din s rule: less_induct)
  case less
  show ?case
  proof (cases "p = []")
    case True
    moreover have "iappend_loop (length xs) [] din s = Ret (length xs, din, s)" by (simp add: iappend_loop.simps)
    ultimately show ?thesis using less.prems(1-3) mgrow_refl by auto
  next
    case False
    let ?k = "length xs div BSIZE"
    define n1 where "n1 = min (length p) ((?k + 1) * BSIZE - length xs)"
    have room: "(?k + 1) * BSIZE - length xs = BSIZE - length xs mod BSIZE"
      using block_end [of "length xs"] by linarith
    have n1: "0 < n1" "n1 \<le> length p" "n1 \<le> BSIZE - length xs mod BSIZE"
      using False mod_BSIZE [of "length xs"] unfolding n1_def room by auto
    let ?d = "take n1 p"
    have len: "length (xs @ ?d) = length xs + n1" "length (drop n1 p) = length p - n1" using n1(2) by simp_all
    have k: "?k < MAXFILE" using less.prems(4) n1(1,2) by (simp add: less_mult_imp_div_less)
    have c: "cost (nblk (length xs + n1)) \<le> cost (nblk (length xs + length p))"
      using n1(2) by (intro cost_mono nblk_mono) simp
    obtain x din' s' buf where r: "iappend_block ?k din s = Ret (x, din', s')" "rsect x s' = Ret buf"
      "mgrow din s din' (wsect x (put_bytes (length xs mod BSIZE) ?d buf) s')"
      "mfile (mview (wsect x (put_bytes (length xs mod BSIZE) ?d buf) s'))
         (unat (freeblock (wsect x (put_bytes (length xs mod BSIZE) ?d buf) s'))) din' (xs @ ?d)"
      "unat (freeblock s') + cost (nblk (length xs)) = unat (freeblock s) + cost (nblk (length xs + n1))"
      using iappend_chunk [OF less.prems(1-3) _ _ k, of ?d] n1 less.prems(5) c False unfolding Let_def len by auto
    define t where "t = wsect x (put_bytes (length xs mod BSIZE) ?d buf) s'"
    have ok: "img_ok t" "fresh t" using r(3) by (simp_all add: mgrow_def t_def)
    have ft: "freeblock t = freeblock s'" by (simp add: t_def)
    have le: "length (drop n1 p) < length p" using n1 len(2) by simp
    have "unat (freeblock t) + cost (nblk (length (xs @ ?d) + length (drop n1 p))) \<le> FSSIZE + cost (nblk (length (xs @ ?d)))"
      using r(5) less.prems(5) n1(2) unfolding len ft by simp
    then obtain din2 t2 where u: "iappend_loop (length (xs @ ?d)) (drop n1 p) din' t = Ret (length (xs @ ?d) + length (drop n1 p), din2, t2)"
      "mgrow din' t din2 t2" "mfile (mview t2) (unat (freeblock t2)) din2 ((xs @ ?d) @ drop n1 p)"
      "unat (freeblock t2) + cost (nblk (length (xs @ ?d))) = unat (freeblock t) + cost (nblk (length (xs @ ?d) + length (drop n1 p)))"
      using less.hyps [OF le ok r(4) [folded t_def]] less.prems(4) n1(2) unfolding len by auto
    have off: "length xs - ?k * BSIZE = length xs mod BSIZE" by (simp add: minus_div_mult_eq_mod)
    have "iappend_loop (length xs) p din s = iappend_loop (length xs + n1) (drop n1 p) din' t"
      using False k r(1,2)
      by (subst iappend_loop.simps) (simp only: Let_def off n1_def [symmetric] t_def bindR.simps if_False prod.case
          not_not not_True_eq_False)
    then show ?thesis
      using u(1) [unfolded len] u(3,4) mgrow_trans [OF r(3) [folded t_def] u(2)] r(5) n1(2) unfolding len ft by auto
  qed
qed

end
