(* ===== verification/MkfsImage.thy ===== *)
theory MkfsImage
  imports Mkfs
begin

text \<open>
  The image that \<open>xv6/mkfs.c\<close> builds: the inode table, the contents of the files and of the root directory, the
  bitmap, and what the kernel reads from it.
\<close>

section \<open>The inode table\<close>

text \<open>The superblock that \<open>mkfs\<close> makes.\<close>

definition sbm :: superblock where
  "sbm = \<lparr>sb_size = 1000, sb_nblocks = 941, sb_ninodes = 200, sb_nlog = 30, sb_logstart = 2,
     sb_inodestart = 32, sb_bmapstart = 58\<rparr>"

definition dinode_of :: "(uint \<Rightarrow> blk) \<Rightarrow> nat \<Rightarrow> inode" where
  "dinode_of v n = get_dinode (ioff (of_nat n)) (v (IBLOCK (of_nat n) sbm)) zeroinode"

lemma IBLOCK_sbm: "n \<le> 200 \<Longrightarrow> unat (IBLOCK (of_nat n) sbm) = n div IPB + 32"
proof -
  assume "n \<le> 200"
  then have "n div IPB \<le> 200 div IPB" "unat (of_nat n :: uint) = n" by (auto intro: div_le_mono simp: unat_of_nat32)
  then have "unat ((of_nat n :: uint) div 8) = n div IPB" "n div IPB \<le> 25" by (simp_all add: unat_div_distrib)
  then show ?thesis by (simp add: IBLOCK_def sbm_def unat_add_lem [THEN iffD1])
qed

lemma IBLOCK_sbm_less: "n \<le> 200 \<Longrightarrow> unat (IBLOCK (of_nat n) sbm) < 58" "n \<le> 200 \<Longrightarrow> 32 \<le> unat (IBLOCK (of_nat n) sbm)"
proof -
  assume n: "n \<le> 200"
  then have "n div IPB \<le> 200 div IPB" by (rule div_le_mono)
  then show "unat (IBLOCK (of_nat n) sbm) < 58" "32 \<le> unat (IBLOCK (of_nat n) sbm)" using IBLOCK_sbm [OF n] by simp_all
qed

lemma ioff_nat: "n \<le> 200 \<Longrightarrow> ioff (of_nat n) = 64 * (n mod IPB)"
  by (simp add: ioff_def unat_of_nat32)

lemma dinode_of_cong: "v' (IBLOCK (of_nat n) sbm) = v (IBLOCK (of_nat n) sbm) \<Longrightarrow> dinode_of v' n = dinode_of v n"
  by (simp add: dinode_of_def)

lemma rinode_Ret: "img_ok s \<Longrightarrow> msb s = sbm \<Longrightarrow> n \<le> 200 \<Longrightarrow> rinode (of_nat n) s = Ret (dinode_of (mview s) n)"
  using IBLOCK_sbm_less(1) [of n] by (simp add: rinode_def rsect_Ret dinode_of_def)

text \<open>Writing inode \<open>n\<close> changes its slot of the table and nothing else.\<close>

lemma winode_spec:
  assumes ok: "img_ok s" "msb s = sbm" and n: "n \<le> 200" and l: "length (addrs ip) = NDIRECT + 1"
  shows "\<exists>t. winode (of_nat n) ip s = Ret t \<and> img_ok t \<and> msb t = sbm \<and> freeinode t = freeinode s \<and> freeblock t = freeblock s \<and>
    (\<forall>b. unat b < 32 \<or> 58 \<le> unat b \<longrightarrow> mview t b = mview s b) \<and>
    dinode_of (mview t) n = zeroinode\<lparr>itype := itype ip, major := major ip, minor := minor ip, nlink := nlink ip,
      isize := isize ip, addrs := addrs ip\<rparr> \<and>
    (\<forall>m \<le> 200. m \<noteq> n \<longrightarrow> dinode_of (mview t) m = dinode_of (mview s) m)"
proof -
  let ?bn = "IBLOCK (of_nat n) sbm"
  let ?d = "put_dinode (ioff (of_nat n)) ip (mview s ?bn)"
  have bn: "unat ?bn < 58" "32 \<le> unat ?bn" by (rule IBLOCK_sbm_less [OF n])+
  then have lt: "unat ?bn < FSSIZE" by simp
  have len: "length (mview s ?bn) = BSIZE" by (rule length_mview [OF ok(1) lt])
  have io: "ioff (of_nat m) + 64 \<le> length (mview s ?bn)" for m using ioff_bound len by simp
  have ld: "length ?d = BSIZE" using length_put_dinode [OF io l] len by simp
  let ?t = "wsect ?bn ?d s"
  note w = wsect_ok [OF ok(1) lt ld]
  have "dinode_of (mview ?t) m = dinode_of (mview s) m" if m: "m \<le> 200" "m \<noteq> n" for m
  proof (cases "IBLOCK (of_nat m) sbm = ?bn")
    case True
    then have "m div IPB = n div IPB" using IBLOCK_sbm [OF m(1)] IBLOCK_sbm [OF n] by simp
    then have "m mod IPB \<noteq> n mod IPB" using m(2) by (metis div_mult_mod_eq)
    then have "ioff (of_nat n) + 64 \<le> ioff (of_nat m) \<or> ioff (of_nat m) + 64 \<le> ioff (of_nat n)"
      unfolding ioff_nat [OF m(1)] ioff_nat [OF n] by linarith
    then show ?thesis using get_put_dinode_other [OF io io _ l] True by (simp add: dinode_of_def w(2))
  next
    case False
    then show ?thesis by (simp add: dinode_of_def w(2))
  qed
  moreover have "dinode_of (mview ?t) n = zeroinode\<lparr>itype := itype ip, major := major ip, minor := minor ip, nlink := nlink ip,
      isize := isize ip, addrs := addrs ip\<rparr>"
    using get_put_dinode [OF io l] by (simp add: dinode_of_def w(2))
  moreover have "winode (of_nat n) ip s = Ret ?t" using ok by (simp add: winode_def rsect_Ret lt Let_def)
  moreover have "mview ?t b = mview s b" if "unat b < 32 \<or> 58 \<le> unat b" for b using that bn w(2) by auto
  ultimately show ?thesis using w(1) ok(2) by auto
qed

text \<open>A file does not notice a change outside its blocks.\<close>

lemma mfile_frame:
  assumes m: "mfile v fb ip xs" and v: "\<And>b. b \<in> fblocks v ip \<Longrightarrow> v' b = v b" and fb: "fb \<le> fb'"
  shows "mfile v' fb' ip xs" "fblocks v' ip = fblocks v ip"
proof -
  have f: "faddr v' ip = faddr v ip" using v [of "addrs ip ! NDIRECT"] by (auto simp: faddr_def fblocks_def fun_eq_iff)
  show b: "fblocks v' ip = fblocks v ip" by (simp add: fblocks_def f)
  have "fblk v' ip k = fblk v ip k" if "k < MAXFILE" for k
    using v [of "faddr v ip k"] that by (auto simp: fblk_def f fblocks_def)
  then have "fbyte v' ip p = fbyte v ip p" if "p < MAXFILE * BSIZE" for p
    using that by (simp add: fbyte_def less_mult_imp_div_less)
  moreover have "mowned v' fb' ip (nblk (length xs))"
    using m fb unfolding mfile_def mowned_def f b by fastforce
  ultimately show "mfile v' fb' ip xs" using m by (simp add: mfile_def)
qed

lemma mfile_range: "mfile v fb ip xs \<Longrightarrow> a \<in> fblocks v ip \<Longrightarrow> NMETA \<le> unat a \<and> unat a < fb"
  unfolding mfile_def using mownedD(5) by blast

lemma faddr_upd [simp]:
  "faddr v (ip\<lparr>isize := x\<rparr>) = faddr v ip" "fblocks v (ip\<lparr>isize := x\<rparr>) = fblocks v ip"
  "faddr v (ip\<lparr>idev := y\<rparr>) = faddr v ip" "fblocks v (ip\<lparr>idev := y\<rparr>) = fblocks v ip"
  by (simp_all add: faddr_def fblocks_def fun_eq_iff)

lemma mfile_upd [simp]: "mfile v fb (ip\<lparr>isize := x\<rparr>) xs = mfile v fb ip xs"
  by (simp add: mfile_def mowned_def fbyte_def fblk_def)

section \<open>The image while it is built\<close>

definition need :: "(ushort \<times> byte list) list \<Rightarrow> nat" where
  "need F = sum_list (map (\<lambda>f. cost (nblk (length (snd f)))) F)"

definition sb_block :: blk where
  "sb_block = put_words 0 [1000, 941, 200, 30, 2, 32, 58] (replicate BSIZE 0)"

text \<open>The inodes 1, 2 and so on are files of the types and contents \<open>F\<close>, with blocks of their own.\<close>

definition inode_ok :: "(uint \<Rightarrow> blk) \<Rightarrow> nat \<Rightarrow> nat \<Rightarrow> ushort \<times> byte list \<Rightarrow> bool" where
  "inode_ok v fb n f \<longleftrightarrow> mfile v fb (dinode_of v n) (snd f) \<and> unat (isize (dinode_of v n)) = length (snd f) \<and>
     itype (dinode_of v n) = fst f \<and> nlink (dinode_of v n) = 1"

definition mk_inv :: "mkfs \<Rightarrow> (ushort \<times> byte list) list \<Rightarrow> bool" where
  "mk_inv s F \<longleftrightarrow>
     img_ok s \<and> fresh s \<and> msb s = sbm \<and> mview s 1 = sb_block \<and> length F \<le> 199 \<and>
     freeinode s = of_nat (Suc (length F)) \<and> unat (freeblock s) = NMETA + need F \<and>
     (\<forall>i < length F. inode_ok (mview s) (unat (freeblock s)) (Suc i) (F ! i)) \<and>
     (\<forall>i < length F. \<forall>j < length F. i \<noteq> j \<longrightarrow>
        fblocks (mview s) (dinode_of (mview s) (Suc i)) \<inter> fblocks (mview s) (dinode_of (mview s) (Suc j)) = {})"

lemma need_update:
  "i < length F \<Longrightarrow> need (F[i := y]) + cost (nblk (length (snd (F ! i)))) = need F + cost (nblk (length (snd y)))"
proof (induction F arbitrary: i)
  case (Cons f F)
  then show ?case by (cases i) (auto simp: need_def)
qed simp

lemma need_append [simp]: "need (F @ G) = need F + need G"
  by (simp add: need_def)

lemma need_simps [simp]: "need [] = 0" "need (f # F) = cost (nblk (length (snd f))) + need F"
  by (simp_all add: need_def)

lemma mk_invD:
  assumes "mk_inv s F"
  shows "img_ok s" "fresh s" "msb s = sbm" "mview s 1 = sb_block" "length F \<le> 199" "freeinode s = of_nat (Suc (length F))"
    "unat (freeblock s) = NMETA + need F" "i < length F \<Longrightarrow> inode_ok (mview s) (unat (freeblock s)) (Suc i) (F ! i)"
    "i < length F \<Longrightarrow> j < length F \<Longrightarrow> i \<noteq> j \<Longrightarrow>
       fblocks (mview s) (dinode_of (mview s) (Suc i)) \<inter> fblocks (mview s) (dinode_of (mview s) (Suc j)) = {}"
  using assms unfolding mk_inv_def by blast+

text \<open>A file keeps its blocks when the inode table changes elsewhere and other blocks are written.\<close>

lemma inode_ok_frame:
  assumes "inode_ok v fb n f" "dinode_of v' n = dinode_of v n" "\<And>b. b \<in> fblocks v (dinode_of v n) \<Longrightarrow> v' b = v b" "fb \<le> fb'"
  shows "inode_ok v' fb' n f" "fblocks v' (dinode_of v' n) = fblocks v (dinode_of v n)"
  using mfile_frame [of v fb "dinode_of v n" "snd f" v' fb'] assms by (auto simp: inode_ok_def)

lemma iappend_spec:
  assumes inv: "mk_inv s F" and i: "i < length F" and F: "F ! i = (ty, xs)"
    and p: "length xs + length p \<le> MAXFILE * BSIZE" "NMETA + need (F[i := (ty, xs @ p)]) \<le> FSSIZE"
  shows "\<exists>t. iappend (of_nat (Suc i)) p s = Ret t \<and> mk_inv t (F[i := (ty, xs @ p)])"
proof -
  note d = mk_invD [OF inv]
  let ?din = "dinode_of (mview s) (Suc i)"
  have n: "Suc i \<le> 200" using i d(5) by simp
  have ino: "mfile (mview s) (unat (freeblock s)) ?din xs" "unat (isize ?din) = length xs" "itype ?din = ty" "nlink ?din = 1"
    using d(8) [OF i] F by (simp_all add: inode_ok_def)
  have up: "need (F[i := (ty, xs @ p)]) + cost (nblk (length xs)) = need F + cost (nblk (length xs + length p))"
    using need_update [OF i, of "(ty, xs @ p)"] F by simp
  then have "unat (freeblock s) + cost (nblk (length xs + length p)) \<le> FSSIZE + cost (nblk (length xs))" using p(2) d(7) by linarith
  then obtain din t where r: "iappend_loop (length xs) p ?din s = Ret (length xs + length p, din, t)" "mgrow ?din s din t"
    "mfile (mview t) (unat (freeblock t)) din (xs @ p)"
    "unat (freeblock t) + cost (nblk (length xs)) = unat (freeblock s) + cost (nblk (length xs + length p))"
    using iappend_loop_spec [OF d(1,2) ino(1) p(1)] by blast
  note g = r(2) [unfolded mgrow_def]
  have fbt: "unat (freeblock t) = NMETA + need (F[i := (ty, xs @ p)])" using r(4) up d(7) by linarith
  let ?ip = "din\<lparr>isize := of_nat (length xs + length p)\<rparr>"
  have la: "length (addrs ?ip) = NDIRECT + 1" using r(3) mownedD(1) unfolding mfile_def by auto
  have okt: "img_ok t" "msb t = sbm" using g d(3) by simp_all
  obtain u where u: "winode (of_nat (Suc i)) ?ip t = Ret u" "img_ok u" "msb u = sbm" "freeinode u = freeinode t" "freeblock u = freeblock t"
    "\<forall>b. unat b < 32 \<or> 58 \<le> unat b \<longrightarrow> mview u b = mview t b"
    "dinode_of (mview u) (Suc i) = zeroinode\<lparr>itype := itype ?ip, major := major ?ip, minor := minor ?ip, nlink := nlink ?ip,
      isize := isize ?ip, addrs := addrs ?ip\<rparr>"
    "\<forall>m \<le> 200. m \<noteq> Suc i \<longrightarrow> dinode_of (mview u) m = dinode_of (mview t) m"
    using winode_spec [OF okt n la] by blast
  obtain A where A: "din = ?din\<lparr>addrs := A\<rparr>" using g by blast
  have ip: "dinode_of (mview u) (Suc i) = ?ip"
    unfolding u(7) by (simp add: A dinode_of_def get_dinode_def)
  have meta: "mview t b = mview s b" if "unat b < NMETA" for b
    using g mfile_range [OF r(3)] that by (metis not_le)
  have same: "mview u b = mview t b" if "NMETA \<le> unat b" for b using u(6) that by simp
  have fu: "mfile (mview u) (unat (freeblock u)) ?ip (xs @ p)" "fblocks (mview u) ?ip = fblocks (mview t) din"
    using mfile_frame [OF r(3), of "mview u" "unat (freeblock u)"] same mfile_range [OF r(3)] u(5) by auto
  have other: "inode_ok (mview u) (unat (freeblock u)) (Suc j) (F ! j) \<and>
      fblocks (mview u) (dinode_of (mview u) (Suc j)) = fblocks (mview s) (dinode_of (mview s) (Suc j)) \<and>
      fblocks (mview s) (dinode_of (mview s) (Suc j)) \<inter> fblocks (mview t) din = {}"
    if j: "j < length F" "j \<noteq> i" for j
  proof -
    let ?b = "fblocks (mview s) (dinode_of (mview s) (Suc j))"
    have nj: "Suc j \<le> 200" "Suc j \<noteq> Suc i" using j d(5) by simp_all
    have ok: "inode_ok (mview s) (unat (freeblock s)) (Suc j) (F ! j)" by (rule d(8) [OF j(1)])
    have rng: "NMETA \<le> unat a \<and> unat a < unat (freeblock s)" if "a \<in> ?b" for a
      using ok that mfile_range unfolding inode_ok_def by blast
    have "dinode_of (mview t) (Suc j) = dinode_of (mview s) (Suc j)"
      using meta IBLOCK_sbm_less(1) [OF nj(1)] by (intro dinode_of_cong) simp
    then have din: "dinode_of (mview u) (Suc j) = dinode_of (mview s) (Suc j)" using u(8) nj by simp
    have dis: "?b \<inter> fblocks (mview t) din = {}"
    proof (rule ccontr)
      assume "?b \<inter> fblocks (mview t) din \<noteq> {}"
      then obtain a where a: "a \<in> ?b" "a \<in> fblocks (mview t) din" by blast
      then have "a \<in> fblocks (mview s) ?din" using g rng [OF a(1)] by auto
      then show False using d(9) [OF j(1) i j(2)] a(1) by blast
    qed
    have "mview u b = mview s b" if "b \<in> ?b" for b using that rng same g dis by (metis disjoint_iff)
    then show ?thesis using inode_ok_frame [OF ok din, of "unat (freeblock u)"] g u(5) dis by auto
  qed
  have main: "inode_ok (mview u) (unat (freeblock u)) (Suc i) (ty, xs @ p)"
    using fu(1) ino(3,4) p(1) unat_of_nat32 [of "length xs + length p"]
    by (simp add: inode_ok_def ip A del: of_nat_add)
  have 1: "mview u 1 = sb_block" using u(6) meta [of 1] d(4) by simp
  have "fresh t" using g by blast
  then have fr: "fresh u" using same by (auto simp: fresh_def u(5))
  have inos: "inode_ok (mview u) (unat (freeblock u)) (Suc j) (F[i := (ty, xs @ p)] ! j)" if "j < length F" for j
    using main other [OF that] by (cases "j = i") (auto simp: i)
  have disj: "fblocks (mview u) (dinode_of (mview u) (Suc j)) \<inter> fblocks (mview u) (dinode_of (mview u) (Suc k)) = {}"
    if jk: "j < length F" "k < length F" "j \<noteq> k" for j k
  proof -
    consider "j \<noteq> i" "k \<noteq> i" | "j = i" "k \<noteq> i" | "j \<noteq> i" "k = i" using jk(3) by blast
    then show ?thesis
    proof cases
      case 1
      then show ?thesis using other [OF jk(1)] other [OF jk(2)] d(9) [OF jk] by simp
    next
      case 2
      then show ?thesis using other [OF jk(2)] ip fu(2) by (simp add: Int_commute)
    next
      case 3
      then show ?thesis using other [OF jk(1)] ip fu(2) by simp
    qed
  qed
  have "mk_inv u (F[i := (ty, xs @ p)])"
    unfolding mk_inv_def using u(2-5) fr 1 d(5,6) g fbt inos disj by simp
  moreover have "iappend (of_nat (Suc i)) p s = Ret u"
    using r(1) u(1) ino(2) rinode_Ret [OF d(1,3) n] by (simp add: iappend_def)
  ultimately show ?thesis by blast
qed

lemma mfile_empty: "addrs ip = replicate (NDIRECT + 1) 0 \<Longrightarrow> mfile v fb ip [] \<and> fblocks v ip = {}"
proof -
  assume a: "addrs ip = replicate (NDIRECT + 1) 0"
  then have f: "faddr v ip k = 0" for k by (simp add: faddr_def del: replicate_Suc)
  then have b: "fblocks v ip = {}" using a by (auto simp: fblocks_def simp del: replicate_Suc)
  have "mowned v fb ip 0" using a f b by (simp add: mowned_def del: replicate_Suc)
  moreover have "fbyte v ip p = 0" for p using mod_BSIZE [of p] by (simp add: fbyte_def fblk_def f del: replicate_Suc)
  ultimately show ?thesis using b by (simp add: mfile_def nblk_def)
qed

lemma ialloc_spec:
  assumes inv: "mk_inv s F" and l: "length F < 199"
  shows "\<exists>t. mkfs_ialloc ty s = Ret (of_nat (Suc (length F)), t) \<and> mk_inv t (F @ [(ty, [])])"
proof -
  note d = mk_invD [OF inv]
  let ?n = "Suc (length F)" and ?s = "s\<lparr>freeinode := freeinode s + 1\<rparr>"
  let ?ip = "zeroinode\<lparr>itype := ty, nlink := 1, isize := 0\<rparr>"
  have n: "?n \<le> 200" using l by simp
  have la: "length (addrs ?ip) = NDIRECT + 1" by (simp add: zeroinode_def)
  have ok: "img_ok ?s" "msb ?s = sbm" using d(1,3) by simp_all
  obtain t where u: "winode (of_nat ?n) ?ip ?s = Ret t" "img_ok t" "msb t = sbm" "freeinode t = freeinode ?s" "freeblock t = freeblock ?s"
    "\<forall>b. unat b < 32 \<or> 58 \<le> unat b \<longrightarrow> mview t b = mview ?s b"
    "dinode_of (mview t) ?n = zeroinode\<lparr>itype := itype ?ip, major := major ?ip, minor := minor ?ip, nlink := nlink ?ip,
      isize := isize ?ip, addrs := addrs ?ip\<rparr>"
    "\<forall>m \<le> 200. m \<noteq> ?n \<longrightarrow> dinode_of (mview t) m = dinode_of (mview ?s) m"
    using winode_spec [OF ok n la] by blast
  have ip: "addrs (dinode_of (mview t) ?n) = replicate (NDIRECT + 1) 0" by (simp add: u(7) zeroinode_def)
  note e = mfile_empty [OF ip]
  have main: "inode_ok (mview t) (unat (freeblock t)) ?n (ty, [])" using e by (simp add: inode_ok_def u(7))
  have other: "inode_ok (mview t) (unat (freeblock t)) (Suc j) (F ! j) \<and>
      fblocks (mview t) (dinode_of (mview t) (Suc j)) = fblocks (mview s) (dinode_of (mview s) (Suc j))" if j: "j < length F" for j
  proof -
    have ok: "inode_ok (mview s) (unat (freeblock s)) (Suc j) (F ! j)" by (rule d(8) [OF j])
    have "mview t b = mview s b" if "b \<in> fblocks (mview s) (dinode_of (mview s) (Suc j))" for b
      using ok mfile_range that u(6) unfolding inode_ok_def by fastforce
    then show ?thesis using inode_ok_frame [OF ok, of "mview t" "unat (freeblock t)"] u(5,8) j l by auto
  qed
  have "fresh t" using d(2) u(6) by (auto simp: fresh_def u(5))
  moreover have "mview t 1 = sb_block" using u(6) d(4) by simp
  moreover have "freeinode t = of_nat (Suc (length (F @ [(ty, [])])))" using d(6) u(4) by simp
  moreover have "inode_ok (mview t) (unat (freeblock t)) (Suc j) ((F @ [(ty, [])]) ! j)" if "j < length (F @ [(ty, [])])" for j
    using main other [of j] that by (cases "j < length F") (auto simp: nth_append less_Suc_eq)
  moreover have "fblocks (mview t) (dinode_of (mview t) (Suc j)) \<inter> fblocks (mview t) (dinode_of (mview t) (Suc k)) = {}"
    if "j < length (F @ [(ty, [])])" "k < length (F @ [(ty, [])])" "j \<noteq> k" for j k
  proof (cases "j < length F \<and> k < length F")
    case True
    then show ?thesis using other [of j] other [of k] d(9) [of j k] that(3) by simp
  next
    case False
    then have "j = length F \<or> k = length F" using that(1,2) by auto
    then show ?thesis using e by auto
  qed
  moreover have "unat (freeblock t) = NMETA + need (F @ [(ty, [])])" using d(7) u(5) by (simp add: cost_def nblk_def)
  ultimately have "mk_inv t (F @ [(ty, [])])"
    unfolding mk_inv_def using u(2,3) l by simp
  moreover have "mkfs_ialloc ty s = Ret (of_nat ?n, t)" using u(1) d(6) by (simp add: mkfs_ialloc_def Let_def)
  ultimately show ?thesis by blast
qed

lemma need_prefix:
  assumes "i < length F" "length xs \<le> length ys"
  shows "need (F[i := (ty, xs)]) \<le> need (F[i := (ty, ys)])"
  using need_update [OF assms(1), of "(ty, xs)"] need_update [OF assms(1), of "(ty, ys)"]
    cost_mono [OF nblk_mono [OF assms(2)]] by simp

lemma iappends_spec:
  assumes "mk_inv s F" "i < length F" "F ! i = (ty, xs)" "length xs + length (concat cs) \<le> MAXFILE * BSIZE"
    and "NMETA + need (F[i := (ty, xs @ concat cs)]) \<le> FSSIZE"
  shows "\<exists>t. foldR (iappend (of_nat (Suc i))) cs s = Ret t \<and> mk_inv t (F[i := (ty, xs @ concat cs)])"
  using assms
proof (induction cs arbitrary: s F xs)
  case Nil
  then have "F[i := (ty, xs @ concat [])] = F" by (metis append_Nil2 concat.simps(1) list_update_id)
  then show ?case using Nil.prems(1) by simp
next
  case (Cons c cs)
  have "NMETA + need (F[i := (ty, xs @ c)]) \<le> FSSIZE"
    using need_prefix [OF Cons.prems(2), of "xs @ c" "xs @ concat (c # cs)" ty] Cons.prems(5) by simp
  then obtain u where u: "iappend (of_nat (Suc i)) c s = Ret u" "mk_inv u (F[i := (ty, xs @ c)])"
    using iappend_spec [OF Cons.prems(1-3), of c] Cons.prems(4) by auto
  then show ?case using Cons.IH [OF u(2), of "xs @ c"] Cons.prems(2,4,5) by auto
qed

section \<open>The whole program\<close>

lemma foldl_wsect:
  "n \<le> FSSIZE \<Longrightarrow> img s = [] \<Longrightarrow>
     foldl (\<lambda>s i. wsect (of_nat i) (replicate BSIZE 0) s) s [0..<n] = s\<lparr>img := replicate n (replicate BSIZE 0)\<rparr>"
proof (induction n)
  case (Suc n)
  have "sector (of_nat n) = n" using Suc.prems(1) by (subst sector_small) (simp_all add: unat_of_nat32)
  then have "wsect (of_nat n) (replicate BSIZE 0) (s\<lparr>img := replicate n (replicate BSIZE 0)\<rparr>) =
      s\<lparr>img := replicate (Suc n) (replicate BSIZE 0)\<rparr>"
    by (simp add: wsect_def list_update_append replicate_append_same [symmetric])
  then show ?case using Suc by simp
qed simp

lemma mkfs_start_eq:
  "mkfs_start = wsect 1 sb_block \<lparr>img = replicate FSSIZE (replicate BSIZE 0), msb = sbm, freeinode = 1, freeblock = of_nat NMETA\<rparr>"
  unfolding mkfs_start_def Let_def
  by (subst foldl_wsect) (simp_all add: sbm_def sb_block_def nlog_def ninodeblocks_def nbitmap_def NINODES_def del: put_words.simps upt_Suc)

lemma mkfs_start_inv: "mk_inv mkfs_start []"
proof -
  let ?s = "\<lparr>img = replicate FSSIZE (replicate BSIZE 0), msb = sbm, freeinode = 1, freeblock = of_nat NMETA\<rparr>"
  have ok: "img_ok ?s" by (simp add: img_ok_def)
  have "length sb_block = BSIZE" by (simp add: sb_block_def del: put_words.simps)
  then have w: "img_ok mkfs_start" "mview mkfs_start = (mview ?s)(1 := sb_block)"
    unfolding mkfs_start_eq using wsect_ok [OF ok, of 1 sb_block] by simp_all
  have f: "freeblock mkfs_start = 59" "msb mkfs_start = sbm" "freeinode mkfs_start = 1" by (simp_all add: mkfs_start_eq)
  have "mview ?s a = replicate BSIZE 0" if "unat a < FSSIZE" for a using that by (simp add: mview_def)
  then have "fresh mkfs_start" by (auto simp: fresh_def f w(2))
  then show ?thesis using w f by (simp add: mk_inv_def)
qed

text \<open>The entries of the root directory, and the files, after the first \<open>k\<close> arguments.\<close>

definition root_entries :: "hostfile list \<Rightarrow> nat \<Rightarrow> byte list" where
  "root_entries fs k = mkfs_dirent 1 [46] @ mkfs_dirent 1 [46, 46] @
     concat (map (\<lambda>i. mkfs_dirent (of_nat (i + 2)) (mkfs_name (fst (fs ! i)))) [0..<k])"

definition host_bytes :: "hostfile \<Rightarrow> byte list" where
  "host_bytes f = (case snd f of None \<Rightarrow> [] | Some cs \<Rightarrow> concat cs)"

definition mk_table :: "hostfile list \<Rightarrow> nat \<Rightarrow> (ushort \<times> byte list) list" where
  "mk_table fs k = (T_DIR, root_entries fs k) # map (\<lambda>i. (T_FILE, host_bytes (fs ! i))) [0..<k]"

lemma length_mkfs_dirent [simp]: "length (mkfs_dirent n name) = DESIZE"
  by (simp add: mkfs_dirent_def mk_dirent_def pad0_def)

lemma length_root_entries: "length (root_entries fs k) = DESIZE * (k + 2)"
  by (induction k) (simp_all add: root_entries_def)

lemma need_table_mono: "j \<le> k \<Longrightarrow> need (mk_table fs j) \<le> need (mk_table fs k)"
proof (induction k)
  case (Suc k)
  have "need (mk_table fs k) \<le> need (mk_table fs (Suc k))"
    using cost_mono [OF nblk_mono, of "DESIZE * (k + 2)" "DESIZE * (Suc k + 2)"]
    by (simp add: mk_table_def length_root_entries del: mult_Suc_right)
  then show ?case using Suc by (cases "j = Suc k") auto
qed simp

definition host_ok :: "hostfile list \<Rightarrow> bool" where
  "host_ok fs \<longleftrightarrow> length fs \<le> 198 \<and> NMETA + need (mk_table fs (length fs)) \<le> FSSIZE \<and>
     (\<forall>f \<in> set fs. SLASH \<notin> set (fst f) \<and> snd f \<noteq> None \<and> length (host_bytes f) \<le> MAXFILE * BSIZE)"

lemma mkfs_file_spec:
  assumes h: "host_ok fs" and k: "k < length fs" and inv: "mk_inv s (mk_table fs k)"
  shows "\<exists>t. mkfs_file 1 (fs ! k) s = Ret t \<and> mk_inv t (mk_table fs (Suc k))"
proof -
  let ?F = "mk_table fs k"
  obtain a cs where f: "fs ! k = (a, Some cs)" "SLASH \<notin> set a" "length (concat cs) \<le> MAXFILE * BSIZE"
    using h k unfolding host_ok_def by (cases "fs ! k") (auto simp: host_bytes_def dest!: nth_mem)
  have l: "length ?F = Suc k" "Suc k < 199" "k < 198" using h k by (simp_all add: mk_table_def host_ok_def)
  have table: "mk_table fs (Suc k) = (?F @ [(T_FILE, [])])[0 := (T_DIR, root_entries fs (Suc k)), Suc k := (T_FILE, concat cs)]"
    using f(1) by (simp add: mk_table_def host_bytes_def list_update_append)
  have sp: "NMETA + need (mk_table fs (Suc k)) \<le> FSSIZE"
    using h need_table_mono [of "Suc k" "length fs" fs] k by (simp add: host_ok_def)
  obtain t where t: "mkfs_ialloc T_FILE s = Ret (of_nat (Suc (Suc k)), t)" "mk_inv t (?F @ [(T_FILE, [])])"
    using ialloc_spec [OF inv] l by auto
  let ?e = "mkfs_dirent (of_nat (k + 2)) (mkfs_name a)"
  have root: "root_entries fs (Suc k) = root_entries fs k @ ?e" using f(1) by (simp add: root_entries_def)
  let ?G = "(?F @ [(T_FILE, [])])[0 := (T_DIR, root_entries fs k @ ?e)]"
  have G: "length ?G = Suc (Suc k)" "?G ! Suc k = (T_FILE, [])" using l(1) by (simp_all add: nth_append)
  have le: "need ?G \<le> need (?G[Suc k := (T_FILE, concat cs)])"
    using need_prefix [of "Suc k" ?G "[]" "concat cs" T_FILE] G by (metis lessI list_update_id le0 list.size(3))
  have "NMETA + need ?G \<le> FSSIZE" using le sp unfolding table root by simp
  moreover have "(?F @ [(T_FILE, [])]) ! 0 = (T_DIR, root_entries fs k)" by (simp add: mk_table_def)
  ultimately obtain u where u: "iappend (of_nat (Suc 0)) ?e t = Ret u" "mk_inv u ?G"
    using iappend_spec [OF t(2), of 0 T_DIR "root_entries fs k" ?e] l(3) by (auto simp: length_root_entries)
  have "Suc k < length ?G" using G(1) by simp
  then obtain w where w: "foldR (iappend (of_nat (Suc (Suc k)))) cs u = Ret w" "mk_inv w (?G[Suc k := (T_FILE, concat cs)])"
    using iappends_spec [OF u(2), of "Suc k" T_FILE "[]" cs] G(2) f(3) sp unfolding table root by auto
  have "mkfs_file 1 (fs ! k) s = Ret w"
    using f(1,2) t(1) u(1) w(1) by (simp add: mkfs_file_def)
  then show ?thesis using w(2) unfolding table root by blast
qed

lemma mkfs_files_spec:
  assumes h: "host_ok fs" and inv: "mk_inv s (mk_table fs 0)" and k: "k \<le> length fs"
  shows "\<exists>t. foldR (mkfs_file 1) (take k fs) s = Ret t \<and> mk_inv t (mk_table fs k)"
  using k
proof (induction k)
  case (Suc k)
  then obtain t where "foldR (mkfs_file 1) (take k fs) s = Ret t" "mk_inv t (mk_table fs k)" by auto
  then show ?case using mkfs_file_spec [OF h, of k t] Suc.prems
    by (auto simp: take_Suc_conv_app_nth foldR_append)
qed (use inv in simp)

text \<open>The finished image.\<close>

definition image_ok :: "hostfile list \<Rightarrow> (uint \<Rightarrow> blk) \<Rightarrow> bool" where
  "image_ok fs v \<longleftrightarrow>
     (let fb = NMETA + need (mk_table fs (length fs)); root = dinode_of v 1 in
      v 1 = sb_block \<and> v 58 = foldl bit_mark (replicate BSIZE 0) [0..<fb] \<and>
      mfile v fb root (root_entries fs (length fs)) \<and> itype root = T_DIR \<and> nlink root = 1 \<and>
      unat (isize root) = (length (root_entries fs (length fs)) div BSIZE + 1) * BSIZE \<and>
      (\<forall>i < length fs. inode_ok v fb (i + 2) (T_FILE, host_bytes (fs ! i))) \<and>
      (\<forall>i \<le> length fs. \<forall>j \<le> length fs. i \<noteq> j \<longrightarrow> fblocks v (dinode_of v (Suc i)) \<inter> fblocks v (dinode_of v (Suc j)) = {}))"

lemma mkfs_finish_spec:
  assumes h: "host_ok fs" and inv: "mk_inv s (mk_table fs (length fs))"
  shows "\<exists>m. mkfs_finish 1 s = Ret m \<and> img_ok m \<and> image_ok fs (mview m)"
proof -
  let ?F = "mk_table fs (length fs)" and ?r = "root_entries fs (length fs)"
  note d = mk_invD [OF inv]
  let ?din = "dinode_of (mview s) 1" and ?off = "(length ?r div BSIZE + 1) * BSIZE"
  have F0: "0 < length ?F" "?F ! 0 = (T_DIR, ?r)" "length ?F = Suc (length fs)" "length fs \<le> 198"
    using h by (simp_all add: mk_table_def host_ok_def)
  have root: "mfile (mview s) (unat (freeblock s)) ?din ?r" "unat (isize ?din) = length ?r" "itype ?din = T_DIR" "nlink ?din = 1"
    using d(8) [OF F0(1)] F0(2) by (simp_all add: inode_ok_def)
  have "length ?r \<le> 3200" using F0(4) by (simp add: length_root_entries)
  then have "length ?r div BSIZE \<le> 3200 div BSIZE" by (rule div_le_mono)
  then have off: "?off < 4294967296" by simp
  have la: "length (addrs (?din\<lparr>isize := of_nat ?off\<rparr>)) = NDIRECT + 1" using root(1) mownedD(1) unfolding mfile_def by auto
  obtain t where u: "winode (of_nat 1) (?din\<lparr>isize := of_nat ?off\<rparr>) s = Ret t" "img_ok t" "msb t = sbm" "freeblock t = freeblock s"
    "\<forall>b. unat b < 32 \<or> 58 \<le> unat b \<longrightarrow> mview t b = mview s b"
    "dinode_of (mview t) 1 = zeroinode\<lparr>itype := itype ?din, major := major ?din, minor := minor ?din, nlink := nlink ?din,
      isize := of_nat ?off, addrs := addrs ?din\<rparr>"
    "\<forall>m \<le> 200. m \<noteq> 1 \<longrightarrow> dinode_of (mview t) m = dinode_of (mview s) m"
    using winode_spec [OF d(1,3) _ la, of 1] by auto
  have fb: "unat (freeblock t) = NMETA + need ?F" "unat (freeblock t) < BSIZE * 8" "unat (freeblock t) \<le> FSSIZE"
    using d(2,7) u(4) by (simp_all add: fresh_def)
  let ?bm = "foldl bit_mark (replicate BSIZE 0) [0..<unat (freeblock t)]"
  define m where "m = wsect 58 ?bm t"
  have "length ?bm = BSIZE" by simp
  then have m: "img_ok m" "mview m = (mview t)(58 := ?bm)"
    using wsect_ok [OF u(2), of 58 ?bm] by (simp_all add: m_def)
  have data: "mview m b = mview s b" if "NMETA \<le> unat b" for b using that u(5) m(2) by auto
  have din: "dinode_of (mview m) n = dinode_of (mview t) n" if "n \<le> 200" for n
    using IBLOCK_sbm_less(1) [OF that] by (intro dinode_of_cong) (auto simp: m(2))
  have rd: "dinode_of (mview m) 1 = ?din\<lparr>isize := of_nat ?off\<rparr>"
  proof -
    have "dinode_of (mview m) 1 = dinode_of (mview t) 1" by (rule din) simp
    also have "\<dots> = ?din\<lparr>isize := of_nat ?off\<rparr>" unfolding u(6) by (simp add: dinode_of_def get_dinode_def)
    finally show ?thesis .
  qed
  have fr: "mfile (mview m) (NMETA + need ?F) ip xs \<and> fblocks (mview m) ip = fblocks (mview s) ip"
    if "mfile (mview s) (unat (freeblock s)) ip xs" for ip xs
    using mfile_frame [OF that, of "mview m" "NMETA + need ?F"] data mfile_range [OF that] d(7) by auto
  have inos: "inode_ok (mview m) (NMETA + need ?F) (i + 2) (T_FILE, host_bytes (fs ! i))" if i: "i < length fs" for i
  proof -
    have "dinode_of (mview m) (i + 2) = dinode_of (mview s) (i + 2)" using din [of "i + 2"] u(7) i F0(4) by simp
    moreover have "inode_ok (mview s) (unat (freeblock s)) (Suc (Suc i)) (T_FILE, host_bytes (fs ! i))"
      using d(8) [of "Suc i"] i F0(3) by (simp add: mk_table_def)
    ultimately show ?thesis using fr by (simp add: inode_ok_def)
  qed
  have blocks: "fblocks (mview m) (dinode_of (mview m) (Suc i)) = fblocks (mview s) (dinode_of (mview s) (Suc i))"
    if i: "i \<le> length fs" for i
  proof (cases "i = 0")
    case True
    then show ?thesis using rd fr [OF root(1)] by simp
  next
    case False
    then have "dinode_of (mview m) (Suc i) = dinode_of (mview s) (Suc i)" using din [of "Suc i"] u(7) i F0(4) by simp
    moreover have "mfile (mview s) (unat (freeblock s)) (dinode_of (mview s) (Suc i)) (snd (?F ! i))"
      using d(8) [of i] i F0(3) by (simp add: inode_ok_def)
    ultimately show ?thesis using fr by simp
  qed
  have disj: "fblocks (mview m) (dinode_of (mview m) (Suc i)) \<inter> fblocks (mview m) (dinode_of (mview m) (Suc j)) = {}"
    if "i \<le> length fs" "j \<le> length fs" "i \<noteq> j" for i j
    using blocks [OF that(1)] blocks [OF that(2)] d(9) [of i j] that F0(3) by simp
  have "mview m 1 = sb_block" using d(4) u(5) m(2) by simp
  then have "image_ok fs (mview m)"
    unfolding image_ok_def Let_def
    using m(2) fb(1) rd root fr [OF root(1)] off inos disj by (simp add: unat_of_nat32 del: of_nat_mult of_nat_add)
  moreover have "mkfs_finish 1 s = Ret m"
    using rinode_Ret [OF d(1,3), of 1] u(1,3) fb(2) root(2) by (simp add: mkfs_finish_def mkfs_balloc_def m_def sbm_def Let_def)
  ultimately show ?thesis using m(1) by blast
qed

lemma mkfs_main_spec:
  assumes h: "host_ok fs"
  shows "\<exists>m. mkfs_main fs = Ret m \<and> img_ok m \<and> image_ok fs (mview m)"
proof -
  let ?e = "\<lambda>name. mkfs_dirent 1 name"
  obtain s1 where s1: "mkfs_ialloc T_DIR mkfs_start = Ret (1, s1)" "mk_inv s1 [(T_DIR, [])]"
    using ialloc_spec [OF mkfs_start_inv, of T_DIR] by auto
  have c: "cost (nblk 16) = 1" "cost (nblk 32) = 1" by (simp_all add: cost_def nblk_def)
  obtain s2 where s2: "iappend 1 (?e [46]) s1 = Ret s2" "mk_inv s2 [(T_DIR, ?e [46])]"
    using iappend_spec [OF s1(2), of 0 T_DIR "[]" "?e [46]"] c by auto
  obtain s3 where s3: "iappend 1 (?e [46, 46]) s2 = Ret s3" "mk_inv s3 (mk_table fs 0)"
    using iappend_spec [OF s2(2), of 0 T_DIR "?e [46]" "?e [46, 46]"] c by (auto simp: mk_table_def root_entries_def)
  obtain s4 where s4: "foldR (mkfs_file 1) fs s3 = Ret s4" "mk_inv s4 (mk_table fs (length fs))"
    using mkfs_files_spec [OF h s3(2), of "length fs"] by auto
  obtain m where "mkfs_finish 1 s4 = Ret m" "img_ok m" "image_ok fs (mview m)" using mkfs_finish_spec [OF h s4(2)] by blast
  then show ?thesis using s1(1) s2(1) s3(1) s4(1) by (simp add: mkfs_main_def)
qed

section \<open>What the kernel finds\<close>

text \<open>Any view of the disk that shows the blocks of the image.\<close>

definition shows_image :: "mkfs \<Rightarrow> (uint \<Rightarrow> blk) \<Rightarrow> bool" where
  "shows_image m v \<longleftrightarrow> (\<forall>a. unat a < FSSIZE \<longrightarrow> v a = img m ! unat a)"

lemma image_ok_view:
  assumes h: "host_ok fs" and m: "img_ok m" "image_ok fs (mview m)" and v: "shows_image m v"
  shows "image_ok fs v"
proof -
  let ?fb = "NMETA + need (mk_table fs (length fs))"
  have eq: "v a = mview m a" if "unat a < FSSIZE" for a
    using v m(1) that by (simp add: shows_image_def mview_def img_ok_def)
  have fb: "?fb \<le> FSSIZE" "length fs \<le> 198" using h by (simp_all add: host_ok_def)
  have din: "dinode_of v n = dinode_of (mview m) n" if "n \<le> 200" for n
    using IBLOCK_sbm_less(1) [OF that] eq by (intro dinode_of_cong) simp
  have fr: "mfile v ?fb ip xs \<and> fblocks v ip = fblocks (mview m) ip" if "mfile (mview m) ?fb ip xs" for ip xs
    using mfile_frame [OF that, of v ?fb] eq mfile_range [OF that] fb(1) by fastforce
  note i = m(2) [unfolded image_ok_def Let_def]
  have root: "mfile (mview m) ?fb (dinode_of (mview m) 1) (root_entries fs (length fs))" using i by blast
  have d1: "dinode_of v 1 = dinode_of (mview m) 1" by (rule din) simp
  have inos: "inode_ok v ?fb (n + 2) (T_FILE, host_bytes (fs ! n))" if "n < length fs" for n
    using i that din [of "n + 2"] fr fb(2) by (simp add: inode_ok_def)
  have blocks: "fblocks v (dinode_of v (Suc n)) = fblocks (mview m) (dinode_of (mview m) (Suc n))" if "n \<le> length fs" for n
  proof (cases n)
    case 0
    then show ?thesis using d1 fr [OF root] by simp
  next
    case (Suc k)
    then have k: "k < length fs" "n = Suc k" "Suc n = k + 2" using that by simp_all
    then have "mfile (mview m) ?fb (dinode_of (mview m) (Suc n)) (host_bytes (fs ! k))"
      using i by (simp add: inode_ok_def)
    then show ?thesis using fr din [of "Suc n"] k fb(2) by simp
  qed
  have "v 1 = mview m 1" "v 58 = mview m 58" by (rule eq, simp)+
  then show ?thesis unfolding image_ok_def Let_def using i d1 fr [OF root] inos blocks by simp
qed

lemma image_used:
  assumes h: "host_ok fs" and v: "image_ok fs v" and a: "unat a < FSSIZE"
  shows "used v sbm a \<longleftrightarrow> unat a < NMETA + need (mk_table fs (length fs))"
proof -
  have "unat (a div 4096) = 0" using a by (simp add: unat_div_distrib)
  then have "BBLOCK a sbm = 58" by (simp add: BBLOCK_def sbm_def unat_eq_zero)
  moreover have "\<not> bit_get (replicate BSIZE 0) j" if "j < FSSIZE" for j
    using that by (simp add: bit_get_iff)
  moreover have "v 58 = foldl bit_mark (replicate BSIZE 0) [0..<NMETA + need (mk_table fs (length fs))]"
    using v by (simp add: image_ok_def Let_def)
  ultimately show ?thesis using h a by (simp add: used_def bit_get_fold host_ok_def)
qed

lemma mfile_file_ok:
  assumes h: "host_ok fs" and v: "image_ok fs v" and m: "mfile v (NMETA + need (mk_table fs (length fs))) ip xs"
  shows "file_ok v sbm (ip\<lparr>idev := 1\<rparr>)"
proof (rule file_okI)
  let ?fb = "NMETA + need (mk_table fs (length fs))"
  have o: "mowned v ?fb ip (nblk (length xs))" using m by (simp add: mfile_def)
  note d = mownedD [OF o]
  have data: "data_ok v sbm a" if "a \<in> fblocks v ip" for a
    using mfile_range [OF m that] image_used [OF h v, of a] h by (simp add: data_ok_def host_ok_def nmeta_def sbm_def)
  show "idev (ip\<lparr>idev := 1\<rparr>) = 1" "length (addrs (ip\<lparr>idev := 1\<rparr>)) = NDIRECT + 1" using d(1) by simp_all
  show "data_ok v sbm (faddr v (ip\<lparr>idev := 1\<rparr>) k)" if "k < MAXFILE" "faddr v (ip\<lparr>idev := 1\<rparr>) k \<noteq> 0" for k
    using that by (intro data) (auto simp: fblocks_def)
  show "faddr v (ip\<lparr>idev := 1\<rparr>) k \<noteq> addrs (ip\<lparr>idev := 1\<rparr>) ! NDIRECT" if "k < MAXFILE" "faddr v (ip\<lparr>idev := 1\<rparr>) k \<noteq> 0" for k
    using that d(3) [of k] d(7) [of k] by simp
  show "data_ok v sbm (addrs (ip\<lparr>idev := 1\<rparr>) ! NDIRECT)" if "addrs (ip\<lparr>idev := 1\<rparr>) ! NDIRECT \<noteq> 0"
    using that by (intro data) (auto simp: fblocks_def)
  show "k = l" if "k < MAXFILE" "l < MAXFILE" "faddr v (ip\<lparr>idev := 1\<rparr>) k \<noteq> 0"
    "faddr v (ip\<lparr>idev := 1\<rparr>) k = faddr v (ip\<lparr>idev := 1\<rparr>) l" for k l
    using that d(3) [of k] d(3) [of l] d(6) [of k l] by simp
qed

lemma nblk_less: "p < n \<Longrightarrow> p div BSIZE < nblk n"
proof -
  assume "p < n"
  then have "p div BSIZE \<le> n div BSIZE" "n mod BSIZE = 0 \<Longrightarrow> p div BSIZE < n div BSIZE"
    by (auto intro: div_le_mono simp: less_mult_imp_div_less elim!: dvdE dest!: mod_0_imp_dvd)
  then show ?thesis by (auto simp: nblk_def)
qed

lemma mfile_contents:
  assumes m: "mfile v fb ip xs" and n: "length xs \<le> n" "n \<le> MAXFILE * BSIZE"
  shows "map (fbyte v ip) [0..<n] = xs @ replicate (n - length xs) 0"
  using assms by (intro nth_equalityI) (auto simp: mfile_def nth_append)

lemma mfile_no_holes:
  assumes m: "mfile v fb ip xs" and n: "unat (isize ip) = length xs"
  shows "no_holes v ip" "fcontents v ip = xs"
proof -
  have o: "mowned v fb ip (nblk (length xs))" using m by (simp add: mfile_def)
  have le: "length xs \<le> MAXFILE * BSIZE"
  proof (rule ccontr)
    assume "\<not> length xs \<le> MAXFILE * BSIZE"
    then have "MAXFILE * BSIZE div BSIZE < nblk (length xs)" by (intro nblk_less) simp
    then show False using mownedD(2) [OF o] by simp
  qed
  then show "fcontents v ip = xs" using mfile_contents [OF m order.refl] by (simp add: fcontents_def n)
  show "no_holes v ip"
    unfolding no_holes_def n using le mownedD(2,3) [OF o] nblk_less by (metis less_le_trans)
qed

text \<open>\<open>ilock\<close> of a cached inode that has not been read yet loads the inode from the disk.\<close>

lemma ilock_load:
  assumes ok: "rd_ok s" and j: "j < length (icache s)" "iref (icache s ! j) \<ge> 1" "\<not> slocked (ilk (icache s ! j))"
      "\<not> valid (icache s ! j)" "idev (icache s ! j) = 1" "inum (icache s ! j) = n"
    and b: "unat (IBLOCK n (sb s)) < length (memdisk s)"
    and ty: "rd16 (view s (IBLOCK n (sb s))) (ioff n) \<noteq> 0"
  shows "\<exists>u. ilock j s = Ret u \<and> rd_ok u \<and> view u = view s \<and> sb u = sb s \<and> memdisk u = memdisk s \<and>
    icache u ! j = (get_dinode (ioff n) (view s (IBLOCK n (sb s))) (icache s ! j))
      \<lparr>ilk := \<lparr>slocked = True, spid = curpid s\<rparr>, valid := True\<rparr>"
proof -
  let ?bn = "IBLOCK n (sb s)" and ?lk = "\<lparr>slocked = True, spid = curpid s\<rparr>" and ?jp = "icache s ! j"
  define v where "v = updinode j (?jp\<lparr>ilk := ?lk\<rparr>) s"
  have rv: "rd_ok v" "view v = view s" "memdisk v = memdisk s" "sb v = sb s" "icache v = (icache s)[j := ?jp\<lparr>ilk := ?lk\<rparr>]"
    using ok by (simp_all add: v_def rd_ok_def)
  obtain b x y where r: "bread 1 ?bn v = Ret (b, x)" "bdata (bufs x ! b) = view s ?bn" "bio_frame v x" "brelse b x = Ret y" "rd_same v y"
    using rd_peek [OF rv(1), of ?bn] b rv(2,3) by metis
  let ?kp = "get_dinode (ioff n) (view s ?bn) (?jp\<lparr>ilk := ?lk\<rparr>)"
  have ix: "icache x = (icache s)[j := ?jp\<lparr>ilk := ?lk\<rparr>]" using bio_frame_icache(1) [OF r(3)] rv(5) by simp
  have rel: "brelse b (updinode j ?kp x) = Ret (updinode j ?kp y)" by (rule brelse_updinode [OF r(4)])
  have "itype ?kp \<noteq> 0" using ty by (simp add: get_dinode_def)
  then have run: "ilock j s = Ret (updinode j (?kp\<lparr>valid := True\<rparr>) (updinode j ?kp y))"
    using j r(1,2) rel ix rv(4) unfolding ilock_def acquiresleep_def Let_def
    by (simp add: v_def [symmetric] sleeplock_all_fields)
  have y: "icache y = icache v" "sb y = sb v" "rd_ok y" "view y = view v" "memdisk y = memdisk v"
    using r(5) bio_frame_icache [of v y] by (simp_all add: rd_same_def)
  have "?kp\<lparr>valid := True\<rparr> = (get_dinode (ioff n) (view s ?bn) ?jp)\<lparr>ilk := ?lk, valid := True\<rparr>"
    by (simp add: get_dinode_def)
  then show ?thesis using run y rv j(1) by (simp add: rd_ok_def)
qed

lemma image_file:
  assumes h: "host_ok fs" and v: "image_ok fs v" and n: "n < length fs"
  shows "file_ok v sbm ((dinode_of v (n + 2))\<lparr>idev := 1\<rparr>)" "no_holes v (dinode_of v (n + 2))"
    "fcontents v (dinode_of v (n + 2)) = host_bytes (fs ! n)" "itype (dinode_of v (n + 2)) = T_FILE" "nlink (dinode_of v (n + 2)) = 1"
proof -
  have "inode_ok v (NMETA + need (mk_table fs (length fs))) (n + 2) (T_FILE, host_bytes (fs ! n))"
    using v n unfolding image_ok_def Let_def by blast
  then have i: "mfile v (NMETA + need (mk_table fs (length fs))) (dinode_of v (n + 2)) (host_bytes (fs ! n))"
    "unat (isize (dinode_of v (n + 2))) = length (host_bytes (fs ! n))" "itype (dinode_of v (n + 2)) = T_FILE" "nlink (dinode_of v (n + 2)) = 1"
    by (simp_all add: inode_ok_def)
  show "file_ok v sbm ((dinode_of v (n + 2))\<lparr>idev := 1\<rparr>)" by (rule mfile_file_ok [OF h v i(1)])
  show "no_holes v (dinode_of v (n + 2))" "fcontents v (dinode_of v (n + 2)) = host_bytes (fs ! n)"
    by (rule mfile_no_holes [OF i(1,2)])+
qed (use v n in \<open>simp_all add: image_ok_def Let_def inode_ok_def\<close>)

text \<open>Two inodes with the same size and block addresses are the same file.\<close>

lemma same_file:
  assumes "addrs jp = addrs ip" "isize jp = isize ip" "idev jp = 1" "file_ok v b (ip\<lparr>idev := 1\<rparr>)"
  shows "file_ok v b jp" "no_holes v jp = no_holes v ip" "fcontents v jp = fcontents v ip"
proof -
  have f: "faddr v jp = faddr v ip" using assms(1) by (simp add: faddr_def fun_eq_iff)
  have e: "addrs (ip\<lparr>idev := 1\<rparr>) = addrs ip" "idev (ip\<lparr>idev := 1\<rparr>) = 1" by simp_all
  show "file_ok v b jp" using assms(4) unfolding file_ok_def f faddr_upd e assms(1,3) .
  show "no_holes v jp = no_holes v ip" by (simp add: no_holes_def f assms(2))
  have "fbyte v jp = fbyte v ip" by (simp add: fbyte_def fblk_def f fun_eq_iff)
  then show "fcontents v jp = fcontents v ip" by (simp add: fcontents_def assms(2))
qed

text \<open>
  C21. The image that \<open>mkfs\<close> builds from up to 198 files that fit on the disk is the file system the kernel expects:
  the superblock describes it; every file has an inode of type \<open>T_FILE\<close> with one link whose contents are
  exactly the bytes of the host file, without holes; the root directory starts with the entries for
  the files and is filled up with free entries; the blocks of different files are disjoint; and the bitmap marks
  exactly the metadata and the allocated blocks. This holds in every view of the disk that shows the image.
\<close>
theorem mkfs_image:
  assumes "host_ok fs"
  shows "\<exists>m. mkfs_main fs = Ret m \<and> length (img m) = FSSIZE \<and>
    (\<forall>v. shows_image m v \<longrightarrow>
       decode_sb (v 1) = sbm \<and>
       (\<forall>i < length fs. itype (dinode_of v (i + 2)) = T_FILE \<and> nlink (dinode_of v (i + 2)) = 1 \<and>
          file_ok v sbm ((dinode_of v (i + 2))\<lparr>idev := 1\<rparr>) \<and> no_holes v (dinode_of v (i + 2)) \<and>
          fcontents v (dinode_of v (i + 2)) = host_bytes (fs ! i)) \<and>
       itype (dinode_of v 1) = T_DIR \<and> nlink (dinode_of v 1) = 1 \<and> file_ok v sbm ((dinode_of v 1)\<lparr>idev := 1\<rparr>) \<and>
       (\<exists>z. fcontents v (dinode_of v 1) = root_entries fs (length fs) @ replicate z 0) \<and>
       (\<forall>i \<le> length fs. \<forall>j \<le> length fs. i \<noteq> j \<longrightarrow>
          fblocks v (dinode_of v (Suc i)) \<inter> fblocks v (dinode_of v (Suc j)) = {}) \<and>
       (\<forall>a. unat a < FSSIZE \<longrightarrow> (used v sbm a \<longleftrightarrow> unat a < NMETA + need (mk_table fs (length fs)))))"
proof -
  obtain m where m: "mkfs_main fs = Ret m" "img_ok m" "image_ok fs (mview m)" using mkfs_main_spec [OF assms] by blast
  have w: "rd32 sb_block (0 + 4 * k) = ([1000, 941, 200, 30, 2, 32, 58] :: uint list) ! k" if "k < 7" for k
    unfolding sb_block_def using that by (intro rd32_put_words) simp_all
  have sb: "decode_sb sb_block = sbm"
    using w [of 0] w [of 1] w [of 2] w [of 3] w [of 4] w [of 5] w [of 6]
    unfolding decode_sb_def sbm_def by simp
  have img: "image_ok fs v" if "shows_image m v" for v by (rule image_ok_view [OF assms m(2,3) that])
  note i = img [unfolded image_ok_def Let_def]
  have "length (root_entries fs (length fs)) \<le> 3200" using assms by (simp add: length_root_entries host_ok_def)
  then have r: "length (root_entries fs (length fs)) div BSIZE \<le> 6" using div_le_mono [of _ 3200 BSIZE] by fastforce
  have root: "\<exists>z. fcontents v (dinode_of v 1) = root_entries fs (length fs) @ replicate z 0" if "shows_image m v" for v
  proof -
    let ?l = "length (root_entries fs (length fs))"
    have "?l \<le> (?l div BSIZE + 1) * BSIZE" using block_end [of ?l] by linarith
    moreover have "(?l div BSIZE + 1) * BSIZE \<le> MAXFILE * BSIZE" using r by simp
    ultimately show ?thesis
      unfolding fcontents_def using i [OF that] mfile_contents by (metis (no_types, lifting))
  qed
  have files: "file_ok v sbm ((dinode_of v (n + 2))\<lparr>idev := 1\<rparr>) \<and> no_holes v (dinode_of v (n + 2)) \<and>
      fcontents v (dinode_of v (n + 2)) = host_bytes (fs ! n) \<and> itype (dinode_of v (n + 2)) = T_FILE \<and> nlink (dinode_of v (n + 2)) = 1"
    if v: "shows_image m v" and n: "n < length fs" for v n
    using image_file [OF assms img [OF v] n] by blast
  have root2: "file_ok v sbm ((dinode_of v 1)\<lparr>idev := 1\<rparr>)" if "shows_image m v" for v
    using mfile_file_ok [OF assms img [OF that]] i [OF that] by blast
  have "length (img m) = FSSIZE" using m(2) by (simp add: img_ok_def)
  moreover have "decode_sb (v 1) = sbm" if "shows_image m v" for v using i [OF that] sb by simp
  ultimately show ?thesis using m(1) files root root2 i image_used [OF assms img] by blast
qed

text \<open>
  C22. From the image builder to the kernel: when the kernel runs on a disk that \<open>mkfs\<close> has made, \<open>ilock\<close> of a
  fresh cache entry for the inode of a file succeeds, and \<open>readi\<close> then returns exactly the bytes of the host file
  that was put on the image.
\<close>
theorem mkfs_readi:
  assumes h: "host_ok fs" "mkfs_main fs = Ret m" "i < length fs"
    and s: "rd_ok s" "sb s = sbm" "shows_image m (view s)" "FSSIZE \<le> length (memdisk s)"
    and k: "k < length (icache s)" "iref (icache s ! k) \<ge> 1" "\<not> slocked (ilk (icache s ! k))" "\<not> valid (icache s ! k)"
      "idev (icache s ! k) = 1" "inum (icache s ! k) = of_nat (i + 2)"
  shows "\<exists>u t. ilock k s = Ret u \<and>
    readi devsw k 0 (of_nat (length (host_bytes (fs ! i)))) u = Ret (int (length (host_bytes (fs ! i))), host_bytes (fs ! i), t)"
proof -
  let ?n = "of_nat (i + 2) :: uint" and ?ip = "dinode_of (view s) (i + 2)" and ?l = "length (host_bytes (fs ! i))"
  obtain m' where "mkfs_main fs = Ret m'" "img_ok m'" "image_ok fs (mview m')" using mkfs_main_spec [OF h(1)] by blast
  then have img: "image_ok fs (view s)" using image_ok_view [OF h(1) _ _ s(3)] h(2) by simp
  note f = image_file [OF h(1) img h(3)]
  have i: "i + 2 \<le> 200" using h(1,3) by (simp add: host_ok_def)
  have b: "unat (IBLOCK ?n (sb s)) < length (memdisk s)" using IBLOCK_sbm_less(1) [OF i] s(2,4) by simp
  have ty: "rd16 (view s (IBLOCK ?n (sb s))) (ioff ?n) \<noteq> 0" using f(4) s(2) by (simp add: dinode_of_def get_dinode_def)
  obtain u where u: "ilock k s = Ret u" "rd_ok u" "view u = view s" "sb u = sb s" "memdisk u = memdisk s"
    "icache u ! k = (get_dinode (ioff ?n) (view s (IBLOCK ?n (sb s))) (icache s ! k))
      \<lparr>ilk := \<lparr>slocked = True, spid = curpid s\<rparr>, valid := True\<rparr>"
    using ilock_load [OF s(1) k b ty] by blast
  let ?jp = "icache u ! k"
  have jp: "addrs ?jp = addrs ?ip" "isize ?jp = isize ?ip" "idev ?jp = 1" "itype ?jp = T_FILE"
    using k(5) f(4) s(2) by (simp_all add: u(6) dinode_of_def get_dinode_def del: of_nat_add)
  note sf = same_file [OF jp(1-3) f(1)]
  have l: "unat (isize ?jp) = ?l" using f(3) jp(2) by (metis length_fcontents)
  have "?l < 4294967296" using l unsigned_less [of "isize ?jp", where 'a = nat] by simp
  then have un: "unat (of_nat ?l :: uint) = ?l" by (rule unat_of_nat32)
  have sz: "unat (sb_size (sb u)) \<le> length (memdisk u)" using u(4,5) s(2,4) by (simp add: sbm_def)
  obtain t where "readi devsw k 0 (of_nat ?l) u = Ret (int (min ?l (unat (isize ?jp) - 0)), take ?l (drop 0 (fcontents (view u) ?jp)), t)"
    using readi_spec [OF u(2) _ sz, of k 0 "of_nat ?l" devsw] sf f(2) jp(4) l un u(3,4) s(2) \<open>?l < 4294967296\<close> by auto
  then show ?thesis using u(1,3) sf(3) f(3) l by auto
qed

section \<open>An example\<close>

text \<open>An image with one file, and a kernel that has just been started on it with one cache entry for the file.\<close>

definition fs1 :: "hostfile list" where
  "fs1 = [([97], Some [[104, 105]])]"

definition kern_on :: "mkfs \<Rightarrow> kfs" where
  "kern_on m = binit \<lparr>bufs = [], mru = [], memdisk = img m, writes = [], curpid = 1,
     lstart = 2, lsize = 30, outstanding = 0, committing = False, ldev = 1, lh_n = 0,
     lh_block = replicate LOGSIZE 0, sb = sbm, icache = [zeroinode\<lparr>idev := 1, inum := 2, iref := 1\<rparr>], cwd = 0\<rparr>"

lemma fs1_simps: "length fs1 = 1" "host_bytes (fs1 ! 0) = [104, 105]" "need (mk_table fs1 (length fs1)) = 2" "host_ok fs1"
proof -
  show 1: "length fs1 = 1" "host_bytes (fs1 ! 0) = [104, 105]" by (simp_all add: fs1_def host_bytes_def)
  show 2: "need (mk_table fs1 (length fs1)) = 2"
    using 1 by (simp add: mk_table_def length_root_entries cost_def nblk_def)
  show "host_ok fs1" unfolding host_ok_def 2 by (simp add: fs1_def host_bytes_def)
qed

lemma shows_mview: "length (img m) = FSSIZE \<Longrightarrow> shows_image m (mview m)"
  by (simp add: shows_image_def mview_def)

theorem mkfs_image_witness:
  "\<exists>m. mkfs_main fs1 = Ret m \<and> fcontents (mview m) (dinode_of (mview m) 2) = [104, 105] \<and>
     used (mview m) sbm 60 \<and> \<not> used (mview m) sbm 61"
proof -
  have "\<exists>m. mkfs_main fs1 = Ret m \<and> length (img m) = FSSIZE \<and>
    (\<forall>v. shows_image m v \<longrightarrow> (\<forall>i < length fs1. fcontents v (dinode_of v (i + 2)) = host_bytes (fs1 ! i)) \<and>
      (\<forall>a. unat a < FSSIZE \<longrightarrow> (used v sbm a \<longleftrightarrow> unat a < NMETA + need (mk_table fs1 (length fs1)))))"
    using mkfs_image [OF fs1_simps(4)] by (elim ex_forward conjE) (intro conjI allI impI, assumption+, simp_all)
  then obtain m where m: "mkfs_main fs1 = Ret m" "length (img m) = FSSIZE"
    "\<forall>i < length fs1. fcontents (mview m) (dinode_of (mview m) (i + 2)) = host_bytes (fs1 ! i)"
    "\<forall>a. unat a < FSSIZE \<longrightarrow> (used (mview m) sbm a \<longleftrightarrow> unat a < NMETA + need (mk_table fs1 (length fs1)))"
    using shows_mview by blast
  have "fcontents (mview m) (dinode_of (mview m) (0 + 2)) = [104, 105]" using m(3) fs1_simps(1,2) by fastforce
  moreover have "used (mview m) sbm 60" "\<not> used (mview m) sbm 61" using m(4) by (simp_all add: fs1_simps(3))
  ultimately show ?thesis using m(1) by (auto simp: numeral_2_eq_2)
qed

theorem mkfs_readi_witness:
  "\<exists>m u t. mkfs_main fs1 = Ret m \<and> ilock 0 (kern_on m) = Ret u \<and>
     readi (\<lambda>_. (None, None)) 0 0 2 u = Ret (2, [104, 105], t)"
proof -
  obtain m where m: "mkfs_main fs1 = Ret m" "img_ok m" using mkfs_main_spec [OF fs1_simps(4)] by blast
  have b: "bio_inv (kern_on m)" "held (kern_on m) = {}" "pinned (kern_on m) = {}" "view (kern_on m) a = img m ! unat a" for a
    using binit_spec [of "\<lparr>bufs = [], mru = [], memdisk = img m, writes = [], curpid = 1,
     lstart = 2, lsize = 30, outstanding = 0, committing = False, ldev = 1, lh_n = 0,
     lh_block = replicate LOGSIZE 0, sb = sbm, icache = [zeroinode\<lparr>idev := 1, inum := 2, iref := 1\<rparr>], cwd = 0\<rparr>"] m(2)
    by (simp_all add: kern_on_def img_ok_def)
  have k: "sb (kern_on m) = sbm" "memdisk (kern_on m) = img m" "icache (kern_on m) = [zeroinode\<lparr>idev := 1, inum := 2, iref := 1\<rparr>]"
    by (simp_all add: kern_on_def binit_def)
  have "rd_ok (kern_on m)" using b by (simp add: rd_ok_def)
  moreover have "shows_image m (view (kern_on m))" using b(4) by (simp add: shows_image_def)
  ultimately have "\<exists>u t. ilock 0 (kern_on m) = Ret u \<and>
    readi (\<lambda>_. (None, None)) 0 0 (of_nat (length (host_bytes (fs1 ! 0)))) u = Ret (int (length (host_bytes (fs1 ! 0))), host_bytes (fs1 ! 0), t)"
    using mkfs_readi [OF fs1_simps(4) m(1), of 0 "kern_on m" 0 "\<lambda>_. (None, None)"] m(2) k fs1_simps(1)
    by (simp add: img_ok_def zeroinode_def initsleeplock_def)
  then show ?thesis using m(1) by (auto simp: fs1_simps(2))
qed

section \<open>The size of the root directory\<close>

text \<open>
  At the end \<open>mkfs\<close> sets the size of the root directory to the next multiple of the block size, and one block
  more when it is a multiple already: with 30 files, or 62, and so on, the last block of the root
  directory is a hole.
\<close>

lemma mkfs_root_hole:
  assumes h: "host_ok fs" and v: "image_ok fs v" and n: "(length fs + 2) mod 32 = 0"
  shows "\<not> no_holes v (dinode_of v 1)"
proof
  let ?r = "length (root_entries fs (length fs))" and ?ip = "dinode_of v 1"
  assume nh: "no_holes v ?ip"
  have i: "mfile v (NMETA + need (mk_table fs (length fs))) ?ip (root_entries fs (length fs))" "unat (isize ?ip) = (?r div BSIZE + 1) * BSIZE"
    using v unfolding image_ok_def Let_def by blast+
  obtain q where q: "length fs + 2 = q * 32" using n by (metis mod_0_imp_dvd dvd_def mult.commute)
  then have r: "?r = q * BSIZE" by (simp add: length_root_entries)
  then have nb: "nblk ?r = q" by (simp add: nblk_def)
  have "q < MAXFILE" using q h by (simp add: host_ok_def)
  then have "faddr v ?ip q = 0" using i(1) nb mownedD(3) [of v _ ?ip q q] unfolding mfile_def by auto
  moreover have "q * BSIZE < unat (isize ?ip)" using i(2) r by simp
  then have "faddr v ?ip (q * BSIZE div BSIZE) \<noteq> 0" using nh unfolding no_holes_def by blast
  ultimately show False by simp
qed

end
