(* ===== verification/Umalloc.thy ===== *)
theory Umalloc
  imports Kalloc
begin

text \<open>
  The memory allocator of the user library (\<open>xv6/umalloc.c\<close>). The free blocks form a ring through their headers, in the
  order of their addresses, that starts at the static header \<open>base\<close>. A header lies at the start of its block, free or
  handed out, and the size it holds counts units of a header. The headers are a store from addresses to their two
  fields: headers of different blocks never overlap, since every block has at least one unit (\<open>heap_inv\<close>). The position of \<open>base\<close> is
  an argument, and so is what the system call \<open>sbrk\<close> finds free. \<open>malloc\<close> hands out blocks that overlap neither
  each other nor a free block, and no byte obtained from \<open>sbrk\<close> is lost.
\<close>

section \<open>The allocator\<close>

record umem =
  uptr :: "uint \<Rightarrow> uint"
  usize :: "uint \<Rightarrow> uint"
  ufreep :: uint
  ubrk :: uint

text \<open>The address \<open>n\<close> headers behind \<open>p\<close>.\<close>

definition hplus :: "uint \<Rightarrow> uint \<Rightarrow> uint" where
  "hplus p n = p + 8 * n"

text \<open>The loop of \<open>free\<close> that looks for the place of a block.\<close>

partial_function (option) free_find :: "umem \<Rightarrow> uint \<Rightarrow> uint \<Rightarrow> uint option" where
  "free_find s bp p =
     (if bp > p \<and> bp < uptr s p then Some p
      else if p \<ge> uptr s p \<and> (bp > p \<or> bp < uptr s p) then Some p
      else free_find s bp (uptr s p))"

definition join_next :: "uint \<Rightarrow> uint \<Rightarrow> umem \<Rightarrow> umem" where
  "join_next bp p s =
     (if hplus bp (usize s bp) = uptr s p
      then s\<lparr>usize := (usize s)(bp := usize s bp + usize s (uptr s p)), uptr := (uptr s)(bp := uptr s (uptr s p))\<rparr>
      else s\<lparr>uptr := (uptr s)(bp := uptr s p)\<rparr>)"

definition join_prev :: "uint \<Rightarrow> uint \<Rightarrow> umem \<Rightarrow> umem" where
  "join_prev bp p s =
     (if hplus p (usize s p) = bp
      then s\<lparr>usize := (usize s)(p := usize s p + usize s bp), uptr := (uptr s)(p := uptr s bp)\<rparr>
      else s\<lparr>uptr := (uptr s)(p := bp)\<rparr>)"

definition free :: "uint \<Rightarrow> umem \<Rightarrow> umem option" where
  "free ap s =
     (let bp = ap - 8 in
      Option.bind (free_find s bp (ufreep s)) (\<lambda>p. Some ((join_prev bp p (join_next bp p s))\<lparr>ufreep := p\<rparr>)))"

text \<open>
  The effect of \<open>sbrk(n)\<close> on the size of the process, as \<open>growproc\<close> of \<open>xv6/proc.c\<close> computes it (with \<open>allocuvm\<close> and
  \<open>deallocuvm\<close>); \<open>room sz\<close> tells whether there is memory for a process of size \<open>sz\<close>. The result of the call
  is the old size, or -1 where the new size is \<^const>\<open>None\<close>.
\<close>

definition sbrk_size :: "(uint \<Rightarrow> bool) \<Rightarrow> uint \<Rightarrow> int \<Rightarrow> uint option" where
  "sbrk_size room sz n =
     (let new = sz + of_int n in
      if n > 0 then
        (if new \<ge> KERNBASE then None
         else if new < sz then (if sz = 0 then None else Some sz)
         else if room new \<and> new \<noteq> 0 then Some new else None)
      else if n < 0 then (if new \<ge> sz then (if sz = 0 then None else Some sz) else if new = 0 then None else Some new)
      else Some sz)"

definition morecore :: "(uint \<Rightarrow> bool) \<Rightarrow> uint \<Rightarrow> umem \<Rightarrow> (uint \<times> umem) option" where
  "morecore room nu s =
     (let nu = (if nu < 4096 then 4096 else nu) in
      case sbrk_size room (ubrk s) (sint (nu * 8)) of
        None \<Rightarrow> Some (0, s)
      | Some sz \<Rightarrow>
          let hp = ubrk s in
          Option.bind (free (hplus hp 1) (s\<lparr>ubrk := sz, usize := (usize s)(hp := nu)\<rparr>)) (\<lambda>s. Some (ufreep s, s)))"

definition malloc_take :: "uint \<Rightarrow> uint \<Rightarrow> uint \<Rightarrow> umem \<Rightarrow> uint \<times> umem" where
  "malloc_take nunits prevp p s =
     (let (p, s) =
        (if usize s p = nunits then (p, s\<lparr>uptr := (uptr s)(prevp := uptr s p)\<rparr>)
         else
           let s = s\<lparr>usize := (usize s)(p := usize s p - nunits)\<rparr>;
               p = hplus p (usize s p)
           in (p, s\<lparr>usize := (usize s)(p := nunits)\<rparr>))
      in (hplus p 1, s\<lparr>ufreep := prevp\<rparr>))"

partial_function (option) malloc_loop :: "(uint \<Rightarrow> bool) \<Rightarrow> uint \<Rightarrow> uint \<Rightarrow> uint \<Rightarrow> umem \<Rightarrow> (uint \<times> umem) option" where
  "malloc_loop room nunits prevp p s =
     (if usize s p \<ge> nunits then Some (malloc_take nunits prevp p s)
      else if p = ufreep s then
        Option.bind (morecore room nunits s) (\<lambda>(p, s).
          if p = 0 then Some (0, s) else malloc_loop room nunits p (uptr s p) s)
      else malloc_loop room nunits p (uptr s p) s)"

definition malloc_start :: "uint \<Rightarrow> umem \<Rightarrow> umem" where
  "malloc_start base s =
     (if ufreep s = 0
      then s\<lparr>uptr := (uptr s)(base := base), ufreep := base, usize := (usize s)(base := 0)\<rparr>
      else s)"

definition units :: "uint \<Rightarrow> uint" where
  "units nbytes = (nbytes + 8 - 1) div 8 + 1"

definition malloc :: "uint \<Rightarrow> (uint \<Rightarrow> bool) \<Rightarrow> uint \<Rightarrow> umem \<Rightarrow> (uint \<times> umem) option" where
  "malloc base room nbytes s =
     (let s = malloc_start base s; prevp = ufreep s
      in malloc_loop room (units nbytes) prevp (uptr s prevp) s)"

section \<open>The ring of free blocks\<close>

fun chain :: "(uint \<Rightarrow> uint) \<Rightarrow> uint list \<Rightarrow> uint \<Rightarrow> bool" where
  "chain f [] e \<longleftrightarrow> True"
| "chain f (x # xs) e \<longleftrightarrow> f x = hd (xs @ [e]) \<and> chain f xs e"

definition uend :: "(uint \<Rightarrow> uint) \<Rightarrow> uint \<Rightarrow> nat" where
  "uend z a = unat a + 8 * unat (z a)"

definition block :: "(uint \<Rightarrow> uint) \<Rightarrow> uint \<Rightarrow> nat set" where
  "block z a = {unat a..<uend z a}"

text \<open>Blocks in the order of their addresses between \<open>lo\<close> and \<open>hi\<close>.\<close>

fun spread :: "(uint \<Rightarrow> uint) \<Rightarrow> nat \<Rightarrow> uint list \<Rightarrow> nat \<Rightarrow> bool" where
  "spread z lo [] hi \<longleftrightarrow> lo \<le> hi"
| "spread z lo (x # xs) hi \<longleftrightarrow> lo \<le> unat x \<and> z x \<noteq> 0 \<and> spread z (uend z x) xs hi"

definition free_ring :: "uint \<Rightarrow> umem \<Rightarrow> uint list \<Rightarrow> bool" where
  "free_ring base s xs \<longleftrightarrow> base \<noteq> 0 \<and> chain (uptr s) (base # xs) base \<and> usize s base = 0 \<and>
     spread (usize s) (unat base + 8) xs (unat (ubrk s)) \<and> unat (ubrk s) \<le> 2 ^ 31 \<and> ufreep s \<in> set (base # xs)"

text \<open>
  The heap with the blocks at \<open>A\<close> handed out: together with the free blocks they are a partition of the memory from \<open>lo\<close> to
  the end of the process.
\<close>

definition free_bytes :: "umem \<Rightarrow> uint list \<Rightarrow> nat set" where
  "free_bytes s xs = (\<Union>a \<in> set xs. block (usize s) a)"

definition heap_ring :: "uint \<Rightarrow> nat \<Rightarrow> umem \<Rightarrow> uint set \<Rightarrow> uint list \<Rightarrow> bool" where
  "heap_ring base lo s A xs \<longleftrightarrow> free_ring base s xs \<and> lo \<le> unat (ubrk s) \<and>
     free_bytes s xs \<union> (\<Union>a \<in> A. block (usize s) a) = {lo..<unat (ubrk s)} \<and>
     (\<forall>a \<in> A. usize s a \<noteq> 0 \<and> block (usize s) a \<inter> free_bytes s xs = {} \<and>
        (\<forall>b \<in> A. a \<noteq> b \<longrightarrow> block (usize s) a \<inter> block (usize s) b = {}))"

text \<open>Before the first call there is no ring.\<close>

definition heap_inv :: "uint \<Rightarrow> nat \<Rightarrow> umem \<Rightarrow> uint set \<Rightarrow> bool" where
  "heap_inv base lo s A \<longleftrightarrow> unat base + 8 \<le> lo \<and>
     (if ufreep s = 0 then A = {} \<and> base \<noteq> 0 \<and> lo = unat (ubrk s) \<and> lo \<le> 2 ^ 31
      else \<exists>xs. heap_ring base lo s A xs)"

lemma hd_append_Cons [simp]: "hd (xs @ y # ys @ zs) = hd (xs @ [y])"
  by (cases xs) simp_all

lemma hd_append_hd [simp]: "hd (xs @ [hd (ys @ [z])]) = hd (xs @ ys @ [z])"
  by (cases xs) simp_all

lemma chain_append [simp]: "chain f (xs @ ys) e \<longleftrightarrow> chain f xs (hd (ys @ [e])) \<and> chain f ys e"
proof (induction xs)
  case (Cons x xs)
  have "hd (xs @ ys @ [e]) = hd (xs @ [hd (ys @ [e])])" by (cases xs) simp_all
  then show ?case using Cons by auto
qed simp

lemma chain_last: "chain f (x # xs) e \<Longrightarrow> f (last (x # xs)) = e"
  by (induction xs arbitrary: x) auto

lemma chain_upd [simp]: "x \<notin> set xs \<Longrightarrow> chain (f(x := v)) xs e = chain f xs e"
  by (induction xs) auto

lemma uend_gt: "z a \<noteq> 0 \<Longrightarrow> unat a < uend z a"
  by (simp add: uend_def unat_gt_0)

lemma usize_gt: "usize s a \<noteq> 0 \<Longrightarrow> unat a < uend (usize s) a"
  by (rule uend_gt)

lemma unat_hplus: "unat p + 8 * unat n < 2 ^ 32 \<Longrightarrow> unat (hplus p n) = unat p + 8 * unat n"
  unfolding hplus_def by (subst unat_add_lem [THEN iffD1]; subst unat_mult_lem [THEN iffD1]; simp)

lemma spread_le: "spread z lo xs hi \<Longrightarrow> lo \<le> hi"
  by (induction xs arbitrary: lo) (fastforce simp: uend_def)+

lemma spread_append [simp]:
  "spread z lo (xs @ y # ys) hi \<longleftrightarrow> spread z lo xs (unat y) \<and> z y \<noteq> 0 \<and> spread z (uend z y) ys hi"
  by (induction xs arbitrary: lo) auto

lemma spread_mono: "spread z lo xs hi \<Longrightarrow> lo' \<le> lo \<Longrightarrow> hi \<le> hi' \<Longrightarrow> spread z lo' xs hi'"
  by (induction xs arbitrary: lo lo') auto

lemma spread_skip: "spread z lo xs m \<Longrightarrow> m \<le> m' \<Longrightarrow> spread z m' ys hi \<Longrightarrow> spread z lo (xs @ ys) hi"
  by (induction xs arbitrary: lo) (auto intro: spread_mono)

lemma uend_upd [simp]: "a \<noteq> x \<Longrightarrow> uend (z(x := v)) a = uend z a"
  by (simp add: uend_def)

lemma block_upd [simp]: "a \<noteq> x \<Longrightarrow> block (z(x := v)) a = block z a"
  by (simp add: block_def)

lemma spread_upd [simp]: "x \<notin> set xs \<Longrightarrow> spread (z(x := v)) lo xs hi = spread z lo xs hi"
  by (induction xs arbitrary: lo) auto

lemma blocks_upd [simp]: "x \<notin> A \<Longrightarrow> (\<Union>a \<in> A. block (z(x := v)) a) = (\<Union>a \<in> A. block z a)"
  by (rule SUP_cong) (metis block_upd)+

lemma spread_bounds:
  assumes "spread z lo xs hi" "x \<in> set xs"
  shows "lo \<le> unat x" "uend z x \<le> hi" "unat x < hi" "unat x + 8 \<le> uend z x" "z x \<noteq> 0"
proof -
  obtain ys zs where "xs = ys @ x # zs" using assms(2) split_list by fastforce
  then have "spread z lo ys (unat x)" "z x \<noteq> 0" "spread z (uend z x) zs hi" using assms(1) by auto
  then show "lo \<le> unat x" "uend z x \<le> hi" "z x \<noteq> 0" "unat x + 8 \<le> uend z x" "unat x < hi"
    using spread_le [of z lo ys "unat x"] spread_le [of z "uend z x" zs hi]
    by (auto simp: uend_def unat_eq_0 [symmetric] simp del: unat_eq_0)
qed

lemma spread_distinct: "spread z lo xs hi \<Longrightarrow> distinct xs"
proof (induction xs arbitrary: lo)
  case (Cons x xs)
  then show ?case using spread_bounds(1) [of z "uend z x" xs hi x] spread_bounds(4) [OF Cons.prems, of x] by auto
qed simp

lemma spread_sorted: "spread z lo xs hi \<Longrightarrow> sorted_wrt (<) xs"
proof (induction xs arbitrary: lo)
  case (Cons x xs)
  have "x < y" if "y \<in> set xs" for y
    using Cons.prems that spread_bounds(1) [of z "uend z x" xs hi y]
      uend_gt [of z x] by (auto simp: word_less_nat_alt)
  then show ?case using Cons by auto
qed simp

lemma spread_disjoint:
  assumes "spread z lo xs hi" "x \<in> set xs" "y \<in> set xs" "x \<noteq> y"
  shows "block z x \<inter> block z y = {}"
  using assms
proof (induction xs arbitrary: lo)
  case (Cons w xs)
  have "uend z w \<le> unat v" if "v \<in> set xs" for v using Cons.prems(1) that spread_bounds(1) by fastforce
  then show ?case using Cons by (fastforce simp: block_def)
qed simp

text \<open>A block that overlaps no free block has its place between two of them.\<close>

lemma spread_split:
  assumes "spread z lo xs hi" "lo \<le> unat b" "uend z b \<le> hi" "z b \<noteq> 0"
    "\<And>x. x \<in> set xs \<Longrightarrow> block z x \<inter> block z b = {}"
  shows "\<exists>ys zs. xs = ys @ zs \<and> spread z lo ys (unat b) \<and> spread z (uend z b) zs hi"
  using assms
proof (induction xs arbitrary: lo)
  case (Cons x xs)
  have "unat b < uend z b" using Cons.prems(4) by (simp add: uend_def unat_gt_0)
  moreover have "unat x < uend z x" using Cons.prems(1) by (simp add: uend_def unat_gt_0)
  moreover have "block z x \<inter> block z b = {}" using Cons.prems(5) by simp
  ultimately have "uend z x \<le> unat b \<or> uend z b \<le> unat x"
    unfolding block_def by (simp add: disjoint_iff) (meson leI le_less_trans nat_le_linear order_refl)
  then show ?case
  proof
    assume "uend z x \<le> unat b"
    then obtain ys zs where "xs = ys @ zs" "spread z (uend z x) ys (unat b)" "spread z (uend z b) zs hi"
      using Cons.IH [of "uend z x"] Cons.prems by auto
    then show ?thesis using Cons.prems(1) by (intro exI [of _ "x # ys"] exI [of _ zs]) auto
  next
    assume "uend z b \<le> unat x"
    then show ?thesis using Cons.prems by (intro exI [of _ "[]"] exI [of _ "x # xs"]) auto
  qed
qed auto

section \<open>Freeing a block\<close>

text \<open>The test that ends the loop of \<open>free\<close>, and a walk along the ring up to the first block that passes it.\<close>

definition free_stop :: "umem \<Rightarrow> uint \<Rightarrow> uint \<Rightarrow> bool" where
  "free_stop s bp p \<longleftrightarrow> bp > p \<and> bp < uptr s p \<or> p \<ge> uptr s p \<and> (bp > p \<or> bp < uptr s p)"

lemma free_find_step: "free_find s bp p = (if free_stop s bp p then Some p else free_find s bp (uptr s p))"
  by (subst free_find.simps) (auto simp: free_stop_def)

lemma free_find_walk:
  "chain (uptr s) us p \<Longrightarrow> (\<And>u. u \<in> set us \<Longrightarrow> \<not> free_stop s bp u) \<Longrightarrow> free_stop s bp p \<Longrightarrow>
   free_find s bp (hd (us @ [p])) = Some p"
proof (induction us)
  case (Cons u us)
  then show ?case using free_find_step [of s bp u] by simp
qed (simp add: free_find_step)

text \<open>The loop ends at the last block below the one to be freed, wherever it starts.\<close>

lemma free_find_sorted:
  assumes c: "chain (uptr s) (ps @ p # zs) (hd (ps @ [p]))" and sorted: "sorted_wrt (<) (ps @ p # zs)"
    and p: "p < bp" and above: "\<And>z. z \<in> set zs \<Longrightarrow> bp < z" and x: "x \<in> set (ps @ p # zs)"
  shows "free_find s bp x = Some p"
proof -
  let ?b = "hd (ps @ [p])"
  have b: "?b \<le> p" using sorted by (cases ps) (auto simp: less_imp_le)
  have stop: "free_stop s bp p" using c b p above by (cases zs) (auto simp: free_stop_def)
  have low: "\<not> free_stop s bp u" if u: "u \<in> set ps" for u
  proof -
    obtain as bs where ps: "ps = as @ u # bs" using split_list [OF u] by blast
    have "uptr s u = hd (bs @ [p])" using c by (simp add: ps)
    moreover have "u < hd (bs @ [p])" "hd (bs @ [p]) \<le> p"
      using sorted unfolding ps by (cases bs; auto simp: sorted_wrt_append less_imp_le)+
    ultimately show ?thesis using p by (auto simp: free_stop_def)
  qed
  have high: "\<not> free_stop s bp u" if u: "u \<in> set zs" for u
  proof -
    obtain as bs where zs: "zs = as @ u # bs" using split_list [OF u] by blast
    have nx: "uptr s u = hd (bs @ [?b])" using c by (simp add: zs)
    show ?thesis
    proof (cases bs)
      case Nil
      then show ?thesis using nx above [OF u] b p by (auto simp: free_stop_def)
    next
      case (Cons w ws)
      then have "u < w" "bp < w" using sorted above by (auto simp: zs sorted_wrt_append)
      then show ?thesis using nx Cons above [OF u] by (auto simp: free_stop_def)
    qed
  qed
  have cps: "chain (uptr s) ps p" "chain (uptr s) zs ?b" using c by simp_all
  consider (p) "x = p" | (ps) "x \<in> set ps" | (zs) "x \<in> set zs" using x by auto
  then show ?thesis
  proof cases
    case p
    then show ?thesis using stop by (simp add: free_find_step)
  next
    case ps
    obtain as bs where s: "ps = as @ x # bs" using split_list [OF ps] by blast
    have "free_find s bp (hd ((x # bs) @ [p])) = Some p"
      by (rule free_find_walk) (use cps low stop s in auto)
    then show ?thesis by simp
  next
    case zs
    obtain as bs where s: "zs = as @ x # bs" using split_list [OF zs] by blast
    have "free_find s bp (hd ((x # bs @ ps) @ [p])) = Some p"
      by (rule free_find_walk) (use cps low high stop s in auto)
    then show ?thesis by simp
  qed
qed

lemma join_next_frame:
  "\<exists>v w. usize (join_next bp p s) = (usize s)(bp := v) \<and> uptr (join_next bp p s) = (uptr s)(bp := w)"
  "ubrk (join_next bp p s) = ubrk s"
proof -
  have "\<exists>v. usize s = (usize s)(bp := v)" by (metis fun_upd_triv)
  then show "\<exists>v w. usize (join_next bp p s) = (usize s)(bp := v) \<and> uptr (join_next bp p s) = (uptr s)(bp := w)"
    by (auto simp: join_next_def)
qed (simp add: join_next_def)

lemma join_prev_frame:
  "a \<noteq> p \<Longrightarrow> usize (join_prev bp p s) a = usize s a" "ubrk (join_prev bp p s) = ubrk s"
  by (simp_all add: join_prev_def)

text \<open>The header that \<open>p\<close> points to is joined to the freed block, or follows it.\<close>

lemma join_next_spec:
  assumes p: "uptr s p = hd (zs @ [base])" "p \<noteq> bp" and c: "chain (uptr s) zs base"
    and hi: "spread (usize s) (uend (usize s) bp) zs hi" "hi \<le> 2 ^ 31" "usize s bp \<noteq> 0" and base: "unat base < unat bp"
  shows "\<exists>zs'. spread (usize (join_next bp p s)) (uend (usize (join_next bp p s)) bp) zs' hi \<and> usize (join_next bp p s) bp \<noteq> 0 \<and>
    uptr (join_next bp p s) bp = hd (zs' @ [base]) \<and> chain (uptr (join_next bp p s)) zs' base \<and> set zs' \<subseteq> set zs \<and>
    (\<Union>a \<in> insert bp (set zs'). block (usize (join_next bp p s)) a) = (\<Union>a \<in> insert bp (set zs). block (usize s) a) \<and>
    block (usize s) bp \<subseteq> block (usize (join_next bp p s)) bp"
    (is "\<exists>zs'. ?P zs'")
proof -
  have notin: "bp \<notin> set zs" using spread_bounds(1) [OF hi(1), of bp] usize_gt [OF hi(3)] by auto
  have le: "uend (usize s) bp \<le> hi" using spread_le [OF hi(1)] .
  have e: "unat (hplus bp (usize s bp)) = uend (usize s) bp" using le hi(2) by (simp add: unat_hplus uend_def)
  show "\<exists>zs'. ?P zs'"
  proof (cases "hplus bp (usize s bp) = uptr s p")
    case False
    then have "?P zs"
      using hi p(1) c notin by (auto simp: join_next_def)
    then show ?thesis by (rule exI [of ?P])
  next
    case True
    have "zs \<noteq> []" using True p(1) e base by (auto simp: uend_def)
    then obtain q zs' where zs: "zs = q # zs'" by (cases zs) auto
    have q: "uptr s p = q" "uend (usize s) bp = unat q" "q \<noteq> bp" using p(1) e True notin by (auto simp: zs)
    let ?t = "join_next bp p s"
    have t: "?t = s\<lparr>usize := (usize s)(bp := usize s bp + usize s q), uptr := (uptr s)(bp := uptr s q)\<rparr>"
      using True q(1) by (simp add: join_next_def)
    have sp: "spread (usize s) (uend (usize s) q) zs' hi" "usize s q \<noteq> 0" using hi(1) by (auto simp: zs)
    have "uend (usize s) q \<le> hi" using spread_le [OF sp(1)] .
    then have "unat (usize s bp + usize s q) = unat (usize s bp) + unat (usize s q)"
      using q(2) hi(2) by (subst unat_add_lem [THEN iffD1]) (auto simp: uend_def)
    then have ends: "uend (usize ?t) bp = uend (usize s) q" using q(2) by (simp add: t uend_def)
    have B: "block (usize ?t) bp = block (usize s) bp \<union> block (usize s) q"
      using ends q(2) usize_gt [OF hi(3)] usize_gt [OF sp(2)] by (auto simp: block_def)
    have "spread (usize ?t) (uend (usize ?t) bp) zs' hi" using sp(1) ends notin by (simp add: t zs)
    moreover have "usize ?t bp \<noteq> 0" using ends usize_gt [OF sp(2)] q(2) usize_gt [OF hi(3)] by (auto simp: uend_def)
    moreover have "chain (uptr ?t) zs' base" "uptr ?t bp = hd (zs' @ [base])"
      using c notin by (auto simp: t zs)
    moreover have "(\<Union>a \<in> set zs'. block (usize ?t) a) = (\<Union>a \<in> set zs'. block (usize s) a)" using notin by (simp add: t zs)
    then have "(\<Union>a \<in> insert bp (set zs'). block (usize ?t) a) = (\<Union>a \<in> insert bp (set zs). block (usize s) a)"
      unfolding zs list.set(2) UN_insert B by blast
    moreover have "set zs' \<subseteq> set zs" "block (usize s) bp \<subseteq> block (usize ?t) bp" by (auto simp: zs B)
    ultimately have "?P zs'" by (intro conjI)
    then show ?thesis by (rule exI [of ?P])
  qed
qed

lemma join_prev_spec:
  assumes ys: "base # ys = ps @ [p]" and c: "chain (uptr s) ps p" "chain (uptr s) (bp # zs) base"
    and lo: "spread (usize s) (unat base + 8) ys (unat bp)" and hi: "spread (usize s) (uend (usize s) bp) zs hi" "hi \<le> 2 ^ 31" "usize s bp \<noteq> 0"
    and base: "usize s base = 0" "bp \<notin> set (base # ys)" "set (base # ys) \<inter> set zs = {}"
  shows "\<exists>xs. spread (usize (join_prev bp p s)) (unat base + 8) xs hi \<and> chain (uptr (join_prev bp p s)) (base # xs) base \<and>
    usize (join_prev bp p s) base = 0 \<and> p \<in> set (base # xs) \<and> set xs \<subseteq> insert bp (set (ys @ zs)) \<and>
    (\<Union>a \<in> set xs. block (usize (join_prev bp p s)) a) = (\<Union>a \<in> insert bp (set (ys @ zs)). block (usize s) a) \<and>
    (\<exists>x \<in> set xs. block (usize s) bp \<subseteq> block (usize (join_prev bp p s)) x)"
    (is "\<exists>xs. ?P xs")
proof -
  let ?t = "join_prev bp p s"
  have le: "uend (usize s) bp \<le> hi" using spread_le [OF hi(1)] .
  have below: "unat base + 8 \<le> unat bp" using spread_le [OF lo] .
  have dist: "distinct (base # ys)" using spread_distinct [OF lo] spread_bounds(1) [OF lo, of base] by auto
  have pin: "p \<in> set (base # ys)" unfolding ys by simp
  have pnot: "p \<notin> set ps" using dist unfolding ys by simp
  have pz: "p \<notin> set (bp # zs)" using pin base by auto
  have bound: "uend (usize s) p \<le> unat bp" using pin spread_bounds(2) [OF lo, of p] base(1) below by (auto simp: uend_def)
  then have e: "unat (hplus p (usize s p)) = uend (usize s) p" using le hi by (subst unat_hplus) (auto simp: uend_def)
  show "\<exists>xs. ?P xs"
  proof (cases "hplus p (usize s p) = bp")
    case False
    then have t: "?t = s\<lparr>uptr := (uptr s)(p := bp)\<rparr>" by (simp add: join_prev_def)
    have "chain (uptr ?t) ((ps @ [p]) @ bp # zs) base" using c pnot pz by (auto simp: t)
    then have "chain (uptr ?t) (base # ys @ bp # zs) base" unfolding ys [symmetric] by simp
    moreover have "spread (usize s) (unat base + 8) (ys @ bp # zs) hi" using lo hi by simp
    then have "spread (usize ?t) (unat base + 8) (ys @ bp # zs) hi" by (simp add: t)
    ultimately have "?P (ys @ bp # zs)" using base(1) pin by (auto simp: t block_def uend_def)
    then show ?thesis by (rule exI [of ?P])
  next
    case True
    have "p \<noteq> base" using True below base(1) by (auto simp: hplus_def)
    then obtain ys' where ys': "ys = ys' @ [p]" "ps = base # ys'" using ys by (cases ps) auto
    have t: "?t = s\<lparr>usize := (usize s)(p := usize s p + usize s bp), uptr := (uptr s)(p := uptr s bp)\<rparr>"
      using True by (simp add: join_prev_def)
    have touch: "uend (usize s) p = unat bp" using e True by simp
    then have "unat (usize s p + usize s bp) = unat (usize s p) + unat (usize s bp)"
      using le hi(2) by (subst unat_add_lem [THEN iffD1]) (auto simp: uend_def)
    then have ends: "uend (usize ?t) p = uend (usize s) bp" using touch by (simp add: t uend_def)
    have p0: "usize s p \<noteq> 0" using lo by (simp add: ys')
    have "spread (usize ?t) (unat base + 8) ys' (unat p)" "spread (usize ?t) (uend (usize s) bp) zs hi"
      using lo hi(1) pnot pz by (auto simp: ys' t)
    moreover have "usize ?t p \<noteq> 0" using ends touch usize_gt [OF p0] usize_gt [OF hi(3)] by (auto simp: uend_def)
    ultimately have sp: "spread (usize ?t) (unat base + 8) (ys @ zs) hi" using ends by (simp add: ys')
    have "chain (uptr ?t) ((ps @ [p]) @ zs) base" using c pnot pz by (simp add: t)
    then have ch: "chain (uptr ?t) (base # ys @ zs) base" unfolding ys [symmetric] by simp
    have "block (usize ?t) p = block (usize s) p \<union> block (usize s) bp"
      using ends touch usize_gt [OF p0] usize_gt [OF hi(3)] by (auto simp: block_def)
    moreover have "(\<Union>a \<in> set ys'. block (usize ?t) a) = (\<Union>a \<in> set ys'. block (usize s) a)" "(\<Union>a \<in> set zs. block (usize ?t) a) = (\<Union>a \<in> set zs. block (usize s) a)"
      using pnot pz by (simp_all add: ys' t)
    moreover have "usize ?t base = 0" using base(1) \<open>p \<noteq> base\<close> by (simp add: t)
    ultimately have "?P (ys @ zs)" using sp ch pin by (auto simp: ys')
    then show ?thesis by (rule exI [of ?P])
  qed
qed

text \<open>The place of the block at \<open>bp\<close> in the ring, which the loop finds.\<close>

lemma free_place:
  assumes ring: "free_ring base s xs"
    and b: "unat base + 8 \<le> unat bp" "uend (usize s) bp \<le> unat (ubrk s)" "usize s bp \<noteq> 0"
      "\<And>x. x \<in> set xs \<Longrightarrow> block (usize s) x \<inter> block (usize s) bp = {}"
  obtains ys zs ps p where "xs = ys @ zs" "base # ys = ps @ [p]" "spread (usize s) (unat base + 8) ys (unat bp)"
    "spread (usize s) (uend (usize s) bp) zs (unat (ubrk s))" "\<And>x. x \<in> set zs \<Longrightarrow> bp < x"
    "\<And>x. x \<in> set (base # ys) \<Longrightarrow> x < bp" "chain (uptr s) ps p" "uptr s p = hd (zs @ [base])" "chain (uptr s) zs base"
    "free_find s bp (ufreep s) = Some p"
proof -
  note r = ring [unfolded free_ring_def]
  have sp: "spread (usize s) (unat base + 8) xs (unat (ubrk s))" using r by simp
  obtain ys zs where xs: "xs = ys @ zs" and lo: "spread (usize s) (unat base + 8) ys (unat bp)"
    and hi: "spread (usize s) (uend (usize s) bp) zs (unat (ubrk s))"
    using spread_split [OF sp b(1-4)] by blast
  obtain ps p where ps: "base # ys = ps @ [p]" by (metis append_butlast_last_id list.discI)
  have pin: "p \<in> set (base # ys)" unfolding ps by simp
  have base: "hd (ps @ [p]) = base" using ps by (metis list.sel(1))
  have R: "base # xs = ps @ p # zs" using ps xs by (metis Cons_eq_appendI append.assoc append_Cons append_Nil)
  have above: "bp < x" if "x \<in> set zs" for x
    using spread_bounds(1) [OF hi that] usize_gt [OF b(3)] by (simp add: word_less_nat_alt)
  have below: "x < bp" if "x \<in> set (base # ys)" for x
    using that b(1) spread_bounds(3) [OF lo, of x] by (auto simp: word_less_nat_alt)
  have c: "chain (uptr s) (ps @ p # zs) (hd (ps @ [p]))" using r unfolding R base by simp
  have "base < x" if "x \<in> set xs" for x using spread_bounds(1) [OF sp that] by (simp add: word_less_nat_alt)
  then have "sorted_wrt (<) (base # xs)" using spread_sorted [OF sp] by simp
  then have "free_find s bp (ufreep s) = Some p"
    using free_find_sorted [OF c, of bp "ufreep s"] below [OF pin] above r unfolding R by blast
  then show thesis using that [OF xs ps lo hi above below] c unfolding base by auto
qed

text \<open>Freeing the block at \<open>bp\<close> adds exactly its bytes to the free ones.\<close>

lemma free_spec:
  assumes ring: "free_ring base s xs"
    and b: "unat base + 8 \<le> unat bp" "uend (usize s) bp \<le> unat (ubrk s)" "usize s bp \<noteq> 0"
      "\<And>x. x \<in> set xs \<Longrightarrow> block (usize s) x \<inter> block (usize s) bp = {}"
  shows "\<exists>t xs'. free (hplus bp 1) s = Some t \<and> free_ring base t xs' \<and> ubrk t = ubrk s \<and> ufreep t \<noteq> 0 \<and> set xs' \<subseteq> insert bp (set xs) \<and>
    free_bytes t xs' = free_bytes s xs \<union> block (usize s) bp \<and> (\<exists>x \<in> set xs'. block (usize s) bp \<subseteq> block (usize t) x) \<and>
    (\<forall>a. a \<notin> insert bp (set xs) \<longrightarrow> usize t a = usize s a)"
proof -
  note r = ring [unfolded free_ring_def]
  obtain ys zs ps p where xs: "xs = ys @ zs" and ps: "base # ys = ps @ [p]"
    and lo: "spread (usize s) (unat base + 8) ys (unat bp)" and hi: "spread (usize s) (uend (usize s) bp) zs (unat (ubrk s))"
    and above: "\<And>x. x \<in> set zs \<Longrightarrow> bp < x" and below: "\<And>x. x \<in> set (base # ys) \<Longrightarrow> x < bp"
    and c: "chain (uptr s) ps p" "uptr s p = hd (zs @ [base])" "chain (uptr s) zs base"
    and find: "free_find s bp (ufreep s) = Some p" using free_place [OF ring b] by blast
  let ?s = "join_next bp p s" and ?t = "(join_prev bp p (join_next bp p s))\<lparr>ufreep := p\<rparr>"
  have small: "unat (ubrk s) \<le> 2 ^ 31" and pin: "p \<in> set (base # ys)" using r unfolding ps by auto
  have notin: "bp \<notin> set (base # ys)" "bp \<notin> set ps" "p \<noteq> bp"
    using below [of bp] pin unfolding ps by auto
  have bb: "unat base < unat bp" "base \<noteq> bp" using b(1) by auto
  obtain zs' where z: "spread (usize ?s) (uend (usize ?s) bp) zs' (unat (ubrk s))" "usize ?s bp \<noteq> 0"
      "uptr ?s bp = hd (zs' @ [base])" "chain (uptr ?s) zs' base" "set zs' \<subseteq> set zs"
      "(\<Union>a \<in> insert bp (set zs'). block (usize ?s) a) = (\<Union>a \<in> insert bp (set zs). block (usize s) a)"
      "block (usize s) bp \<subseteq> block (usize ?s) bp"
    using join_next_spec [OF c(2) notin(3) c(3) hi small b(3) bb(1)] by blast
  obtain v w where upd: "usize ?s = (usize s)(bp := v)" "uptr ?s = (uptr s)(bp := w)" using join_next_frame(1) by blast
  have ys: "chain (uptr ?s) ps p" "spread (usize ?s) (unat base + 8) ys (unat bp)" "usize ?s base = 0"
    "(\<Union>a \<in> set ys. block (usize ?s) a) = (\<Union>a \<in> set ys. block (usize s) a)"
    using c(1) lo notin bb r by (simp_all add: upd)
  have "set (base # ys) \<inter> set zs' = {}" using below above z(5) by (fastforce dest: less_asym)
  moreover have "chain (uptr ?s) (bp # zs') base" using z by simp
  ultimately obtain xs' where x: "spread (usize ?t) (unat base + 8) xs' (unat (ubrk s))" "chain (uptr ?t) (base # xs') base"
      "usize ?t base = 0" "p \<in> set (base # xs')" "set xs' \<subseteq> insert bp (set (ys @ zs'))"
      "(\<Union>a \<in> set xs'. block (usize ?t) a) = (\<Union>a \<in> insert bp (set (ys @ zs')). block (usize ?s) a)"
      "\<exists>x \<in> set xs'. block (usize ?s) bp \<subseteq> block (usize ?t) x"
    using join_prev_spec [OF ps ys(1) _ ys(2) z(1) small z(2) ys(3) notin(1)] by auto
  have brk: "ubrk ?t = ubrk s" by (simp add: join_prev_frame join_next_frame)
  have "free (hplus bp 1) s = Some ?t" using find by (simp add: free_def hplus_def)
  moreover have "free_ring base ?t xs'" using x brk r by (simp add: free_ring_def)
  moreover have "p \<noteq> 0" using pin spread_bounds(1) [OF lo, of p] r by auto
  moreover have "free_bytes ?t xs' = free_bytes s xs \<union> block (usize s) bp"
    using x(6) ys(4) z(6) by (simp add: free_bytes_def xs image_Un Un_ac)
  moreover have "\<exists>x \<in> set xs'. block (usize s) bp \<subseteq> block (usize ?t) x" using x(7) z(7) by blast
  moreover have "\<forall>a. a \<notin> insert bp (set xs) \<longrightarrow> a \<noteq> p \<longrightarrow> usize ?t a = usize s a" by (simp add: join_prev_frame upd)
  moreover have "usize ?t base = usize s base" using x(3) r by simp
  ultimately show ?thesis using brk x(5) z(5) pin by (intro exI [of _ ?t] exI [of _ xs'] conjI) (auto simp: xs)
qed

lemma block_same: "z a = z' a \<Longrightarrow> block z a = block z' a"
  by (simp add: block_def uend_def)

lemma heap_ringD:
  assumes "heap_ring base lo s A xs"
  shows "free_ring base s xs" "free_bytes s xs \<union> (\<Union>a \<in> A. block (usize s) a) = {lo..<unat (ubrk s)}"
    "a \<in> A \<Longrightarrow> usize s a \<noteq> 0" "a \<in> A \<Longrightarrow> block (usize s) a \<inter> free_bytes s xs = {}"
    "a \<in> A \<Longrightarrow> b \<in> A \<Longrightarrow> a \<noteq> b \<Longrightarrow> block (usize s) a \<inter> block (usize s) b = {}" "lo \<le> unat (ubrk s)"
  using assms unfolding heap_ring_def by blast+

lemma heap_ring_block:
  assumes h: "heap_ring base lo s A xs" and a: "a \<in> A"
  shows "unat a \<notin> free_bytes s xs" "a \<notin> set xs" "lo \<le> unat a" "uend (usize s) a \<le> unat (ubrk s)"
proof -
  have mem: "unat a \<in> block (usize s) a" "uend (usize s) a - 1 \<in> block (usize s) a"
    using usize_gt [OF heap_ringD(3) [OF h a]] by (auto simp: block_def)
  show free: "unat a \<notin> free_bytes s xs" using mem heap_ringD(4) [OF h a] by blast
  show "a \<notin> set xs" using free mem by (auto simp: free_bytes_def)
  have "unat a \<in> {lo..<unat (ubrk s)}" "uend (usize s) a - 1 \<in> {lo..<unat (ubrk s)}"
    using mem a unfolding heap_ringD(2) [OF h, symmetric] by blast+
  then show "lo \<le> unat a" "uend (usize s) a \<le> unat (ubrk s)" by auto
qed

text \<open>A change of the free blocks and of the set of the others, whose headers stay.\<close>

lemma heap_ring_keep:
  assumes "heap_ring base lo s A xs" "free_ring base t xs'" "B \<subseteq> A" "\<And>b. b \<in> B \<Longrightarrow> usize t b = usize s b"
    "free_bytes t xs' \<inter> (\<Union>a \<in> B. block (usize s) a) = {}"
    "free_bytes t xs' \<union> (\<Union>a \<in> B. block (usize s) a) = {lo..<unat (ubrk t)}" "lo \<le> unat (ubrk t)"
  shows "heap_ring base lo t B xs'"
proof -
  have "block (usize t) b = block (usize s) b" if "b \<in> B" for b using assms(4) [OF that] by (rule block_same)
  moreover from this have "(\<Union>a \<in> B. block (usize t) a) = (\<Union>a \<in> B. block (usize s) a)" by simp
  ultimately show ?thesis using assms heap_ringD(3,5) [OF assms(1)] unfolding heap_ring_def by (auto simp: subset_iff)
qed

lemma free_keeps:
  assumes inv: "heap_inv base lo s A" and a: "a \<in> A"
  shows "\<exists>t. free (hplus a 1) s = Some t \<and> heap_inv base lo t (A - {a}) \<and> (\<forall>b \<in> A - {a}. usize t b = usize s b)"
proof -
  obtain xs where h: "heap_ring base lo s A xs" and lo: "unat base + 8 \<le> lo"
    using assms by (auto simp: heap_inv_def split: if_splits)
  have disj: "block (usize s) x \<inter> block (usize s) a = {}" if "x \<in> set xs" for x
    using heap_ringD(4) [OF h a] that by (auto simp: free_bytes_def)
  have "unat base + 8 \<le> unat a" using heap_ring_block(3) [OF h a] lo by simp
  from free_spec [OF heap_ringD(1) [OF h] this heap_ring_block(4) [OF h a] heap_ringD(3) [OF h a] disj]
  obtain t xs' where t: "free (hplus a 1) s = Some t" "free_ring base t xs'" "ubrk t = ubrk s" "ufreep t \<noteq> 0"
      "free_bytes t xs' = free_bytes s xs \<union> block (usize s) a"
    and same: "\<And>b. b \<notin> insert a (set xs) \<Longrightarrow> usize t b = usize s b"
    by blast
  have keep: "usize t b = usize s b" if "b \<in> A - {a}" for b
    using that same [of b] heap_ring_block(2) [OF h, of b] by simp
  have "heap_ring base lo t (A - {a}) xs'"
  proof (rule heap_ring_keep [OF h t(2) _ keep])
    show "free_bytes t xs' \<inter> (\<Union>b \<in> A - {a}. block (usize s) b) = {}"
      using heap_ringD(4,5) [OF h] a unfolding t(5) by blast
    show "free_bytes t xs' \<union> (\<Union>b \<in> A - {a}. block (usize s) b) = {lo..<unat (ubrk t)}"
      using a unfolding t(3,5) heap_ringD(2) [OF h, symmetric] by blast
  qed (use heap_ringD(6) [OF h] t(3) in auto)
  then show ?thesis using t(1,4) keep lo by (auto simp: heap_inv_def)
qed

section \<open>Handing out a block\<close>

text \<open>The first block that is large enough, and the one before it.\<close>

lemma malloc_loop_walk:
  assumes "chain (uptr s) (q # ws) u" "\<And>w. w \<in> set ws \<Longrightarrow> usize s w < n \<and> w \<noteq> ufreep s"
  shows "malloc_loop room n q (uptr s q) s = malloc_loop room n (last (q # ws)) u s"
  using assms
proof (induction ws arbitrary: q)
  case (Cons w ws)
  have "malloc_loop room n q w s = malloc_loop room n w (uptr s w) s"
    using Cons.prems(2) [of w] by (subst malloc_loop.simps) (simp add: not_le [symmetric])
  then show ?case using Cons by simp
qed simp

lemma ring_distinct: "free_ring base s xs \<Longrightarrow> distinct (base # xs)"
  using spread_distinct [of "usize s" "unat base + 8" xs "unat (ubrk s)"]
    spread_bounds(1) [of "usize s" "unat base + 8" xs "unat (ubrk s)" base] by (auto simp: free_ring_def)

lemma ring_rotate:
  assumes "free_ring base s xs"
  obtains ws where "chain (uptr s) (ufreep s # ws) (ufreep s)" "set (ufreep s # ws) = set (base # xs)" "ufreep s \<notin> set ws"
    "\<And>q u. q \<in> set (base # xs) \<Longrightarrow> uptr s q = u \<Longrightarrow> u \<noteq> base \<Longrightarrow> \<exists>ys zs ps. xs = ys @ u # zs \<and> base # ys = ps @ [q]"
proof -
  note r = assms [unfolded free_ring_def]
  obtain as bs where R: "base # xs = as @ ufreep s # bs" using r split_list by metis
  have b: "hd (as @ [ufreep s]) = base" using R by (cases as) auto
  have c: "chain (uptr s) (as @ ufreep s # bs) (hd (as @ [ufreep s]))" using r unfolding R [symmetric] b by simp
  have d: "distinct (as @ ufreep s # bs)" using ring_distinct [OF assms] unfolding R .
  have prev: "\<exists>ys zs ps. xs = ys @ u # zs \<and> base # ys = ps @ [q]"
    if q: "q \<in> set (base # xs)" "uptr s q = u" "u \<noteq> base" for q u
  proof -
    obtain ps rs where s: "base # xs = ps @ q # rs" using q(1) split_list by metis
    have "chain (uptr s) (ps @ q # rs) base" using r unfolding s [symmetric] by simp
    then have "hd (rs @ [base]) = u" using q(2) by simp
    then obtain zs where rs: "rs = u # zs" using q(3) by (cases rs) auto
    show ?thesis
    proof (cases ps)
      case Nil
      then show ?thesis using s rs by (intro exI [of _ "[]"] exI [of _ zs]) simp
    next
      case (Cons a ps')
      then show ?thesis using s rs by (intro exI [of _ "ps' @ [q]"] exI [of _ zs] exI [of _ ps]) simp
    qed
  qed
  show thesis
  proof (rule that [of "bs @ as"])
    show "chain (uptr s) (ufreep s # bs @ as) (ufreep s)" using c by simp
    show "set (ufreep s # bs @ as) = set (base # xs)" unfolding R by auto
  qed (use d prev in auto)
qed

lemma malloc_scan:
  assumes ring: "free_ring base s xs" and n: "n \<noteq> 0"
  shows "(\<exists>x \<in> set xs. n \<le> usize s x) \<Longrightarrow> \<exists>ps q ys u zs. xs = ys @ u # zs \<and> base # ys = ps @ [q] \<and> n \<le> usize s u \<and>
      malloc_loop room n (ufreep s) (uptr s (ufreep s)) s = Some (malloc_take n q u s)" (is "?fits \<Longrightarrow> ?found")
    and "\<not> (\<exists>x \<in> set xs. n \<le> usize s x) \<Longrightarrow> malloc_loop room n (ufreep s) (uptr s (ufreep s)) s =
      Option.bind (morecore room n s) (\<lambda>(p, s). if p = 0 then Some (0, s) else malloc_loop room n p (uptr s p) s)"
proof -
  obtain ws where c: "chain (uptr s) (ufreep s # ws) (ufreep s)" and W: "set (ufreep s # ws) = set (base # xs)" "ufreep s \<notin> set ws"
    and prev: "\<And>q u. q \<in> set (base # xs) \<Longrightarrow> uptr s q = u \<Longrightarrow> u \<noteq> base \<Longrightarrow> \<exists>ys zs ps. xs = ys @ u # zs \<and> base # ys = ps @ [q]"
    using ring_rotate [OF ring] by blast
  have base: "usize s base = 0" using ring by (simp add: free_ring_def)
  show ?found if ?fits
  proof -
    have "\<exists>x \<in> set (ws @ [ufreep s]). n \<le> usize s x" using that W(1) by auto
    then obtain vs u rs where s: "ws @ [ufreep s] = vs @ u # rs" "n \<le> usize s u" "\<And>v. v \<in> set vs \<Longrightarrow> usize s v < n"
      using split_list_first_prop [of "ws @ [ufreep s]" "\<lambda>x. n \<le> usize s x"] by (auto simp: not_le)
    have vs: "set vs \<subseteq> set ws" using s(1) by (cases rs rule: rev_cases) auto
    have ch: "chain (uptr s) (ufreep s # vs) u"
    proof (cases rs rule: rev_cases)
      case Nil
      then show ?thesis using s(1) c by simp
    next
      case (snoc rs' y)
      then have "ws = vs @ u # rs'" using s(1) by auto
      then show ?thesis using c by auto
    qed
    let ?q = "last (ufreep s # vs)"
    have "malloc_loop room n (ufreep s) (uptr s (ufreep s)) s = malloc_loop room n ?q u s"
      by (rule malloc_loop_walk [OF ch]) (use s(3) vs W(2) in auto)
    also have "\<dots> = Some (malloc_take n ?q u s)" using s(2) by (subst malloc_loop.simps) simp
    finally have loop: "malloc_loop room n (ufreep s) (uptr s (ufreep s)) s = Some (malloc_take n ?q u s)" .
    have "uptr s ?q = u" using chain_last [OF ch] .
    moreover have "set (ufreep s # vs) \<subseteq> set (base # xs)" using W(1) vs by auto
    then have "?q \<in> set (base # xs)" using last_in_set [of "ufreep s # vs"] by blast
    moreover have "u \<noteq> base" using s(2) base n by (auto simp: word_le_0_iff)
    ultimately show ?thesis using prev loop s(2) by blast
  qed
  show "malloc_loop room n (ufreep s) (uptr s (ufreep s)) s =
      Option.bind (morecore room n s) (\<lambda>(p, s). if p = 0 then Some (0, s) else malloc_loop room n p (uptr s p) s)" if no: "\<not> ?fits"
  proof -
    have small: "usize s w < n" if "w \<in> set (ufreep s # ws)" for w
      using that no base n unfolding W(1) by (auto simp: not_le word_gt_0)
    have "malloc_loop room n (ufreep s) (uptr s (ufreep s)) s = malloc_loop room n (last (ufreep s # ws)) (ufreep s) s"
      by (rule malloc_loop_walk [OF c]) (use small W(2) in auto)
    also have "\<dots> = Option.bind (morecore room n s) (\<lambda>(p, s). if p = 0 then Some (0, s) else malloc_loop room n p (uptr s p) s)"
      using small [of "ufreep s"] by (subst malloc_loop.simps) (simp add: not_le [symmetric])
    finally show ?thesis .
  qed
qed

text \<open>The chosen block leaves the ring, or gives its upper part.\<close>

lemma take_whole:
  assumes ring: "free_ring base s xs" and xs: "xs = ys @ u # zs" and q: "base # ys = ps @ [q]"
  shows "free_ring base (s\<lparr>uptr := (uptr s)(q := uptr s u), ufreep := q\<rparr>) (ys @ zs)"
    "block (usize s) u \<union> free_bytes s (ys @ zs) = free_bytes s xs" "block (usize s) u \<inter> free_bytes s (ys @ zs) = {}"
proof -
  note r = ring [unfolded free_ring_def]
  have R: "base # xs = ps @ q # u # zs" using q xs by (metis append.assoc append_Cons append_Nil)
  have d: "distinct (ps @ q # u # zs)" using ring_distinct [OF ring] unfolding R .
  have "chain (uptr s) (ps @ q # u # zs) base" using r unfolding R by simp
  then have "chain ((uptr s)(q := uptr s u)) ((ps @ [q]) @ zs) base" using d by simp
  then have "chain ((uptr s)(q := uptr s u)) (base # ys @ zs) base" unfolding q [symmetric] by simp
  moreover have "spread (usize s) (unat base + 8) (ys @ zs) (unat (ubrk s))"
    by (rule spread_skip [of _ _ _ "unat u" "uend (usize s) u"]) (use r in \<open>auto simp: xs uend_def\<close>)
  moreover have "q \<in> set (base # ys)" unfolding q by simp
  ultimately show "free_ring base (s\<lparr>uptr := (uptr s)(q := uptr s u), ufreep := q\<rparr>) (ys @ zs)"
    using r by (auto simp: free_ring_def)
  show "block (usize s) u \<union> free_bytes s (ys @ zs) = free_bytes s xs" by (auto simp: free_bytes_def xs)
  have "block (usize s) u \<inter> block (usize s) x = {}" if "x \<in> set (ys @ zs)" for x
  proof (rule spread_disjoint [of "usize s" "unat base + 8" xs "unat (ubrk s)"])
    show "u \<noteq> x" using that ring_distinct [OF ring] by (auto simp: xs)
  qed (use r that xs in auto)
  then show "block (usize s) u \<inter> free_bytes s (ys @ zs) = {}" by (auto simp: free_bytes_def)
qed

lemma take_part:
  assumes ring: "free_ring base s xs" and xs: "xs = ys @ u # zs" and q: "q \<in> set (base # xs)"
    and n: "n \<noteq> 0" "n < usize s u"
  defines "a \<equiv> hplus u (usize s u - n)"
  defines "t \<equiv> s\<lparr>usize := (usize s)(u := usize s u - n, a := n), ufreep := q\<rparr>"
  shows "free_ring base t xs" "block (usize t) a \<union> free_bytes t xs = free_bytes s xs" "block (usize t) a \<inter> free_bytes t xs = {}"
    "unat a \<in> block (usize s) u"
proof -
  note r = ring [unfolded free_ring_def]
  have sp: "spread (usize s) (unat base + 8) ys (unat u)" "spread (usize s) (uend (usize s) u) zs (unat (ubrk s))"
    "spread (usize s) (unat base + 8) xs (unat (ubrk s))"
    using r by (auto simp: xs)
  have le: "uend (usize s) u \<le> 2 ^ 31" using spread_le [OF sp(2)] r by simp
  have d: "unat (usize s u - n) = unat (usize s u) - unat n" using n(2) by (simp add: unat_sub)
  have lt: "unat n < unat (usize s u)" "0 < unat n" using n by (simp_all add: word_less_nat_alt unat_gt_0)
  have ua: "unat a = unat u + 8 * (unat (usize s u) - unat n)"
    unfolding a_def using le lt by (subst unat_hplus) (auto simp: uend_def d)
  show au: "unat a \<in> block (usize s) u" using ua lt by (auto simp: block_def uend_def)
  have na: "a \<notin> set ys" "a \<notin> set zs" "a \<noteq> u" "a \<noteq> base"
    using ua lt spread_bounds(3) [OF sp(1), of a] spread_bounds(1) [OF sp(2), of a] spread_bounds(1) [OF sp(3), of u]
    by (auto simp: uend_def xs)
  have nu: "u \<notin> set ys" "u \<notin> set zs" "u \<noteq> base" using ring_distinct [OF ring] by (auto simp: xs)
  have ends: "uend (usize t) u = unat a" "uend (usize t) a = uend (usize s) u"
    using na(3) ua lt by (auto simp: t_def uend_def d)
  have "spread (usize t) (unat base + 8) ys (unat u)" using sp(1) na nu by (simp add: t_def)
  moreover have "spread (usize s) (unat a) zs (unat (ubrk s))" using sp(2) by (rule spread_mono) (use ua in \<open>auto simp: uend_def\<close>)
  then have "spread (usize t) (unat a) zs (unat (ubrk s))" using na nu by (simp add: t_def)
  moreover have "usize t u \<noteq> 0" using na(3) lt d by (auto simp: t_def unat_eq_zero)
  ultimately have "spread (usize t) (unat base + 8) xs (unat (ubrk s))" using ends by (simp add: xs)
  then show ring': "free_ring base t xs" using r q na nu by (simp add: free_ring_def t_def)
  have U: "(\<Union>x \<in> set ys. block (usize t) x) = (\<Union>x \<in> set ys. block (usize s) x)" "(\<Union>x \<in> set zs. block (usize t) x) = (\<Union>x \<in> set zs. block (usize s) x)"
    using na nu by (simp_all add: t_def)
  have B: "block (usize s) u = block (usize t) u \<union> block (usize t) a" "block (usize t) u \<inter> block (usize t) a = {}"
    using ends ua lt by (auto simp: block_def uend_def)
  show "block (usize t) a \<union> free_bytes t xs = free_bytes s xs" using U B(1) by (simp add: free_bytes_def xs image_Un) blast
  have "block (usize t) a \<inter> block (usize t) x = {}" if "x \<in> set ys \<union> set zs" for x
  proof -
    have "block (usize s) u \<inter> block (usize s) x = {}" using spread_disjoint [OF sp(3), of u x] that nu by (auto simp: xs)
    moreover have "x \<noteq> a" "x \<noteq> u" using that na nu by auto
    then have "block (usize t) x = block (usize s) x" by (simp add: t_def)
    ultimately show ?thesis using B(1) by blast
  qed
  then show "block (usize t) a \<inter> free_bytes t xs = {}" using B(2) by (auto simp: free_bytes_def xs)
qed

definition handed_out :: "uint \<Rightarrow> uint \<Rightarrow> umem \<Rightarrow> uint list \<Rightarrow> uint \<Rightarrow> umem \<Rightarrow> uint list \<Rightarrow> bool" where
  "handed_out base n s xs a t xs' \<longleftrightarrow> free_ring base t xs' \<and> ubrk t = ubrk s \<and> ufreep t \<noteq> 0 \<and> usize t a = n \<and>
     block (usize t) a \<union> free_bytes t xs' = free_bytes s xs \<and> block (usize t) a \<inter> free_bytes t xs' = {} \<and>
     (\<forall>b. unat b \<notin> free_bytes s xs \<longrightarrow> usize t b = usize s b)"

lemma malloc_take_spec:
  assumes ring: "free_ring base s xs" and xs: "xs = ys @ u # zs" and q: "base # ys = ps @ [q]"
    and n: "n \<noteq> 0" "n \<le> usize s u"
  shows "\<exists>a t xs'. malloc_take n q u s = (hplus a 1, t) \<and> handed_out base n s xs a t xs'"
proof -
  have qin: "q \<in> set (base # ys)" unfolding q by simp
  then have q0: "q \<noteq> 0" using ring spread_bounds(1) [of "usize s" "unat base + 8" xs "unat (ubrk s)" q]
    by (auto simp: free_ring_def xs)
  have u: "block (usize s) u \<subseteq> free_bytes s xs" "unat u \<in> block (usize s) u"
    using ring usize_gt [of s u] by (auto simp: free_bytes_def xs free_ring_def block_def)
  show ?thesis
  proof (cases "usize s u = n")
    case True
    then have "malloc_take n q u s = (hplus u 1, s\<lparr>uptr := (uptr s)(q := uptr s u), ufreep := q\<rparr>)" by (simp add: malloc_take_def)
    moreover have "handed_out base n s xs u (s\<lparr>uptr := (uptr s)(q := uptr s u), ufreep := q\<rparr>) (ys @ zs)"
      using take_whole [OF ring xs q] q0 True by (simp add: handed_out_def free_bytes_def)
    ultimately show ?thesis by blast
  next
    case False
    then have lt: "n < usize s u" using n(2) by simp
    let ?a = "hplus u (usize s u - n)" and ?t = "s\<lparr>usize := (usize s)(u := usize s u - n, hplus u (usize s u - n) := n), ufreep := q\<rparr>"
    have "malloc_take n q u s = (hplus ?a 1, ?t)" using False by (simp add: malloc_take_def Let_def)
    moreover have "q \<in> set (base # xs)" using qin by (auto simp: xs)
    note part = take_part [OF ring xs this n(1) lt]
    have "b \<noteq> u \<and> b \<noteq> ?a" if "unat b \<notin> free_bytes s xs" for b using that u part(4) by blast
    then have "\<forall>b. unat b \<notin> free_bytes s xs \<longrightarrow> usize ?t b = usize s b" by simp
    then have "handed_out base n s xs ?a ?t xs" using part(1-3) q0 by (simp add: handed_out_def)
    ultimately show ?thesis by blast
  qed
qed

text \<open>\<open>sbrk\<close> of less than half of the address space.\<close>

lemma sbrk_size_grow:
  assumes sb: "sbrk_size room sz (sint (nu * 8)) = Some new" and nu: "(nu :: uint) \<noteq> 0" "8 * unat nu < 2 ^ 31" and sz: "unat sz \<le> 2 ^ 31"
  shows "unat new = unat sz + 8 * unat nu" "unat new < 2 ^ 31"
proof -
  have u8: "unat (nu * 8) = 8 * unat nu" using nu by (subst unat_mult_lem [THEN iffD1]) auto
  then have "sint (nu * 8) = int (8 * unat nu)" using sint_small [of "nu * 8"] nu by simp
  moreover have "0 < unat nu" using nu(1) by (simp add: unat_gt_0)
  ultimately have pos: "0 < sint (nu * 8)" by linarith
  have w: "of_int (sint (nu * 8)) = nu * 8" by simp
  have u: "unat (sz + nu * 8) = unat sz + 8 * unat nu" using u8 nu sz by (subst unat_add_lem [THEN iffD1]) auto
  then have "\<not> sz + nu * 8 < sz" by (simp add: word_less_nat_alt)
  then have "new = sz + nu * 8" "\<not> KERNBASE \<le> sz + nu * 8"
    using sb pos unfolding sbrk_size_def Let_def w by (auto split: if_splits)
  then show "unat new = unat sz + 8 * unat nu" "unat new < 2 ^ 31" using u by (auto simp: word_le_nat_alt)
qed

abbreviation "core_units n \<equiv> (if n < 4096 then 4096 else n)"

lemma morecore_fails: "sbrk_size room (ubrk s) (sint (core_units n * 8)) = None \<Longrightarrow> morecore room n s = Some (0, s)"
  by (auto simp: morecore_def Let_def)

text \<open>New memory is added to the free blocks; one of them is then large enough.\<close>

lemma morecore_spec:
  assumes ring: "free_ring base s xs" and n: "8 * unat n < 2 ^ 31" and sb: "sbrk_size room (ubrk s) (sint (core_units n * 8)) = Some sz"
  shows "\<exists>t xs'. morecore room n s = Some (ufreep t, t) \<and> free_ring base t xs' \<and> ufreep t \<noteq> 0 \<and> ubrk t = sz \<and> ubrk s \<le> sz \<and>
    free_bytes t xs' = free_bytes s xs \<union> {unat (ubrk s)..<unat sz} \<and> (\<exists>x \<in> set xs'. n \<le> usize t x) \<and>
    (\<forall>b. unat b < unat (ubrk s) \<longrightarrow> b \<notin> set xs \<longrightarrow> usize t b = usize s b)"
proof -
  note r = ring [unfolded free_ring_def]
  let ?nu = "core_units n" and ?hp = "ubrk s"
  let ?s = "s\<lparr>ubrk := sz, usize := (usize s)(?hp := ?nu)\<rparr>"
  have nu: "8 * unat ?nu < 2 ^ 31" "n \<le> ?nu" "?nu \<noteq> 0" using n by (auto simp: not_less)
  have "unat ?hp \<le> 2 ^ 31" using r by simp
  note g = sbrk_size_grow [OF sb nu(3,1) this]
  have sp: "spread (usize s) (unat base + 8) xs (unat ?hp)" using r by simp
  have hx: "?hp \<notin> set xs" "?hp \<noteq> base" using spread_bounds(3) [OF sp, of ?hp] spread_le [OF sp] by auto
  have "spread (usize s) (unat base + 8) xs (unat sz)" using sp by (rule spread_mono) (use g in auto)
  then have ring': "free_ring base ?s xs" using r g hx by (simp add: free_ring_def)
  have hp_end: "uend (usize ?s) ?hp = unat sz" using g by (simp add: uend_def)
  have "block (usize ?s) x \<inter> block (usize ?s) ?hp = {}" if "x \<in> set xs" for x
  proof -
    have "x \<noteq> ?hp" using that hx by auto
    then show ?thesis using spread_bounds(2) [OF sp that] by (auto simp: block_def)
  qed
  moreover have "unat base + 8 \<le> unat ?hp" using spread_le [OF sp] .
  ultimately obtain t xs' where t: "free (hplus ?hp 1) ?s = Some t" "free_ring base t xs'" "ubrk t = sz" "ufreep t \<noteq> 0"
      "free_bytes t xs' = free_bytes ?s xs \<union> block (usize ?s) ?hp" "\<exists>x \<in> set xs'. block (usize ?s) ?hp \<subseteq> block (usize t) x"
    and same: "\<forall>a. a \<notin> insert ?hp (set xs) \<longrightarrow> usize t a = usize ?s a"
    using free_spec [OF ring', of ?hp] hp_end nu(3) by auto
  have hb: "block (usize ?s) ?hp = {unat ?hp..<unat sz}" unfolding block_def hp_end ..
  obtain x where x: "x \<in> set xs'" "{unat ?hp..<unat sz} \<subseteq> block (usize t) x" using t(6) unfolding hb by blast
  have "card {unat ?hp..<unat sz} \<le> card (block (usize t) x)" using x(2) by (intro card_mono) (auto simp: block_def)
  then have "n \<le> usize t x" using g nu(2) by (simp add: block_def uend_def word_le_nat_alt)
  moreover have "morecore room n s = Some (ufreep t, t)" using sb t(1) by (simp add: morecore_def Let_def)
  moreover have "free_bytes ?s xs = free_bytes s xs" using hx by (simp add: free_bytes_def)
  moreover have "usize t b = usize s b" if "unat b < unat ?hp" "b \<notin> set xs" for b
  proof -
    have "b \<noteq> ?hp" using that(1) by auto
    then show ?thesis using same that(2) by simp
  qed
  ultimately show ?thesis using t x(1) hb g by (intro exI [of _ t] exI [of _ xs']) (auto simp: word_le_nat_alt)
qed

text \<open>The free blocks, possibly with more memory from \<open>sbrk\<close>.\<close>

definition grown :: "uint \<Rightarrow> umem \<Rightarrow> uint list \<Rightarrow> umem \<Rightarrow> uint list \<Rightarrow> bool" where
  "grown base s xs s' ys \<longleftrightarrow> free_ring base s' ys \<and> ubrk s \<le> ubrk s' \<and>
     free_bytes s' ys = free_bytes s xs \<union> {unat (ubrk s)..<unat (ubrk s')} \<and>
     (\<forall>b. unat b < unat (ubrk s) \<longrightarrow> b \<notin> set xs \<longrightarrow> usize s' b = usize s b)"

lemma malloc_ring:
  assumes ring: "free_ring base s xs" and n: "n \<noteq> 0" "8 * unat n < 2 ^ 31"
  shows "(\<exists>s' ys a t xs'. malloc_loop room n (ufreep s) (uptr s (ufreep s)) s = Some (hplus a 1, t) \<and>
       grown base s xs s' ys \<and> handed_out base n s' ys a t xs') \<or>
    malloc_loop room n (ufreep s) (uptr s (ufreep s)) s = Some (0, s) \<and> sbrk_size room (ubrk s) (sint (core_units n * 8)) = None"
proof -
  have found: "\<exists>a t xs'. malloc_loop room n (ufreep r) (uptr r (ufreep r)) r = Some (hplus a 1, t) \<and> handed_out base n r zs a t xs'"
    if r: "free_ring base r zs" "\<exists>x \<in> set zs. n \<le> usize r x" for r zs
  proof -
    obtain ps q ys u vs where "zs = ys @ u # vs" "base # ys = ps @ [q]" "n \<le> usize r u"
      "malloc_loop room n (ufreep r) (uptr r (ufreep r)) r = Some (malloc_take n q u r)"
      using malloc_scan(1) [OF r(1) n(1) r(2), of room] by blast
    then show ?thesis using malloc_take_spec [OF r(1) _ _ n(1)] by metis
  qed
  show ?thesis
  proof (cases "\<exists>x \<in> set xs. n \<le> usize s x")
    case True
    have "grown base s xs s xs" using ring by (simp add: grown_def)
    then show ?thesis using found [OF ring True] by blast
  next
    case False
    note loop = malloc_scan(2) [OF ring n(1) False, of room]
    show ?thesis
    proof (cases "sbrk_size room (ubrk s) (sint (core_units n * 8))")
      case None
      then show ?thesis using loop morecore_fails [OF None] by simp
    next
      case (Some sz)
      obtain s' ys where m: "morecore room n s = Some (ufreep s', s')" "ufreep s' \<noteq> 0" "free_ring base s' ys" "\<exists>x \<in> set ys. n \<le> usize s' x"
          "grown base s xs s' ys"
        using morecore_spec [OF ring n(2) Some] unfolding grown_def by blast
      have eq: "malloc_loop room n (ufreep s) (uptr s (ufreep s)) s = malloc_loop room n (ufreep s') (uptr s' (ufreep s')) s'"
        using loop m(1,2) by simp
      show ?thesis unfolding eq using found [OF m(3,4)] m(5) by blast
    qed
  qed
qed

lemma handed_out_keeps:
  assumes h: "heap_ring base lo s A xs" and o: "handed_out base n s xs a t xs'" and n: "n \<noteq> 0"
  shows "heap_ring base lo t (insert a A) xs'" "a \<notin> A" "\<And>b. b \<in> A \<Longrightarrow> usize t b = usize s b"
proof -
  have d: "free_ring base t xs'" "ubrk t = ubrk s" "usize t a = n" "block (usize t) a \<union> free_bytes t xs' = free_bytes s xs"
      "block (usize t) a \<inter> free_bytes t xs' = {}" "\<And>b. unat b \<notin> free_bytes s xs \<Longrightarrow> usize t b = usize s b"
    using o by (auto simp only: handed_out_def)
  have a: "block (usize t) a \<subseteq> free_bytes s xs" "unat a \<in> block (usize t) a" "block (usize t) a \<inter> free_bytes t xs' = {}"
    and f: "free_bytes t xs' \<subseteq> free_bytes s xs"
    using d n usize_gt [of t a] by (auto simp: block_def)
  show notin: "a \<notin> A" using a(1,2) heap_ring_block(1) [OF h] by blast
  show same: "usize t b = usize s b" if "b \<in> A" for b using d(6) heap_ring_block(1) [OF h that] .
  then have B: "block (usize t) b = block (usize s) b" if "b \<in> A" for b using that by (intro block_same) auto
  then have U: "(\<Union>b \<in> A. block (usize t) b) = (\<Union>b \<in> A. block (usize s) b)" by simp
  have free: "block (usize t) b \<inter> free_bytes s xs = {}" if "b \<in> A" for b using B heap_ringD(4) [OF h] that by blast
  have "free_bytes t xs' \<union> (\<Union>b \<in> insert a A. block (usize t) b) = {lo..<unat (ubrk t)}"
    unfolding UN_insert U d(2) heap_ringD(2) [OF h, symmetric] d(4) [symmetric] by (simp only: Un_ac)
  moreover have "block (usize t) b \<inter> free_bytes t xs' = {}" if "b \<in> insert a A" for b
    using that a(3) free [of b] f by blast
  moreover have "block (usize t) b \<inter> block (usize t) c = {}" if "b \<in> insert a A" "c \<in> insert a A" "b \<noteq> c" for b c
    using that a(1) free [of b] free [of c] B [of b] B [of c] heap_ringD(5) [OF h, of b c] by blast
  moreover have "usize t b \<noteq> 0" if "b \<in> insert a A" for b using that same [of b] heap_ringD(3) [OF h, of b] d n by auto
  ultimately show "heap_ring base lo t (insert a A) xs'"
    using d(1,2) heap_ringD(6) [OF h] unfolding heap_ring_def by simp
qed

lemma handed_out_nonnull: "handed_out base n s xs a t xs' \<Longrightarrow> n \<noteq> 0 \<Longrightarrow> free_bytes s xs \<subseteq> {..<2 ^ 31} \<Longrightarrow> hplus a 1 \<noteq> 0"
proof -
  assume o: "handed_out base n s xs a t xs'" and n: "n \<noteq> 0" and f: "free_bytes s xs \<subseteq> {..<2 ^ 31}"
  have "unat a \<in> block (usize t) a" using usize_gt [of t a] o n by (auto simp: handed_out_def block_def)
  then have "unat a < 2 ^ 31" using o f unfolding handed_out_def by blast
  then have "unat (hplus a 1) = unat a + 8" by (subst unat_hplus) auto
  then show ?thesis by auto
qed

lemma malloc_start_inv:
  assumes "heap_inv base lo s A"
  shows "\<exists>xs. heap_ring base lo (malloc_start base s) A xs" "ubrk (malloc_start base s) = ubrk s"
    "\<And>a. a \<in> A \<Longrightarrow> usize (malloc_start base s) a = usize s a" "ufreep (malloc_start base s) \<noteq> 0"
proof -
  have "heap_ring base lo (malloc_start base s) A []" if "ufreep s = 0"
    using assms that by (auto simp: heap_inv_def heap_ring_def free_ring_def malloc_start_def free_bytes_def)
  then show "\<exists>xs. heap_ring base lo (malloc_start base s) A xs"
    using assms by (cases "ufreep s = 0") (auto simp: heap_inv_def malloc_start_def)
qed (use assms in \<open>auto simp: heap_inv_def malloc_start_def split: if_splits\<close>)

lemma units_bounds:
  assumes "unat nbytes < 2 ^ 31 - 16"
  shows "units nbytes \<noteq> 0" "8 * unat (units nbytes) < 2 ^ 31" "unat nbytes + 8 \<le> 8 * unat (units nbytes)"
proof -
  have "unat (nbytes + 7) = unat nbytes + 7" using assms by (subst unat_add_lem [THEN iffD1]) auto
  then have "unat ((nbytes + 7) div 8) = (unat nbytes + 7) div 8" by (simp add: unat_div)
  moreover have "nbytes + 8 - 1 = nbytes + 7" by simp
  ultimately have q: "unat ((nbytes + 8 - 1) div 8) = (unat nbytes + 7) div 8" by (simp only:)
  then have "unat ((nbytes + 8 - 1) div 8) + unat (1 :: uint) < 2 ^ 32" using assms by simp
  then have u: "unat (units nbytes) = (unat nbytes + 7) div 8 + 1"
    using q unfolding units_def by (subst unat_add_lem [THEN iffD1]) simp_all
  then show "units nbytes \<noteq> 0" by auto
  show "8 * unat (units nbytes) < 2 ^ 31" "unat nbytes + 8 \<le> 8 * unat (units nbytes)" using assms u by auto
qed

text \<open>More memory keeps the partition.\<close>

lemma grown_keeps:
  assumes h: "heap_ring base lo s A xs" and g: "grown base s xs s' ys"
  shows "heap_ring base lo s' A ys" "\<And>b. b \<in> A \<Longrightarrow> usize s' b = usize s b"
proof -
  have s': "free_ring base s' ys" "ubrk s \<le> ubrk s'" "free_bytes s' ys = free_bytes s xs \<union> {unat (ubrk s)..<unat (ubrk s')}"
    "\<forall>b. unat b < unat (ubrk s) \<longrightarrow> b \<notin> set xs \<longrightarrow> usize s' b = usize s b"
    using g unfolding grown_def by auto
  have brk: "unat (ubrk s) \<le> unat (ubrk s')" using s'(2) by (simp add: word_le_nat_alt)
  have A: "unat b < unat (ubrk s)" "b \<notin> set xs" if "b \<in> A" for b
    using heap_ring_block(2,4) [OF h that] usize_gt [OF heap_ringD(3) [OF h that]] by auto
  then show same: "\<And>b. b \<in> A \<Longrightarrow> usize s' b = usize s b" using s'(4) by blast
  have all: "(\<Union>a \<in> A. block (usize s) a) \<subseteq> {..<unat (ubrk s)}" using heap_ringD(2) [OF h] by auto
  show "heap_ring base lo s' A ys"
  proof (rule heap_ring_keep [OF h s'(1) subset_refl same])
    have "free_bytes s xs \<inter> (\<Union>a \<in> A. block (usize s) a) = {}" using heap_ringD(4) [OF h] by blast
    moreover have "{unat (ubrk s)..<unat (ubrk s')} \<inter> (\<Union>a \<in> A. block (usize s) a) = {}" using all by fastforce
    ultimately show "free_bytes s' ys \<inter> (\<Union>a \<in> A. block (usize s) a) = {}" unfolding s'(3) by blast
    have "{lo..<unat (ubrk s')} = {lo..<unat (ubrk s)} \<union> {unat (ubrk s)..<unat (ubrk s')}"
      using heap_ringD(6) [OF h] brk by auto
    then show "free_bytes s' ys \<union> (\<Union>a \<in> A. block (usize s) a) = {lo..<unat (ubrk s')}"
      unfolding s'(3) heap_ringD(2) [OF h, symmetric] by blast
    show "lo \<le> unat (ubrk s')" using heap_ringD(6) [OF h] brk by simp
  qed
qed

lemma heap_ring_small: "heap_ring base lo s A xs \<Longrightarrow> free_bytes s xs \<subseteq> {..<2 ^ 31}"
proof -
  assume h: "heap_ring base lo s A xs"
  have "free_bytes s xs \<subseteq> {lo..<unat (ubrk s)}" using heap_ringD(2) [OF h] by blast
  moreover have "unat (ubrk s) \<le> 2 ^ 31" using heap_ringD(1) [OF h] by (simp add: free_ring_def)
  ultimately show ?thesis by auto
qed

lemma malloc_keeps:
  assumes inv: "heap_inv base lo s A" and nb: "unat nbytes < 2 ^ 31 - 16"
  shows "\<exists>r t. malloc base room nbytes s = Some (r, t) \<and> (\<forall>b \<in> A. usize t b = usize s b) \<and>
    (if r = 0 then heap_inv base lo t A \<and> sbrk_size room (ubrk s) (sint (core_units (units nbytes) * 8)) = None
     else r - 8 \<notin> A \<and> heap_inv base lo t (insert (r - 8) A) \<and> unat nbytes + 8 \<le> 8 * unat (usize t (r - 8)))"
    (is "\<exists>r t. ?P r t")
proof -
  let ?s = "malloc_start base s" and ?n = "units nbytes"
  note st = malloc_start_inv [OF inv] and u = units_bounds [OF nb]
  obtain xs where h: "heap_ring base lo ?s A xs" using st(1) by blast
  have lo: "unat base + 8 \<le> lo" using inv by (simp add: heap_inv_def)
  have m: "malloc base room nbytes s = malloc_loop room ?n (ufreep ?s) (uptr ?s (ufreep ?s)) ?s"
    by (simp add: malloc_def Let_def)
  have out: "?P (hplus a 1) t" if l: "malloc_loop room ?n (ufreep ?s) (uptr ?s (ufreep ?s)) ?s = Some (hplus a 1, t)"
    and r: "heap_ring base lo r A ys" "handed_out base ?n r ys a t xs'" and same: "\<And>b. b \<in> A \<Longrightarrow> usize r b = usize s b" for a t xs' r ys
  proof -
    have a: "hplus a 1 - 8 = a" by (simp add: hplus_def)
    have "hplus a 1 \<noteq> 0" using handed_out_nonnull [OF r(2) u(1) heap_ring_small [OF r(1)]] .
    moreover have "heap_inv base lo t (insert a A)"
      using handed_out_keeps(1) [OF r u(1)] r(2) lo by (auto simp: heap_inv_def handed_out_def)
    moreover have "usize t a = ?n" using r(2) by (simp add: handed_out_def)
    moreover have "\<forall>b \<in> A. usize t b = usize s b" using handed_out_keeps(3) [OF r u(1)] same by simp
    ultimately show ?thesis unfolding m l a using handed_out_keeps(2) [OF r u(1)] u(3) by simp
  qed
  from malloc_ring [OF heap_ringD(1) [OF h] u(1,2), of room] show ?thesis
  proof (elim disjE exE conjE)
    fix s' ys a t xs'
    assume b: "malloc_loop room ?n (ufreep ?s) (uptr ?s (ufreep ?s)) ?s = Some (hplus a 1, t)"
      "grown base ?s xs s' ys" "handed_out base ?n s' ys a t xs'"
    note k = grown_keeps [OF h b(2)]
    have "usize s' b = usize s b" if "b \<in> A" for b using k(2) st(3) that by simp
    from out [OF b(1) k(1) b(3) this] show ?thesis by - (rule exI [where x = "hplus a 1"], rule exI [where x = t])
  next
    assume null: "malloc_loop room ?n (ufreep ?s) (uptr ?s (ufreep ?s)) ?s = Some (0, ?s)" "sbrk_size room (ubrk ?s) (sint (core_units ?n * 8)) = None"
    have "heap_inv base lo ?s A" using h lo st(4) by (auto simp: heap_inv_def)
    then have "?P 0 ?s" unfolding m using null st(2,3) by simp
    then show ?thesis by - (rule exI [where x = 0], rule exI [where x = ?s])
  qed
qed

section \<open>Properties\<close>

text \<open>A process before its first call, and one with a single block of all its memory.\<close>

definition heap0 :: umem where
  "heap0 = \<lparr>uptr = (\<lambda>_. 0), usize = (\<lambda>_. 0), ufreep = 0, ubrk = 0x4000\<rparr>"

definition heap1 :: umem where
  "heap1 = \<lparr>uptr = (\<lambda>_. 0)(0x1000 := 0x1000), usize = (\<lambda>_. 0)(0x4000 := 4096), ufreep = 0x1000, ubrk = 0xC000\<rparr>"

lemma heap0_inv: "heap_inv 0x1000 0x4000 heap0 {}"
  by (simp add: heap_inv_def heap0_def)

lemma heap1_inv: "heap_inv 0x1000 0x4000 heap1 {0x4000}"
proof -
  have "heap_ring 0x1000 0x4000 heap1 {0x4000} []"
    by (simp add: heap_ring_def free_ring_def free_bytes_def heap1_def block_def uend_def)
  then show ?thesis unfolding heap_inv_def by (auto simp: heap1_def)
qed

text \<open>
  C24. \<open>malloc\<close> of less than \<open>2\<^sup>3\<^sup>1 - 16\<close> bytes always returns. The block it hands out is new, has room for
  the bytes behind its header, and overlaps neither a block handed out before nor a free one; the blocks handed out before
  keep their sizes, and the free blocks and those handed out are still a partition of the memory of the heap. The result
  is null only when \<open>sbrk\<close> has refused more memory, and then nothing has changed for the blocks handed out.
\<close>

theorem malloc_correct:
  assumes "heap_inv base lo s A" and "unat nbytes < 2 ^ 31 - 16"
  shows "\<exists>r t. malloc base room nbytes s = Some (r, t) \<and> (\<forall>b \<in> A. usize t b = usize s b) \<and>
    (if r = 0 then heap_inv base lo t A \<and> sbrk_size room (ubrk s) (sint (core_units (units nbytes) * 8)) = None
     else r - 8 \<notin> A \<and> heap_inv base lo t (insert (r - 8) A) \<and> unat nbytes + 8 \<le> 8 * unat (usize t (r - 8)))"
  using malloc_keeps [OF assms] .

theorem malloc_correct_witness:
  "heap_inv 0x1000 0x4000 heap0 {} \<and> (\<exists>r t. malloc 0x1000 (\<lambda>_. True) 100 heap0 = Some (r, t) \<and> r \<noteq> 0 \<and>
     heap_inv 0x1000 0x4000 t {r - 8} \<and> 108 \<le> 8 * unat (usize t (r - 8)))"
proof -
  obtain r t where m: "malloc 0x1000 (\<lambda>_. True) 100 heap0 = Some (r, t)"
    and rt: "if r = 0 then heap_inv 0x1000 0x4000 t {} \<and> sbrk_size (\<lambda>_. True) (ubrk heap0) (sint (core_units (units 100) * 8)) = None
       else r - 8 \<notin> {} \<and> heap_inv 0x1000 0x4000 t (insert (r - 8) {}) \<and> unat (100 :: uint) + 8 \<le> 8 * unat (usize t (r - 8))"
    using malloc_correct [OF heap0_inv, of 100 "\<lambda>_. True"] by auto
  have "sbrk_size (\<lambda>_. True) (ubrk heap0) (sint (core_units (units 100) * 8)) \<noteq> None"
    by (simp add: sbrk_size_def units_def heap0_def)
  then have "r \<noteq> 0" using rt by (cases "r = 0") auto
  then show ?thesis using m rt heap0_inv by auto
qed

text \<open>
  C25. \<open>free\<close> of a block that \<open>malloc\<close> has handed out returns: its walk along the ring ends. The bytes of the block are
  then free, joined with the neighbours it touches, the other blocks keep their sizes, and the heap is still
  partitioned, with no byte lost.
\<close>

theorem free_correct:
  assumes "heap_inv base lo s A" and "r - 8 \<in> A"
  shows "\<exists>t. free r s = Some t \<and> heap_inv base lo t (A - {r - 8}) \<and> (\<forall>b \<in> A - {r - 8}. usize t b = usize s b)"
  using free_keeps [OF assms] by (simp add: hplus_def)

theorem free_correct_witness:
  "heap_inv 0x1000 0x4000 heap1 {0x4000} \<and> (\<exists>t. free 0x4008 heap1 = Some t \<and> heap_inv 0x1000 0x4000 t {})"
  using free_correct [OF heap1_inv, of "0x4008"] heap1_inv by auto

section \<open>Sizes that wrap around\<close>

text \<open>
  The bound of \<open>malloc_correct\<close> is needed. The rounding of the size wraps around for the largest sizes: a block without any byte is
  then taken for one of four gigabytes. From two gigabytes on, the number of bytes is negative for \<open>sbrk\<close>, which
  then succeeds without giving any memory.
\<close>

lemma units_wrap: "units 0xFFFFFFFF = 1"
  by (simp add: units_def)

lemma sbrk_negative:
  assumes "0 < sz" "unat sz < 2 ^ 31 - 8"
  shows "sbrk_size room sz (sint (core_units (units 0x80000000) * 8)) = Some sz"
proof -
  have u: "core_units (units 0x80000000) * 8 = (0x80000008 :: uint)" by (simp add: units_def)
  have i: "sint (0x80000008 :: uint) = - 2147483640" by simp
  have n: "of_int (- 2147483640) = (0x80000008 :: uint)" by simp
  have "unat (sz + 0x80000008) = unat sz + 0x80000008" using assms(2) by (subst unat_add_lem [THEN iffD1]) auto
  then have "sz \<le> sz + 0x80000008" by (simp add: word_le_nat_alt)
  then show ?thesis using assms(1) unfolding u i sbrk_size_def n Let_def by auto
qed

end
