(* ===== verification/Posix.thy ===== *)
theory Posix
  imports Prelude
begin

text \<open>
  What the course programs under \<open>syscalls/Semana4\<close> share: the loops around \<open>read\<close> and \<open>write\<close>, and
  the \<open>atoi\<close> of the C library. A call of \<open>read\<close> is given by its outcome: the bytes it delivers, none at the
  end of the file, or \<^const>\<open>None\<close> where it returns -1. The outcome of \<open>write\<close> is a function of the
  bytes it is given: how many it takes, or \<^const>\<open>None\<close> for -1.

  The loops repeat a call only while it returns -1, and then take that result for a number of bytes:
  the pointer moves to one before the buffer and the length grows by one, so that the repeated call leaves
  the buffer. A call that transfers fewer bytes than it is asked for ends the loop.
\<close>

type_synonym writer = "byte list \<Rightarrow> nat option"

definition read_retry :: "byte list option \<Rightarrow> byte list res" where
  "read_retry r = (case r of None \<Rightarrow> Undef ''read before the buffer'' | Some d \<Rightarrow> Ret d)"

definition write_retry :: "writer \<Rightarrow> byte list \<Rightarrow> byte list res" where
  "write_retry wr d =
     (if d = [] then Ret []
      else (case wr d of None \<Rightarrow> Undef ''write before the buffer'' | Some k \<Rightarrow> Ret (take k d)))"

text \<open>A writer that takes everything, as \<open>write\<close> does on a regular file with room.\<close>

definition full_writer :: "writer \<Rightarrow> bool" where
  "full_writer wr \<longleftrightarrow> (\<forall>d. wr d = Some (length d))"

lemma read_retry_Some [simp]: "read_retry (Some d) = Ret d"
  by (simp add: read_retry_def)

lemma write_retry_full [simp]: "full_writer wr \<Longrightarrow> write_retry wr d = Ret d"
  by (simp add: write_retry_def full_writer_def)

lemma full_writer_length [simp]: "full_writer (\<lambda>d. Some (length d))"
  by (simp add: full_writer_def)

lemma foldR_total:
  assumes "P xs s"
    and "\<And>xs y s. P xs s \<Longrightarrow> y \<in> set ys \<Longrightarrow> \<exists>t. f y s = Ret t \<and> P (xs @ [y]) t"
  shows "\<exists>t. foldR f ys s = Ret t \<and> P (xs @ ys) t"
  using assms
proof (induction ys arbitrary: xs s)
  case (Cons y ys)
  then obtain u where u: "f y s = Ret u" "P (xs @ [y]) u" by (metis list.set_intros(1))
  then show ?case using Cons.IH [OF u(2)] Cons.prems(2) by auto
qed simp

lemma foldR_upt_total:
  assumes "P a s" "a \<le> b"
    and "\<And>k s. a \<le> k \<Longrightarrow> k < b \<Longrightarrow> P k s \<Longrightarrow> \<exists>t. f k s = Ret t \<and> P (Suc k) t"
  shows "\<exists>t. foldR f [a..<b] s = Ret t \<and> P b t"
  using assms(2,1,3)
proof (induction a arbitrary: s rule: inc_induct)
  case (step a)
  then obtain u where u: "f a s = Ret u" "P (Suc a) u" by blast
  then show ?case using step.IH [OF u(2)] step.prems(2) step.hyps by (simp add: upt_conv_Cons)
qed simp

section \<open>Numbers on the command line\<close>

text \<open>\<open>atoi\<close> skips blanks and reads a sign and digits. A value that no \<open>int\<close> holds is undefined.\<close>

definition isspace :: "char \<Rightarrow> bool" where
  "isspace c \<longleftrightarrow> c \<in> set [CHR '' '', CHR 0x09, CHR 0x0A, CHR 0x0B, CHR 0x0C, CHR 0x0D]"

definition digits_value :: "string \<Rightarrow> int" where
  "digits_value s = foldl (\<lambda>n c. 10 * n + (int (of_char c) - 48)) 0 (takeWhile (\<lambda>c. c \<in> set ''0123456789'') s)"

definition atoi_libc :: "string \<Rightarrow> int res" where
  "atoi_libc s =
     (let t = dropWhile isspace s;
          n = (if t \<noteq> [] \<and> hd t = CHR ''-'' then - digits_value (tl t)
               else if t \<noteq> [] \<and> hd t = CHR ''+'' then digits_value (tl t)
               else digits_value t)
      in if - (2 ^ 31) \<le> n \<and> n < 2 ^ 31 then Ret n else Undef ''atoi'')"

end
