(* ===== verification/Split.thy ===== *)
theory Split
  imports Posix
begin

text \<open>
  \<open>syscalls/Semana4/src/Tarea4/split_files.c\<close>: the bytes of the standard input are dealt out in turn to the
  output files, through one buffer per file. Leaving with \<open>exit(EXIT_FAILURE)\<close> is \<^const>\<open>Panic\<close>.
\<close>

section \<open>The distribution loop\<close>

record split =
  cjtoBuffer :: "byte list list"
  llenadoFicheros :: "nat list"
  salidas :: "byte list list"     \<comment> \<open>what the output files hold\<close>
  punteroFichero :: nat

definition split_start :: "nat \<Rightarrow> nat \<Rightarrow> split" where
  "split_start num bs = \<lparr>cjtoBuffer = replicate num (replicate bs 0), llenadoFicheros = replicate num 0,
     salidas = replicate num [], punteroFichero = 0\<rparr>"

definition split_write :: "writer \<Rightarrow> nat \<Rightarrow> nat \<Rightarrow> split \<Rightarrow> split res" where
  "split_write wr j n s =
     bindR (write_retry wr (take n (cjtoBuffer s ! j))) (\<lambda>d.
       Ret (s\<lparr>salidas := (salidas s)[j := salidas s ! j @ d]\<rparr>))"

definition split_byte :: "writer \<Rightarrow> nat \<Rightarrow> nat \<Rightarrow> byte \<Rightarrow> split \<Rightarrow> split res" where
  "split_byte wr num bs b s =
     (let j = (if punteroFichero s = num then 0 else punteroFichero s) in
      bindR (if llenadoFicheros s ! j = bs
             then bindR (split_write wr j bs s) (\<lambda>s.
               Ret (s\<lparr>llenadoFicheros := (llenadoFicheros s)[j := 0]\<rparr>))
             else Ret s) (\<lambda>s.
        let k = llenadoFicheros s ! j in
        Ret (s\<lparr>cjtoBuffer := (cjtoBuffer s)[j := (cjtoBuffer s ! j)[k := b]],
               llenadoFicheros := (llenadoFicheros s)[j := Suc k], punteroFichero := Suc j\<rparr>)))"

definition split_end :: "writer \<Rightarrow> nat \<Rightarrow> split \<Rightarrow> split res" where
  "split_end wr num =
     foldR (\<lambda>i s. if llenadoFicheros s ! i \<noteq> 0 then split_write wr i (llenadoFicheros s ! i) s else Ret s) [0..<num]"

text \<open>The list holds the outcomes of the calls of \<open>read\<close>; after the last one \<open>read\<close> returns 0.\<close>

primrec split_loop :: "writer \<Rightarrow> nat \<Rightarrow> nat \<Rightarrow> byte list option list \<Rightarrow> split \<Rightarrow> split res" where
  "split_loop wr num bs [] s = split_end wr num s"
| "split_loop wr num bs (r # rs) s =
     bindR (read_retry r) (\<lambda>d.
       if d = [] then split_end wr num s
       else bindR (foldR (split_byte wr num bs) d s) (split_loop wr num bs rs))"

section \<open>The command line\<close>

definition comprobarSizeBuff :: "string \<Rightarrow> nat res" where
  "comprobarSizeBuff bufsize =
     bindR (atoi_libc bufsize) (\<lambda>n.
       if n < 1 \<or> n > 1048576 then Panic ''Error: Tamano de buffer incorrecto.'' else Ret (nat n))"

definition comprobarNumFicheros :: "nat \<Rightarrow> string option \<Rightarrow> nat res" where
  "comprobarNumFicheros argc bufsize =
     (let n = argc - (if bufsize = None then 1 else 3)
      in if n > 16 then Panic ''Error: Demasiados ficheros de salida.'' else Ret n)"

text \<open>
  The descriptors go into an array of as many elements as \<^const>\<open>comprobarNumFicheros\<close> has counted, from the
  arguments \<open>optind\<close> to \<open>argc - 1\<close>. \<open>opens i\<close> tells whether the \<open>i\<close>-th of them can be opened.
\<close>

primrec split_open :: "(nat \<Rightarrow> bool) \<Rightarrow> nat \<Rightarrow> nat list \<Rightarrow> unit res" where
  "split_open opens num [] = Ret ()"
| "split_open opens num (i # is) =
     (if \<not> opens i then Panic ''Error: No se puede abrir/crear''
      else if num \<le> i then Undef ''arrayFD''
      else split_open opens num is)"

definition split_files ::
  "nat \<Rightarrow> nat \<Rightarrow> string option \<Rightarrow> (nat \<Rightarrow> bool) \<Rightarrow> writer \<Rightarrow> byte list option list \<Rightarrow> byte list list res" where
  "split_files argc optind bufsize opens wr input =
     bindR (case bufsize of None \<Rightarrow> Ret 1024 | Some t \<Rightarrow> comprobarSizeBuff t) (\<lambda>bs.
     bindR (comprobarNumFicheros argc bufsize) (\<lambda>num.
       if num = 0 then Panic ''No hay ficheros de salida''
       else bindR (split_open opens num [0..<argc - optind]) (\<lambda>_.
         if argc - optind < num then Undef ''arrayFD''
         else bindR (split_loop wr num bs input (split_start num bs)) (\<lambda>s. Ret (salidas s)))))"

section \<open>Each file gets every num-th byte\<close>

definition dealt :: "nat \<Rightarrow> 'a list \<Rightarrow> nat \<Rightarrow> 'a list" where
  "dealt num xs j = nths xs {i. i mod num = j}"

lemma dealt_Nil [simp]: "dealt num [] j = []"
  by (simp add: dealt_def)

lemma dealt_snoc: "dealt num (xs @ [b]) j = dealt num xs j @ (if length xs mod num = j then [b] else [])"
  by (simp add: dealt_def nths_append)

text \<open>After the bytes \<open>xs\<close>, what file \<open>j\<close> holds and what its buffer holds are together its share of \<open>xs\<close>.\<close>

definition split_inv :: "nat \<Rightarrow> nat \<Rightarrow> byte list \<Rightarrow> split \<Rightarrow> bool" where
  "split_inv num bs xs s \<longleftrightarrow>
     length (cjtoBuffer s) = num \<and> length (llenadoFicheros s) = num \<and> length (salidas s) = num \<and>
     punteroFichero s \<le> num \<and> punteroFichero s mod num = length xs mod num \<and>
     (\<forall>j < num. length (cjtoBuffer s ! j) = bs \<and> llenadoFicheros s ! j \<le> bs \<and>
        salidas s ! j @ take (llenadoFicheros s ! j) (cjtoBuffer s ! j) = dealt num xs j)"

lemma split_inv_start: "0 < num \<Longrightarrow> split_inv num bs [] (split_start num bs)"
  by (simp add: split_inv_def split_start_def)

lemma split_inv_byte:
  assumes "split_inv num bs xs s" "full_writer wr" "0 < num" "0 < bs"
  shows "\<exists>t. split_byte wr num bs b s = Ret t \<and> split_inv num bs (xs @ [b]) t"
proof -
  define j where "j = (if punteroFichero s = num then 0 else punteroFichero s)"
  have j: "j < num" "j = length xs mod num"
    using assms(1,3) by (auto simp: split_inv_def j_def)
  have snoc: "take (Suc k) (ys[k := b]) = take k ys @ [b]" if "k < length ys" for k and ys :: "byte list"
    using that by (simp add: take_Suc_conv_app_nth)
  have next_mod: "Suc j mod num = Suc (length xs) mod num"
    using j(2) by (simp add: mod_Suc)
  show ?thesis
  proof (cases "llenadoFicheros s ! j = bs")
    case True
    then show ?thesis using assms j(1) next_mod
      by (auto simp: split_byte_def j_def [symmetric] split_write_def split_inv_def dealt_snoc j(2) [symmetric]
          nth_list_update snoc Let_def)
  next
    case False
    then show ?thesis using assms j(1) next_mod
      by (auto simp: split_byte_def j_def [symmetric] split_inv_def dealt_snoc j(2) [symmetric]
          nth_list_update snoc Let_def)
  qed
qed

lemma split_inv_end:
  assumes "split_inv num bs xs s" "full_writer wr"
  shows "\<exists>t. split_end wr num s = Ret t \<and> salidas t = map (dealt num xs) [0..<num]"
proof -
  let ?P = "\<lambda>k (t :: split). cjtoBuffer t = cjtoBuffer s \<and> llenadoFicheros t = llenadoFicheros s \<and>
    salidas t = map (dealt num xs) [0..<k] @ drop k (salidas s)"
  have "\<exists>t. split_end wr num s = Ret t \<and> ?P num t"
    unfolding split_end_def
  proof (rule foldR_upt_total [where P = ?P])
    fix k and t :: split
    assume k: "k < num" and P: "?P k t"
    from k assms(1) have "k < length (salidas s)"
      and d: "salidas s ! k @ take (llenadoFicheros s ! k) (cjtoBuffer s ! k) = dealt num xs k"
      by (auto simp: split_inv_def)
    then have "drop k (salidas s) = salidas s ! k # drop (Suc k) (salidas s)" by (simp add: Cons_nth_drop_Suc)
    then show "\<exists>u. (if llenadoFicheros t ! k \<noteq> 0 then split_write wr k (llenadoFicheros t ! k) t else Ret t) = Ret u
        \<and> ?P (Suc k) u"
      using P d assms(2) by (auto simp: split_write_def list_update_append nth_append)
  qed simp_all
  then show ?thesis using assms(1) by (auto simp: split_inv_def)
qed

lemma split_loop_dealt:
  assumes "split_inv num bs xs s" "full_writer wr" "0 < num" "0 < bs" "[] \<notin> set cs"
  shows "\<exists>t. split_loop wr num bs (map Some cs) s = Ret t \<and> salidas t = map (dealt num (xs @ concat cs)) [0..<num]"
  using assms(1,5)
proof (induction cs arbitrary: xs s)
  case Nil
  then show ?case using split_inv_end assms(2) by simp
next
  case (Cons c cs)
  obtain u where "foldR (split_byte wr num bs) c s = Ret u" "split_inv num bs (xs @ c) u"
    using foldR_total [of "split_inv num bs" xs s c "split_byte wr num bs"] Cons.prems(1)
      split_inv_byte [OF _ assms(2-4)] by blast
  then show ?case using Cons.IH [of "xs @ c" u] Cons.prems by auto
qed

text \<open>The argument checks accept a buffer size exactly between 1 and 1 MiB, and at most 16 files.\<close>

lemma comprobarSizeBuff_Ret:
  "comprobarSizeBuff t = Ret n \<longleftrightarrow> atoi_libc t = Ret (int n) \<and> 1 \<le> n \<and> n \<le> 1048576"
  by (auto simp: comprobarSizeBuff_def split: if_splits intro!: exI [of _ "int n"])

lemma split_open_ok: "(\<And>i. i \<in> set is \<Longrightarrow> opens i \<and> i < num) \<Longrightarrow> split_open opens num is = Ret ()"
  by (induction "is") (auto simp: not_le)

text \<open>The command line of a run without faults: \<open>split_files [-t SIZE] f1 ... fn\<close>.\<close>

definition split_args :: "nat \<Rightarrow> string option \<Rightarrow> bool" where
  "split_args optind bufsize \<longleftrightarrow>
     (bufsize = None \<and> optind = 1) \<or> (\<exists>t bs. bufsize = Some t \<and> comprobarSizeBuff t = Ret bs \<and> optind = 3)"

text \<open>
  With the options written as separate arguments, \<open>split_files\<close> deals the input out, whatever the sizes of
  the reads.
\<close>

lemma split_files_dealt:
  assumes "full_writer wr" "[] \<notin> set cs" "0 < num" "num \<le> 16" "\<And>i. i < num \<Longrightarrow> opens i"
    and "split_args optind bufsize"
  shows "split_files (optind + num) optind bufsize opens wr (map Some cs) = Ret (map (dealt num (concat cs)) [0..<num])"
proof -
  obtain bs where bs: "(case bufsize of None \<Rightarrow> Ret 1024 | Some t \<Rightarrow> comprobarSizeBuff t) = Ret bs" "0 < bs"
    using assms(6) by (auto simp: comprobarSizeBuff_Ret split_args_def)
  have "comprobarNumFicheros (optind + num) bufsize = Ret num"
    using assms(4,6) by (auto simp: comprobarNumFicheros_def split_args_def)
  moreover have "split_open opens num [0..<optind + num - optind] = Ret ()"
    using assms(5) by (intro split_open_ok) auto
  moreover obtain t where "split_loop wr num bs (map Some cs) (split_start num bs) = Ret t"
    "salidas t = map (dealt num (concat cs)) [0..<num]"
    using split_loop_dealt [OF split_inv_start assms(1,3) bs(2) assms(2)] assms(3) by auto
  ultimately show ?thesis using bs(1) assms(3) by (simp add: split_files_def)
qed

text \<open>
  An option written in one argument, as in \<open>split_files -t10 a b\<close>, is counted as two: the array of descriptors
  is one element too short, and opening the last file writes behind its end.
\<close>

lemma split_attached_option:
  assumes "comprobarSizeBuff t = Ret bs" "2 \<le> num" "num \<le> 16" "\<And>i. i < num \<Longrightarrow> opens i"
  shows "split_files (2 + num) 2 (Some t) opens wr input = Undef ''arrayFD''"
proof -
  have open_end: "split_open opens (num - 1) (is @ [num - 1]) = Undef ''arrayFD''"
    if "\<forall>i \<in> set is. i < num - 1" for "is"
    using that assms(2,4) by (induction "is") auto
  have "[0..<num] = [0..<num - 1] @ [num - 1]"
    using assms(2) by (metis Suc_diff_1 le0 not_numeral_le_zero upt_Suc_append zero_less_iff_neq_zero)
  then show ?thesis using assms open_end [of "[0..<num - 1]"]
    by (auto simp: split_files_def comprobarNumFicheros_def Let_def simp del: upt_Suc)
qed

end
