(* ===== verification/Merge.thy ===== *)
theory Merge
  imports Split
begin

text \<open>
  \<open>syscalls/Semana4/src/Tarea4/merge_files.c\<close>: one byte of every input file in turn goes to the output, through
  one read buffer per file and one output buffer. Leaving with \<open>exit(EXIT_FAILURE)\<close> is \<^const>\<open>Panic\<close>.
\<close>

section \<open>The merge loop\<close>

record merge =
  mBuffer :: "byte list list"         \<comment> \<open>\<open>cjtoBuffer\<close>\<close>
  porEscribir :: "int list"
  ficherosTerminados :: "int list"
  contador :: nat
  bufSalida :: "byte list"
  punterowrite :: nat
  a_Escribir :: nat
  salida :: "byte list"               \<comment> \<open>what has been written\<close>

text \<open>
  The array \<open>ficherosTerminados\<close> is not initialised: \<open>junk\<close> is what it happens to hold.
\<close>

definition merge_start :: "nat \<Rightarrow> nat \<Rightarrow> int list \<Rightarrow> merge" where
  "merge_start num bs junk = \<lparr>mBuffer = replicate num (replicate bs 0), porEscribir = replicate num 0,
     ficherosTerminados = junk, contador = 0, bufSalida = replicate bs 0, punterowrite = 0, a_Escribir = 0, salida = []\<rparr>"

definition merge_write :: "writer \<Rightarrow> merge \<Rightarrow> merge res" where
  "merge_write wr s =
     bindR (write_retry wr (take (a_Escribir s) (bufSalida s))) (\<lambda>d. Ret (s\<lparr>salida := salida s @ d\<rparr>))"

definition merge_store :: "nat \<Rightarrow> nat \<Rightarrow> merge \<Rightarrow> merge" where
  "merge_store v i s = s\<lparr>bufSalida := (bufSalida s)[punterowrite s := mBuffer s ! i ! v],
     punterowrite := Suc (punterowrite s)\<rparr>"

definition merge_flush :: "writer \<Rightarrow> nat \<Rightarrow> merge \<Rightarrow> merge res" where
  "merge_flush wr bs s =
     (let s = s\<lparr>a_Escribir := punterowrite s\<rparr> in
      if punterowrite s = bs then bindR (merge_write wr s) (\<lambda>s. Ret (s\<lparr>punterowrite := 0\<rparr>)) else Ret s)"

text \<open>
  The body of the inner loop. The flag it returns tells whether it has counted \<open>i\<close> down, so that the
  loop visits the same file again.
\<close>

definition merge_visit :: "writer \<Rightarrow> nat \<Rightarrow> nat \<Rightarrow> nat \<Rightarrow> merge \<Rightarrow> (merge \<times> bool) res" where
  "merge_visit wr bs v i s =
     bindR (merge_flush wr bs s) (\<lambda>s.
       if porEscribir s ! i = int bs \<and> ficherosTerminados s ! i \<noteq> 1 then
         let s = merge_store v i s in
         if porEscribir s ! i = 0
         then Ret (s\<lparr>contador := Suc (contador s), ficherosTerminados := (ficherosTerminados s)[i := 1]\<rparr>, False)
         else Ret (s, False)
       else if porEscribir s ! i \<le> int bs \<and> ficherosTerminados s ! i \<noteq> 1 then
         if porEscribir s ! i = int v
         then Ret (s\<lparr>porEscribir := (porEscribir s)[i := -1], ficherosTerminados := (ficherosTerminados s)[i := 1],
                     contador := Suc (contador s)\<rparr>, True)
         else Ret (merge_store v i s, False)
       else Ret (s, False))"

text \<open>
  A second visit finds the file finished and never counts down again (\<open>merge_visit_again\<close>), so a
  file gets at most two visits in a row.
\<close>

definition merge_cell :: "writer \<Rightarrow> nat \<Rightarrow> nat \<Rightarrow> nat \<Rightarrow> merge \<Rightarrow> merge res" where
  "merge_cell wr bs v i s =
     bindR (merge_visit wr bs v i s) (\<lambda>(s, again).
       if again then bindR (merge_visit wr bs v i s) (\<lambda>(s, _). Ret s) else Ret s)"

definition merge_row :: "writer \<Rightarrow> nat \<Rightarrow> nat \<Rightarrow> nat \<Rightarrow> merge \<Rightarrow> merge res" where
  "merge_row wr num bs v = foldR (merge_cell wr bs v) [0..<num]"

definition merge_read :: "(nat \<Rightarrow> byte list option) \<Rightarrow> nat \<Rightarrow> merge \<Rightarrow> merge res" where
  "merge_read rd i s =
     bindR (read_retry (rd i)) (\<lambda>d.
       Ret (s\<lparr>mBuffer := (mBuffer s)[i := put_bytes 0 d (mBuffer s ! i)],
              porEscribir := (porEscribir s)[i := int (length d)]\<rparr>))"

definition merge_round :: "writer \<Rightarrow> nat \<Rightarrow> nat \<Rightarrow> (nat \<Rightarrow> byte list option) \<Rightarrow> merge \<Rightarrow> merge res" where
  "merge_round wr num bs rd s =
     bindR (foldR (merge_read rd) [0..<num] (s\<lparr>contador := 0\<rparr>)) (\<lambda>s.
       foldR (merge_row wr num bs) [0..<bs] (s\<lparr>a_Escribir := 0\<rparr>))"

definition terminados :: "nat \<Rightarrow> merge \<Rightarrow> nat" where
  "terminados num s = length (filter (\<lambda>i. ficherosTerminados s ! i = 1) [0..<num])"

text \<open>
  The outer loop: \<open>rd r i\<close> is the outcome of the \<open>r\<close>-th read of file \<open>i\<close>. The fuel bounds the number of
  rounds; running out of it is \<^const>\<open>None\<close>.
\<close>

primrec merge_loop :: "nat \<Rightarrow> writer \<Rightarrow> nat \<Rightarrow> nat \<Rightarrow> (nat \<Rightarrow> nat \<Rightarrow> byte list option) \<Rightarrow> nat \<Rightarrow> merge \<Rightarrow> merge res option" where
  "merge_loop 0 wr num bs rd r s = None"
| "merge_loop (Suc fuel) wr num bs rd r s =
     (if contador s = num then Some (Ret s)
      else (case merge_round wr num bs (rd r) s of
              Ret s \<Rightarrow> if terminados num s = num then Some (merge_write wr s)
                       else merge_loop fuel wr num bs rd (Suc r) s
            | e \<Rightarrow> Some e))"

section \<open>The command line\<close>

definition merge_SizeBuff :: "string \<Rightarrow> nat res" where
  "merge_SizeBuff memoria =
     bindR (atoi_libc memoria) (\<lambda>n.
       if n < 1 \<or> n > 134217718 then Panic ''Error: Tamano de buffer incorrecto.'' else Ret (nat n))"

definition merge_NumFicheros :: "nat \<Rightarrow> string option \<Rightarrow> string option \<Rightarrow> nat res" where
  "merge_NumFicheros argc mem out =
     (let count = (\<lambda>n. if n > 16 then Panic ''Error: Demasiados ficheros de entrada.'' else Ret n) in
      if mem \<noteq> None \<and> out \<noteq> None then count (argc - 5)
      else if (mem \<noteq> None \<or> out \<noteq> None) \<and> argc > 3 then count (argc - 3)
      else if mem = None \<and> out = None then count (argc - 1)
      else Panic ''Error: No hay ficheros de entrada'')"

text \<open>
  The array of descriptors: an element is not set yet, -1 (\<open>open\<close> has failed), or a descriptor of the
  \<open>k\<close>-th file. \<open>opens k\<close> tells whether the \<open>k\<close>-th file can be opened.
\<close>

datatype fd = Unset | Bad | Fd nat

definition set_FD :: "nat \<Rightarrow> fd \<Rightarrow> fd list \<Rightarrow> fd list res" where
  "set_FD i f arr = (if i < length arr then Ret (arr[i := f]) else Undef ''arrayFD'')"

definition open_in :: "(nat \<Rightarrow> bool) \<Rightarrow> nat \<Rightarrow> fd" where
  "open_in opens k = (if opens k then Fd k else Bad)"

text \<open>\<open>malo\<close> is the last missing file, as an index from \<open>optind\<close> on, or \<^const>\<open>None\<close>.\<close>

definition posicionFicheroMalo :: "(nat \<Rightarrow> bool) \<Rightarrow> nat \<Rightarrow> nat option" where
  "posicionFicheroMalo exis n = foldl (\<lambda>m k. if exis k then m else Some k) None [0..<n]"

primrec open_fds :: "(nat \<Rightarrow> bool) \<Rightarrow> nat option \<Rightarrow> nat list \<Rightarrow> nat \<Rightarrow> fd list \<Rightarrow> fd list res" where
  "open_fds opens malo [] activador arr = Ret arr"
| "open_fds opens malo (k # ks) activador arr =
     bindR (if activador \<noteq> 0 then set_FD (k - 1) (open_in opens k) arr else Ret arr) (\<lambda>arr.
       if malo \<noteq> Some k
       then bindR (set_FD k (open_in opens k) arr) (\<lambda>arr. open_fds opens malo ks activador arr)
       else open_fds opens malo ks (Suc activador) arr)"

text \<open>
  \<open>main\<close> after the options have been read: without \<open>-t\<close> the size of the buffers is not initialised, and
  the first use of it is the allocation of the buffers. \<open>outok\<close> tells whether the output file can be opened,
  \<open>exis k\<close> whether \<open>access\<close> finds the \<open>k\<close>-th input file.
\<close>

definition read_fd :: "fd list \<Rightarrow> (nat \<Rightarrow> nat \<Rightarrow> byte list option) \<Rightarrow> nat \<Rightarrow> nat \<Rightarrow> byte list option" where
  "read_fd arr rd r i = (case arr ! i of Fd k \<Rightarrow> rd r k | _ \<Rightarrow> None)"

definition merge_files ::
  "nat \<Rightarrow> nat \<Rightarrow> nat \<Rightarrow> string option \<Rightarrow> string option \<Rightarrow> bool \<Rightarrow> (nat \<Rightarrow> bool) \<Rightarrow> (nat \<Rightarrow> bool) \<Rightarrow> int list \<Rightarrow> writer \<Rightarrow>
     (nat \<Rightarrow> nat \<Rightarrow> byte list option) \<Rightarrow> byte list res option" where
  "merge_files fuel argc optind mem out outok exis opens junk wr rd =
     (if argc = 1 then Some (Panic ''Error: No hay ficheros de entrada.'')
      else (case bindR (case mem of None \<Rightarrow> Ret 0 | Some t \<Rightarrow> merge_SizeBuff t) (\<lambda>bs.
                 bindR (merge_NumFicheros argc mem out) (\<lambda>num.
                   if out \<noteq> None \<and> \<not> outok then Panic ''open(fileout)''
                   else let n = argc - optind;
                            bad = length (filter (\<lambda>k. \<not> exis k) [0..<n])
                        in if num < bad then Undef ''arrayFD''
                           else bindR (open_fds opens (posicionFicheroMalo exis n) [0..<n] 0 (replicate (num - bad) Unset)) (\<lambda>arr.
                             if mem = None then Undef ''buf_size'' else Ret (bs, arr)))) of
              Ret (bs, arr) \<Rightarrow>
                map_option (\<lambda>x. bindR x (\<lambda>s. Ret (salida s)))
                  (merge_loop fuel wr (length arr) bs (read_fd arr rd) 0 (merge_start (length arr) bs junk))
            | Panic m \<Rightarrow> Some (Panic m) | Sleep c \<Rightarrow> Some (Sleep c) | Undef m \<Rightarrow> Some (Undef m)))"

section \<open>The output interleaves the files\<close>

definition row :: "'a list list \<Rightarrow> nat \<Rightarrow> 'a list" where
  "row files w = concat (map (\<lambda>f. take 1 (drop w f)) files)"

definition rows :: "'a list list \<Rightarrow> nat \<Rightarrow> 'a list" where
  "rows files w = concat (map (row files) [0..<w])"

definition longest :: "'a list list \<Rightarrow> nat" where
  "longest files = foldr max (map length files) 0"

text \<open>One byte of each file in turn, until all files are used up.\<close>

definition interleave :: "'a list list \<Rightarrow> 'a list" where
  "interleave files = rows files (longest files)"

lemma longest_ge: "f \<in> set files \<Longrightarrow> length f \<le> longest files"
  unfolding longest_def by (induction files) auto

lemma longest_attained: "files \<noteq> [] \<Longrightarrow> \<exists>f \<in> set files. length f = longest files"
proof (induction files)
  case (Cons f files)
  then show ?case by (cases "files = []") (auto simp: longest_def max_def)
qed simp

lemma longest_less: "files \<noteq> [] \<Longrightarrow> (\<forall>j < length files. length (files ! j) < w) \<longleftrightarrow> longest files < w"
  by (metis in_set_conv_nth le_less_trans longest_attained longest_ge)

lemma rows_interleave:
  assumes "longest files \<le> w"
  shows "rows files w = interleave files"
  using assms
proof (induction w rule: dec_induct)
  case base
  then show ?case by (simp add: interleave_def)
next
  case (step w)
  then have "row files w = []" using longest_ge [of _ files] by (fastforce simp: row_def)
  then show ?case using step.IH by (simp add: rows_def)
qed

definition flushed :: "nat \<Rightarrow> merge \<Rightarrow> merge" where
  "flushed bs s =
     (if punterowrite s = bs then s\<lparr>a_Escribir := bs, salida := salida s @ bufSalida s, punterowrite := 0\<rparr>
      else s\<lparr>a_Escribir := punterowrite s\<rparr>)"

definition finished :: "nat \<Rightarrow> merge \<Rightarrow> merge" where
  "finished i s = s\<lparr>porEscribir := (porEscribir s)[i := -1], ficherosTerminados := (ficherosTerminados s)[i := 1],
     contador := Suc (contador s)\<rparr>"

lemma merge_flush_flushed: "full_writer wr \<Longrightarrow> length (bufSalida s) = bs \<Longrightarrow> merge_flush wr bs s = Ret (flushed bs s)"
  by (simp add: merge_flush_def flushed_def merge_write_def)

lemma flushed_simps [simp]:
  "mBuffer (flushed bs s) = mBuffer s" "porEscribir (flushed bs s) = porEscribir s"
  "ficherosTerminados (flushed bs s) = ficherosTerminados s" "contador (flushed bs s) = contador s"
  "bufSalida (flushed bs s) = bufSalida s"
  by (simp_all add: flushed_def)

lemma finished_simps [simp]:
  "mBuffer (finished i s) = mBuffer s" "porEscribir (finished i s) = (porEscribir s)[i := -1]"
  "ficherosTerminados (finished i s) = (ficherosTerminados s)[i := 1]" "contador (finished i s) = Suc (contador s)"
  "bufSalida (finished i s) = bufSalida s" "punterowrite (finished i s) = punterowrite s"
  "a_Escribir (finished i s) = a_Escribir s" "salida (finished i s) = salida s"
  by (simp_all add: finished_def)

lemma merge_store_simps [simp]:
  "mBuffer (merge_store v i s) = mBuffer s" "porEscribir (merge_store v i s) = porEscribir s"
  "ficherosTerminados (merge_store v i s) = ficherosTerminados s" "contador (merge_store v i s) = contador s"
  "bufSalida (merge_store v i s) = (bufSalida s)[punterowrite s := mBuffer s ! i ! v]"
  "punterowrite (merge_store v i s) = Suc (punterowrite s)"
  "a_Escribir (merge_store v i s) = a_Escribir s" "salida (merge_store v i s) = salida s"
  by (simp_all add: merge_store_def)

text \<open>A visit that counts down leaves the file finished, and a visit of a finished file does not count down.\<close>

lemma merge_visit_again:
  assumes "merge_visit wr bs v i s = Ret (t, True)" "i < length (ficherosTerminados s)" "merge_visit wr bs v i t = Ret (u, again)"
  shows "\<not> again"
proof -
  obtain s1 where s1: "merge_flush wr bs s = Ret s1" using assms(1) by (auto simp: merge_visit_def)
  then have "ficherosTerminados s1 = ficherosTerminados s"
    by (auto simp: merge_flush_def merge_write_def Let_def split: if_splits)
  with assms(1,2) s1 have "ficherosTerminados t ! i = 1"
    by (auto simp: merge_visit_def Let_def split: if_splits)
  moreover obtain t1 where t1: "merge_flush wr bs t = Ret t1" using assms(3) by (auto simp: merge_visit_def)
  then have "ficherosTerminados t1 = ficherosTerminados t"
    by (auto simp: merge_flush_def merge_write_def Let_def split: if_splits)
  ultimately show ?thesis using assms(3) t1 by (auto simp: merge_visit_def)
qed

lemma merge_cell_cases:
  assumes "full_writer wr" "length (bufSalida s) = bs" "0 < bs" "i < length (ficherosTerminados s)"
    and "ficherosTerminados s ! i \<noteq> 1 \<Longrightarrow> porEscribir s ! i \<le> int bs"
    and "v < bs"
  shows "merge_cell wr bs v i s = Ret
    (if ficherosTerminados s ! i = 1 then flushed bs s
     else if porEscribir s ! i = int v then flushed bs (finished i (flushed bs s))
     else merge_store v i (flushed bs s))"
proof -
  have visit: "merge_visit wr bs v i t = Ret
    (if ficherosTerminados t ! i = 1 then (flushed bs t, False)
     else if porEscribir t ! i = int v then (finished i (flushed bs t), True)
     else (merge_store v i (flushed bs t), False))"
    if "length (bufSalida t) = bs" "ficherosTerminados t ! i \<noteq> 1 \<Longrightarrow> porEscribir t ! i \<le> int bs" for t
    using that assms(1,3,6) by (auto simp: merge_visit_def merge_flush_flushed Let_def finished_def)
  show ?thesis using assms visit [of s] visit [of "finished i (flushed bs s)"] by (simp add: merge_cell_def)
qed

text \<open>The bytes written or waiting in the output buffer.\<close>

definition produced :: "merge \<Rightarrow> byte list" where
  "produced s = salida s @ take (punterowrite s) (bufSalida s)"

lemma produced_flushed [simp]: "length (bufSalida s) = bs \<Longrightarrow> produced (flushed bs s) = produced s"
  by (simp add: produced_def flushed_def)

lemma produced_finished [simp]: "produced (finished i s) = produced s"
  by (simp add: produced_def)

lemma produced_store [simp]:
  "punterowrite s < length (bufSalida s) \<Longrightarrow> produced (merge_store v i s) = produced s @ [mBuffer s ! i ! v]"
  by (simp add: produced_def take_Suc_conv_app_nth)

lemma punterowrite_flushed: "punterowrite s \<le> bs \<Longrightarrow> 0 < bs \<Longrightarrow> punterowrite (flushed bs s) < bs"
  by (simp add: flushed_def)

lemma a_Escribir_flushed: "punterowrite s < bs \<Longrightarrow> a_Escribir (flushed bs s) = punterowrite (flushed bs s)"
  by (simp add: flushed_def)

lemma terminados_finished:
  "i < num \<Longrightarrow> length (ficherosTerminados s) = num \<Longrightarrow> ficherosTerminados s ! i \<noteq> 1 \<Longrightarrow>
     terminados num (finished i s) = Suc (terminados num s)"
proof -
  assume i: "i < num" "length (ficherosTerminados s) = num" "ficherosTerminados s ! i \<noteq> 1"
  have "{k. k < num \<and> (ficherosTerminados s)[i := 1] ! k = 1} = insert i {k. k < num \<and> ficherosTerminados s ! k = 1}"
    using i by (auto simp: nth_list_update)
  moreover have "terminados num t = card {k. k < num \<and> ficherosTerminados t ! k = 1}" for t
    unfolding terminados_def by (subst distinct_card [symmetric]) (auto intro: arg_cong [where f = card])
  ultimately show ?thesis using i by simp
qed

lemma terminados_cong: "ficherosTerminados t = ficherosTerminados s \<Longrightarrow> terminados num t = terminados num s"
  by (simp add: terminados_def)

text \<open>
  Row \<open>w\<close> has got as far as file \<open>m\<close>: a file is finished once a row beyond its length has visited it, and
  the output buffer is full only if the last visit has stored a byte.
\<close>

definition merge_inv :: "byte list list \<Rightarrow> nat \<Rightarrow> nat \<Rightarrow> nat \<Rightarrow> merge \<Rightarrow> bool" where
  "merge_inv files bs w m s \<longleftrightarrow>
     length (ficherosTerminados s) = length files \<and> length (porEscribir s) = length files \<and>
     length (mBuffer s) = length files \<and> (\<forall>j < length files. length (mBuffer s ! j) = bs) \<and>
     (\<forall>j < length files. ficherosTerminados s ! j = 1 \<longleftrightarrow> length (files ! j) < (if j < m then Suc w else w)) \<and>
     punterowrite s \<le> bs \<and> length (bufSalida s) = bs \<and>
     produced s = rows files w @ row (take m files) w \<and>
     contador s \<le> terminados (length files) s \<and>
     (ficherosTerminados s ! ((if m = 0 then length files else m) - 1) = 1 \<longrightarrow> punterowrite s < bs)"

text \<open>The buffers of the files that are not finished hold their part number \<open>r\<close>.\<close>

definition loaded :: "byte list list \<Rightarrow> nat \<Rightarrow> nat \<Rightarrow> merge \<Rightarrow> bool" where
  "loaded files bs r s \<longleftrightarrow>
     (\<forall>j < length files. ficherosTerminados s ! j \<noteq> 1 \<longrightarrow>
        porEscribir s ! j = int (min bs (length (files ! j) - r * bs)) \<and>
        (\<forall>k < min bs (length (files ! j) - r * bs). mBuffer s ! j ! k = files ! j ! (r * bs + k)))"

lemma row_Nil [simp]: "row [] w = []"
  by (simp add: row_def)

lemma row_take_Suc: "m < length files \<Longrightarrow> row (take (Suc m) files) w = row (take m files) w @ take 1 (drop w (files ! m))"
  by (simp add: row_def take_Suc_conv_app_nth)

lemma take_1_drop: "take (Suc 0) (drop w f) = (if w < length f then [f ! w] else [])"
  by (simp add: take_Suc_conv_app_nth)

lemma merge_inv_skip:
  assumes "merge_inv files bs w m s" "0 < bs" "m < length files" "ficherosTerminados s ! m = 1"
  shows "merge_inv files bs w (Suc m) (flushed bs s)"
  using assms punterowrite_flushed [of s bs] terminados_cong [of "flushed bs s" s]
  by (auto simp: merge_inv_def row_take_Suc take_1_drop less_Suc_eq)

lemma merge_inv_finish:
  assumes "merge_inv files bs w m s" "0 < bs" "m < length files" "length (files ! m) = w"
  shows "merge_inv files bs w (Suc m) (flushed bs (finished m (flushed bs s)))"
proof -
  let ?t = "flushed bs (finished m (flushed bs s))"
  have "ficherosTerminados s ! m \<noteq> 1" using assms by (auto simp: merge_inv_def)
  then have "terminados (length files) ?t = Suc (terminados (length files) s)"
    using terminados_finished [of m "length files" "flushed bs s"] terminados_cong [of ?t "finished m (flushed bs s)"]
      terminados_cong [of "flushed bs s" s] assms by (auto simp: merge_inv_def)
  moreover have "punterowrite ?t < bs"
    using assms punterowrite_flushed [of s bs] punterowrite_flushed [of "finished m (flushed bs s)" bs]
    by (auto simp: merge_inv_def)
  ultimately show ?thesis using assms
    by (auto simp: merge_inv_def row_take_Suc take_1_drop less_Suc_eq nth_list_update)
qed

lemma merge_inv_store:
  assumes "merge_inv files bs w m s" "0 < bs" "m < length files" "w < length (files ! m)"
    and "mBuffer s ! m ! v = files ! m ! w"
  shows "merge_inv files bs w (Suc m) (merge_store v m (flushed bs s))"
  using assms punterowrite_flushed [of s bs] terminados_cong [of "merge_store v m (flushed bs s)" s]
  by (auto simp: merge_inv_def row_take_Suc take_1_drop less_Suc_eq)

lemma merge_inv_cell:
  assumes "merge_inv files bs (r * bs + v) m s" "loaded files bs r s" "full_writer wr" "m < length files" "v < bs"
  shows "\<exists>t. merge_cell wr bs v m s = Ret t \<and> merge_inv files bs (r * bs + v) (Suc m) t \<and> loaded files bs r t \<and>
    (Suc m = length files \<longrightarrow> (\<forall>j < length files. ficherosTerminados t ! j = 1) \<longrightarrow> a_Escribir t = punterowrite t)"
proof -
  let ?w = "r * bs + v" and ?L = "length (files ! m)"
  have lens: "length (bufSalida s) = bs" "m < length (ficherosTerminados s)" "punterowrite s \<le> bs" "0 < bs"
    using assms by (auto simp: merge_inv_def)
  have fin: "ficherosTerminados s ! m = 1 \<longleftrightarrow> ?L < ?w" using assms(1,4) by (simp add: merge_inv_def)
  have load: "porEscribir s ! m = int (min bs (?L - r * bs))" "?w < ?L \<Longrightarrow> mBuffer s ! m ! v = files ! m ! ?w"
    if "\<not> ?L < ?w" using assms(2,4,5) fin that by (auto simp: loaded_def)
  have last: "punterowrite s < bs"
    if "Suc m = length files" "\<forall>j < length files. ficherosTerminados s ! j = 1"
  proof -
    have "(if m = 0 then length files else m) - 1 < length files" using assms(4) by auto
    then show ?thesis using assms(1) that(2) unfolding merge_inv_def by blast
  qed
  have cell: "merge_cell wr bs v m s = Ret
      (if ficherosTerminados s ! m = 1 then flushed bs s
       else if porEscribir s ! m = int v then flushed bs (finished m (flushed bs s))
       else merge_store v m (flushed bs s))"
    using lens assms(3,5) fin load(1) by (intro merge_cell_cases) auto
  consider "?L < ?w" | "?L = ?w" | "?w < ?L" by linarith
  then show ?thesis
  proof cases
    case 1
    then show ?thesis using cell fin merge_inv_skip [OF assms(1) lens(4) assms(4)] last assms(2)
      by (simp add: loaded_def a_Escribir_flushed)
  next
    case 2
    have "punterowrite (finished m (flushed bs s)) < bs" using punterowrite_flushed lens(3,4) by simp
    then show ?thesis using 2 cell fin load(1) merge_inv_finish [OF assms(1) lens(4) assms(4)] assms(2,5) lens(2)
      by (auto simp: loaded_def a_Escribir_flushed nth_list_update)
  next
    case 3
    then have "porEscribir s ! m \<noteq> int v" using load(1) assms(5) by auto
    then have "merge_cell wr bs v m s = Ret (merge_store v m (flushed bs s))" using 3 cell fin by simp
    moreover have "ficherosTerminados s ! m \<noteq> 1" using 3 fin by simp
    ultimately show ?thesis
      using merge_inv_store [OF assms(1) lens(4) assms(4) 3 load(2)] assms(2,4) 3 by (auto simp: loaded_def)
  qed
qed

lemma merge_inv_row:
  assumes "merge_inv files bs (r * bs + v) 0 s" "loaded files bs r s" "full_writer wr" "v < bs" "files \<noteq> []"
  shows "\<exists>t. merge_row wr (length files) bs v s = Ret t \<and> merge_inv files bs (r * bs + Suc v) 0 t \<and> loaded files bs r t \<and>
    ((\<forall>j < length files. ficherosTerminados t ! j = 1) \<longrightarrow> a_Escribir t = punterowrite t)"
proof -
  let ?P = "\<lambda>m t. merge_inv files bs (r * bs + v) m t \<and> loaded files bs r t \<and>
    (m = length files \<longrightarrow> (\<forall>j < length files. ficherosTerminados t ! j = 1) \<longrightarrow> a_Escribir t = punterowrite t)"
  have "\<exists>t. merge_row wr (length files) bs v s = Ret t \<and> ?P (length files) t"
    unfolding merge_row_def
  proof (rule foldR_upt_total [where P = ?P])
    show "?P 0 s" using assms by simp
  next
    fix k t
    assume "k < length files" "?P k t"
    then show "\<exists>u. merge_cell wr bs v k t = Ret u \<and> ?P (Suc k) u"
      using merge_inv_cell assms(3,4) by blast
  qed simp
  then obtain t where t: "merge_row wr (length files) bs v s = Ret t" "?P (length files) t" by blast
  moreover have "rows files (Suc w) = rows files w @ row files w" for w by (simp add: rows_def)
  ultimately show ?thesis using assms(5) by (auto simp: merge_inv_def)
qed

text \<open>What \<open>read\<close> delivers for regular files, which is as much as is asked for until the end of the file.\<close>

definition reads_files :: "byte list list \<Rightarrow> nat \<Rightarrow> (nat \<Rightarrow> nat \<Rightarrow> byte list option) \<Rightarrow> bool" where
  "reads_files files bs rd \<longleftrightarrow> (\<forall>r. \<forall>i < length files. rd r i = Some (take bs (drop (r * bs) (files ! i))))"

definition loaded_upto :: "byte list list \<Rightarrow> nat \<Rightarrow> nat \<Rightarrow> nat \<Rightarrow> merge \<Rightarrow> bool" where
  "loaded_upto files bs r k s \<longleftrightarrow>
     (\<forall>j < k. porEscribir s ! j = int (min bs (length (files ! j) - r * bs)) \<and>
        (\<forall>i < min bs (length (files ! j) - r * bs). mBuffer s ! j ! i = files ! j ! (r * bs + i)))"

lemma merge_read_step:
  assumes "merge_inv files bs w 0 s" "loaded_upto files bs r k s" "reads_files files bs rd" "k < length files"
  shows "\<exists>t. merge_read (rd r) k s = Ret t \<and> merge_inv files bs w 0 t \<and> loaded_upto files bs r (Suc k) t"
proof -
  let ?d = "take bs (drop (r * bs) (files ! k))"
  let ?t = "s\<lparr>mBuffer := (mBuffer s)[k := put_bytes 0 ?d (mBuffer s ! k)], porEscribir := (porEscribir s)[k := int (length ?d)]\<rparr>"
  have lens: "length (mBuffer s ! k) = bs" "k < length (mBuffer s)" "k < length (porEscribir s)"
    using assms(1,4) by (auto simp: merge_inv_def)
  have "merge_read (rd r) k s = Ret ?t" using assms(3,4) by (simp add: merge_read_def reads_files_def)
  moreover have "merge_inv files bs w 0 ?t"
    using assms(1) lens terminados_cong [of ?t s]
    by (auto simp: merge_inv_def produced_def nth_list_update)
  moreover have "loaded_upto files bs r (Suc k) ?t"
    using assms(2) lens by (auto simp: loaded_upto_def nth_list_update less_Suc_eq nth_put_bytes min.commute)
  ultimately show ?thesis by blast
qed

lemma merge_inv_reads:
  assumes "merge_inv files bs w 0 s" "reads_files files bs rd"
  shows "\<exists>t. foldR (merge_read (rd r)) [0..<length files] s = Ret t \<and> merge_inv files bs w 0 t \<and> loaded files bs r t"
proof -
  have "\<exists>t. foldR (merge_read (rd r)) [0..<length files] s = Ret t \<and>
      merge_inv files bs w 0 t \<and> loaded_upto files bs r (length files) t"
    using merge_read_step [OF _ _ assms(2)] assms(1)
    by (intro foldR_upt_total [where P = "\<lambda>k t. merge_inv files bs w 0 t \<and> loaded_upto files bs r k t"])
      (auto simp: loaded_upto_def)
  then show ?thesis by (auto simp: loaded_def loaded_upto_def)
qed

lemma merge_inv_round:
  assumes "merge_inv files bs (r * bs) 0 s" "reads_files files bs rd" "full_writer wr" "0 < bs" "files \<noteq> []"
  shows "\<exists>t. merge_round wr (length files) bs (rd r) s = Ret t \<and> merge_inv files bs (Suc r * bs) 0 t \<and>
    ((\<forall>j < length files. ficherosTerminados t ! j = 1) \<longrightarrow> a_Escribir t = punterowrite t)"
proof -
  have "merge_inv files bs (r * bs) 0 (s\<lparr>contador := 0\<rparr>)"
    using assms(1) by (simp add: merge_inv_def produced_def terminados_def)
  then obtain t where t: "foldR (merge_read (rd r)) [0..<length files] (s\<lparr>contador := 0\<rparr>) = Ret t"
    "merge_inv files bs (r * bs) 0 t" "loaded files bs r t"
    using merge_inv_reads assms(2) by blast
  let ?P = "\<lambda>v u. merge_inv files bs (r * bs + v) 0 u \<and> loaded files bs r u \<and>
    (0 < v \<longrightarrow> (\<forall>j < length files. ficherosTerminados u ! j = 1) \<longrightarrow> a_Escribir u = punterowrite u)"
  have "\<exists>u. foldR (merge_row wr (length files) bs) [0..<bs] (t\<lparr>a_Escribir := 0\<rparr>) = Ret u \<and> ?P bs u"
  proof (rule foldR_upt_total [where P = ?P])
    show "?P 0 (t\<lparr>a_Escribir := 0\<rparr>)"
      using t(2,3) by (simp add: merge_inv_def loaded_def produced_def terminados_def)
  next
    fix v u
    assume "v < bs" "?P v u"
    then show "\<exists>u'. merge_row wr (length files) bs v u = Ret u' \<and> ?P (Suc v) u'"
      using merge_inv_row assms(3,5) by blast
  qed simp
  then show ?thesis using t(1) assms(4) by (auto simp: merge_round_def add.commute)
qed

lemma terminados_all: "terminados num s = num \<longleftrightarrow> (\<forall>j < num. ficherosTerminados s ! j = 1)"
proof -
  have "length (filter P xs) = length xs \<longleftrightarrow> (\<forall>x \<in> set xs. P x)" for P and xs :: "nat list"
    using length_filter_less [of _ xs P] by fastforce
  from this [of _ "[0..<num]"] show ?thesis by (auto simp: terminados_def)
qed

lemma terminados_le: "terminados num s \<le> num"
  unfolding terminados_def by (metis diff_zero length_filter_le length_upt)

lemma merge_loop_interleave:
  assumes "merge_inv files bs (r * bs) 0 s" "contador s \<noteq> length files" "r * bs \<le> longest files"
    and "longest files < (r + fuel) * bs" "reads_files files bs rd" "full_writer wr" "files \<noteq> []"
  shows "\<exists>t. merge_loop fuel wr (length files) bs rd r s = Some (Ret t) \<and> salida t = interleave files"
  using assms(1-4)
proof (induction fuel arbitrary: r s)
  case (Suc fuel)
  have "0 < bs" using Suc.prems(4) by (cases bs) auto
  then obtain t where t: "merge_round wr (length files) bs (rd r) s = Ret t" "merge_inv files bs (Suc r * bs) 0 t"
    "(\<forall>j < length files. ficherosTerminados t ! j = 1) \<longrightarrow> a_Escribir t = punterowrite t"
    using merge_inv_round [OF Suc.prems(1) assms(5,6)] assms(7) by blast
  have all: "(\<forall>j < length files. ficherosTerminados t ! j = 1) \<longleftrightarrow> longest files < Suc r * bs"
    using t(2) longest_less [OF assms(7)] by (simp add: merge_inv_def)
  show ?case
  proof (cases "longest files < Suc r * bs")
    case True
    then have "salida t @ take (punterowrite t) (bufSalida t) = interleave files"
      using t(2) rows_interleave [of files "Suc r * bs"] by (simp add: merge_inv_def produced_def)
    then show ?thesis using True Suc.prems(2) t all assms(6) by (simp add: terminados_all merge_write_def)
  next
    case False
    then have "terminados (length files) t \<noteq> length files" using all by (simp add: terminados_all)
    moreover from this have "contador t \<noteq> length files"
      using t(2) terminados_le [of "length files" t] by (auto simp: merge_inv_def)
    ultimately show ?thesis using Suc.IH [OF t(2)] False Suc.prems(2,4) t(1) by simp
  qed
qed simp

section \<open>The whole program\<close>

lemma open_fds_ok:
  assumes "k \<le> n" "length arr = n" "take k arr = map Fd [0..<k]" "\<And>i. i < n \<Longrightarrow> opens i"
  shows "open_fds opens None [k..<n] 0 arr = Ret (map Fd [0..<n])"
  using assms
proof (induction k arbitrary: arr rule: inc_induct)
  case (step k)
  then have "take (Suc k) (arr[k := Fd k]) = map Fd [0..<Suc k]" by (simp add: take_Suc_conv_app_nth)
  then show ?case using step by (simp add: upt_conv_Cons set_FD_def open_in_def)
qed simp

lemma posicionFicheroMalo_None: "(\<And>i. i < n \<Longrightarrow> exis i) \<Longrightarrow> posicionFicheroMalo exis n = None"
  by (induction n) (auto simp: posicionFicheroMalo_def)

text \<open>The command line of a run without faults: \<open>merge_files -t SIZE [-o FILE] f1 ... fn\<close>.\<close>

definition merge_args :: "nat \<Rightarrow> string option \<Rightarrow> string option \<Rightarrow> bool \<Rightarrow> nat \<Rightarrow> bool" where
  "merge_args optind mem out outok bs \<longleftrightarrow>
     (\<exists>t. mem = Some t \<and> merge_SizeBuff t = Ret bs) \<and> optind = (if out = None then 3 else 5) \<and> (out = None \<or> outok)"

lemma merge_files_interleave:
  assumes "merge_args optind mem out outok bs" "files \<noteq> []" "length files \<le> 16"
    and "\<And>i. i < length files \<Longrightarrow> exis i \<and> opens i"
    and "length junk = length files" "1 \<notin> set junk" "full_writer wr" "reads_files files bs rd" "longest files div bs < fuel"
  shows "merge_files fuel (optind + length files) optind mem out outok exis opens junk wr rd = Some (Ret (interleave files))"
proof -
  let ?n = "length files"
  obtain t where t: "mem = Some t" "merge_SizeBuff t = Ret bs" using assms(1) by (auto simp: merge_args_def)
  then have bs: "0 < bs" by (auto simp: merge_SizeBuff_def split: if_splits)
  have num: "merge_NumFicheros (optind + ?n) mem out = Ret ?n" "optind + ?n \<noteq> 1"
    using assms(1-3) t by (auto simp: merge_NumFicheros_def merge_args_def neq_Nil_conv)
  have bad: "filter (\<lambda>k. \<not> exis k) [0..<?n] = []" using assms(4) by (simp add: filter_empty_conv)
  have fds: "open_fds opens None [0..<?n] 0 (replicate ?n Unset) = Ret (map Fd [0..<?n])"
    using assms(4) by (intro open_fds_ok) auto
  have "junk ! j \<noteq> 1" if "j < ?n" for j using assms(5,6) that by (metis nth_mem)
  then have start: "merge_inv files bs (0 * bs) 0 (merge_start ?n bs junk)"
    using assms(2,5) bs by (auto simp: merge_inv_def merge_start_def produced_def rows_def)
  have rd: "reads_files files bs (read_fd (map Fd [0..<?n]) rd)"
    using assms(8) by (simp add: reads_files_def read_fd_def)
  have "longest files < (0 + fuel) * bs" using assms(9) bs by (simp add: div_less_iff_less_mult)
  then obtain s where "merge_loop fuel wr ?n bs (read_fd (map Fd [0..<?n]) rd) 0 (merge_start ?n bs junk) = Some (Ret s)"
    "salida s = interleave files"
    using merge_loop_interleave [OF start _ _ _ rd assms(7,2)] assms(2) by (auto simp: merge_start_def)
  then show ?thesis using t num bad fds assms(1,4) posicionFicheroMalo_None [of ?n exis]
    by (auto simp: merge_files_def merge_args_def)
qed


section \<open>Merging what split_files has dealt out\<close>

lemma nths_single: "nths ys {j} = take (Suc 0) (drop j ys)"
  by (induction ys rule: rev_induct) (auto simp: nths_append take_1_drop nth_append)

lemma length_dealt: "length (dealt num xs j) \<le> length xs"
  unfolding dealt_def nths_def by (simp add: order.trans [OF length_filter_le])

lemma dealt_first:
  assumes "j < num"
  shows "dealt num xs j = take (Suc 0) (drop j (take num xs)) @ dealt num (drop num xs) j"
proof -
  have "nths (take num xs) {i. i mod num = j} = nths (take num xs) {j}"
    unfolding nths_def using assms
    by (intro arg_cong [where f = "map fst"] filter_cong) (auto dest!: set_zip_rightD)
  moreover have "nths (drop num xs) {i. (i + length (take num xs)) mod num = j} = dealt num (drop num xs) j"
    unfolding dealt_def by (cases "num \<le> length xs") (simp_all add: min_def)
  ultimately show ?thesis
    using nths_append [of "take num xs" "drop num xs" "{i. i mod num = j}"] by (simp add: dealt_def nths_single)
qed

lemma dealt_nth:
  assumes "j < num"
  shows "take (Suc 0) (drop w (dealt num xs j)) = take (Suc 0) (drop (w * num + j) xs)"
proof (induction w arbitrary: xs)
  case 0
  then show ?case using assms by (cases "j < length xs") (auto simp: dealt_first [OF assms, of xs] take_1_drop)
next
  case (Suc w)
  show ?case
  proof (cases "j < length xs")
    case True
    then show ?thesis using assms Suc [of "drop num xs"]
      by (simp add: dealt_first [OF assms, of xs] take_1_drop add.commute add.left_commute)
  next
    case False
    then have "dealt num xs j = []" using assms by (simp add: dealt_first [OF assms, of xs])
    then show ?thesis using False by simp
  qed
qed

lemma concat_singles: "concat (map (\<lambda>j. take (Suc 0) (drop j ys)) [0..<n]) = take n ys"
  by (induction n) (auto simp: take_1_drop take_Suc_conv_app_nth)

lemma longest_dealt:
  assumes "0 < num"
  shows "longest (map (dealt num xs) [0..<num]) \<le> length xs"
proof -
  let ?files = "map (dealt num xs) [0..<num]"
  obtain f where "f \<in> set ?files" "length f = longest ?files" using longest_attained [of ?files] assms by auto
  then show ?thesis using length_dealt [of num xs] by (metis (no_types, lifting) imageE list.set_map)
qed

lemma interleave_dealt:
  assumes "0 < num"
  shows "interleave (map (dealt num xs) [0..<num]) = xs"
proof -
  let ?files = "map (dealt num xs) [0..<num]"
  have "row ?files w = take num (drop (w * num) xs)" for w
  proof -
    have "map (\<lambda>f. take 1 (drop w f)) ?files = map (\<lambda>j. take (Suc 0) (drop j (drop (w * num) xs))) [0..<num]"
      by (simp add: dealt_nth add.commute)
    then show ?thesis by (simp only: row_def concat_singles)
  qed
  then have "rows ?files w = take (w * num) xs" for w
    by (induction w) (auto simp: rows_def take_add add.commute [of num])
  moreover have "length xs \<le> length xs * num" using assms by simp
  ultimately show ?thesis using rows_interleave [OF longest_dealt [OF assms, of xs]] by simp
qed




section \<open>Faults of the command line\<close>

text \<open>
  If one of the input files is missing and it is not the last one, the descriptor of the last file goes
  behind the end of the array.
\<close>

lemma open_fds_index:
  assumes "k \<noteq> 0 \<or> activador = 0" "malo \<noteq> Some n" "k \<le> n" "length arr \<le> n"
  shows "open_fds opens malo [k..<Suc n] activador arr = Undef ''arrayFD''"
  using assms(3,1,4)
proof (induction k arbitrary: activador arr rule: inc_induct)
  case base
  then show ?case using assms(2) by (auto simp: set_FD_def)
next
  case (step k)
  have "[k..<Suc n] = k # [Suc k..<Suc n]" using step.hyps by (simp add: upt_conv_Cons del: upt_Suc)
  moreover have "open_fds opens malo [Suc k..<Suc n] a arr' = Undef ''arrayFD''" if "length arr' \<le> n" for a arr'
    using step.IH that by simp
  ultimately show ?case using step.prems(2)
    by (cases "malo = Some k") (auto simp: set_FD_def simp del: upt_Suc)
qed

lemma posicionFicheroMalo_less: "posicionFicheroMalo exis n = Some i \<Longrightarrow> i < n"
  by (induction n) (auto simp: posicionFicheroMalo_def split: if_splits)

lemma merge_missing_file:
  assumes "merge_args optind mem out outok bs" "k < n" "n < 16" "\<not> exis k" "exis n"
  shows "merge_files fuel (optind + Suc n) optind mem out outok exis opens junk wr rd = Some (Undef ''arrayFD'')"
proof -
  let ?bad = "length (filter (\<lambda>k. \<not> exis k) [0..<Suc n])"
  have "posicionFicheroMalo exis (Suc n) = posicionFicheroMalo exis n"
    using assms(5) by (simp add: posicionFicheroMalo_def)
  then have malo: "posicionFicheroMalo exis (Suc n) \<noteq> Some n"
    using posicionFicheroMalo_less [of exis n n] by auto
  have "filter (\<lambda>k. \<not> exis k) [0..<Suc n] \<noteq> []" using assms(2,4) by (auto simp: filter_empty_conv)
  then have bad: "0 < ?bad" "?bad \<le> Suc n" using length_filter_le [of "\<lambda>k. \<not> exis k" "[0..<Suc n]"]
    by (simp_all del: upt_Suc filter.simps)
  have "merge_NumFicheros (optind + Suc n) mem out = Ret (Suc n)"
    using assms(1,3) by (auto simp: merge_NumFicheros_def merge_args_def)
  moreover have "Suc n - ?bad \<le> n" using bad(1) by linarith
  then have "open_fds opens (posicionFicheroMalo exis (Suc n)) [0..<Suc n] 0 (replicate (Suc n - ?bad) Unset) = Undef ''arrayFD''"
    using malo by (intro open_fds_index) (simp_all del: upt_Suc)
  moreover obtain t where "mem = Some t" "merge_SizeBuff t = Ret bs" using assms(1) by (auto simp: merge_args_def)
  ultimately show ?thesis using assms(1) bad(2)
    by (auto simp: merge_files_def merge_args_def Let_def simp del: upt_Suc)
qed

text \<open>Without \<open>-t\<close> the program allocates buffers of an uninitialised size.\<close>

lemma merge_no_size:
  assumes "0 < n" "n \<le> 16" "\<And>i. i < n \<Longrightarrow> exis i \<and> opens i"
  shows "merge_files fuel (1 + n) 1 None None outok exis opens junk wr rd = Some (Undef ''buf_size'')"
proof -
  have "open_fds opens None [0..<n] 0 (replicate n Unset) = Ret (map Fd [0..<n])"
    using assms(3) by (intro open_fds_ok) auto
  moreover have "filter (\<lambda>k. \<not> exis k) [0..<n] = []" using assms(3) by (simp add: filter_empty_conv)
  ultimately show ?thesis using assms posicionFicheroMalo_None [of n exis]
    by (simp add: merge_files_def merge_NumFicheros_def)
qed

end
