(* ===== verification/Mystrings.thy ===== *)
theory Mystrings
  imports Posix
begin

text \<open>
  \<open>syscalls/Semana4/src/Tarea4/mystrings.c\<close>: the runs of printable characters of the standard input that are long
  enough go to the standard output. Leaving with \<open>exit(EXIT_FAILURE)\<close> is \<^const>\<open>Panic\<close>.
\<close>

section \<open>The loop\<close>

record mystr =
  bufEscritura :: "byte list"
  puntero :: nat
  contador :: nat
  salida :: "byte list"

definition mystr_start :: "nat \<Rightarrow> mystr" where
  "mystr_start bs = \<lparr>bufEscritura = replicate bs 0, puntero = 0, contador = 0, salida = []\<rparr>"

text \<open>\<open>isprint\<close> in the C locale, or a newline or a tabulator.\<close>

definition imprimible :: "byte \<Rightarrow> bool" where
  "imprimible c \<longleftrightarrow> (32 \<le> c \<and> c \<le> 126) \<or> c = 10 \<or> c = 9"

text \<open>The output buffer has \<open>buf_size\<close> bytes, and the code does not check the index.\<close>

definition mystr_put :: "nat \<Rightarrow> byte \<Rightarrow> mystr \<Rightarrow> mystr res" where
  "mystr_put bs c s =
     (if puntero s < bs
      then Ret (s\<lparr>bufEscritura := (bufEscritura s)[puntero s := c], puntero := Suc (puntero s), contador := Suc (contador s)\<rparr>)
      else Undef ''bufEscritura'')"

definition mystr_write :: "writer \<Rightarrow> mystr \<Rightarrow> mystr res" where
  "mystr_write wr s =
     bindR (write_retry wr (take (puntero s) (bufEscritura s))) (\<lambda>d. Ret (s\<lparr>salida := salida s @ d\<rparr>))"

definition mystr_byte :: "writer \<Rightarrow> nat \<Rightarrow> nat \<Rightarrow> byte \<Rightarrow> mystr \<Rightarrow> mystr res" where
  "mystr_byte wr bs min_length c s =
     (if imprimible c then mystr_put bs c s
      else bindR (if contador s < puntero s \<or> contador s < min_length then Ret (s\<lparr>puntero := 0, contador := 0\<rparr>)
                  else if min_length \<le> contador s then mystr_write wr s
                  else Ret s) (\<lambda>s.
        Ret (s\<lparr>puntero := 0, contador := 0\<rparr>)))"

text \<open>A short read while a long run is open: its printable bytes are added and the program ends.\<close>

definition mystr_short :: "writer \<Rightarrow> nat \<Rightarrow> byte list \<Rightarrow> mystr \<Rightarrow> mystr res" where
  "mystr_short wr bs d s =
     bindR (foldR (\<lambda>c s. if imprimible c then mystr_put bs c s else Ret s) d s) (mystr_write wr)"

definition mystr_end :: "writer \<Rightarrow> nat \<Rightarrow> mystr \<Rightarrow> mystr res" where
  "mystr_end wr min_length s = (if 0 < puntero s \<and> min_length \<le> contador s then mystr_write wr s else Ret s)"

text \<open>The list holds the outcomes of the calls of \<open>read\<close>; after the last one \<open>read\<close> returns 0.\<close>

primrec mystr_loop :: "writer \<Rightarrow> nat \<Rightarrow> nat \<Rightarrow> byte list option list \<Rightarrow> mystr \<Rightarrow> mystr res" where
  "mystr_loop wr bs min_length [] s = mystr_end wr min_length s"
| "mystr_loop wr bs min_length (r # rs) s =
     bindR (read_retry r) (\<lambda>d.
       if length d \<le> min_length \<and> min_length < contador s \<and> d \<noteq> [] then mystr_short wr bs d s
       else bindR (foldR (mystr_byte wr bs min_length) d s) (\<lambda>s.
         if d = [] then mystr_end wr min_length s else mystr_loop wr bs min_length rs s))"

section \<open>The command line\<close>

definition comprobarSizeBuff :: "string \<Rightarrow> nat \<Rightarrow> nat res" where
  "comprobarSizeBuff memoria min_length =
     bindR (atoi_libc memoria) (\<lambda>n.
       if n < int min_length \<or> n < 1 \<or> n > 1048576 then Panic ''Error: Tamano de buffer incorrecto.'' else Ret (nat n))"

definition comprobarSizeCadena :: "string \<Rightarrow> nat res" where
  "comprobarSizeCadena cadena =
     bindR (atoi_libc cadena) (\<lambda>n.
       if n < 1 \<or> n > 255 then Panic ''La longitud minima de cadena tiene que ser mayor que 0 y menor que 256.''
       else Ret (nat n))"

definition mystrings :: "string option \<Rightarrow> string option \<Rightarrow> writer \<Rightarrow> byte list option list \<Rightarrow> byte list res" where
  "mystrings bufsize minlength wr input =
     bindR (case minlength of None \<Rightarrow> Ret 4 | Some n \<Rightarrow> comprobarSizeCadena n) (\<lambda>min_length.
     bindR (case bufsize of None \<Rightarrow> Ret 1024 | Some t \<Rightarrow> comprobarSizeBuff t min_length) (\<lambda>bs.
     bindR (mystr_loop wr bs min_length input (mystr_start bs)) (\<lambda>s. Ret (salida s))))"

section \<open>The runs of a text\<close>

function runs :: "byte list \<Rightarrow> byte list list" where
  "runs xs =
     (case dropWhile (\<lambda>c. \<not> imprimible c) xs of
        [] \<Rightarrow> []
      | y # ys \<Rightarrow> takeWhile imprimible (y # ys) # runs (dropWhile imprimible ys))"
  by pat_completeness auto
termination
proof (relation "measure length")
  fix xs y ys
  assume "dropWhile (\<lambda>c. \<not> imprimible c) xs = y # ys"
  then have "length (y # ys) \<le> length xs" by (metis length_dropWhile_le)
  then show "(dropWhile imprimible ys, xs) \<in> measure length"
    using length_dropWhile_le [of imprimible ys] by simp
qed simp

declare runs.simps [simp del]

definition long_runs :: "nat \<Rightarrow> byte list \<Rightarrow> byte list" where
  "long_runs n xs = concat (filter (\<lambda>w. n \<le> length w) (runs xs))"

lemma runs_Nil [simp]: "runs [] = []"
  by (simp add: runs.simps)

lemma runs_skip [simp]: "\<not> imprimible c \<Longrightarrow> runs (c # xs) = runs xs"
  by (simp add: runs.simps [of "c # xs"] runs.simps [of xs])

lemma runs_word:
  assumes "\<forall>c \<in> set w. imprimible c" "w \<noteq> []"
  shows "runs (w @ xs) = (w @ takeWhile imprimible xs) # runs (dropWhile imprimible xs)"
proof -
  obtain y ys where w: "w = y # ys" "imprimible y" "\<forall>c \<in> set ys. imprimible c" using assms by (cases w) auto
  then show ?thesis by (subst runs.simps) (simp add: takeWhile_append dropWhile_append)
qed

lemma runs_print [simp]:
  "imprimible c \<Longrightarrow> runs (c # xs) = (c # takeWhile imprimible xs) # runs (dropWhile imprimible xs)"
  using runs_word [of "[c]" xs] by simp

lemma runs_word_end:
  "\<forall>c \<in> set w. imprimible c \<Longrightarrow> \<not> imprimible c \<Longrightarrow> runs (w @ c # xs) = (if w = [] then [] else [w]) @ runs xs"
  by (simp add: runs_word)

section \<open>What mystrings writes\<close>

text \<open>The buffer holds the open run \<open>w\<close>.\<close>

definition open_run :: "nat \<Rightarrow> byte list \<Rightarrow> mystr \<Rightarrow> bool" where
  "open_run bs w s \<longleftrightarrow>
     length (bufEscritura s) = bs \<and> puntero s = length w \<and> contador s = length w \<and> length w \<le> bs \<and>
     take (length w) (bufEscritura s) = w \<and> (\<forall>c \<in> set w. imprimible c)"

lemma open_run_put:
  assumes "open_run bs w s" "imprimible c" "length w < bs"
  shows "\<exists>t. mystr_put bs c s = Ret t \<and> open_run bs (w @ [c]) t \<and> salida t = salida s"
  using assms by (auto simp: mystr_put_def open_run_def take_Suc_conv_app_nth)

lemma open_run_flush:
  assumes "open_run bs w s" "\<not> imprimible c" "full_writer wr"
  shows "\<exists>t. mystr_byte wr bs n c s = Ret t \<and> open_run bs [] t \<and> salida t = salida s @ (if n \<le> length w then w else [])"
  using assms by (auto simp: mystr_byte_def mystr_write_def open_run_def)

lemma runs_bound:
  assumes "\<forall>c \<in> set (w @ [c]). imprimible c" "\<forall>v \<in> set (runs (w @ c # xs)). length v \<le> bs"
  shows "length w < bs"
proof -
  have "runs (w @ c # xs) = ((w @ [c]) @ takeWhile imprimible xs) # runs (dropWhile imprimible xs)"
    using runs_word [of "w @ [c]" xs] assms(1) by simp
  then show ?thesis using assms(2) by simp
qed

text \<open>Running over \<open>d\<close> writes the runs that end in \<open>d\<close> and leaves the last one open.\<close>

lemma mystr_bytes:
  assumes "open_run bs w s" "\<forall>v \<in> set (runs (w @ d @ xs)). length v \<le> bs" "full_writer wr" "0 < n"
  shows "\<exists>t w'. foldR (mystr_byte wr bs n) d s = Ret t \<and> open_run bs w' t \<and>
    salida s @ long_runs n (w @ d @ xs) = salida t @ long_runs n (w' @ xs) \<and>
    (\<forall>v \<in> set (runs (w' @ xs)). length v \<le> bs)"
  using assms(1,2)
proof (induction d arbitrary: w s)
  case (Cons c d)
  show ?case
  proof (cases "imprimible c")
    case True
    then have "length w < bs" using Cons.prems runs_bound [of w c "d @ xs" bs] by (auto simp: open_run_def)
    then obtain t where "mystr_put bs c s = Ret t" "open_run bs (w @ [c]) t" "salida t = salida s"
      using open_run_put Cons.prems(1) True by blast
    then show ?thesis using Cons.IH [of "w @ [c]" t] Cons.prems(2) True by (auto simp: mystr_byte_def)
  next
    case False
    obtain t where t: "mystr_byte wr bs n c s = Ret t" "open_run bs [] t"
      "salida t = salida s @ (if n \<le> length w then w else [])"
      using open_run_flush [OF Cons.prems(1) False assms(3)] by blast
    moreover have r: "runs (w @ c # d @ xs) = (if w = [] then [] else [w]) @ runs (d @ xs)"
      using runs_word_end False Cons.prems(1) by (simp add: open_run_def)
    moreover have "salida s @ long_runs n (w @ c # d @ xs) = salida t @ long_runs n (d @ xs)"
      using t(3) r assms(4) by (auto simp: long_runs_def)
    ultimately show ?thesis using Cons.IH [of "[]" t] Cons.prems(2) by auto
  qed
qed auto

lemma mystr_loop_runs:
  assumes "open_run bs w s" "\<forall>v \<in> set (runs (w @ concat cs)). length v \<le> bs" "full_writer wr" "0 < n"
    and "\<forall>d \<in> set cs. n < length d"
  shows "\<exists>t. mystr_loop wr bs n (map Some cs) s = Ret t \<and> salida t = salida s @ long_runs n (w @ concat cs)"
  using assms(1,2,5)
proof (induction cs arbitrary: w s)
  case Nil
  have "w \<noteq> [] \<Longrightarrow> runs w = [w]" using Nil.prems(1) runs_word [of w "[]"] by (simp add: open_run_def)
  then have "runs w = (if w = [] then [] else [w])" by simp
  then show ?case using Nil.prems(1) assms(3,4)
    by (auto simp: mystr_end_def mystr_write_def open_run_def long_runs_def)
next
  case (Cons d cs)
  obtain t w' where t: "foldR (mystr_byte wr bs n) d s = Ret t" "open_run bs w' t"
    "salida s @ long_runs n (w @ d @ concat cs) = salida t @ long_runs n (w' @ concat cs)"
    "\<forall>v \<in> set (runs (w' @ concat cs)). length v \<le> bs"
    using mystr_bytes [OF Cons.prems(1) _ assms(3,4)] Cons.prems(2) by (metis concat.simps(2))
  then show ?case using Cons.IH [OF t(2,4)] Cons.prems(3) by auto
qed

text \<open>
  C34. When every read delivers more than \<open>MINLENGTH\<close> bytes and no run of printable characters is
  longer than the buffer, \<open>mystrings\<close> writes exactly the maximal runs of at least \<open>MINLENGTH\<close> characters, one
  after the other, wherever the reads cut the input, runs across two or more reads included.
\<close>
theorem mystrings_runs:
  assumes "case minlength of None \<Rightarrow> n = 4 | Some t \<Rightarrow> comprobarSizeCadena t = Ret n"
    and "case bufsize of None \<Rightarrow> bs = 1024 | Some t \<Rightarrow> comprobarSizeBuff t n = Ret bs"
    and "full_writer wr" "\<forall>d \<in> set cs. n < length d" "\<forall>v \<in> set (runs (concat cs)). length v \<le> bs"
  shows "mystrings bufsize minlength wr (map Some cs) = Ret (long_runs n (concat cs))"
proof -
  have "0 < n" using assms(1) by (auto simp: comprobarSizeCadena_def split: option.splits if_splits)
  moreover have "open_run bs [] (mystr_start bs)" by (simp add: open_run_def mystr_start_def)
  ultimately obtain t where "mystr_loop wr bs n (map Some cs) (mystr_start bs) = Ret t"
    "salida t = long_runs n (concat cs)"
    using mystr_loop_runs [of bs "[]" "mystr_start bs" cs wr n] assms(3-5) by (auto simp: mystr_start_def)
  moreover have "(case minlength of None \<Rightarrow> Ret 4 | Some n \<Rightarrow> comprobarSizeCadena n) = Ret n"
    "(case bufsize of None \<Rightarrow> Ret 1024 | Some t \<Rightarrow> comprobarSizeBuff t n) = Ret bs"
    using assms(1,2) by (auto split: option.splits)
  ultimately show ?thesis by (simp add: mystrings_def)
qed

theorem mystrings_runs_witness:
  "mystrings None (Some ''2'') (\<lambda>d. Some (length d)) [Some [97, 0, 98], Some [99, 0, 100]] = Ret [98, 99]"
proof -
  have "comprobarSizeCadena ''2'' = Ret 2" by code_simp
  moreover have "runs [97, 0, 98, 99, 0, 100] = [[97], [98, 99], [100]]"
    by (simp add: imprimible_def word_le_nat_alt)
  ultimately show ?thesis
    using mystrings_runs [where minlength = "Some ''2''" and n = 2 and bufsize = None and bs = 1024 and
      wr = "\<lambda>d. Some (length d)" and cs = "[[97, 0, 98], [99, 0, 100]]"]
    by (simp add: long_runs_def)
qed

section \<open>Faults\<close>

text \<open>
  A read of at most \<open>MINLENGTH\<close> bytes that comes while a longer run is open ends the program: the printable
  bytes of the read are added to the run, whatever lies between them, and the rest of the input is not read.
\<close>

lemma mystr_short_put:
  assumes "open_run bs w s" "length w + length d \<le> bs"
  shows "\<exists>t. foldR (\<lambda>c s. if imprimible c then mystr_put bs c s else Ret s) d s = Ret t \<and>
    open_run bs (w @ filter imprimible d) t \<and> salida t = salida s"
  using assms
proof (induction d arbitrary: w s)
  case (Cons c d)
  show ?case
  proof (cases "imprimible c")
    case True
    then obtain t where "mystr_put bs c s = Ret t" "open_run bs (w @ [c]) t" "salida t = salida s"
      using open_run_put [of bs w s c] Cons.prems by auto
    then show ?thesis using Cons.IH [of "w @ [c]" t] Cons.prems(2) True by auto
  next
    case False
    then show ?thesis using Cons by simp
  qed
qed simp

lemma mystrings_stops:
  assumes "open_run bs w s" "n < length w" "length d \<le> n" "d \<noteq> []" "length w + length d \<le> bs" "full_writer wr"
  shows "\<exists>t. mystr_loop wr bs n (Some d # rs) s = Ret t \<and> salida t = salida s @ w @ filter imprimible d"
proof -
  obtain t where t: "foldR (\<lambda>c s. if imprimible c then mystr_put bs c s else Ret s) d s = Ret t"
    "open_run bs (w @ filter imprimible d) t" "salida t = salida s"
    using mystr_short_put [OF assms(1,5)] by blast
  from t(2) have "take (puntero t) (bufEscritura t) = w @ filter imprimible d" by (simp only: open_run_def)
  then have "mystr_write wr t = Ret (t\<lparr>salida := salida t @ w @ filter imprimible d\<rparr>)"
    using assms(6) by (simp add: mystr_write_def)
  then have "mystr_short wr bs d s = Ret (t\<lparr>salida := salida t @ w @ filter imprimible d\<rparr>)"
    by (simp add: mystr_short_def t(1))
  moreover have "contador s = length w" using assms(1) by (simp add: open_run_def)
  ultimately show ?thesis using assms(2-4) t(3) by simp
qed

text \<open>A run that is longer than the buffer is written behind its end.\<close>

lemma mystrings_overflow:
  assumes "open_run bs w s" "length w = bs" "imprimible c"
  shows "mystr_byte wr bs n c s = Undef ''bufEscritura''"
  using assms by (simp add: mystr_byte_def mystr_put_def open_run_def)

end
