(* ===== verification/Spec2Isabelle.thy ===== *)
theory Spec2Isabelle
  imports Strings Locks Lru Admission Dir Kalloc Pipe Grep Sh Console Vm Ptable FsFrame Refs MkfsImage Umalloc Merge Mystrings
begin

text \<open>
  Verification of the xv6 kernel, its user library and file system tools under \<open>src/xv6\<close>, and of the file programs of the
  course under \<open>src/syscalls\<close>.

  \<^bold>\<open>The program.\<close> A system call of a process traps into the kernel. The dispatcher fetches the arguments through the page table
  of the process and calls the handler. Handlers work on the process table, on the table of open files, on pipes, and, through
  inodes, on the file system. The file system changes blocks in the buffer cache only, inside a transaction of the log; the end of
  the last outstanding call commits the transaction to the disk. Pages of memory come from the page allocator. The file system image
  the kernel mounts is built by \<open>mkfs\<close>. The user library and the shell, \<open>grep\<close> and the course programs run above the system calls.

  \<^bold>\<open>Conventions.\<close> Kernel code is a function on an explicit state with a result of type \<open>res\<close> (\<open>Prelude\<close>): \<open>Ret\<close> a value, \<open>Panic\<close> a
  message, \<open>Sleep\<close> on a channel (the operation is then run again from its start, or goes on as its result says), and \<open>Undef\<close> for behaviour the
  C language leaves open, such as an index out of range. The states are extensible records: \<open>kbio\<close> (buffers and disk), \<open>klog\<close> adds
  the log, \<open>kfs\<close> the inodes, \<open>kern\<close> files, processes, pipes, memory. A lemma about a lower layer so holds in the whole kernel.
  Machine integers are words; the arithmetic of the source wraps around where the source does. Memory is a
  function from addresses to bytes, the disk a list of blocks. A caller that holds a lock runs alone, so
  sequential operations leave the lock out; where the interleaving is the point (spin locks, log admission, pipes, process table) the steps of all
  participants are an inductive relation, and the invariant is proved for every reachable state with the locale \<open>inductive_invariant\<close>.
  The panic message of a check is that of the source; messages that are only printed are left out.

  \<^bold>\<open>Theories, their source under \<open>src\<close>, and what is shown.\<close>

  \<^item> \<open>Prelude\<close>: results, words, little-endian fields, loops that may fail, reachability.
  \<^item> \<open>Strings\<close>: \<open>xv6/string.c\<close>, \<open>xv6/ulib.c\<close>. \<open>memmove\<close> copies also between overlapping regions; comparison and copying of names.
  \<^item> \<open>Locks\<close>: \<open>xv6/spinlock.c\<close>, \<open>xv6/sleeplock.c\<close>. Mutual exclusion of the processors, and who holds a lock.
  \<^item> \<open>Bio\<close>, \<open>Lru\<close>: \<open>xv6/bio.c\<close>, \<open>xv6/memide.c\<close>. \<open>bread\<close> returns the one cached copy of a block; the linked list of buffers refines the
    list of \<open>Bio\<close>.
  \<^item> \<open>Log\<close>, \<open>Admission\<close>: \<open>xv6/log.c\<close>. A commit is atomic for a crash between any two disk writes, recovery may be interrupted and
    repeated, the end of a transaction makes it durable; concurrent calls never exceed the space reserved, but can exceed the log of the disk.
  \<^item> \<open>Fs\<close>, \<open>FsBlocks\<close>, \<open>FsFile\<close>, \<open>FsIo\<close>, \<open>Dir\<close>: \<open>xv6/fs.c\<close>. Blocks, inodes, the bytes of a file, directories, paths: the contracts of
    \<open>balloc\<close>, \<open>bmap\<close>, \<open>readi\<close>, \<open>writei\<close>, \<open>iupdate\<close>, \<open>ilock\<close>, \<open>dirlookup\<close>, \<open>dirlink\<close> against the abstract contents of a file.
  \<^item> \<open>FsFrame\<close>: the file system leaves the rest of the kernel's state alone.
  \<^item> \<open>Kalloc\<close>, \<open>Vm\<close>: \<open>xv6/kalloc.c\<close>, \<open>xv6/vm.c\<close>. No page is handed out twice (locale \<open>page_allocator\<close>); \<open>mappages\<close> and \<open>allocuvm\<close> map
    exactly the pages asked for.
  \<^item> \<open>Ring\<close>, \<open>Pipe\<close>: \<open>xv6/pipe.c\<close>. Pipes are queues (locale \<open>fifo\<close>), and nobody sleeps on a pipe that has work for them.
  \<^item> \<open>Ptable\<close>, \<open>Proc\<close>: \<open>xv6/proc.c\<close>. The process table stays well formed under every interleaving, and no wakeup of \<open>wait\<close> is lost.
  \<^item> \<open>File\<close>, \<open>Args\<close>, \<open>Sysfile\<close>, \<open>Exec\<close>, \<open>Syscall\<close>, \<open>Refs\<close>: \<open>xv6/file.c\<close>, \<open>xv6/syscall.c\<close>, \<open>xv6/sysfile.c\<close>, \<open>xv6/exec.c\<close>, \<open>xv6/sysproc.c\<close>,
    \<open>xv6/trap.c\<close>. Arguments stay inside the process; every system call keeps the reference counts of open files exact.
  \<^item> \<open>Printf\<close>, \<open>Console\<close>: \<open>xv6/printf.c\<close>, \<open>xv6/console.c\<close>, \<open>xv6/kbd.c\<close>, \<open>xv6/uart.c\<close>. Digits denote the number; line editing refines an editor on lines.
  \<^item> \<open>Grep\<close>, \<open>Sh\<close>: \<open>xv6/grep.c\<close>, \<open>xv6/sh.c\<close>. The matcher decides the language of the pattern; the parser returns for every line.
  \<^item> \<open>Umalloc\<close>: \<open>xv6/umalloc.c\<close>. Blocks handed out never overlap, and no byte is lost; \<open>growproc_size\<close> below connects \<open>sbrk\<close> to the kernel.
  \<^item> \<open>Mkfs\<close>, \<open>MkfsImage\<close>: \<open>xv6/mkfs.c\<close>. The image holds the files given, and the kernel's \<open>readi\<close> reads them back.
  \<^item> \<open>Posix\<close>, \<open>Split\<close>, \<open>Merge\<close>, \<open>Mystrings\<close>: \<open>syscalls/Semana4/src/Tarea4\<close>. The outputs as functions of the inputs; merging what was split
    gives the input back.

  \<^bold>\<open>Loops and bounds.\<close> Loops are structural recursions over the range the source runs through, functions with a termination proof, or
  \<open>partial_function (option)\<close> where a loop over pointers may not end (C strings, the ring of \<open>Umalloc\<close>); the properties then state that the loop
  returns. Fuel appears in three places. The shell's parser gets depth \<open>4 * length b + 4\<close>: each of its four mutually recursive functions
  passes on at most once before a character is consumed, and \<open>parsecmd_returns\<close> shows that it is enough. The scans of \<open>Lru\<close> need more
  steps than there are buffers. The rounds of \<open>Merge\<close> need more than the longest file divided by the buffer size.

  \<^bold>\<open>Parameters.\<close> The device table of \<open>readi\<close> and \<open>writei\<close>, linker symbols, the outcomes of \<open>read\<close> and \<open>write\<close> of the host system
  for the course programs and \<open>mkfs\<close>, the results of \<open>getopt\<close>, the contents of uninitialised arrays, the memory that \<open>sbrk\<close> finds free.

  \<^bold>\<open>Not modelled.\<close> Boot code, assembly and the start of the processors; the context switch \<open>swtch\<close> itself and segment descriptors; the drivers of the
  IDE disk and of the interrupt controllers (port and register access; this kernel runs on the memory disk); \<open>usertests.c\<close> and
  the small user programs, which are sequences of system calls and prints; the part of the shell that runs commands; the exercises that only
  start other programs; the earlier versions of \<open>merge_files\<close>, superseded by the one of \<open>Semana4\<close>.
\<close>

section \<open>The heap of a process and the kernel\<close>

text \<open>
  What \<open>malloc\<close> relies on: the size of the process after \<open>sbrk\<close> is the one that \<open>growproc\<close> sets on the whole state of the kernel.
\<close>

lemma allocuvm_loop_size: "allocuvm_loop e pgdir oldsz newsz as v = Ret (r, v') \<Longrightarrow> r = newsz \<or> r = 0"
  by (induction e pgdir oldsz newsz as v rule: allocuvm_loop.induct) (auto simp: Let_def split: prod.splits if_splits)

lemma allocuvm_size:
  "allocuvm e pgdir oldsz newsz v = Ret (r, v') \<Longrightarrow>
   (if newsz \<ge> KERNBASE then r = 0 else if newsz < oldsz then r = oldsz else r = newsz \<or> r = 0)"
  by (auto simp: allocuvm_def split: if_splits dest: allocuvm_loop_size)

lemma deallocuvm_size:
  "deallocuvm e pgdir oldsz newsz v = Ret (r, v') \<Longrightarrow> r = (if newsz \<ge> oldsz then oldsz else newsz)"
  by (auto simp: deallocuvm_def split: if_splits)

lemma growproc_size:
  assumes g: "growproc ks n s = Ret (r, t)" and c: "cur s < length (procs (ptable s))"
  shows "\<exists>room. sbrk_size room (psz (myproc s)) n = (if r < 0 then None else Some (psz (myproc t)))"
proof -
  let ?p = "myproc s" and ?new = "psz (myproc s) + of_int n"
  obtain sz u where x: "(if n > 0 then in_vm (allocuvm (kend ks) (ppgdir ?p) (psz ?p) ?new) s
     else if n < 0 then in_vm (deallocuvm (kend ks) (ppgdir ?p) (psz ?p) ?new) s else Ret (psz ?p, s)) = Ret (sz, u)"
    using g by (auto simp: growproc_def Let_def)
  have u: "cur u = cur s" "ptable u = ptable s" using x by (auto simp: in_vm_def split: if_splits)
  have "(if n \<noteq> 0 \<and> sz = 0 then Ret (- 1, u) else
      let s = setproc (cur u) ((myproc u)\<lparr>psz := sz\<rparr>) u in Ret (0, s\<lparr>kvm := (kvm s)\<lparr>cr3 := V2P (ppgdir (myproc s))\<rparr>\<rparr>)) = Ret (r, t)"
    using g x by (simp add: growproc_def Let_def)
  then have rt: "if n \<noteq> 0 \<and> sz = 0 then r = - 1 else r = 0 \<and> psz (myproc t) = sz"
    using u c by (auto simp: Let_def setproc_def updproc_def split: if_splits)
  have "n > 0 \<Longrightarrow> if ?new \<ge> KERNBASE then sz = 0 else if ?new < psz ?p then sz = psz ?p else sz = ?new \<or> sz = 0"
    using x by (auto simp: in_vm_def dest!: allocuvm_size)
  moreover have "n < 0 \<Longrightarrow> sz = (if ?new \<ge> psz ?p then psz ?p else ?new)" "n = 0 \<Longrightarrow> sz = psz ?p"
    using x by (auto simp: in_vm_def dest!: deallocuvm_size)
  ultimately have "sbrk_size (\<lambda>_. sz \<noteq> 0) (psz ?p) n = (if n \<noteq> 0 \<and> sz = 0 then None else Some sz)"
    by (cases n "0 :: int" rule: linorder_cases) (auto simp: sbrk_size_def Let_def word_gt_0 split: if_splits)
  then show ?thesis using rt by (intro exI [of _ "\<lambda>_. sz \<noteq> 0"]) (simp split: if_splits)
qed

end
